(* ===== verification/Prelude.thy ===== *)
theory Prelude
  imports Complex_Main "HOL-Library.AList" "HOL-Library.Word"
begin

text \<open>
  The prelude of the development: the result type of fallible code and its sequencing
  combinators, the loop over a list whose body may throw, and the generic list and
  association-list facts the component theories share.

  Fallible code returns \<open>'e + 'a\<close>: \<open>Inl e\<close> for a thrown error, \<open>Inr x\<close> for a returned value.
  \<open>bindE\<close> is the sequencing of two statements, \<open>guardE\<close> is \<open>if (!b) throw e\<close>, \<open>mapE\<close> is
  \<open>xs.map(f)\<close> for a callback that may throw.
\<close>

named_theorems err_simps "equations that expose the success branch of fallible code"

section \<open>Sequencing of fallible code\<close>

definition bindE :: "'e + 'a \<Rightarrow> ('a \<Rightarrow> 'e + 'b) \<Rightarrow> 'e + 'b" where
  "bindE m f = (case m of Inl e \<Rightarrow> Inl e | Inr x \<Rightarrow> f x)"

definition guardE :: "bool \<Rightarrow> 'e \<Rightarrow> 'e + unit" where
  "guardE b e = (if b then Inr () else Inl e)"

fun mapE :: "('a \<Rightarrow> 'e + 'b) \<Rightarrow> 'a list \<Rightarrow> 'e + 'b list" where
  "mapE f [] = Inr []"
| "mapE f (x # xs) = bindE (f x) (\<lambda>y. bindE (mapE f xs) (\<lambda>ys. Inr (y # ys)))"

lemma bindE_Inl [simp]: "bindE (Inl e) f = Inl e"
  by (simp add: bindE_def)

lemma bindE_Inr [simp]: "bindE (Inr x) f = f x"
  by (simp add: bindE_def)

lemma bindE_cong [fundef_cong]:
  "m = m' \<Longrightarrow> (\<And>x. m' = Inr x \<Longrightarrow> f x = g x) \<Longrightarrow> bindE m f = bindE m' g"
  by (cases m') auto

lemma bindE_eq_Inr [err_simps]: "bindE m f = Inr y \<longleftrightarrow> (\<exists>x. m = Inr x \<and> f x = Inr y)"
  by (cases m) auto

lemma bindE_eq_Inl: "bindE m f = Inl e \<longleftrightarrow> m = Inl e \<or> (\<exists>x. m = Inr x \<and> f x = Inl e)"
  by (cases m) auto

lemma guardE_eq_Inr [err_simps]: "guardE b e = Inr u \<longleftrightarrow> b"
  by (simp add: guardE_def)

lemma guardE_eq_Inl: "guardE b e = Inl e' \<longleftrightarrow> \<not> b \<and> e' = e"
  by (auto simp: guardE_def)

lemma guardE_True [simp]: "guardE True e = Inr ()"
  by (simp add: guardE_def)

lemma guardE_False [simp]: "guardE False e = Inl e"
  by (simp add: guardE_def)

lemma mapE_Inr_length: "mapE f xs = Inr ys \<Longrightarrow> length ys = length xs"
  by (induction xs arbitrary: ys) (auto simp: bindE_eq_Inr)

lemma mapE_Inr_nth: "mapE f xs = Inr ys \<Longrightarrow> i < length xs \<Longrightarrow> f (xs ! i) = Inr (ys ! i)"
  by (induction xs arbitrary: ys i) (auto simp: bindE_eq_Inr nth_Cons split: nat.splits)

lemma mapE_Inr_I: "(\<And>x. x \<in> set xs \<Longrightarrow> f x = Inr (g x)) \<Longrightarrow> mapE f xs = Inr (map g xs)"
  by (induction xs) auto

lemma mapE_InlE: "mapE f xs = Inl e \<Longrightarrow> \<exists>x \<in> set xs. f x = Inl e"
  by (induction xs) (auto simp: bindE_eq_Inl)

section \<open>Lists and association lists\<close>

text \<open>\<open>subarray a b xs\<close> is JavaScript's \<open>buf.subarray(a, b)\<close>: both ends are clamped to the length,
  and an end before the start gives an empty view.\<close>

definition subarray :: "nat \<Rightarrow> nat \<Rightarrow> 'a list \<Rightarrow> 'a list" where
  "subarray a b xs = take (b - a) (drop a xs)"

lemma subarray_mid:
  "subarray (length xs) (length xs + length ys) (xs @ ys @ zs) = ys"
  by (simp add: subarray_def)

lemma length_subarray: "b \<le> length xs \<Longrightarrow> length (subarray a b xs) = b - a"
  by (simp add: subarray_def)

lemma subarray_append:
  assumes "a \<le> b" and "b \<le> c"
  shows "subarray a b xs @ subarray b c xs = subarray a c xs"
proof -
  have "take (b - a) (drop a xs) @ take (c - b) (drop (b - a) (drop a xs)) = take ((b - a) + (c - b)) (drop a xs)"
    by (simp only: take_add)
  with assms show ?thesis by (simp add: subarray_def)
qed

text \<open>\<open>map.set(k, v)\<close> on a JavaScript \<open>Map\<close> is \<open>AList.update k v\<close>: it keeps the insertion order
  and overwrites in place.\<close>

lemma map_fst_update_mem: "k \<in> fst ` set ps \<Longrightarrow> map fst (AList.update k v ps) = map fst ps"
  by (induction ps) auto

lemma map_fst_update_new: "k \<notin> fst ` set ps \<Longrightarrow> AList.update k v ps = ps @ [(k, v)]"
  by (induction ps) auto

lemma find_SomeD: "find P xs = Some x \<Longrightarrow> P x \<and> x \<in> set xs"
  by (induction xs) (auto split: if_splits)

text \<open>Setting a list of entries one after the other keeps every entry exactly when no key repeats.\<close>

definition setAll :: "('k \<times> 'v) list \<Rightarrow> ('k \<times> 'v) list \<Rightarrow> ('k \<times> 'v) list" where
  "setAll m kvs = foldl (\<lambda>m (k, v). AList.update k v m) m kvs"

lemma setAll_Nil [simp]: "setAll m [] = m"
  by (simp add: setAll_def)

lemma setAll_Cons [simp]: "setAll m ((k, v) # kvs) = setAll (AList.update k v m) kvs"
  by (simp add: setAll_def)

lemma setAll_append: "setAll m (a @ b) = setAll (setAll m a) b"
  by (simp add: setAll_def)

lemma setAll_keys: "fst ` set (setAll m kvs) = fst ` set m \<union> fst ` set kvs"
proof (induction kvs arbitrary: m)
  case Nil
  then show ?case by simp
next
  case (Cons kv kvs)
  then show ?case by (cases kv) (auto simp: dom_update [unfolded dom_map_of_conv_image_fst] image_iff)
qed

lemma setAll_distinct:
  "distinct (map fst (m @ kvs)) \<Longrightarrow> setAll m kvs = m @ kvs"
proof (induction kvs arbitrary: m)
  case Nil
  then show ?case by simp
next
  case (Cons kv kvs)
  obtain k v where kv: "kv = (k, v)" by (cases kv)
  with Cons.prems have "AList.update k v m = m @ [kv]"
    by (intro map_fst_update_new [of k m v, folded kv]) auto
  with Cons.IH [of "m @ [kv]"] Cons.prems kv show ?case by simp
qed

lemma distinct_setAll: "distinct (map fst m) \<Longrightarrow> distinct (map fst (setAll m kvs))"
proof (induction kvs arbitrary: m)
  case Nil
  then show ?case by simp
next
  case (Cons kv kvs)
  obtain k v where kv: "kv = (k, v)" by (cases kv)
  have "distinct (map fst (AList.update k v m))"
    using Cons.prems by (simp add: distinct_update)
  with Cons.IH kv show ?case by simp
qed

lemma length_setAll:
  "length (setAll [] kvs) = length kvs \<longleftrightarrow> distinct (map fst kvs)"
proof -
  have "distinct (map fst (setAll [] kvs))"
    by (rule distinct_setAll) simp
  then have "length (setAll [] kvs) = card (fst ` set (setAll [] kvs))"
    using distinct_card [of "map fst (setAll [] kvs)"] by simp
  also have "\<dots> = card (set (map fst kvs))"
    by (simp add: setAll_keys)
  finally show ?thesis
    using distinct_card [of "map fst kvs"] card_distinct [of "map fst kvs"] by auto
qed

end
