(* ===== verification/Bytes.thy ===== *)
theory Bytes
  imports Prelude
begin

text \<open>
  Byte buffers (Node's \<open>Buffer\<close>) as lists of 8-bit words, with the big-endian reads and writes
  the codec uses. A read past the end of the buffer throws \<open>RangeError\<close>, as Node does, and so
  does the write of a number that does not fit the field; the three error classes of
  packages/codec/src/errors.ts are the other constructors of \<open>codec_error\<close> (their message texts
  are not modelled, \<open>declaredCount\<close> is).
\<close>

type_synonym byte = "8 word"
type_synonym bytes = "byte list"

datatype codec_error =
    FrameError
  | CrcError
  | UndecodableRecordsError nat
  | RangeError

lemma unat_byte [simp]: "unat (b :: byte) < 256"
  using unsigned_less [of b, where ?'a = nat] by simp

section \<open>Big-endian numbers\<close>

definition be_nat :: "bytes \<Rightarrow> nat" where
  "be_nat bs = foldl (\<lambda>a b. a * 256 + unat b) 0 bs"

fun be_bytes :: "nat \<Rightarrow> nat \<Rightarrow> bytes" where
  "be_bytes 0 n = []"
| "be_bytes (Suc w) n = be_bytes w (n div 256) @ [of_nat n]"

lemma be_nat_Nil [simp]: "be_nat [] = 0"
  by (simp add: be_nat_def)

lemma be_nat_snoc [simp]: "be_nat (bs @ [b]) = be_nat bs * 256 + unat b"
  by (simp add: be_nat_def)

lemma length_be_bytes [simp]: "length (be_bytes w n) = w"
  by (induction w arbitrary: n) auto

lemma be_nat_be_bytes_mod: "be_nat (be_bytes w n) = n mod 256 ^ w"
proof (induction w arbitrary: n)
  case 0
  then show ?case by simp
next
  case (Suc w)
  have "unat (of_nat n :: byte) = n mod 256"
    by (simp add: unat_of_nat take_bit_eq_mod)
  with Suc.IH [of "n div 256"] show ?case
    by (simp add: mod_mult2_eq)
qed

lemma be_nat_be_bytes [simp]: "n < 256 ^ w \<Longrightarrow> be_nat (be_bytes w n) = n"
  by (simp add: be_nat_be_bytes_mod)

lemma digit_bound:
  fixes a u p :: nat
  assumes "a < p" and "u < 256"
  shows "a * 256 + u < p * 256"
  using assms by linarith

lemma be_nat_bound: "be_nat bs < 256 ^ length bs"
proof (induction bs rule: rev_induct)
  case Nil
  then show ?case by simp
next
  case (snoc b bs)
  have "be_nat bs * 256 + unat b < 256 ^ length bs * 256"
    using snoc unat_byte by (rule digit_bound)
  then show ?case by (simp add: mult.commute)
qed

lemma be_nat_inj: "length bs = length cs \<Longrightarrow> be_nat bs = be_nat cs \<Longrightarrow> bs = cs"
proof (induction bs arbitrary: cs rule: rev_induct)
  case Nil
  then show ?case by simp
next
  case (snoc b bs)
  from snoc.prems(1) obtain c ds where cs: "cs = ds @ [c]"
    by (cases cs rule: rev_cases) auto
  have b: "unat b < 256" and c: "unat c < 256" by simp_all
  from snoc.prems(2) cs have eq: "be_nat bs * 256 + unat b = be_nat ds * 256 + unat c"
    by simp
  from arg_cong [OF eq, of "\<lambda>x. x mod 256"] b c have "unat b = unat c" by simp
  moreover from arg_cong [OF eq, of "\<lambda>x. x div 256"] b c have "be_nat bs = be_nat ds" by simp
  ultimately have "unat b = unat c" and "be_nat bs = be_nat ds" by simp_all
  with snoc.IH [of ds] snoc.prems(1) cs show ?case
    by (simp add: word_unat_eq_iff)
qed

lemma be_bytes_be_nat: "be_bytes (length bs) (be_nat bs) = bs"
  by (rule be_nat_inj) (simp_all add: be_nat_bound)

section \<open>Reads and writes\<close>

text \<open>\<open>buf[i]\<close> with the non-null assertion \<open>!\<close>: out of range it is \<open>undefined\<close>, written here as
  \<open>None\<close>.\<close>

definition byte_at :: "bytes \<Rightarrow> nat \<Rightarrow> nat option" where
  "byte_at bs i = (if i < length bs then Some (unat (bs ! i)) else None)"

definition readUIntBE :: "nat \<Rightarrow> bytes \<Rightarrow> nat \<Rightarrow> codec_error + nat" where
  "readUIntBE w bs off =
     (if off + w \<le> length bs then Inr (be_nat (take w (drop off bs))) else Inl RangeError)"

definition signed_of :: "nat \<Rightarrow> nat \<Rightarrow> int" where
  "signed_of bits n = (if n < 2 ^ (bits - 1) then int n else int n - 2 ^ bits)"

definition readIntBE :: "nat \<Rightarrow> bytes \<Rightarrow> nat \<Rightarrow> codec_error + int" where
  "readIntBE w bs off = bindE (readUIntBE w bs off) (\<lambda>n. Inr (signed_of (8 * w) n))"

definition writeUIntBE :: "nat \<Rightarrow> int \<Rightarrow> codec_error + bytes" where
  "writeUIntBE w n =
     (if 0 \<le> n \<and> n < 256 ^ w then Inr (be_bytes w (nat n)) else Inl RangeError)"

definition writeIntBE :: "nat \<Rightarrow> int \<Rightarrow> codec_error + bytes" where
  "writeIntBE w n =
     (if - (2 ^ (8 * w - 1)) \<le> n \<and> n < 2 ^ (8 * w - 1)
      then Inr (be_bytes w (nat (n mod 2 ^ (8 * w)))) else Inl RangeError)"

lemma readUIntBE_append: "length bs = w \<Longrightarrow> readUIntBE w (pre @ bs @ post) (length pre) = Inr (be_nat bs)"
  by (simp add: readUIntBE_def)

lemma readUIntBE_bound: "readUIntBE w bs off = Inr n \<Longrightarrow> n < 256 ^ w"
  using be_nat_bound [of "take w (drop off bs)"] by (auto simp: readUIntBE_def split: if_splits)

lemma readUIntBE_in_range: "off + w \<le> length bs \<Longrightarrow> readUIntBE w bs off = Inr (be_nat (take w (drop off bs)))"
  by (simp add: readUIntBE_def)

lemma writeUIntBE_length [err_simps]: "writeUIntBE w n = Inr bs \<Longrightarrow> length bs = w"
  by (auto simp: writeUIntBE_def split: if_splits)

lemma writeIntBE_length: "writeIntBE w n = Inr bs \<Longrightarrow> length bs = w"
  by (auto simp: writeIntBE_def split: if_splits)

lemma writeUIntBE_value: "writeUIntBE w n = Inr bs \<Longrightarrow> int (be_nat bs) = n \<and> length bs = w"
proof -
  assume w: "writeUIntBE w n = Inr bs"
  then have r: "0 \<le> n" "n < 256 ^ w" and bs: "bs = be_bytes w (nat n)"
    by (auto simp: writeUIntBE_def split: if_splits)
  from r have "nat n < 256 ^ w"
    by (simp add: nat_less_iff)
  with r bs show ?thesis by simp
qed

lemma signed_of_mod:
  assumes "0 < w" and "- (2 ^ (8 * w - 1)) \<le> n" and "n < 2 ^ (8 * w - 1)"
  shows "signed_of (8 * w) (nat (n mod 2 ^ (8 * w))) = n"
proof -
  define h :: int where "h = 2 ^ (8 * w - 1)"
  have full: "2 ^ (8 * w) = 2 * h"
    using assms(1) by (simp add: h_def flip: power_Suc)
  have h: "0 < h" by (simp add: h_def)
  have hn: "(2::nat) ^ (8 * w - 1) = nat h"
    by (simp add: h_def nat_power_eq)
  show ?thesis
  proof (cases "0 \<le> n")
    case True
    have "n < 2 * h"
      using assms(3) h by (simp only: h_def [symmetric])
    with True have "n mod 2 ^ (8 * w) = n"
      unfolding full by (rule mod_pos_pos_trivial)
    with True assms(3) hn show ?thesis
      by (simp add: signed_of_def h_def [symmetric] nat_less_iff)
  next
    case False
    have "n mod (2 * h) = (n + 2 * h) mod (2 * h)" by simp
    also have "\<dots> = n + 2 * h"
    proof (rule mod_pos_pos_trivial)
      show "0 \<le> n + 2 * h" using assms(2) h unfolding h_def [symmetric] by linarith
      show "n + 2 * h < 2 * h" using False by simp
    qed
    finally have m: "n mod 2 ^ (8 * w) = n + 2 * h" by (simp add: full)
    have "\<not> nat (n + 2 * h) < nat h"
      using assms(2) h unfolding h_def [symmetric] by linarith
    moreover have "0 \<le> n + 2 * h"
      using assms(2) h unfolding h_def [symmetric] by linarith
    ultimately show ?thesis
      by (simp only: signed_of_def m hn) (simp add: full)
  qed
qed

lemma writeIntBE_value:
  "0 < w \<Longrightarrow> writeIntBE w n = Inr bs \<Longrightarrow> signed_of (8 * w) (be_nat bs) = n \<and> length bs = w"
proof -
  assume w0: "0 < w" and w: "writeIntBE w n = Inr bs"
  then have r: "- (2 ^ (8 * w - 1)) \<le> n" "n < 2 ^ (8 * w - 1)"
    and bs: "bs = be_bytes w (nat (n mod 2 ^ (8 * w)))"
    by (auto simp: writeIntBE_def split: if_splits)
  have "n mod 2 ^ (8 * w) < 2 ^ (8 * w)" and "0 \<le> n mod 2 ^ (8 * w)" by simp_all
  then have "nat (n mod 2 ^ (8 * w)) < 2 ^ (8 * w)"
    by (simp add: nat_less_iff)
  then have "nat (n mod 2 ^ (8 * w)) < 256 ^ w"
    by (simp add: power_mult)
  with bs w0 r show ?thesis
    by (simp add: signed_of_mod)
qed

section \<open>The fixed-width field interface\<close>

text \<open>
  What the encoder and the parser rely on, for one kind of field: a writer that produces exactly
  \<open>w\<close> bytes, and a reader that takes them back from any place in a buffer.
\<close>

locale fixed_field =
  fixes w :: nat
    and put :: "'v \<Rightarrow> codec_error + bytes"
    and get :: "bytes \<Rightarrow> nat \<Rightarrow> codec_error + 'v"
  assumes put_width: "put v = Inr bs \<Longrightarrow> length bs = w"
    and get_put: "put v = Inr bs \<Longrightarrow> get (pre @ bs @ post) (length pre) = Inr v"
begin

lemma get_at:
  assumes "put v = Inr bs" and "off = length pre"
  shows "get (pre @ bs @ post) off = Inr v"
  using assms get_put by simp

lemma put_inj:
  assumes "put u = Inr bs" and "put v = Inr bs"
  shows "u = v"
  using get_put [OF assms(1), of "[]" "[]"] get_put [OF assms(2), of "[]" "[]"] by simp

end

lemma uint_field: "fixed_field w (writeUIntBE w) (\<lambda>bs off. bindE (readUIntBE w bs off) (\<lambda>n. Inr (int n)))"
proof
  fix v bs
  assume "writeUIntBE w v = Inr bs"
  then show "length bs = w" by (rule writeUIntBE_length)
next
  fix v bs pre post
  assume "writeUIntBE w v = Inr bs"
  then have "int (be_nat bs) = v" and "length bs = w"
    using writeUIntBE_value by blast+
  then show "bindE (readUIntBE w (pre @ bs @ post) (length pre)) (\<lambda>n. Inr (int n)) = Inr v"
    by (simp add: readUIntBE_append)
qed

lemma int_field: "0 < w \<Longrightarrow> fixed_field w (writeIntBE w) (readIntBE w)"
proof
  fix v bs
  assume "writeIntBE w v = Inr bs"
  then show "length bs = w" by (rule writeIntBE_length)
next
  fix v bs pre post
  assume w: "0 < w" and "writeIntBE w v = Inr bs"
  then have "signed_of (8 * w) (be_nat bs) = v" and "length bs = w"
    using writeIntBE_value by blast+
  then show "readIntBE w (pre @ bs @ post) (length pre) = Inr v"
    by (simp add: readUIntBE_append readIntBE_def)
qed

interpretation u8: fixed_field 1 "writeUIntBE 1" "\<lambda>bs off. bindE (readUIntBE 1 bs off) (\<lambda>n. Inr (int n))"
  by (rule uint_field)

interpretation u16: fixed_field 2 "writeUIntBE 2" "\<lambda>bs off. bindE (readUIntBE 2 bs off) (\<lambda>n. Inr (int n))"
  by (rule uint_field)

interpretation u32: fixed_field 4 "writeUIntBE 4" "\<lambda>bs off. bindE (readUIntBE 4 bs off) (\<lambda>n. Inr (int n))"
  by (rule uint_field)

interpretation u64: fixed_field 8 "writeUIntBE 8" "\<lambda>bs off. bindE (readUIntBE 8 bs off) (\<lambda>n. Inr (int n))"
  by (rule uint_field)

interpretation i16: fixed_field 2 "writeIntBE 2" "readIntBE 2"
  by (rule int_field) simp

interpretation i32: fixed_field 4 "writeIntBE 4" "readIntBE 4"
  by (rule int_field) simp

end
