(* ===== verification/Framer.thy ===== *)
theory Framer
  imports Bytes
begin

text \<open>
  packages/codec/src/frame.ts: the streaming framer, one per TCP connection. Its state is the
  buffer of bytes not yet framed and the cap on a declared data length. \<open>tryExtract\<close> takes one
  frame off the front, \<open>feed\<close> appends a chunk and takes frames until none is complete; a throw
  leaves the frames of the same call unreturned, as in the code.

  The locale \<open>chunked_stream\<close> states what a reader needs of an extractor for its output not to
  depend on how TCP cuts the stream; it is interpreted on the framer.
\<close>

section \<open>The framer\<close>

datatype frame_kind = KImei | KAvl

record frame =
  f_kind :: frame_kind
  f_bytes :: bytes

record framer =
  buf :: bytes
  maxDataLength :: nat

definition new_framer :: "nat \<Rightarrow> framer" where
  "new_framer m = \<lparr>buf = [], maxDataLength = m\<rparr>"

definition tryExtract :: "framer \<Rightarrow> codec_error + (frame \<times> framer) option" where
  "tryExtract fr =
     (let b = buf fr in
      if length b < 4 then Inr None
      else bindE (readUIntBE 4 b 0) (\<lambda>preamble.
        if preamble \<noteq> 0 then
          bindE (readUIntBE 2 b 0) (\<lambda>len.
            if len = 0 \<or> 64 < len then Inl FrameError
            else if length b < 2 + len then Inr None
            else Inr (Some (\<lparr>f_kind = KImei, f_bytes = subarray 0 (2 + len) b\<rparr>,
                            fr\<lparr>buf := drop (2 + len) b\<rparr>)))
        else if length b < 8 then Inr None
        else bindE (readUIntBE 4 b 4) (\<lambda>dataLen.
          if dataLen = 0 \<or> maxDataLength fr < dataLen then Inl FrameError
          else let total = 8 + dataLen + 4 in
            if length b < total then Inr None
            else Inr (Some (\<lparr>f_kind = KAvl, f_bytes = subarray 0 total b\<rparr>,
                            fr\<lparr>buf := drop total b\<rparr>)))))"

text \<open>What the code decides from the header alone: the kind and the length of the first frame. Every
  read is guarded by a length check, so none of them throws \<open>RangeError\<close>.\<close>

definition frame_head :: "nat \<Rightarrow> bytes \<Rightarrow> codec_error + (frame_kind \<times> nat) option" where
  "frame_head m b =
     (let len = be_nat (take 2 b); dataLen = be_nat (take 4 (drop 4 b)) in
      if length b < 4 then Inr None
      else if be_nat (take 4 b) \<noteq> 0 then
        (if len = 0 \<or> 64 < len then Inl FrameError
         else if length b < 2 + len then Inr None
         else Inr (Some (KImei, 2 + len)))
      else if length b < 8 then Inr None
      else if dataLen = 0 \<or> m < dataLen then Inl FrameError
      else if length b < 8 + dataLen + 4 then Inr None
      else Inr (Some (KAvl, 8 + dataLen + 4)))"

lemma frame_head_avl:
  assumes "8 \<le> length b" and "be_nat (take 4 b) = 0" and "d = be_nat (take 4 (drop 4 b))"
  shows "frame_head m b =
    (if d = 0 \<or> m < d then Inl FrameError
     else if length b < 8 + d + 4 then Inr None else Inr (Some (KAvl, 8 + d + 4)))"
  using assms by (simp add: frame_head_def Let_def)

lemma tryExtract_avl:
  assumes "8 \<le> length (buf fr)" and "be_nat (take 4 (buf fr)) = 0"
    and "d = be_nat (take 4 (drop 4 (buf fr)))"
  shows "tryExtract fr =
    (if d = 0 \<or> maxDataLength fr < d then Inl FrameError
     else if length (buf fr) < 8 + d + 4 then Inr None
     else Inr (Some (\<lparr>f_kind = KAvl, f_bytes = subarray 0 (8 + d + 4) (buf fr)\<rparr>,
                     fr\<lparr>buf := drop (8 + d + 4) (buf fr)\<rparr>)))"
proof -
  have "readUIntBE 4 (buf fr) 0 = Inr 0" and "readUIntBE 4 (buf fr) 4 = Inr d"
    using assms by (simp_all add: readUIntBE_in_range)
  with assms(1) show ?thesis by (simp add: tryExtract_def Let_def)
qed

lemma frame_head_imei:
  assumes "4 \<le> length b" and "be_nat (take 4 b) \<noteq> 0" and "len = be_nat (take 2 b)"
  shows "frame_head m b =
    (if len = 0 \<or> 64 < len then Inl FrameError
     else if length b < 2 + len then Inr None else Inr (Some (KImei, 2 + len)))"
  using assms by (simp add: frame_head_def Let_def)

lemma tryExtract_imei:
  assumes "4 \<le> length (buf fr)" and "be_nat (take 4 (buf fr)) \<noteq> 0" and "len = be_nat (take 2 (buf fr))"
  shows "tryExtract fr =
    (if len = 0 \<or> 64 < len then Inl FrameError
     else if length (buf fr) < 2 + len then Inr None
     else Inr (Some (\<lparr>f_kind = KImei, f_bytes = subarray 0 (2 + len) (buf fr)\<rparr>,
                     fr\<lparr>buf := drop (2 + len) (buf fr)\<rparr>)))"
proof -
  obtain p where "readUIntBE 4 (buf fr) 0 = Inr p" and "p \<noteq> 0"
    using assms(1,2) by (simp add: readUIntBE_in_range)
  moreover have "readUIntBE 2 (buf fr) 0 = Inr len"
    using assms(1,3) by (simp add: readUIntBE_in_range)
  ultimately show ?thesis using assms(1) by (simp add: tryExtract_def Let_def)
qed

lemma tryExtract_unfold:
  "tryExtract fr =
     (case frame_head (maxDataLength fr) (buf fr) of
        Inl e \<Rightarrow> Inl e
      | Inr None \<Rightarrow> Inr None
      | Inr (Some (k, n)) \<Rightarrow>
          Inr (Some (\<lparr>f_kind = k, f_bytes = subarray 0 n (buf fr)\<rparr>, fr\<lparr>buf := drop n (buf fr)\<rparr>)))"
proof (cases "8 \<le> length (buf fr) \<and> be_nat (take 4 (buf fr)) = 0")
  case True
  then have c: "8 \<le> length (buf fr)" "be_nat (take 4 (buf fr)) = 0" by simp_all
  show ?thesis
    unfolding frame_head_avl [OF c refl] tryExtract_avl [OF c refl] by simp
next
  case False
  show ?thesis
  proof (cases "length (buf fr) < 4")
    case True
    then show ?thesis by (simp add: tryExtract_def frame_head_def)
  next
    case l4: False
    show ?thesis
    proof (cases "be_nat (take 4 (buf fr)) = 0")
      case True
      with l4 have "readUIntBE 4 (buf fr) 0 = Inr 0"
        by (simp add: readUIntBE_in_range)
      moreover from False True have "length (buf fr) < 8" by simp
      ultimately show ?thesis
        using True l4 by (simp add: tryExtract_def frame_head_def)
    next
      case p: False
      have c: "4 \<le> length (buf fr)" using l4 by simp
      show ?thesis
        unfolding frame_head_imei [OF c p refl] tryExtract_imei [OF c p refl] by simp
    qed
  qed
qed

lemma frame_head_more:
  assumes "frame_head m b \<noteq> Inr None"
  shows "frame_head m (b @ c) = frame_head m b"
proof -
  from assms have l4: "4 \<le> length b"
    by (cases "length b < 4") (simp_all add: frame_head_def)
  then have t: "take 4 (b @ c) = take 4 b" "take 2 (b @ c) = take 2 b" by simp_all
  show ?thesis
  proof (cases "be_nat (take 4 b) = 0")
    case True
    have l8: "8 \<le> length b"
      using assms l4 True by (cases "length b < 8") (simp_all add: frame_head_def)
    then have "take 4 (drop 4 (b @ c)) = take 4 (drop 4 b)" by simp
    with assms True l8 t show ?thesis
      by (simp add: frame_head_avl split: if_splits)
  next
    case False
    with assms l4 t show ?thesis
      by (auto simp: frame_head_imei split: if_splits)
  qed
qed

lemma frame_head_Some:
  "frame_head m b = Inr (Some (k, n)) \<Longrightarrow>
     3 \<le> n \<and> n \<le> length b \<and> 4 \<le> length b \<and>
     (k = KImei \<and> n \<le> 66 \<and> n = 2 + be_nat (take 2 b) \<or>
      k = KAvl \<and> 13 \<le> n \<and> n \<le> 12 + m \<and> be_nat (take 4 b) = 0 \<and> n = 12 + be_nat (take 4 (drop 4 b)))"
  by (auto simp: frame_head_def Let_def split: if_splits)

lemma frame_head_None:
  "frame_head m b = Inr None \<Longrightarrow> length b < max 66 (12 + m)"
  by (auto simp: frame_head_def Let_def split: if_splits)

lemma tryExtract_Some:
  "tryExtract fr = Inr (Some (f, fr')) \<longleftrightarrow>
     (\<exists>k n. frame_head (maxDataLength fr) (buf fr) = Inr (Some (k, n)) \<and>
        f = \<lparr>f_kind = k, f_bytes = subarray 0 n (buf fr)\<rparr> \<and> fr' = fr\<lparr>buf := drop n (buf fr)\<rparr>)"
  by (auto simp: tryExtract_unfold split: sum.splits option.splits)

lemma tryExtract_split:
  "tryExtract fr = Inr (Some (f, fr')) \<Longrightarrow>
     buf fr = f_bytes f @ buf fr' \<and> 3 \<le> length (f_bytes f) \<and> maxDataLength fr' = maxDataLength fr"
  by (auto simp: tryExtract_Some subarray_def dest!: frame_head_Some)

lemma tryExtract_shrinks:
  "tryExtract fr = Inr (Some (f, fr')) \<Longrightarrow> length (buf fr') < length (buf fr)"
  by (drule tryExtract_split) auto

function drain :: "framer \<Rightarrow> framer \<times> (codec_error + frame list)" where
  "drain fr =
     (case tryExtract fr of
        Inl e \<Rightarrow> (fr, Inl e)
      | Inr None \<Rightarrow> (fr, Inr [])
      | Inr (Some (f, fr')) \<Rightarrow>
          (case drain fr' of
             (fr'', Inl e) \<Rightarrow> (fr'', Inl e)
           | (fr'', Inr fs) \<Rightarrow> (fr'', Inr (f # fs))))"
  by pat_completeness auto
termination
  by (relation "measure (\<lambda>fr. length (buf fr))") (auto dest: tryExtract_shrinks)

declare drain.simps [simp del]

definition push :: "framer \<Rightarrow> bytes \<Rightarrow> framer" where
  "push fr chunk = fr\<lparr>buf := (if length (buf fr) = 0 then chunk else buf fr @ chunk)\<rparr>"

definition feed :: "framer \<Rightarrow> bytes \<Rightarrow> framer \<times> (codec_error + frame list)" where
  "feed fr chunk = drain (push fr chunk)"

lemma push_eq: "push fr c = fr\<lparr>buf := buf fr @ c\<rparr>"
  by (simp add: push_def)

lemma push_buf [simp]: "buf (push fr c) = buf fr @ c"
  by (simp add: push_def)

lemma push_max [simp]: "maxDataLength (push fr c) = maxDataLength fr"
  by (simp add: push_def)

lemma push_push [simp]: "push (push fr a) b = push fr (a @ b)"
  by (simp add: push_def)

lemma push_Nil [simp]: "push fr [] = fr"
  by (simp add: push_def)

section \<open>What reading in chunks relies on\<close>

text \<open>A connection delivers chunks one after the other; the first error ends it.\<close>

fun run_chunks :: "('s \<Rightarrow> bytes \<Rightarrow> 's \<times> ('e + 'f list)) \<Rightarrow> 's \<Rightarrow> bytes list \<Rightarrow> 's \<times> ('e + 'f list)" where
  "run_chunks fd s [] = (s, Inr [])"
| "run_chunks fd s (c # cs) =
     (case fd s c of
        (s1, Inl e) \<Rightarrow> (s1, Inl e)
      | (s1, Inr fs) \<Rightarrow>
          (case run_chunks fd s1 cs of
             (s2, Inl e) \<Rightarrow> (s2, Inl e)
           | (s2, Inr gs) \<Rightarrow> (s2, Inr (fs @ gs))))"

locale chunked_stream =
  fixes pull :: "'s \<Rightarrow> 'e + ('f \<times> 's) option"
    and more :: "'s \<Rightarrow> bytes \<Rightarrow> 's"
    and pending :: "'s \<Rightarrow> nat"
    and drn :: "'s \<Rightarrow> 's \<times> ('e + 'f list)"
  assumes more_more: "more (more s a) b = more s (a @ b)"
    and more_Nil: "more s [] = s"
    and shrinks: "pull s = Inr (Some (f, s')) \<Longrightarrow> pending s' < pending s"
    and more_frame: "pull s = Inr (Some (f, s')) \<Longrightarrow> pull (more s c) = Inr (Some (f, more s' c))"
    and more_error: "pull s = Inl e \<Longrightarrow> pull (more s c) = Inl e"
    and drn_unfold: "drn s = (case pull s of
        Inl e \<Rightarrow> (s, Inl e)
      | Inr None \<Rightarrow> (s, Inr [])
      | Inr (Some (f, s')) \<Rightarrow>
          (case drn s' of
             (s'', Inl e) \<Rightarrow> (s'', Inl e)
           | (s'', Inr fs) \<Rightarrow> (s'', Inr (f # fs))))"
begin

lemma drn_more_ok:
  "drn s = (s1, Inr fs) \<Longrightarrow>
     drn (more s c) = (case drn (more s1 c) of
        (s2, Inl e) \<Rightarrow> (s2, Inl e) | (s2, Inr gs) \<Rightarrow> (s2, Inr (fs @ gs)))"
proof (induction "pending s" arbitrary: s fs rule: less_induct)
  case less
  show ?case
  proof (cases "pull s")
    case (Inl e)
    with less.prems show ?thesis by (simp add: drn_unfold [of s])
  next
    case (Inr r)
    show ?thesis
    proof (cases r)
      case None
      with Inr less.prems have "s1 = s" "fs = []"
        by (simp_all add: drn_unfold [of s])
      then show ?thesis by (auto split: prod.splits sum.splits)
    next
      case (Some p)
      then obtain f s' where ex: "pull s = Inr (Some (f, s'))"
        using Inr by (cases p) auto
      with less.prems obtain gs where s': "drn s' = (s1, Inr gs)" and fs: "fs = f # gs"
        by (auto simp: drn_unfold [of s] split: prod.splits sum.splits)
      from less.hyps [OF shrinks [OF ex] s']
      show ?thesis
        by (auto simp: drn_unfold [of "more s c"] more_frame [OF ex] fs split: prod.splits sum.splits)
    qed
  qed
qed

lemma drn_more_err: "drn s = (s1, Inl e) \<Longrightarrow> drn (more s c) = (more s1 c, Inl e)"
proof (induction "pending s" arbitrary: s rule: less_induct)
  case less
  show ?case
  proof (cases "pull s")
    case (Inl e')
    with less.prems have "s1 = s" and "e' = e"
      by (simp_all add: drn_unfold [of s])
    with more_error [OF Inl, of c] show ?thesis
      by (simp add: drn_unfold [of "more s c"])
  next
    case (Inr r)
    with less.prems obtain f s' where ex: "pull s = Inr (Some (f, s'))"
      by (auto simp: drn_unfold [of s] split: option.splits)
    with less.prems have "drn s' = (s1, Inl e)"
      by (auto simp: drn_unfold [of s] split: prod.splits sum.splits)
    from less.hyps [OF shrinks [OF ex] this] show ?thesis
      by (simp add: drn_unfold [of "more s c"] more_frame [OF ex])
  qed
qed

text \<open>A quiescent state (nothing left to pull) reads a stream the same way whatever the cuts.\<close>

lemma chunks_equal_stream:
  assumes "drn s = (s, Inr [])"
  shows "snd (run_chunks (\<lambda>s c. drn (more s c)) s cs) = snd (drn (more s (concat cs))) \<and>
    (\<forall>fs. snd (drn (more s (concat cs))) = Inr fs \<longrightarrow>
       fst (run_chunks (\<lambda>s c. drn (more s c)) s cs) = fst (drn (more s (concat cs))))"
  using assms
proof (induction cs arbitrary: s)
  case Nil
  then show ?case by (simp add: more_Nil)
next
  case (Cons c cs)
  show ?case
  proof (cases "drn (more s c)")
    case (Pair s1 r)
    show ?thesis
    proof (cases r)
      case (Inl e)
      with Pair have "drn (more s (c @ concat cs)) = (more s1 (concat cs), Inl e)"
        using drn_more_err [of "more s c" s1 e "concat cs"] by (simp add: more_more)
      with Pair Inl show ?thesis by simp
    next
      case (Inr fs)
      have q: "drn s1 = (s1, Inr [])"
        using drn_more_ok [of "more s c" s1 fs "[]"] Pair Inr
        by (auto simp: more_Nil split: prod.splits sum.splits)
      show ?thesis
        using drn_more_ok [of "more s c" s1 fs "concat cs"] Cons.IH [OF q] Pair Inr
        by (auto simp: more_more split: prod.splits sum.splits)
    qed
  qed
qed

end

lemma tryExtract_more_frame:
  assumes "tryExtract fr = Inr (Some (f, fr'))"
  shows "tryExtract (push fr c) = Inr (Some (f, push fr' c))"
proof -
  from assms obtain k n where h: "frame_head (maxDataLength fr) (buf fr) = Inr (Some (k, n))"
    and f: "f = \<lparr>f_kind = k, f_bytes = subarray 0 n (buf fr)\<rparr>" and fr': "fr' = fr\<lparr>buf := drop n (buf fr)\<rparr>"
    by (auto simp: tryExtract_Some)
  from h have "frame_head (maxDataLength fr) (buf fr @ c) = Inr (Some (k, n))"
    by (simp add: frame_head_more)
  moreover from h have "n \<le> length (buf fr)" by (auto dest: frame_head_Some)
  ultimately show ?thesis
    by (simp add: tryExtract_Some f fr' subarray_def push_eq)
qed

lemma tryExtract_more_error:
  "tryExtract fr = Inl e \<Longrightarrow> tryExtract (push fr c) = Inl e"
  by (auto simp: tryExtract_unfold frame_head_more split: sum.splits option.splits)

interpretation stream: chunked_stream tryExtract push "\<lambda>fr. length (buf fr)" drain
proof (unfold_locales, goal_cases)
  case 3
  then show ?case by (rule tryExtract_shrinks)
next
  case 4
  then show ?case by (rule tryExtract_more_frame)
next
  case 5
  then show ?case by (rule tryExtract_more_error)
next
  case 6
  then show ?case by (rule drain.simps)
qed simp_all

section \<open>Properties of the framer\<close>

lemma drain_new [simp]: "drain (new_framer m) = (new_framer m, Inr [])"
  by (subst drain.simps) (simp add: tryExtract_def new_framer_def)

lemma feed_eq: "feed = (\<lambda>fr c. drain (push fr c))"
  by (simp add: feed_def fun_eq_iff)

text \<open>C5. However TCP cuts the byte stream of a connection into chunks, the framer hands out the
  same frames (or stops with the same error) as if the whole stream had arrived in one piece, and
  it is left with the same buffer when no error ended the stream.\<close>

theorem framing_chunk_independent:
  "snd (run_chunks feed (new_framer m) cs) = snd (feed (new_framer m) (concat cs)) \<and>
   (case feed (new_framer m) (concat cs) of
      (fr, Inr fs) \<Rightarrow> fst (run_chunks feed (new_framer m) cs) = fr
    | (fr, Inl e) \<Rightarrow> True)"
  using stream.chunks_equal_stream [OF drain_new, of m cs]
  by (auto simp: feed_eq split: prod.splits sum.splits)

text \<open>What one frame looks like: the header agrees with the length, and the cap is respected.\<close>

definition frame_ok :: "nat \<Rightarrow> frame \<Rightarrow> bool" where
  "frame_ok m f \<longleftrightarrow>
     (case f_kind f of
        KImei \<Rightarrow> 3 \<le> length (f_bytes f) \<and> length (f_bytes f) \<le> 66 \<and>
                 readUIntBE 2 (f_bytes f) 0 = Inr (length (f_bytes f) - 2)
      | KAvl \<Rightarrow> 13 \<le> length (f_bytes f) \<and> length (f_bytes f) \<le> 12 + m \<and>
                readUIntBE 4 (f_bytes f) 0 = Inr 0 \<and>
                readUIntBE 4 (f_bytes f) 4 = Inr (length (f_bytes f) - 12))"

lemma tryExtract_frame_ok:
  "tryExtract fr = Inr (Some (f, fr')) \<Longrightarrow> frame_ok (maxDataLength fr) f"
proof -
  assume "tryExtract fr = Inr (Some (f, fr'))"
  then obtain k n where h: "frame_head (maxDataLength fr) (buf fr) = Inr (Some (k, n))"
    and f: "f = \<lparr>f_kind = k, f_bytes = take n (buf fr)\<rparr>"
    by (auto simp: tryExtract_Some subarray_def)
  from frame_head_Some [OF h] consider
      "k = KImei" "3 \<le> n" "n \<le> 66" "n - 2 = be_nat (take 2 (buf fr))" "n \<le> length (buf fr)"
    | "k = KAvl" "13 \<le> n" "n \<le> 12 + maxDataLength fr" "be_nat (take 4 (buf fr)) = 0"
      "n - 12 = be_nat (take 4 (drop 4 (buf fr)))" "n \<le> length (buf fr)"
    by fastforce
  then show ?thesis
    by cases (simp_all add: frame_ok_def f readUIntBE_def drop_take min_absorb1)
qed

lemma tryExtract_quiet:
  "tryExtract fr = Inr None \<Longrightarrow> length (buf fr) < max 66 (12 + maxDataLength fr)"
  by (rule frame_head_None) (auto simp: tryExtract_unfold split: sum.splits option.splits)

lemma drain_ok:
  "drain fr = (fr', Inr fs) \<Longrightarrow>
     concat (map f_bytes fs) @ buf fr' = buf fr \<and> maxDataLength fr' = maxDataLength fr \<and>
     list_all (frame_ok (maxDataLength fr)) fs \<and> length (buf fr') < max 66 (12 + maxDataLength fr)"
proof (induction fr arbitrary: fs rule: drain.induct)
  case (1 fr)
  show ?case
  proof (cases "tryExtract fr")
    case (Inl e)
    with "1.prems" show ?thesis by (subst (asm) drain.simps) simp
  next
    case (Inr r)
    show ?thesis
    proof (cases r)
      case None
      with Inr "1.prems" have "fr' = fr" "fs = []"
        by (simp_all add: drain.simps [of fr])
      with Inr None show ?thesis by (simp add: tryExtract_quiet)
    next
      case (Some p)
      then obtain f s where ex: "tryExtract fr = Inr (Some (f, s))"
        using Inr by (cases p) auto
      with "1.prems" obtain gs where s: "drain s = (fr', Inr gs)" and fs: "fs = f # gs"
        by (auto simp: drain.simps [of fr] split: prod.splits sum.splits)
      from "1.IH" [OF ex refl refl s] tryExtract_split [OF ex] tryExtract_frame_ok [OF ex] fs
      show ?thesis by auto
    qed
  qed
qed

text \<open>C40. A call that returns frames accounts for every byte (the frames followed by what stays
  buffered are exactly the old buffer followed by the chunk), every frame agrees with its own
  length header and respects the cap, and what stays buffered is bounded however much arrived.\<close>

theorem feed_conserves_and_bounds:
  assumes "feed fr chunk = (fr', Inr fs)"
  shows "concat (map f_bytes fs) @ buf fr' = buf fr @ chunk \<and>
    list_all (frame_ok (maxDataLength fr)) fs \<and>
    length (buf fr') < max 66 (12 + maxDataLength fr)"
  using drain_ok [of "push fr chunk" fr' fs] assms by (simp add: feed_def)

theorem feed_conserves_and_bounds_witness:
  "feed (new_framer 16) [0, 0, 0, 0, 0, 0, 0, 1, 12, 0, 0, 0, 5, 0, 0] =
     (\<lparr>buf = [0, 0], maxDataLength = 16\<rparr>,
      Inr [\<lparr>f_kind = KAvl, f_bytes = [0, 0, 0, 0, 0, 0, 0, 1, 12, 0, 0, 0, 5]\<rparr>]) \<and>
   concat [[0, 0, 0, 0, 0, 0, 0, 1, 12, 0, 0, 0, 5]] @ [0, 0] =
     ([0, 0, 0, 0, 0, 0, 0, 1, 12, 0, 0, 0, 5, 0, 0] :: bytes) \<and>
   length ([0, 0] :: bytes) < max 66 (12 + 16)"
proof -
  have f: "feed (new_framer 16) [0, 0, 0, 0, 0, 0, 0, 1, 12, 0, 0, 0, 5, 0, 0] =
     (\<lparr>buf = [0, 0], maxDataLength = 16\<rparr>,
      Inr [\<lparr>f_kind = KAvl, f_bytes = [0, 0, 0, 0, 0, 0, 0, 1, 12, 0, 0, 0, 5]\<rparr>])"
    by code_simp
  from feed_conserves_and_bounds [OF f] f show ?thesis by (simp add: new_framer_def)
qed

end
