(* ===== verification/Crc16.thy ===== *)
theory Crc16
  imports Bytes
begin

unbundle bit_operations_syntax

text \<open>
  packages/codec/src/crc16.ts: CRC-16/IBM (ARC), polynomial 0x8005 reflected, computed bit by bit.
  JavaScript's bitwise operators work on 32-bit integers, so the register is a \<open>32 word\<close>; that it
  never leaves its low 16 bits is a lemma, not an assumption. The step is linear over XOR with a
  trivial kernel on 16-bit values, so any corruption confined to two adjacent bytes of a frame
  changes the checksum.
\<close>

section \<open>The computation\<close>

definition crc_bit :: "32 word \<Rightarrow> 32 word" where
  "crc_bit crc = (if crc AND 1 \<noteq> 0 then drop_bit 1 crc XOR 0xa001 else drop_bit 1 crc)"

definition crc_byte :: "32 word \<Rightarrow> byte \<Rightarrow> 32 word" where
  "crc_byte crc b = (crc_bit ^^ 8) (crc XOR ucast b)"

definition crc16ibm :: "bytes \<Rightarrow> nat" where
  "crc16ibm buf = unat (foldl crc_byte 0 buf)"

text \<open>The catalogue's check value: the CRC-16/ARC of the ASCII digits 1 to 9 is 0xBB3D.\<close>

lemma crc_byte_unfold:
  "crc_byte crc b = crc_bit (crc_bit (crc_bit (crc_bit (crc_bit (crc_bit (crc_bit (crc_bit (crc XOR ucast b))))))))"
  by (simp add: crc_byte_def eval_nat_numeral)

lemmas crc_eval = crc16ibm_def crc_byte_unfold crc_bit_def

lemma crc16_check_value: "crc16ibm [49, 50, 51, 52, 53, 54, 55, 56, 57] = 0xBB3D"
  by (simp add: crc_eval)

section \<open>The register stays within 16 bits\<close>

definition narrow :: "32 word \<Rightarrow> bool" where
  "narrow c \<longleftrightarrow> (\<forall>n \<ge> 16. \<not> bit c n)"

lemma and_one_bit: "c AND (1 :: 32 word) \<noteq> 0 \<longleftrightarrow> bit c 0"
  by (simp add: and_one_eq bit_0 odd_iff_mod_2_eq_one)

lemma narrow_poly: "narrow 0xa001"
proof -
  have "take_bit 16 (0xa001 :: 32 word) = 0xa001" by simp
  then have "bit (0xa001 :: 32 word) n \<Longrightarrow> n < 16" for n
    by (metis bit_take_bit_iff)
  then show ?thesis by (force simp: narrow_def)
qed

lemma narrow_0 [simp]: "narrow 0"
  by (simp add: narrow_def)

lemma narrow_xor: "narrow a \<Longrightarrow> narrow b \<Longrightarrow> narrow (a XOR b)"
  by (simp add: narrow_def bit_xor_iff)

lemma narrow_ucast: "narrow (ucast (b :: byte))"
  by (auto simp: narrow_def bit_simps dest: bit_imp_le_length)

lemma narrow_drop: "narrow c \<Longrightarrow> narrow (drop_bit 1 c)"
  by (simp add: narrow_def bit_simps)

lemma narrow_crc_bit: "narrow c \<Longrightarrow> narrow (crc_bit c)"
  by (auto simp: crc_bit_def simp del: One_nat_def intro: narrow_drop narrow_xor narrow_poly)

lemma narrow_shift: "narrow c \<Longrightarrow> narrow ((crc_bit ^^ n) c)"
  by (induction n) (auto intro: narrow_crc_bit)

lemma narrow_crc_byte: "narrow c \<Longrightarrow> narrow (crc_byte c b)"
  by (simp add: crc_byte_def narrow_shift narrow_xor narrow_ucast del: funpow.simps)

lemma narrow_foldl: "narrow c \<Longrightarrow> narrow (foldl crc_byte c bs)"
  by (induction bs arbitrary: c) (auto intro: narrow_crc_byte)

lemma narrow_unat: "narrow c \<Longrightarrow> unat c < 2 ^ 16"
proof -
  assume n: "narrow c"
  have "take_bit 16 c = c"
    by (rule bit_word_eqI) (use n in \<open>auto simp: bit_take_bit_iff narrow_def not_le [symmetric]\<close>)
  then have "unat c = take_bit 16 (unat c)"
    by (metis unsigned_take_bit_eq)
  then show ?thesis
    by (metis take_bit_nat_less_exp)
qed

lemma crc16ibm_bound: "crc16ibm buf < 65536"
  using narrow_unat [OF narrow_foldl [OF narrow_0]] by (simp add: crc16ibm_def)

section \<open>Linearity and the kernel\<close>

lemma crc_bit_xor: "crc_bit (a XOR b) = crc_bit a XOR crc_bit b"
  unfolding crc_bit_def and_one_bit
  by (auto simp: bit_xor_iff drop_bit_xor ac_simps)

lemma shift_xor: "(crc_bit ^^ n) (a XOR b) = (crc_bit ^^ n) a XOR (crc_bit ^^ n) b"
  by (induction n) (simp_all add: crc_bit_xor)

lemma crc_byte_xor: "crc_byte a x XOR crc_byte b y = (crc_bit ^^ 8) ((a XOR b) XOR ucast (x XOR y))"
proof -
  have "ucast (x XOR y) = (ucast x XOR ucast y :: 32 word)"
    by (rule bit_word_eqI) (simp add: bit_simps)
  then have "(a XOR b) XOR ucast (x XOR y) = (a XOR ucast x) XOR (b XOR ucast y)"
    by (simp add: ac_simps)
  then show ?thesis
    by (simp only: crc_byte_def shift_xor)
qed

lemma xor_eq_0_D: "a XOR b = 0 \<Longrightarrow> a = (b :: 'a :: len word)"
proof -
  assume z: "a XOR b = 0"
  have "a = (a XOR b) XOR b" by (simp add: xor.assoc)
  with z show "a = b" by simp
qed

lemma crc_bit_kernel:
  assumes "narrow c" and "crc_bit c = 0"
  shows "c = 0"
proof (cases "bit c 0")
  case True
  then have z: "drop_bit 1 c XOR 0xa001 = 0"
    using assms(2) by (simp only: crc_bit_def and_one_bit if_True)
  have "bit (drop_bit 1 c XOR 0xa001) 15"
    using assms(1) by (simp add: bit_xor_iff bit_drop_bit_eq narrow_def)
  with z show ?thesis by simp
next
  case False
  then have z: "drop_bit 1 c = 0"
    using assms(2) by (simp only: crc_bit_def and_one_bit if_False)
  show ?thesis
  proof (rule bit_word_eqI)
    fix n
    have "\<not> bit (drop_bit 1 c) m" for m
      using z by simp
    then have "\<not> bit c (Suc m)" for m
      by (simp add: bit_drop_bit_eq)
    with False show "bit c n = bit 0 n"
      by (cases n) auto
  qed
qed

lemma shift_kernel: "narrow c \<Longrightarrow> (crc_bit ^^ n) c = 0 \<Longrightarrow> c = 0"
proof (induction n)
  case 0
  then show ?case by simp
next
  case (Suc n)
  then show ?case
    using crc_bit_kernel [OF narrow_shift [OF Suc.prems(1), of n]] by simp
qed

lemma crc_byte_inj_state:
  assumes "narrow a" and "narrow b" and "crc_byte a x = crc_byte b x"
  shows "a = b"
proof -
  have "crc_byte a x XOR crc_byte b x = 0"
    using assms(3) by simp
  then have "(crc_bit ^^ 8) (a XOR b) = 0"
    by (simp only: crc_byte_xor xor_self_eq unsigned_0 xor.right_neutral)
  then have "a XOR b = 0"
    using shift_kernel narrow_xor assms(1,2) by blast
  then show ?thesis by (rule xor_eq_0_D)
qed

lemma foldl_inj_state:
  "narrow a \<Longrightarrow> narrow b \<Longrightarrow> foldl crc_byte a bs = foldl crc_byte b bs \<Longrightarrow> a = b"
proof (induction bs arbitrary: a b)
  case Nil
  then show ?case by simp
next
  case (Cons x bs)
  then have "crc_byte a x = crc_byte b x"
    by (simp add: narrow_crc_byte)
  with Cons.prems show ?case
    using crc_byte_inj_state by blast
qed

section \<open>Two adjacent bytes\<close>

lemma shift_push:
  "n \<le> 8 \<Longrightarrow> (crc_bit ^^ n) (push_bit n (ucast (d :: byte) :: 32 word)) = ucast d"
proof (induction n)
  case 0
  then show ?case by simp
next
  case (Suc n)
  let ?p = "push_bit (Suc n) (ucast d :: 32 word)"
  have "drop_bit 1 ?p = push_bit n (ucast d)"
  proof (rule bit_word_eqI)
    fix m
    assume m: "m < LENGTH(32)"
    show "bit (drop_bit 1 ?p) m = bit (push_bit n (ucast d :: 32 word)) m"
    proof (cases "m = 31")
      case True
      with Suc.prems show ?thesis
        by (auto simp: bit_simps simp del: push_bit_Suc dest: bit_imp_le_length)
    next
      case False
      with m show ?thesis
        by (auto simp: bit_simps simp del: push_bit_Suc)
    qed
  qed
  moreover have "\<not> bit ?p 0"
    by (simp add: bit_simps del: push_bit_Suc)
  ultimately have "crc_bit ?p = push_bit n (ucast d)"
    by (simp only: crc_bit_def and_one_bit if_False)
  with Suc show ?case
    by (simp add: funpow_swap1)
qed

lemma two_bytes_kernel:
  assumes "(crc_bit ^^ 8) ((crc_bit ^^ 8) (ucast (d :: byte)) XOR ucast (e :: byte)) = 0"
  shows "d = 0 \<and> e = 0"
proof -
  let ?z = "ucast d XOR push_bit 8 (ucast e :: 32 word)"
  have nz: "narrow ?z"
    by (auto simp: narrow_def bit_simps dest: bit_imp_le_length)
  have "(crc_bit ^^ 8) ?z = (crc_bit ^^ 8) (ucast d) XOR ucast e"
    by (simp only: shift_xor shift_push [OF order_refl])
  moreover have "narrow ((crc_bit ^^ 8) (ucast d) XOR ucast e)"
    by (intro narrow_xor narrow_shift narrow_ucast)
  ultimately have "(crc_bit ^^ 8) ?z = 0"
    using shift_kernel assms by metis
  then have z: "?z = 0"
    using nz shift_kernel by blast
  have d: "d = 0"
  proof (rule bit_word_eqI)
    fix n
    assume "n < LENGTH(8)"
    moreover have "bit ?z n = bit (0 :: 32 word) n" by (simp only: z)
    ultimately show "bit d n = bit (0 :: byte) n"
      by (simp add: bit_simps)
  qed
  have "e = 0"
  proof (rule bit_word_eqI)
    fix n
    assume "n < LENGTH(8)"
    moreover have "bit ?z (n + 8) = bit (0 :: 32 word) (n + 8)" by (simp only: z)
    ultimately show "bit e n = bit (0 :: byte) n"
      using d by (simp add: bit_simps)
  qed
  with d show ?thesis by simp
qed


section \<open>Detection of bursts\<close>

lemma crc_states_differ:
  assumes "length x = length y" and "length x \<le> 2" and "x \<noteq> y" and "narrow c"
  shows "foldl crc_byte c x \<noteq> foldl crc_byte c y"
proof
  assume eq: "foldl crc_byte c x = foldl crc_byte c y"
  from assms(1-3) consider a b where "x = [a]" "y = [b]" "a \<noteq> b"
    | a b a' b' where "x = [a, b]" "y = [a', b']" "a \<noteq> a' \<or> b \<noteq> b'"
    by (cases x; cases y; cases "tl x"; cases "tl y") auto
  then show False
  proof cases
    case 1
    with eq have "crc_byte c a XOR crc_byte c b = 0" by simp
    then have "(crc_bit ^^ 8) (ucast (a XOR b)) = 0"
      by (simp only: crc_byte_xor xor_self_eq xor.left_neutral)
    then have "ucast (a XOR b) = (0 :: 32 word)"
      using shift_kernel narrow_ucast by blast
    then have "a XOR b = 0"
      using unat_byte [of "a XOR b"]
      by (simp add: word_unat_eq_iff unsigned_ucast_eq take_bit_eq_mod del: unat_byte)
    with 1 show False by (simp add: xor_eq_0_D)
  next
    case 2
    with eq have "crc_byte (crc_byte c a) b XOR crc_byte (crc_byte c a') b' = 0" by simp
    then have "(crc_bit ^^ 8) ((crc_bit ^^ 8) (ucast (a XOR a')) XOR ucast (b XOR b')) = 0"
      by (simp only: crc_byte_xor xor_self_eq xor.left_neutral)
    then have "a XOR a' = 0 \<and> b XOR b' = 0"
      by (rule two_bytes_kernel)
    with 2 show False by (auto dest: xor_eq_0_D)
  qed
qed

text \<open>The checksum of a frame's data span changes whenever the corruption is confined to one
  byte or two adjacent bytes, wherever it falls: two spans that agree outside such a window never
  share a CRC.\<close>

theorem crc16_detects_burst:
  assumes "length x = length y" and "length x \<le> 2" and "x \<noteq> y"
  shows "crc16ibm (pre @ x @ post) \<noteq> crc16ibm (pre @ y @ post)"
proof
  assume "crc16ibm (pre @ x @ post) = crc16ibm (pre @ y @ post)"
  then have "foldl crc_byte (foldl crc_byte (foldl crc_byte 0 pre) x) post
      = foldl crc_byte (foldl crc_byte (foldl crc_byte 0 pre) y) post"
    by (simp add: crc16ibm_def word_unat_eq_iff)
  then have "foldl crc_byte (foldl crc_byte 0 pre) x = foldl crc_byte (foldl crc_byte 0 pre) y"
    by (rule foldl_inj_state [rotated 2]) (simp_all add: narrow_foldl)
  with assms crc_states_differ [OF assms narrow_foldl [OF narrow_0]] show False by blast
qed

theorem crc16_detects_burst_witness:
  "crc16ibm ([8, 1] @ [0x16, 0x17] @ [1]) \<noteq> crc16ibm ([8, 1] @ [0x17, 0x97] @ [1])"
  by (rule crc16_detects_burst) simp_all

end
