(* ===== verification/Walk.thy ===== *)
theory Walk
  imports Bytes
begin

text \<open>
  packages/codec/src/walk.ts: the scanner that cuts the data field of a Codec 8 / 8E / 16 frame
  into the exact wire bytes of its records, and the two extractors that read the IO elements of
  one record (the 8E variable-length group, and every element of a Codec 16 record).

  Offsets are the code's: every function takes the buffer and the offset it stands at and returns
  the offset it has moved to. \<open>need\<close> is the bounds check the code makes before each read.
\<close>

section \<open>Record shapes\<close>

record record_shape =
  idSize :: nat
  countSize :: nat
  eventIdSize :: nat
  generationType :: bool
  nxGroup :: bool

definition SHAPE_8 :: record_shape where
  "SHAPE_8 = \<lparr>idSize = 1, countSize = 1, eventIdSize = 1, generationType = False, nxGroup = False\<rparr>"

definition SHAPE_8E :: record_shape where
  "SHAPE_8E = \<lparr>idSize = 2, countSize = 2, eventIdSize = 2, generationType = False, nxGroup = True\<rparr>"

definition SHAPE_16 :: record_shape where
  "SHAPE_16 = \<lparr>idSize = 2, countSize = 1, eventIdSize = 2, generationType = True, nxGroup = False\<rparr>"

lemmas shape_defs = SHAPE_8_def SHAPE_8E_def SHAPE_16_def

section \<open>The scanner\<close>

definition need :: "bytes \<Rightarrow> nat \<Rightarrow> nat \<Rightarrow> codec_error + unit" where
  "need data off n = guardE (off + n \<le> length data) FrameError"

text \<open>\<open>data[off]\<close> for one byte, \<open>readUInt16BE\<close> for two; \<open>need\<close> has put both in range.\<close>

definition readWidth :: "bytes \<Rightarrow> nat \<Rightarrow> nat \<Rightarrow> codec_error + nat \<times> nat" where
  "readWidth data w off =
     bindE (need data off w) (\<lambda>_. bindE (readUIntBE w data off) (\<lambda>v. Inr (v, off + w)))"

fun walkFixed :: "record_shape \<Rightarrow> bytes \<Rightarrow> nat list \<Rightarrow> nat \<Rightarrow> nat \<Rightarrow> codec_error + nat \<times> nat" where
  "walkFixed s data [] off elements = Inr (off, elements)"
| "walkFixed s data (valueSize # vs) off elements =
     bindE (readWidth data (countSize s) off) (\<lambda>(cnt, off1).
       bindE (need data off1 (cnt * (idSize s + valueSize))) (\<lambda>_.
         walkFixed s data vs (off1 + cnt * (idSize s + valueSize)) (elements + cnt)))"

fun walkNx :: "bytes \<Rightarrow> nat \<Rightarrow> nat \<Rightarrow> codec_error + nat" where
  "walkNx data 0 off = Inr off"
| "walkNx data (Suc cnt) off =
     bindE (need data off (2 + 2)) (\<lambda>_.
       bindE (readUIntBE 2 data (off + 2)) (\<lambda>len.
         bindE (need data (off + 4) len) (\<lambda>_. walkNx data cnt (off + 4 + len))))"

definition walkRecord :: "record_shape \<Rightarrow> bytes \<Rightarrow> nat \<Rightarrow> codec_error + nat" where
  "walkRecord s data off =
     bindE (need data off (8 + 1 + 15)) (\<lambda>_.
     bindE (readWidth data (eventIdSize s) (off + (8 + 1 + 15))) (\<lambda>(_, off1).
     bindE (if generationType s then bindE (need data off1 1) (\<lambda>_. Inr (off1 + 1)) else Inr off1) (\<lambda>off2.
     bindE (readWidth data (countSize s) off2) (\<lambda>(nTotal, off3).
     bindE (walkFixed s data [1, 2, 4, 8] off3 0) (\<lambda>(off4, elements).
     bindE (if nxGroup s
            then bindE (readWidth data (countSize s) off4) (\<lambda>(cnt, off5).
                   bindE (walkNx data cnt off5) (\<lambda>off6. Inr (off6, elements + cnt)))
            else Inr (off4, elements)) (\<lambda>(off7, elements').
     bindE (guardE (elements' = nTotal) FrameError) (\<lambda>_. Inr off7)))))))"

lemma readWidth_Inr: "readWidth d w off = Inr (v, off') \<longleftrightarrow>
    off + w \<le> length d \<and> v = be_nat (take w (drop off d)) \<and> off' = off + w"
  by (auto simp: readWidth_def need_def readUIntBE_def bindE_eq_Inr guardE_eq_Inr split: if_splits)

lemma need_Inr: "need d off n = Inr u \<longleftrightarrow> off + n \<le> length d"
  by (simp add: need_def guardE_eq_Inr)

lemma walkFixed_mono: "walkFixed s d vs off el = Inr (off', el') \<Longrightarrow> off \<le> off' \<and> (off \<le> length d \<longrightarrow> off' \<le> length d)"
proof (induction vs arbitrary: off el)
  case Nil
  then show ?case by simp
next
  case (Cons v vs)
  then show ?case by (fastforce simp: bindE_eq_Inr readWidth_Inr need_Inr)
qed

lemma walkNx_mono: "walkNx d cnt off = Inr off' \<Longrightarrow> off \<le> off' \<and> (off \<le> length d \<longrightarrow> off' \<le> length d)"
proof (induction cnt arbitrary: off)
  case 0
  then show ?case by simp
next
  case (Suc cnt)
  then show ?case by (fastforce simp: bindE_eq_Inr need_Inr)
qed

declare walkFixed.simps [simp del]

text \<open>The IO element of a record, as its three parts: head, fixed-width groups, variable group.\<close>

lemma walkRecord_InrE:
  assumes "walkRecord s d off = Inr off'"
  obtains v off2 nTotal off4 el el' where
    "readWidth d (eventIdSize s) (off + 24) = Inr (v, off + 24 + eventIdSize s)"
    "off2 = off + 24 + eventIdSize s + (if generationType s then 1 else 0)" "off2 \<le> length d"
    "readWidth d (countSize s) off2 = Inr (nTotal, off2 + countSize s)"
    "walkFixed s d [1, 2, 4, 8] (off2 + countSize s) 0 = Inr (off4, el)"
    "if nxGroup s
     then \<exists>cnt. readWidth d (countSize s) off4 = Inr (cnt, off4 + countSize s) \<and>
                walkNx d cnt (off4 + countSize s) = Inr off' \<and> el' = el + cnt
     else off' = off4 \<and> el' = el"
    "el' = nTotal"
proof -
  from assms obtain v off1 off2 nTotal off3 off4 el where
    ev: "readWidth d (eventIdSize s) (off + (8 + 1 + 15)) = Inr (v, off1)"
    and g: "(if generationType s then bindE (need d off1 1) (\<lambda>_. Inr (off1 + 1)) else Inr off1) = Inr off2"
    and n: "readWidth d (countSize s) off2 = Inr (nTotal, off3)"
    and fx: "walkFixed s d [1, 2, 4, 8] off3 0 = Inr (off4, el)"
    and nx: "(if nxGroup s
            then bindE (readWidth d (countSize s) off4) (\<lambda>(cnt, off5).
                   bindE (walkNx d cnt off5) (\<lambda>off6. Inr (off6, el + cnt)))
            else Inr (off4, el)) = Inr (off', nTotal)"
    unfolding walkRecord_def by (auto simp only: bindE_eq_Inr guardE_eq_Inr prod.case split_paired_Ex Inr_inject sum.inject)
  from ev have o1: "off1 = off + 24 + eventIdSize s" by (simp add: readWidth_Inr)
  from n have o3: "off3 = off2 + countSize s" and o2: "off2 + countSize s \<le> length d"
    by (simp_all add: readWidth_Inr)
  from g o1 have o2': "off2 = off + 24 + eventIdSize s + (if generationType s then 1 else 0)"
    by (auto simp: bindE_eq_Inr need_Inr split: if_splits)
  show thesis
  proof (rule that)
    show "readWidth d (eventIdSize s) (off + 24) = Inr (v, off + 24 + eventIdSize s)" using ev o1 by simp
    show "off2 = off + 24 + eventIdSize s + (if generationType s then 1 else 0)" by (rule o2')
    show "off2 \<le> length d" using o2 by simp
    show "readWidth d (countSize s) off2 = Inr (nTotal, off2 + countSize s)" using n o3 by simp
    show "walkFixed s d [1, 2, 4, 8] (off2 + countSize s) 0 = Inr (off4, el)" using fx o3 by simp
    show "if nxGroup s
     then \<exists>cnt. readWidth d (countSize s) off4 = Inr (cnt, off4 + countSize s) \<and>
                walkNx d cnt (off4 + countSize s) = Inr off' \<and> nTotal = el + cnt
     else off' = off4 \<and> nTotal = el"
      using nx by (auto simp: bindE_eq_Inr readWidth_Inr split: if_splits)
    show "nTotal = nTotal" by (rule refl)
  qed
qed

lemma walkRecord_bounds:
  assumes "walkRecord s d off = Inr off'"
  shows "off + 24 \<le> off' \<and> off' \<le> length d"
  using assms
proof (rule walkRecord_InrE)
  fix v off2 nTotal off4 el el'
  assume o2: "off2 = off + 24 + eventIdSize s + (if generationType s then 1 else 0)" "off2 \<le> length d"
    and n: "readWidth d (countSize s) off2 = Inr (nTotal, off2 + countSize s)"
    and fx: "walkFixed s d [1, 2, 4, 8] (off2 + countSize s) 0 = Inr (off4, el)"
    and nx: "if nxGroup s
     then \<exists>cnt. readWidth d (countSize s) off4 = Inr (cnt, off4 + countSize s) \<and>
                walkNx d cnt (off4 + countSize s) = Inr off' \<and> el' = el + cnt
     else off' = off4 \<and> el' = el"
  from n have "off2 + countSize s \<le> length d" by (simp add: readWidth_Inr)
  with walkFixed_mono [OF fx] have a: "off2 \<le> off4" "off4 \<le> length d" by auto
  have "off4 \<le> off' \<and> off' \<le> length d"
  proof (cases "nxGroup s")
    case True
    with nx obtain cnt where "readWidth d (countSize s) off4 = Inr (cnt, off4 + countSize s)"
      and "walkNx d cnt (off4 + countSize s) = Inr off'" by auto
    then show ?thesis using walkNx_mono by (fastforce simp: readWidth_Inr)
  next
    case False
    with nx a show ?thesis by simp
  qed
  with a o2 show ?thesis by simp
qed

function walkFrom :: "record_shape \<Rightarrow> bytes \<Rightarrow> nat \<Rightarrow> codec_error + bytes list" where
  "walkFrom s data off =
     (if off < length data then
        bindE (walkRecord s data off) (\<lambda>off'.
          bindE (walkFrom s data off') (\<lambda>records. Inr (subarray off off' data # records)))
      else Inr [])"
  by pat_completeness auto
termination
  by (relation "measure (\<lambda>(s, data, off). length data - off)") (auto dest: walkRecord_bounds)

declare walkFrom.simps [simp del]

definition walkRecords :: "bytes \<Rightarrow> record_shape \<Rightarrow> codec_error + bytes list" where
  "walkRecords data s = walkFrom s data 0"

section \<open>A scan sees only the bytes it passes over\<close>

text \<open>\<open>agrees d off d' o' n\<close>: the buffers hold the same \<open>n\<close> bytes at the two offsets.\<close>

definition agrees :: "bytes \<Rightarrow> nat \<Rightarrow> bytes \<Rightarrow> nat \<Rightarrow> nat \<Rightarrow> bool" where
  "agrees d off d' o' n \<longleftrightarrow>
     o' + n \<le> length d' \<and> off + n \<le> length d \<and> take n (drop off d) = take n (drop o' d')"

lemma agrees_shorter: "agrees d off d' o' n \<Longrightarrow> m \<le> n \<Longrightarrow> agrees d off d' o' m"
proof -
  assume a: "agrees d off d' o' n" and m: "m \<le> n"
  from a have "take m (take n (drop off d)) = take m (take n (drop o' d'))"
    by (simp only: agrees_def)
  then have "take m (drop off d) = take m (drop o' d')"
    using m by (simp only: take_take min_absorb1)
  with a m show ?thesis by (simp add: agrees_def)
qed

lemma agrees_later: "agrees d off d' o' n \<Longrightarrow> k + m \<le> n \<Longrightarrow> agrees d (off + k) d' (o' + k) m"
proof -
  assume a: "agrees d off d' o' n" and k: "k + m \<le> n"
  then have "take (k + m) (drop off d) = take (k + m) (drop o' d')"
    using agrees_shorter [OF a k] by (simp add: agrees_def)
  then have "drop k (take (k + m) (drop off d)) = drop k (take (k + m) (drop o' d'))" by simp
  then have "take m (drop (off + k) d) = take m (drop (o' + k) d')"
    by (simp add: drop_take add.commute)
  with a k show ?thesis by (simp add: agrees_def)
qed

lemma agrees_self_slice: "off \<le> off' \<Longrightarrow> off' \<le> length d \<Longrightarrow> agrees d off (subarray off off' d) 0 (off' - off)"
  by (simp add: agrees_def subarray_def)

lemma agrees_mid: "agrees r 0 (pre @ r @ post) (length pre) (length r)"
  by (simp add: agrees_def)

lemma readWidth_local:
  assumes "readWidth d w off = Inr (v, off + w)" and "agrees d off d' o' n" and "w \<le> n"
  shows "readWidth d' w o' = Inr (v, o' + w)"
  using agrees_shorter [OF assms(2,3)] assms(1) by (simp add: readWidth_Inr agrees_def)

lemma walkFixed_local:
  assumes "walkFixed s d vs off el = Inr (off + k, el')" and "agrees d off d' o' k"
  shows "walkFixed s d' vs o' el = Inr (o' + k, el')"
  using assms
proof (induction vs arbitrary: off el k o')
  case Nil
  then show ?case by (simp add: walkFixed.simps)
next
  case (Cons v vs)
  from Cons.prems(1) obtain cnt where
    r: "readWidth d (countSize s) off = Inr (cnt, off + countSize s)" and
    w: "walkFixed s d vs (off + (countSize s + cnt * (idSize s + v))) (el + cnt) = Inr (off + k, el')"
    by (auto simp: walkFixed.simps bindE_eq_Inr need_Inr readWidth_Inr add.assoc)
  let ?m = "countSize s + cnt * (idSize s + v)"
  from walkFixed_mono [OF w] have m: "?m \<le> k" by simp
  have "readWidth d' (countSize s) o' = Inr (cnt, o' + countSize s)"
    using readWidth_local [OF r Cons.prems(2)] m by simp
  moreover have "walkFixed s d' vs (o' + ?m) (el + cnt) = Inr (o' + ?m + (k - ?m), el')"
  proof (rule Cons.IH)
    show "walkFixed s d vs (off + ?m) (el + cnt) = Inr (off + ?m + (k - ?m), el')" using w m by simp
    show "agrees d (off + ?m) d' (o' + ?m) (k - ?m)" using agrees_later [OF Cons.prems(2)] m by simp
  qed
  ultimately show ?case
    using m Cons.prems(2) by (simp add: walkFixed.simps need_def add.assoc agrees_def)
qed

lemma walkNx_local:
  assumes "walkNx d cnt off = Inr (off + k)" and "agrees d off d' o' k"
  shows "walkNx d' cnt o' = Inr (o' + k)"
  using assms
proof (induction cnt arbitrary: off k o')
  case 0
  then show ?case by simp
next
  case (Suc cnt)
  from Suc.prems(1) obtain len where
    r: "readUIntBE 2 d (off + 2) = Inr len" and
    w: "walkNx d cnt (off + (4 + len)) = Inr (off + k)"
    by (auto simp: bindE_eq_Inr add.assoc)
  from walkNx_mono [OF w] have m: "4 + len \<le> k" by simp
  have "agrees d (off + 2) d' (o' + 2) 2"
    by (rule agrees_later [OF Suc.prems(2)]) (use m in simp)
  with r have "readUIntBE 2 d' (o' + 2) = Inr len"
    by (auto simp: readUIntBE_def agrees_def split: if_splits)
  moreover have "walkNx d' cnt (o' + (4 + len)) = Inr (o' + (4 + len) + (k - (4 + len)))"
  proof (rule Suc.IH)
    show "walkNx d cnt (off + (4 + len)) = Inr (off + (4 + len) + (k - (4 + len)))" using w m by simp
    show "agrees d (off + (4 + len)) d' (o' + (4 + len)) (k - (4 + len))"
      using agrees_later [OF Suc.prems(2)] m by simp
  qed
  ultimately show ?case
    using m Suc.prems(2) by (simp add: need_def add.assoc agrees_def)
qed

lemma walkRecord_InrI:
  assumes "readWidth d (eventIdSize s) (off + 24) = Inr (v, off + 24 + eventIdSize s)"
    and "off2 = off + 24 + eventIdSize s + (if generationType s then 1 else 0)" and "off2 \<le> length d"
    and "readWidth d (countSize s) off2 = Inr (nTotal, off2 + countSize s)"
    and "walkFixed s d [1, 2, 4, 8] (off2 + countSize s) 0 = Inr (off4, el)"
    and "if nxGroup s
     then \<exists>cnt. readWidth d (countSize s) off4 = Inr (cnt, off4 + countSize s) \<and>
                walkNx d cnt (off4 + countSize s) = Inr off' \<and> nTotal = el + cnt
     else off' = off4 \<and> nTotal = el"
  shows "walkRecord s d off = Inr off'"
proof -
  have "need d off 24 = Inr ()"
    using assms(2,3) by (simp add: need_def guardE_eq_Inr split: if_splits)
  with assms show ?thesis
    by (cases "generationType s"; cases "nxGroup s") (auto simp: walkRecord_def need_def)
qed

lemma walkRecord_local:
  assumes w: "walkRecord s d off = Inr (off + k)" and a: "agrees d off d' o' k"
  shows "walkRecord s d' o' = Inr (o' + k)"
  using w
proof (rule walkRecord_InrE)
  fix v off2 nTotal off4 el el'
  let ?g = "if generationType s then 1 else 0 :: nat"
  assume ev: "readWidth d (eventIdSize s) (off + 24) = Inr (v, off + 24 + eventIdSize s)"
    and o2: "off2 = off + 24 + eventIdSize s + ?g" "off2 \<le> length d"
    and n: "readWidth d (countSize s) off2 = Inr (nTotal, off2 + countSize s)"
    and fx: "walkFixed s d [1, 2, 4, 8] (off2 + countSize s) 0 = Inr (off4, el)"
    and nx: "if nxGroup s
     then \<exists>cnt. readWidth d (countSize s) off4 = Inr (cnt, off4 + countSize s) \<and>
                walkNx d cnt (off4 + countSize s) = Inr (off + k) \<and> el' = el + cnt
     else off + k = off4 \<and> el' = el"
    and eq: "el' = nTotal"
  let ?a = "24 + eventIdSize s + ?g"
  from walkFixed_mono [OF fx] obtain m where m: "off4 = off + (?a + countSize s + m)"
    using o2 by (metis add.assoc le_iff_add)
  have mk: "?a + countSize s + m \<le> k"
    using nx m walkNx_mono by (fastforce split: if_splits)
  define r where "r = k - (?a + countSize s + m)"
  have r: "k = ?a + countSize s + m + r" using mk by (simp add: r_def)
  note ag = agrees_later [OF a]
  show ?thesis
  proof (rule walkRecord_InrI)
    show "readWidth d' (eventIdSize s) (o' + 24) = Inr (v, o' + 24 + eventIdSize s)"
      by (rule readWidth_local [OF ev ag]) (use mk in auto)
    show "o' + ?a = o' + 24 + eventIdSize s + ?g" by simp
    show "o' + ?a \<le> length d'" using a mk by (simp add: agrees_def)
    have "readWidth d (countSize s) (off + ?a) = Inr (nTotal, off + ?a + countSize s)"
      using n o2 by (simp add: add.assoc)
    then show "readWidth d' (countSize s) (o' + ?a) = Inr (nTotal, o' + ?a + countSize s)"
      by (rule readWidth_local [OF _ ag]) (use mk in auto)
    have "walkFixed s d [1, 2, 4, 8] (off + (?a + countSize s)) 0 = Inr (off + (?a + countSize s) + m, el)"
      using fx o2 m by (simp add: add.assoc)
    then have "walkFixed s d' [1, 2, 4, 8] (o' + (?a + countSize s)) 0 = Inr (o' + (?a + countSize s) + m, el)"
      by (rule walkFixed_local [OF _ ag]) (use mk in auto)
    then show "walkFixed s d' [1, 2, 4, 8] (o' + ?a + countSize s) 0 = Inr (o' + (?a + countSize s + m), el)"
      by (simp add: add.assoc)
    let ?b = "?a + countSize s + m"
    show "if nxGroup s
     then \<exists>cnt. readWidth d' (countSize s) (o' + ?b) = Inr (cnt, o' + ?b + countSize s) \<and>
                walkNx d' cnt (o' + ?b + countSize s) = Inr (o' + k) \<and> nTotal = el + cnt
     else o' + k = o' + ?b \<and> nTotal = el"
    proof (cases "nxGroup s")
      case True
      with nx m obtain cnt where c: "readWidth d (countSize s) (off + ?b) = Inr (cnt, off + ?b + countSize s)"
        and w: "walkNx d cnt (off + (?b + countSize s)) = Inr (off + k)" and e: "el' = el + cnt"
        by (auto simp: add.assoc)
      from walkNx_mono [OF w] have bk: "?b + countSize s \<le> k" by simp
      then obtain q where q: "k = ?b + countSize s + q" by (metis le_iff_add)
      have "readWidth d' (countSize s) (o' + ?b) = Inr (cnt, o' + ?b + countSize s)"
        by (rule readWidth_local [OF c ag]) (use bk in auto)
      moreover have "walkNx d' cnt (o' + (?b + countSize s)) = Inr (o' + (?b + countSize s) + q)"
        by (rule walkNx_local [OF _ ag]) (use w q in \<open>auto simp: add.assoc\<close>)
      ultimately show ?thesis using True q e eq by (simp add: add.assoc)
    next
      case False
      with nx m eq show ?thesis by simp
    qed
  qed
qed

section \<open>The partition of the data field\<close>

lemma walkRecord_mid:
  "walkRecord s r 0 = Inr (length r) \<Longrightarrow> walkRecord s (pre @ r @ post) (length pre) = Inr (length pre + length r)"
  using walkRecord_local [of s r 0 "length r"] agrees_mid by simp

lemma walkRecord_own:
  assumes "walkRecord s d off = Inr off'"
  shows "walkRecord s (subarray off off' d) 0 = Inr (length (subarray off off' d))"
proof -
  from walkRecord_bounds [OF assms] have b: "off \<le> off'" "off' \<le> length d" by simp_all
  with walkRecord_local [of s d off "off' - off", OF _ agrees_self_slice [OF b]] assms
  show ?thesis by (simp add: length_subarray)
qed

lemma walkFrom_sound:
  "walkFrom s d off = Inr rs \<Longrightarrow> off \<le> length d \<Longrightarrow>
     concat rs = drop off d \<and> (\<forall>r\<in>set rs. walkRecord s r 0 = Inr (length r))"
proof (induction s d off arbitrary: rs rule: walkFrom.induct)
  case (1 s d off)
  show ?case
  proof (cases "off < length d")
    case True
    with "1.prems" obtain off' rs' where w: "walkRecord s d off = Inr off'"
      and r: "walkFrom s d off' = Inr rs'" and rs: "rs = subarray off off' d # rs'"
      by (subst (asm) walkFrom.simps) (auto simp: bindE_eq_Inr)
    from walkRecord_bounds [OF w] have b: "off \<le> off'" "off' \<le> length d" by simp_all
    with "1.IH" [OF True w r] have "concat rs' = drop off' d" "\<forall>r\<in>set rs'. walkRecord s r 0 = Inr (length r)"
      by simp_all
    moreover have "subarray off off' d @ drop off' d = drop off d"
      using b by (simp add: subarray_def) (metis append_take_drop_id drop_drop le_add_diff_inverse2)
    ultimately show ?thesis using rs walkRecord_own [OF w] by simp
  next
    case False
    with "1.prems" show ?thesis by (subst (asm) walkFrom.simps) simp
  qed
qed

lemma walkFrom_complete:
  "(\<forall>r\<in>set rs. walkRecord s r 0 = Inr (length r)) \<Longrightarrow>
     walkFrom s (pre @ concat rs) (length pre) = Inr rs"
proof (induction rs arbitrary: pre)
  case Nil
  then show ?case by (subst walkFrom.simps) simp
next
  case (Cons r rs)
  then have w: "walkRecord s r 0 = Inr (length r)" by simp
  from walkRecord_bounds [OF w] have "0 < length r" by linarith
  moreover have "walkRecord s (pre @ r @ concat rs) (length pre) = Inr (length (pre @ r))"
    using walkRecord_mid [OF w] by simp
  moreover have "walkFrom s (pre @ r @ concat rs) (length (pre @ r)) = Inr rs"
    using Cons.IH [of "pre @ r"] Cons.prems by simp
  moreover have "subarray (length pre) (length (pre @ r)) (pre @ r @ concat rs) = r"
    using subarray_mid [of pre r "concat rs"] by simp
  ultimately show ?case by (subst walkFrom.simps) simp
qed


section \<open>Only \<open>FrameError\<close> escapes the scanner\<close>

lemma need_Inl: "need d off n = Inl e \<Longrightarrow> e = FrameError"
  by (simp add: need_def guardE_eq_Inl)

lemma readWidth_Inl: "readWidth d w off = Inl e \<Longrightarrow> e = FrameError"
  by (auto simp: readWidth_def bindE_eq_Inl need_def guardE_eq_Inl guardE_eq_Inr readUIntBE_def)

lemma walkFixed_Inl: "walkFixed s d vs off el = Inl e \<Longrightarrow> e = FrameError"
  by (induction vs arbitrary: off el)
    (auto simp: walkFixed.simps bindE_eq_Inl dest: need_Inl readWidth_Inl)

lemma walkNx_Inl: "walkNx d cnt off = Inl e \<Longrightarrow> e = FrameError"
  by (induction cnt arbitrary: off)
    (auto simp: bindE_eq_Inl need_Inr readUIntBE_def dest: need_Inl split: if_splits)

lemma walkRecord_Inl: "walkRecord s d off = Inl e \<Longrightarrow> e = FrameError"
  unfolding walkRecord_def
  by (auto simp only: bindE_eq_Inl guardE_eq_Inl prod.case split_paired_Ex sum.inject
      dest: need_Inl readWidth_Inl walkFixed_Inl walkNx_Inl split: if_splits)

lemma walkFrom_Inl: "walkFrom s d off = Inl e \<Longrightarrow> e = FrameError"
proof (induction s d off rule: walkFrom.induct)
  case (1 s d off)
  show ?case
  proof (cases "off < length d")
    case True
    with "1.prems" consider "walkRecord s d off = Inl e"
      | off' where "walkRecord s d off = Inr off'" "walkFrom s d off' = Inl e"
      by (subst (asm) walkFrom.simps) (auto simp: bindE_eq_Inl)
    then show ?thesis using "1.IH" [OF True] walkRecord_Inl by cases auto
  next
    case False
    with "1.prems" show ?thesis by (subst (asm) walkFrom.simps) simp
  qed
qed

section \<open>The variable-length group of an 8E record\<close>

text \<open>\<open>extractNx8e\<close> reads without checks of its own; an out-of-range read throws \<open>RangeError\<close>.\<close>

fun skipFixed8e :: "bytes \<Rightarrow> nat list \<Rightarrow> nat \<Rightarrow> codec_error + nat" where
  "skipFixed8e record [] off = Inr off"
| "skipFixed8e record (valueSize # vs) off =
     bindE (readUIntBE 2 record off) (\<lambda>cnt. skipFixed8e record vs (off + (2 + cnt * (2 + valueSize))))"

fun takeNx :: "bytes \<Rightarrow> nat \<Rightarrow> nat \<Rightarrow> (nat \<times> bytes) list \<Rightarrow> codec_error + (nat \<times> bytes) list" where
  "takeNx record 0 off out = Inr out"
| "takeNx record (Suc cnt) off out =
     bindE (readUIntBE 2 record off) (\<lambda>id.
     bindE (readUIntBE 2 record (off + 2)) (\<lambda>len.
       takeNx record cnt (off + 4 + len)
         (AList.update id (subarray (off + 4) (off + 4 + len) record) out)))"

definition extractNx8e :: "bytes \<Rightarrow> codec_error + (nat \<times> bytes) list" where
  "extractNx8e record =
     bindE (readUIntBE 2 record (24 + 2)) (\<lambda>total.
     bindE (skipFixed8e record [1, 2, 4, 8] (24 + 2 + 2)) (\<lambda>off.
     bindE (readUIntBE 2 record off) (\<lambda>cnt. takeNx record cnt (off + 2) [])))"

declare skipFixed8e.simps [simp del]

lemma walkFixed_skip:
  "walkFixed SHAPE_8E d vs off el = Inr (off', el') \<Longrightarrow> skipFixed8e d vs off = Inr off'"
proof (induction vs arbitrary: off el)
  case Nil
  then show ?case by (simp add: walkFixed.simps skipFixed8e.simps)
next
  case (Cons v vs)
  then show ?case
    by (fastforce simp: walkFixed.simps skipFixed8e.simps bindE_eq_Inr readWidth_Inr readUIntBE_def
        shape_defs need_Inr add.assoc)
qed

lemma walkNx_take: "walkNx d cnt off = Inr off' \<Longrightarrow> \<exists>m. takeNx d cnt off out = Inr m"
proof (induction cnt arbitrary: off out)
  case 0
  then show ?case by simp
next
  case (Suc cnt)
  from Suc.prems obtain len where l: "readUIntBE 2 d (off + 2) = Inr len"
    and w: "walkNx d cnt (off + 4 + len) = Inr off'"
    by (auto simp: bindE_eq_Inr)
  then obtain id where "readUIntBE 2 d off = Inr id"
    by (auto simp: readUIntBE_def split: if_splits)
  with l Suc.IH [OF w] show ?case by simp
qed

text \<open>Every record the scanner hands out for Codec 8E can be read by \<open>extractNx8e\<close>, which has no
  bounds checks of its own: none of its reads falls outside the record, so it never throws.\<close>

theorem extractNx8e_total:
  assumes "walkRecords data SHAPE_8E = Inr rs" and "r \<in> set rs"
  shows "\<exists>nx. extractNx8e r = Inr nx"
proof -
  from assms have "walkRecord SHAPE_8E r 0 = Inr (length r)"
    using walkFrom_sound [of SHAPE_8E data 0 rs] by (simp add: walkRecords_def)
  then show ?thesis
  proof (rule walkRecord_InrE)
    fix v off2 nTotal off4 el el'
    assume "off2 = 0 + 24 + eventIdSize SHAPE_8E + (if generationType SHAPE_8E then 1 else 0)"
      and n: "readWidth r (countSize SHAPE_8E) off2 = Inr (nTotal, off2 + countSize SHAPE_8E)"
      and fx: "walkFixed SHAPE_8E r [1, 2, 4, 8] (off2 + countSize SHAPE_8E) 0 = Inr (off4, el)"
      and nx: "if nxGroup SHAPE_8E
       then \<exists>cnt. readWidth r (countSize SHAPE_8E) off4 = Inr (cnt, off4 + countSize SHAPE_8E) \<and>
                  walkNx r cnt (off4 + countSize SHAPE_8E) = Inr (length r) \<and> el' = el + cnt
       else length r = off4 \<and> el' = el"
    then have o2: "off2 = 26" by (simp add: shape_defs)
    from nx obtain cnt where c: "readUIntBE 2 r off4 = Inr cnt"
      and w: "walkNx r cnt (off4 + 2) = Inr (length r)"
      by (auto simp: shape_defs readWidth_Inr readUIntBE_def)
    from walkNx_take [OF w] obtain m where m: "takeNx r cnt (off4 + 2) [] = Inr m" ..
    have "skipFixed8e r [1, 2, 4, 8] 28 = Inr off4"
      using walkFixed_skip [OF fx] by (simp add: o2 shape_defs)
    moreover from n obtain t where "readUIntBE 2 r 26 = Inr t"
      by (auto simp: shape_defs o2 readWidth_Inr readUIntBE_def)
    ultimately show ?thesis using c m by (simp add: extractNx8e_def)
  qed
qed

text \<open>Two concrete records: an 8E record with one two-byte variable element, and a Codec 16 record
  with a one-byte and a two-byte element.\<close>

definition sample8e :: bytes where
  "sample8e = replicate 24 0 @ [0, 5, 0, 1, 0, 0, 0, 0, 0, 0, 0, 0, 0, 1, 0, 5, 0, 2, 0xAB, 0xCD]"

definition sample16 :: bytes where
  "sample16 = replicate 24 0 @ [0, 1, 5, 2, 1, 0, 1, 7, 1, 1, 0, 9, 9, 0, 0]"

lemma sample8e_walks: "walkRecords sample8e SHAPE_8E = Inr [sample8e]"
  by code_simp

lemma sample16_walks: "walkRecords sample16 SHAPE_16 = Inr [sample16]"
  by code_simp

theorem extractNx8e_total_witness:
  "\<exists>nx. extractNx8e sample8e = Inr nx"
  using extractNx8e_total [OF sample8e_walks, of sample8e] by simp

section \<open>The IO elements of a Codec 16 record\<close>

fun io16Group :: "bytes \<Rightarrow> nat \<Rightarrow> nat \<Rightarrow> nat \<Rightarrow> (nat \<times> nat) list \<Rightarrow> codec_error + nat \<times> (nat \<times> nat) list" where
  "io16Group record width 0 off io = Inr (off, io)"
| "io16Group record width (Suc count) off io =
     bindE (guardE (off + 2 + width \<le> length record) FrameError) (\<lambda>_.
     bindE (readUIntBE 2 record off) (\<lambda>id.
       io16Group record width count (off + 2 + width)
         (AList.update id (be_nat (subarray (off + 2) (off + 2 + width) record)) io)))"

fun io16Groups :: "bytes \<Rightarrow> nat list \<Rightarrow> nat \<Rightarrow> (nat \<times> nat) list \<Rightarrow> codec_error + (nat \<times> nat) list" where
  "io16Groups record [] off io = Inr io"
| "io16Groups record (width # ws) off io =
     bindE (guardE (off + 1 \<le> length record) FrameError) (\<lambda>_.
     bindE (readUIntBE 1 record off) (\<lambda>count.
     bindE (io16Group record width count (off + 1) io) (\<lambda>(off', io').
       io16Groups record ws off' io')))"

definition extractIo16 :: "bytes \<Rightarrow> codec_error + (nat \<times> nat) list" where
  "extractIo16 record =
     (let off = 24 + 2 + 1 in
      bindE (guardE (off + 1 \<le> length record) FrameError) (\<lambda>_.
      bindE (readUIntBE 1 record off) (\<lambda>total.
      bindE (io16Groups record [1, 2, 4, 8] (off + 1) []) (\<lambda>io.
      bindE (guardE (length io = total) FrameError) (\<lambda>_. Inr io)))))"

declare io16Groups.simps [simp del]

definition generationTypeOf :: "bytes \<Rightarrow> codec_error + nat" where
  "generationTypeOf record =
     bindE (guardE (27 \<le> length record) FrameError) (\<lambda>_. readUIntBE 1 record 26)"

lemma io16Group_Inl: "io16Group r w n off io = Inl e \<Longrightarrow> e = FrameError"
  by (induction n arbitrary: off io)
    (auto simp: bindE_eq_Inl guardE_eq_Inl guardE_eq_Inr readUIntBE_def split: if_splits)

lemma io16Groups_Inl: "io16Groups r ws off io = Inl e \<Longrightarrow> e = FrameError"
  by (induction ws arbitrary: off io)
    (auto simp: io16Groups.simps bindE_eq_Inl guardE_eq_Inl guardE_eq_Inr readUIntBE_def
      dest: io16Group_Inl split: if_splits)

lemma extractIo16_Inl: "extractIo16 r = Inl e \<Longrightarrow> e = FrameError"
  by (auto simp: extractIo16_def Let_def bindE_eq_Inl guardE_eq_Inl guardE_eq_Inr readUIntBE_def
      dest: io16Groups_Inl split: if_splits)

text \<open>The elements on the wire, as a list, before the code's map collapses repeated ids.\<close>

fun wire16Group :: "bytes \<Rightarrow> nat \<Rightarrow> nat \<Rightarrow> nat \<Rightarrow> (nat \<times> nat) list" where
  "wire16Group record width 0 off = []"
| "wire16Group record width (Suc count) off =
     (be_nat (subarray off (off + 2) record), be_nat (subarray (off + 2) (off + 2 + width) record))
       # wire16Group record width count (off + 2 + width)"

fun wire16Groups :: "bytes \<Rightarrow> nat list \<Rightarrow> nat \<Rightarrow> (nat \<times> nat) list" where
  "wire16Groups record [] off = []"
| "wire16Groups record (width # ws) off =
     (let count = be_nat (subarray off (off + 1) record) in
      wire16Group record width count (off + 1) @
      wire16Groups record ws (off + 1 + count * (2 + width)))"

definition wire16 :: "bytes \<Rightarrow> (nat \<times> nat) list" where
  "wire16 record = wire16Groups record [1, 2, 4, 8] 28"

declare wire16Groups.simps [simp del]

lemma io16Group_wire:
  "off + n * (2 + w) \<le> length r \<Longrightarrow>
     io16Group r w n off io = Inr (off + n * (2 + w), setAll io (wire16Group r w n off))"
proof (induction n arbitrary: off io)
  case 0
  then show ?case by simp
next
  case (Suc n)
  then have "off + 2 + w \<le> length r" and "off + 2 + w + n * (2 + w) \<le> length r"
    by simp_all
  with Suc.IH [of "off + 2 + w"] show ?case
    by (simp add: readUIntBE_def subarray_def)
qed

lemma length_wire16Group [simp]: "length (wire16Group r w n off) = n"
  by (induction n arbitrary: off) auto

lemma io16Groups_wire:
  "walkFixed SHAPE_16 r vs off el = Inr (off', el') \<Longrightarrow>
     io16Groups r vs off io = Inr (setAll io (wire16Groups r vs off)) \<and>
     el' = el + length (wire16Groups r vs off)"
proof (induction vs arbitrary: off el io)
  case Nil
  then show ?case by (simp add: walkFixed.simps io16Groups.simps wire16Groups.simps)
next
  case (Cons v vs)
  let ?c = "be_nat (take 1 (drop off r))"
  from Cons.prems have o: "off + 1 \<le> length r" and b: "off + 1 + ?c * (2 + v) \<le> length r"
    and w: "walkFixed SHAPE_16 r vs (off + 1 + ?c * (2 + v)) (el + ?c) = Inr (off', el')"
    by (auto simp: walkFixed.simps bindE_eq_Inr readWidth_Inr need_Inr SHAPE_16_def)
  have s: "be_nat (subarray off (off + 1) r) = ?c" by (simp add: subarray_def)
  have "readUIntBE 1 r off = Inr ?c" using o by (simp add: readUIntBE_def)
  moreover have "guardE (off + 1 \<le> length r) FrameError = Inr ()" using o by simp
  ultimately show ?case
    unfolding io16Groups.simps wire16Groups.simps Let_def s
    using io16Group_wire [OF b, of io] Cons.IH [OF w]
    by (simp add: setAll_append)
qed

text \<open>On every record the scanner accepts for Codec 16, \<open>extractIo16\<close> returns exactly the
  elements on the wire, in wire order and with their unsigned values, and throws \<open>FrameError\<close> in
  the one case the scanner cannot see: an id that occurs twice, which the map would have collapsed
  silently.\<close>

theorem extractIo16_exact:
  assumes "walkRecords data SHAPE_16 = Inr rs" and "r \<in> set rs"
  shows "extractIo16 r = (if distinct (map fst (wire16 r)) then Inr (wire16 r) else Inl FrameError)"
proof -
  from assms have "walkRecord SHAPE_16 r 0 = Inr (length r)"
    using walkFrom_sound [of SHAPE_16 data 0 rs] by (simp add: walkRecords_def)
  then show ?thesis
  proof (rule walkRecord_InrE)
    fix v off2 nTotal off4 el el'
    assume "off2 = 0 + 24 + eventIdSize SHAPE_16 + (if generationType SHAPE_16 then 1 else 0)"
      and n: "readWidth r (countSize SHAPE_16) off2 = Inr (nTotal, off2 + countSize SHAPE_16)"
      and fx: "walkFixed SHAPE_16 r [1, 2, 4, 8] (off2 + countSize SHAPE_16) 0 = Inr (off4, el)"
      and nx: "if nxGroup SHAPE_16
       then \<exists>cnt. readWidth r (countSize SHAPE_16) off4 = Inr (cnt, off4 + countSize SHAPE_16) \<and>
                  walkNx r cnt (off4 + countSize SHAPE_16) = Inr (length r) \<and> el' = el + cnt
       else length r = off4 \<and> el' = el"
      and eq: "el' = nTotal"
    then have o2: "off2 = 27" by (simp add: shape_defs)
    from fx have fx': "walkFixed SHAPE_16 r [1, 2, 4, 8] 28 0 = Inr (off4, el)"
      by (simp add: o2 shape_defs)
    from n have l: "28 \<le> length r" and t: "readUIntBE 1 r 27 = Inr nTotal"
      by (simp_all add: o2 shape_defs readWidth_Inr readUIntBE_def)
    from io16Groups_wire [OF fx', of "[]"] nx eq
    have g: "io16Groups r [1, 2, 4, 8] 28 [] = Inr (setAll [] (wire16 r))"
      and len: "nTotal = length (wire16 r)"
      by (simp_all add: wire16_def shape_defs)
    have "extractIo16 r = bindE (guardE (length (setAll [] (wire16 r)) = length (wire16 r)) FrameError)
        (\<lambda>_. Inr (setAll [] (wire16 r)))"
      using l t g len by (simp add: extractIo16_def)
    then show ?thesis
      using length_setAll [of "wire16 r"] setAll_distinct [of "[]" "wire16 r"] by auto
  qed
qed

theorem extractIo16_exact_witness:
  "extractIo16 sample16 = Inr [(1, 7), (0x100, 0x909)]"
proof -
  have "distinct (map fst (wire16 sample16))" and "wire16 sample16 = [(1, 7), (0x100, 0x909)]"
    by code_simp+
  with extractIo16_exact [OF sample16_walks, of sample16] show ?thesis by simp
qed

end
