(* ===== verification/Encode.thy ===== *)
theory Encode
  imports Walk Crc16
begin

text \<open>
  packages/codec/src/encode.ts: the Codec 8 / 8E packet encoder. A JavaScript number is an exact
  rational for the coordinates and an integer for the integral fields; a write of a value that
  does not fit its field throws \<open>RangeError\<close>, as Node's \<open>Buffer\<close> methods do. The lemmas say what
  the scanner and the extractors of \<open>Walk\<close> read back from an encoded record.
\<close>

section \<open>Records to encode\<close>

datatype io_value = IoBig int | IoBuf bytes

record encodable =
  tsMs :: int
  priority :: int
  lat :: rat
  lon :: rat
  altitude :: int
  angle :: int
  satellites :: int
  speed :: int
  eventIoId :: int
  io :: "(int \<times> io_value) list"

text \<open>\<open>Math.round\<close> rounds halves up.\<close>

definition js_round :: "rat \<Rightarrow> int" where
  "js_round x = \<lfloor>x + 1 / 2\<rfloor>"

lemma js_round_int [simp]: "js_round (of_int k) = k"
  unfolding js_round_def by (rule floor_unique) simp_all

section \<open>The encoder\<close>

definition valueSize :: "int \<Rightarrow> codec_error + nat" where
  "valueSize v =
     (if v < 0 then Inl FrameError
      else if v \<le> 0xff then Inr 1
      else if v \<le> 0xffff then Inr 2
      else if v \<le> 0xffffffff then Inr 4
      else if v \<le> 0xffffffffffffffff then Inr 8
      else Inl FrameError)"

definition writeId :: "int \<Rightarrow> nat \<Rightarrow> codec_error + bytes" where
  "writeId v w = (if w = 2 then writeUIntBE 2 v else writeUIntBE 1 v)"

definition encodeHead :: "encodable \<Rightarrow> codec_error + bytes" where
  "encodeHead r =
     bindE (writeUIntBE 8 (tsMs r)) (\<lambda>b0.
     bindE (writeUIntBE 1 (priority r)) (\<lambda>b8.
     bindE (writeIntBE 4 (js_round (lon r * 10000000))) (\<lambda>b9.
     bindE (writeIntBE 4 (js_round (lat r * 10000000))) (\<lambda>b13.
     bindE (writeIntBE 2 (altitude r)) (\<lambda>b17.
     bindE (writeUIntBE 2 (angle r)) (\<lambda>b19.
     bindE (writeUIntBE 1 (satellites r)) (\<lambda>b21.
     bindE (writeUIntBE 2 (speed r)) (\<lambda>b22.
       Inr (b0 @ b8 @ b9 @ b13 @ b17 @ b19 @ b21 @ b22)))))))))"

text \<open>The loop over \<open>r.io\<close>: the four fixed-width groups and the variable-length list.\<close>

type_synonym io_groups = "(nat \<Rightarrow> (int \<times> int) list) \<times> (int \<times> bytes) list"

fun splitIo :: "bool \<Rightarrow> (int \<times> io_value) list \<Rightarrow> io_groups \<Rightarrow> codec_error + io_groups" where
  "splitIo extended [] acc = Inr acc"
| "splitIo extended ((avlId, v) # rest) (groups, nx) =
     (if \<not> extended \<and> 0xff < avlId then Inl FrameError
      else case v of
        IoBuf buf \<Rightarrow>
          (if \<not> extended then Inl FrameError
           else splitIo extended rest (groups, nx @ [(avlId, buf)]))
      | IoBig n \<Rightarrow>
          bindE (valueSize n) (\<lambda>size.
            splitIo extended rest (groups(size := groups size @ [(avlId, n)]), nx)))"

definition encodeElem :: "nat \<Rightarrow> nat \<Rightarrow> int \<times> int \<Rightarrow> codec_error + bytes" where
  "encodeElem w n e =
     bindE (writeUIntBE n (snd e)) (\<lambda>v. bindE (writeId (fst e) w) (\<lambda>i. Inr (i @ v)))"

fun encodeGroups :: "nat \<Rightarrow> (nat \<Rightarrow> (int \<times> int) list) \<Rightarrow> nat list \<Rightarrow> codec_error + bytes" where
  "encodeGroups w groups [] = Inr []"
| "encodeGroups w groups (n # sizes) =
     bindE (writeId (int (length (groups n))) w) (\<lambda>cnt.
     bindE (mapE (encodeElem w n) (groups n)) (\<lambda>els.
     bindE (encodeGroups w groups sizes) (\<lambda>rest. Inr (cnt @ concat els @ rest))))"

declare encodeGroups.simps [simp del]

definition encodeNxElem :: "int \<times> bytes \<Rightarrow> codec_error + bytes" where
  "encodeNxElem e =
     bindE (guardE (length (snd e) \<le> 0xffff) FrameError) (\<lambda>_.
     bindE (writeUIntBE 2 (fst e)) (\<lambda>i.
     bindE (writeUIntBE 2 (int (length (snd e)))) (\<lambda>l. Inr (i @ l @ snd e))))"

definition encodeRecord :: "encodable \<Rightarrow> bool \<Rightarrow> codec_error + bytes" where
  "encodeRecord r extended =
     bindE (encodeHead r) (\<lambda>head.
     let w = (if extended then 2 else 1) in
     bindE (splitIo extended (io r) (\<lambda>_. [], [])) (\<lambda>(groups, nx).
     bindE (writeId (eventIoId r) w) (\<lambda>ev.
     let totalCount = length (groups 1) + length (groups 2) + length (groups 4) + length (groups 8)
           + length nx in
     bindE (writeId (int totalCount) w) (\<lambda>total.
     bindE (encodeGroups w groups [1, 2, 4, 8]) (\<lambda>fixed.
     bindE (if extended
            then bindE (writeUIntBE 2 (int (length nx))) (\<lambda>cnt.
                 bindE (mapE encodeNxElem nx) (\<lambda>els. Inr (cnt @ concat els)))
            else Inr []) (\<lambda>var.
       Inr (head @ ev @ total @ fixed @ var)))))))"

definition frame_data :: "bytes \<Rightarrow> codec_error + bytes" where
  "frame_data data =
     bindE (writeUIntBE 4 (int (length data))) (\<lambda>len.
     bindE (writeUIntBE 4 (int (crc16ibm data))) (\<lambda>crc.
       Inr ([0, 0, 0, 0] @ len @ data @ crc)))"

definition encodeAvlPacket :: "nat \<Rightarrow> encodable list \<Rightarrow> codec_error + bytes" where
  "encodeAvlPacket codec records =
     bindE (guardE (length records \<le> 0xff) FrameError) (\<lambda>_.
     let extended = (codec = 0x8e) in
     bindE (mapE (\<lambda>r. encodeRecord r extended) records) (\<lambda>parts.
       let data = [of_nat codec, of_nat (length records)] @ concat parts @ [of_nat (length records)] in
       frame_data data))"

section \<open>What was written is read back\<close>

lemma writeUIntBE_read:
  assumes "writeUIntBE w n = Inr bs"
  shows "readUIntBE w (pre @ bs @ post) (length pre) = Inr (nat n)" and "length bs = w" and "0 \<le> n"
proof -
  from assms have "int (be_nat bs) = n" "length bs = w" by (auto dest: writeUIntBE_value)
  then show "readUIntBE w (pre @ bs @ post) (length pre) = Inr (nat n)" "length bs = w" "0 \<le> n"
    by (auto simp: readUIntBE_append)
qed

lemma writeId_eq: "k \<in> {1, 2} \<Longrightarrow> writeId v k = writeUIntBE k v"
  by (auto simp: writeId_def)

lemma readWidth_written:
  assumes "writeUIntBE w n = Inr bs" and "off = length pre"
  shows "readWidth (pre @ bs @ post) w off = Inr (nat n, off + w)"
proof -
  have l: "length bs = w" by (rule writeUIntBE_read [OF assms(1)])
  then show ?thesis
    using writeUIntBE_read(1) [OF assms(1), of pre post] assms(2)
    by (simp add: readWidth_def need_def)
qed

lemma encodeElem_length:
  "k \<in> {1, 2} \<Longrightarrow> encodeElem k n e = Inr bs \<Longrightarrow> length bs = k + n"
  by (auto simp: encodeElem_def bindE_eq_Inr writeId_eq writeUIntBE_length)

lemma encodeElems_length:
  assumes "k \<in> {1, 2}"
  shows "mapE (encodeElem k n) es = Inr bss \<Longrightarrow> length (concat bss) = length es * (k + n)"
  by (induction es arbitrary: bss) (auto simp: bindE_eq_Inr encodeElem_length [OF assms])

lemma walkFixed_encoded:
  assumes "idSize s = k" and "countSize s = k" and "k \<in> {1, 2}"
  shows "encodeGroups k g sizes = Inr bs \<Longrightarrow>
     walkFixed s (pre @ bs @ post) sizes (length pre) el =
       Inr (length pre + length bs, el + (\<Sum>z\<leftarrow>sizes. length (g z)))"
proof (induction sizes arbitrary: pre bs el)
  case Nil
  then show ?case by (simp add: encodeGroups.simps walkFixed.simps)
next
  case (Cons z sizes)
  then obtain cnt els rest where c: "writeUIntBE k (int (length (g z))) = Inr cnt"
    and e: "mapE (encodeElem k z) (g z) = Inr els"
    and r: "encodeGroups k g sizes = Inr rest" and bs: "bs = cnt @ concat els @ rest"
    using assms(3) by (auto simp: encodeGroups.simps bindE_eq_Inr writeId_eq)
  have lc: "length cnt = k" by (rule writeUIntBE_read [OF c])
  have le: "length (concat els) = length (g z) * (k + z)"
    by (rule encodeElems_length [OF assms(3) e])
  have w: "readWidth (pre @ bs @ post) k (length pre) = Inr (length (g z), length pre + k)"
    using readWidth_written [OF c refl, of pre "concat els @ rest @ post"] bs by simp
  have i: "walkFixed s (pre @ bs @ post) sizes (length pre + k + length (g z) * (k + z)) (el + length (g z)) =
      Inr (length pre + length bs, el + length (g z) + (\<Sum>z\<leftarrow>sizes. length (g z)))"
    using Cons.IH [OF r, of "pre @ cnt @ concat els" "el + length (g z)"] lc le bs by (simp add: add.assoc)
  have n: "need (pre @ bs @ post) (length pre + k) (length (g z) * (k + z)) = Inr ()"
    using lc le bs by (simp add: need_def)
  show ?case
    unfolding walkFixed.simps assms(1,2) w bindE_Inr prod.case n i by simp
qed

lemma encodeNxElem_E:
  assumes "encodeNxElem (i, b) = Inr bs"
  obtains ib lb where "bs = ib @ lb @ b" and "writeUIntBE 2 i = Inr ib"
    and "writeUIntBE 2 (int (length b)) = Inr lb" and "length ib = 2" and "length lb = 2"
  using assms by (auto simp: encodeNxElem_def bindE_eq_Inr writeUIntBE_length)

lemma nx_read_back:
  assumes "encodeNxElem (i, b) = Inr bs"
  shows "walkNx (pre @ bs @ post) (Suc cnt) (length pre) = walkNx (pre @ bs @ post) cnt (length pre + length bs)"
    and "takeNx (pre @ bs @ post) (Suc cnt) (length pre) out =
           takeNx (pre @ bs @ post) cnt (length pre + length bs) (AList.update (nat i) b out)"
    and "0 \<le> i"
proof -
  from assms obtain ib lb where bs: "bs = ib @ lb @ b" and i: "writeUIntBE 2 i = Inr ib"
    and l: "writeUIntBE 2 (int (length b)) = Inr lb" and len: "length ib = 2" "length lb = 2"
    by (rule encodeNxElem_E)
  have ri: "readUIntBE 2 (pre @ bs @ post) (length pre) = Inr (nat i)"
    using writeUIntBE_read(1) [OF i, of pre "lb @ b @ post"] bs by simp
  have rl: "readUIntBE 2 (pre @ bs @ post) (length pre + 2) = Inr (length b)"
    using writeUIntBE_read(1) [OF l, of "pre @ ib" "b @ post"] bs len by simp
  have sub: "subarray (length pre + 4) (length pre + 4 + length b) (pre @ bs @ post) = b"
    using subarray_mid [of "pre @ ib @ lb" b post] bs len by (simp add: add.commute add.left_commute)
  have e: "length pre + length bs = length pre + 4 + length b"
    using bs len by simp
  have n1: "need (pre @ bs @ post) (length pre) (2 + 2) = Inr ()"
    and n2: "need (pre @ bs @ post) (length pre + 4) (length b) = Inr ()"
    using bs len by (simp_all add: need_def)
  show "walkNx (pre @ bs @ post) (Suc cnt) (length pre) = walkNx (pre @ bs @ post) cnt (length pre + length bs)"
    unfolding walkNx.simps n1 rl bindE_Inr n2 e ..
  show "takeNx (pre @ bs @ post) (Suc cnt) (length pre) out =
           takeNx (pre @ bs @ post) cnt (length pre + length bs) (AList.update (nat i) b out)"
    unfolding takeNx.simps ri rl bindE_Inr sub e ..
  show "0 \<le> i" by (rule writeUIntBE_read(3) [OF i])
qed

lemma nx_encoded:
  "mapE encodeNxElem nx = Inr els \<Longrightarrow>
     walkNx (pre @ concat els @ post) (length nx) (length pre) = Inr (length pre + length (concat els)) \<and>
     takeNx (pre @ concat els @ post) (length nx) (length pre) out =
       Inr (setAll out (map (\<lambda>(i, b). (nat i, b)) nx)) \<and>
     list_all (\<lambda>(i, b). 0 \<le> i) nx"
proof (induction nx arbitrary: pre els out)
  case Nil
  then show ?case by simp
next
  case (Cons e nx)
  obtain i b where e: "e = (i, b)" by (cases e)
  with Cons.prems obtain bs els' where x: "encodeNxElem (i, b) = Inr bs"
    and m: "mapE encodeNxElem nx = Inr els'" and els: "els = bs # els'"
    by (auto simp: bindE_eq_Inr)
  show ?case
    using Cons.IH [OF m, of "pre @ bs"] nx_read_back(1,2) [OF x, of pre "concat els' @ post"]
      nx_read_back(3) [OF x] els e
    by (simp add: add.assoc del: walkNx.simps takeNx.simps)
qed

section \<open>The scanner accepts what the encoder produces\<close>

definition shape_of :: "bool \<Rightarrow> record_shape" where
  "shape_of extended = (if extended then SHAPE_8E else SHAPE_8)"

lemma encodeHead_length: "encodeHead r = Inr h \<Longrightarrow> length h = 24"
  by (auto simp: encodeHead_def bindE_eq_Inr writeUIntBE_length writeIntBE_length)

lemma encodeRecord_E:
  assumes "encodeRecord r extended = Inr bs"
  obtains head groups nx ev total fixed var where
    "encodeHead r = Inr head" "splitIo extended (io r) (\<lambda>_. [], []) = Inr (groups, nx)"
    "writeUIntBE (if extended then 2 else 1) (eventIoId r) = Inr ev"
    "writeUIntBE (if extended then 2 else 1)
       (int (length (groups 1) + length (groups 2) + length (groups 4) + length (groups 8) + length nx)) = Inr total"
    "encodeGroups (if extended then 2 else 1) groups [1, 2, 4, 8] = Inr fixed"
    "if extended then \<exists>cnt els. writeUIntBE 2 (int (length nx)) = Inr cnt \<and>
         mapE encodeNxElem nx = Inr els \<and> var = cnt @ concat els
     else var = []"
    "bs = head @ ev @ total @ fixed @ var"
proof -
  let ?k = "if extended then 2 else 1 :: nat"
  have k: "?k \<in> {1, 2}" by simp
  from assms obtain head groups nx ev total fixed var where h: "encodeHead r = Inr head"
    "splitIo extended (io r) (\<lambda>_. [], []) = Inr (groups, nx)" "writeUIntBE ?k (eventIoId r) = Inr ev"
    "writeUIntBE ?k (int (length (groups 1) + length (groups 2) + length (groups 4)
       + length (groups 8) + length nx)) = Inr total"
    "encodeGroups ?k groups [1, 2, 4, 8] = Inr fixed" and
    v: "(if extended
            then bindE (writeUIntBE 2 (int (length nx))) (\<lambda>cnt.
                 bindE (mapE encodeNxElem nx) (\<lambda>els. Inr (cnt @ concat els)))
            else Inr []) = Inr var" and "bs = head @ ev @ total @ fixed @ var"
    unfolding encodeRecord_def Let_def writeId_eq [OF k]
    by (auto simp only: bindE_eq_Inr prod.case split_paired_Ex sum.inject)
  moreover from v have "if extended then \<exists>cnt els. writeUIntBE 2 (int (length nx)) = Inr cnt \<and>
         mapE encodeNxElem nx = Inr els \<and> var = cnt @ concat els
     else var = []"
    by (cases extended) (auto simp: bindE_eq_Inr)
  ultimately show thesis by (intro that)
qed

lemma splitIo_no_nx: "splitIo False els (g, nx) = Inr (g', nx') \<Longrightarrow> nx' = nx"
proof (induction els arbitrary: g)
  case Nil
  then show ?case by simp
next
  case (Cons e els)
  then show ?case
    by (cases e) (auto simp: bindE_eq_Inr split: if_splits io_value.splits)
qed

lemma walkRecord_encoded:
  assumes "encodeRecord r extended = Inr bs"
  shows "walkRecord (shape_of extended) bs 0 = Inr (length bs)"
  using assms
proof (rule encodeRecord_E)
  let ?k = "if extended then 2 else 1 :: nat" and ?s = "shape_of extended"
  fix head groups nx ev total fixed var
  assume h: "encodeHead r = Inr head"
    and sp: "splitIo extended (io r) (\<lambda>_. [], []) = Inr (groups, nx)"
    and e: "writeUIntBE ?k (eventIoId r) = Inr ev"
    and t: "writeUIntBE ?k (int (length (groups 1) + length (groups 2) + length (groups 4)
              + length (groups 8) + length nx)) = Inr total"
    and f: "encodeGroups ?k groups [1, 2, 4, 8] = Inr fixed"
    and v: "if extended then \<exists>cnt els. writeUIntBE 2 (int (length nx)) = Inr cnt \<and>
              mapE encodeNxElem nx = Inr els \<and> var = cnt @ concat els else var = []"
    and bs: "bs = head @ ev @ total @ fixed @ var"
  have k: "?k \<in> {1, 2}" by simp
  have s: "idSize ?s = ?k" "countSize ?s = ?k" "eventIdSize ?s = ?k" "\<not> generationType ?s"
    "nxGroup ?s = extended"
    by (simp_all add: shape_of_def shape_defs)
  have lh: "length head = 24" by (rule encodeHead_length [OF h])
  have le: "length ev = ?k" and lt: "length total = ?k"
    by (rule writeUIntBE_length [OF e], rule writeUIntBE_length [OF t])
  let ?N = "length (groups 1) + length (groups 2) + length (groups 4) + length (groups 8)"
  show ?thesis
  proof (rule walkRecord_InrI)
    show "readWidth bs (eventIdSize ?s) (0 + 24) = Inr (nat (eventIoId r), 0 + 24 + eventIdSize ?s)"
      using readWidth_written [OF e, of 24 head "total @ fixed @ var"] lh bs s by simp
    show "24 + ?k = 0 + 24 + eventIdSize ?s + (if generationType ?s then 1 else 0)"
      using s by simp
    show "24 + ?k \<le> length bs" using lh le bs by simp
    show "readWidth bs (countSize ?s) (24 + ?k) = Inr (?N + length nx, 24 + ?k + countSize ?s)"
      using readWidth_written [OF t, of "24 + ?k" "head @ ev" "fixed @ var"] lh le bs s by simp
    show "walkFixed ?s bs [1, 2, 4, 8] (24 + ?k + countSize ?s) 0 = Inr (24 + ?k + ?k + length fixed, ?N)"
      using walkFixed_encoded [OF s(1,2) k f, of "head @ ev @ total" var 0] lh le lt bs s
      by (simp add: add.assoc)
    show "if nxGroup ?s
     then \<exists>cnt. readWidth bs (countSize ?s) (24 + ?k + ?k + length fixed)
              = Inr (cnt, 24 + ?k + ?k + length fixed + countSize ?s) \<and>
            walkNx bs cnt (24 + ?k + ?k + length fixed + countSize ?s) = Inr (length bs) \<and>
            ?N + length nx = ?N + cnt
     else length bs = 24 + ?k + ?k + length fixed \<and> ?N + length nx = ?N"
    proof (cases extended)
      case True
      with v obtain cnt els where c: "writeUIntBE 2 (int (length nx)) = Inr cnt"
        and m: "mapE encodeNxElem nx = Inr els" and var: "var = cnt @ concat els" by auto
      have lc: "length cnt = 2" by (rule writeUIntBE_length [OF c])
      have "readWidth bs 2 (28 + length fixed) = Inr (length nx, 28 + length fixed + 2)"
        using readWidth_written [OF c, of "28 + length fixed" "head @ ev @ total @ fixed" "concat els"]
          True lh le lt bs var by simp
      moreover have "walkNx bs (length nx) (28 + length fixed + 2) = Inr (length bs)"
        using nx_encoded [OF m, of "head @ ev @ total @ fixed @ cnt" "[]"] True lh le lt lc bs var
        by (simp add: add.assoc add.commute add.left_commute)
      ultimately show ?thesis using True s by simp
    next
      case False
      with v sp have "var = []" and "nx = []" by (simp_all add: splitIo_no_nx)
      with False s bs lh le lt show ?thesis by simp
    qed
  qed
qed

end
