(* ===== verification/Parse.thy ===== *)
theory Parse
  imports Framer Encode
begin

text \<open>
  packages/codec/src/parse.ts, codec12.ts, udp.ts and index.ts: the parser of one complete frame
  (handshake, AVL data, command response), the Codec 12 command encoder, the UDP channel's header
  and re-wrapping, and the two acknowledgements.

  The wrapped third-party parser is the parameter \<open>lib\<close>: it maps the bytes of a frame to what the
  code observes of it, an exception (whose message does or does not mention a CRC) or the records'
  \<open>Elements\<close> objects as lists of entries. Strings are lists of 8-bit characters.
\<close>

section \<open>What the wrapped parser returns\<close>

datatype lib_value =
    LBigint int
  | LNumber "rat option"
  | LBoolean bool
  | LString string
  | LBuffer bytes
  | LOther

datatype lib_result = LibThrows bool | LibContent "(int \<times> lib_value) list list option"

text \<open>The string tests \<open>/^-?\d+$/\<close> and \<open>/^0x[0-9a-fA-F]+$/\<close>, and \<open>BigInt\<close> on what passed them.\<close>

definition is_digit :: "char \<Rightarrow> bool" where
  "is_digit c \<longleftrightarrow> of_char c \<ge> (48 :: nat) \<and> of_char c \<le> (57 :: nat)"

definition hex_value :: "char \<Rightarrow> nat option" where
  "hex_value c =
     (let n = of_char c :: nat in
      if 48 \<le> n \<and> n \<le> 57 then Some (n - 48)
      else if 65 \<le> n \<and> n \<le> 70 then Some (n - 55)
      else if 97 \<le> n \<and> n \<le> 102 then Some (n - 87)
      else None)"

definition digits_value :: "nat \<Rightarrow> string \<Rightarrow> int" where
  "digits_value base s = foldl (\<lambda>a c. a * int base + int (case hex_value c of Some d \<Rightarrow> d | None \<Rightarrow> 0)) 0 s"

definition is_decimal :: "string \<Rightarrow> bool" where
  "is_decimal s = (let t = (if s \<noteq> [] \<and> hd s = CHR ''-'' then tl s else s) in t \<noteq> [] \<and> list_all is_digit t)"

definition is_hex :: "string \<Rightarrow> bool" where
  "is_hex s \<longleftrightarrow> take 2 s = ''0x'' \<and> drop 2 s \<noteq> [] \<and> list_all (\<lambda>c. hex_value c \<noteq> None) (drop 2 s)"

definition bigint_of_decimal :: "string \<Rightarrow> int" where
  "bigint_of_decimal s =
     (if s \<noteq> [] \<and> hd s = CHR ''-'' then - digits_value 10 (tl s) else digits_value 10 s)"

definition latin1_bytes :: "string \<Rightarrow> bytes" where
  "latin1_bytes s = map of_char s"

definition latin1_string :: "bytes \<Rightarrow> string" where
  "latin1_string bs = map (\<lambda>b. char_of (unat b)) bs"

text \<open>Node's \<open>'ascii'\<close> decoder clears the high bit of each byte.\<close>

definition ascii_string :: "bytes \<Rightarrow> string" where
  "ascii_string bs = map (\<lambda>b. char_of (unat b mod 128)) bs"

definition is_imei :: "string \<Rightarrow> bool" where
  "is_imei s \<longleftrightarrow> 8 \<le> length s \<and> length s \<le> 17 \<and> list_all is_digit s"

text \<open>\<open>None\<close> is the code's \<open>null\<close>: a value the library could not decode.\<close>

fun normalizeIoValue :: "lib_value \<Rightarrow> codec_error + io_value option" where
  "normalizeIoValue (LBigint n) = Inr (Some (IoBig n))"
| "normalizeIoValue (LNumber None) = Inr None"
| "normalizeIoValue (LNumber (Some q)) =
     (if of_int \<lfloor>q\<rfloor> = q \<and> \<bar>\<lfloor>q\<rfloor>\<bar> < 2 ^ 53 then Inr (Some (IoBig \<lfloor>q\<rfloor>)) else Inr None)"
| "normalizeIoValue (LBoolean b) = Inr (Some (IoBig (if b then 1 else 0)))"
| "normalizeIoValue (LString s) =
     (if is_decimal s then Inr (Some (IoBig (bigint_of_decimal s)))
      else if is_hex s then Inr (Some (IoBig (digits_value 16 (drop 2 s))))
      else Inr (Some (IoBuf (latin1_bytes s))))"
| "normalizeIoValue (LBuffer b) = Inr (Some (IoBuf b))"
| "normalizeIoValue LOther = Inl FrameError"

definition normalizeEntries :: "(int \<times> lib_value) list \<Rightarrow> codec_error + (int \<times> io_value option) list" where
  "normalizeEntries d =
     bindE (mapE (\<lambda>(k, v). bindE (normalizeIoValue v) (\<lambda>x. Inr (k, x))) d) (\<lambda>es. Inr (setAll [] es))"

definition decodeIoWithLib ::
  "(bytes \<Rightarrow> lib_result) \<Rightarrow> bytes \<Rightarrow> nat \<Rightarrow> codec_error + (int \<times> io_value option) list list" where
  "decodeIoWithLib lib bs expectedCount =
     (case lib bs of
        LibThrows crc \<Rightarrow> Inl (if crc then CrcError else UndecodableRecordsError expectedCount)
      | LibContent None \<Rightarrow> Inl (UndecodableRecordsError expectedCount)
      | LibContent (Some rawDatas) \<Rightarrow>
          (if length rawDatas \<noteq> expectedCount then Inl (UndecodableRecordsError expectedCount)
           else mapE normalizeEntries rawDatas))"

section \<open>Parsed packets\<close>

record avl_record = encodable +
  genType :: "nat option"
  rec_raw :: bytes

datatype parsed_packet =
    PImei string
  | PAvl nat "avl_record list"
  | PCmd nat string bool

definition readByte :: "bytes \<Rightarrow> nat \<Rightarrow> codec_error + int" where
  "readByte bs off = bindE (readUIntBE 1 bs off) (\<lambda>n. Inr (int n))"

definition readU16 :: "bytes \<Rightarrow> nat \<Rightarrow> codec_error + int" where
  "readU16 bs off = bindE (readUIntBE 2 bs off) (\<lambda>n. Inr (int n))"

text \<open>The loop body of \<open>rawSlices.map\<close>: one record from its raw bytes and its decoded elements.\<close>

definition withNx :: "nat \<Rightarrow> bytes \<Rightarrow> (int \<times> io_value option) list \<Rightarrow> codec_error + (int \<times> io_value option) list" where
  "withNx codecId rw els =
     (if codecId = 0x8e
      then bindE (extractNx8e rw) (\<lambda>nx. Inr (setAll els (map (\<lambda>(k, b). (int k, Some (IoBuf b))) nx)))
      else Inr els)"

definition parseRecord :: "nat \<Rightarrow> bytes \<Rightarrow> (int \<times> io_value option) list \<Rightarrow> codec_error + avl_record" where
  "parseRecord codecId rw els0 =
     bindE (readUIntBE 8 rw 0) (\<lambda>ts.
     bindE (readByte rw 8) (\<lambda>prio.
     bindE (guardE (prio \<le> 2) FrameError) (\<lambda>_.
     bindE (withNx codecId rw els0) (\<lambda>els.
     bindE (guardE (list_all (\<lambda>(k, v). v \<noteq> None) els) FrameError) (\<lambda>_.
     bindE (readIntBE 4 rw 9) (\<lambda>lo.
     bindE (readIntBE 4 rw 13) (\<lambda>la.
     bindE (readIntBE 2 rw 17) (\<lambda>alt.
     bindE (readU16 rw 19) (\<lambda>ang.
     bindE (readByte rw 21) (\<lambda>sat.
     bindE (readU16 rw 22) (\<lambda>spd.
     bindE (if codecId = 0x08 then readByte rw 24 else readU16 rw 24) (\<lambda>ev.
     bindE (if codecId = 0x10 then bindE (generationTypeOf rw) (\<lambda>g. Inr (Some g)) else Inr None) (\<lambda>gt.
       Inr \<lparr>tsMs = int ts, priority = prio, lat = of_int la / 10000000, lon = of_int lo / 10000000,
            altitude = alt, angle = ang, satellites = sat, speed = spd, eventIoId = ev,
            io = map (\<lambda>(k, v). (k, the v)) els, genType = gt, rec_raw = rw\<rparr>)))))))))))))"

definition codecShape :: "nat \<Rightarrow> record_shape" where
  "codecShape codecId = (if codecId = 0x08 then SHAPE_8 else if codecId = 0x8e then SHAPE_8E else SHAPE_16)"

definition ioPerRecord ::
  "(bytes \<Rightarrow> lib_result) \<Rightarrow> nat \<Rightarrow> bytes \<Rightarrow> nat \<Rightarrow> bytes list \<Rightarrow> codec_error + (int \<times> io_value option) list list" where
  "ioPerRecord lib codecId bs n rawSlices =
     (if codecId = 0x10
      then mapE (\<lambda>rw. bindE (extractIo16 rw) (\<lambda>m. Inr (map (\<lambda>(k, v). (int k, Some (IoBig (int v)))) m))) rawSlices
      else decodeIoWithLib lib bs n)"

definition parseAvl :: "(bytes \<Rightarrow> lib_result) \<Rightarrow> bytes \<Rightarrow> nat \<Rightarrow> nat \<Rightarrow> codec_error + parsed_packet" where
  "parseAvl lib bs dataLen codecId =
     (let n1 = byte_at bs 9; n2 = byte_at bs (8 + dataLen - 1);
          codec = (if codecId = 0x08 then 8 else if codecId = 0x8e then 0x8e else 16) in
      bindE (guardE (n1 = n2) FrameError) (\<lambda>_.
      if n1 = Some 0 then Inr (PAvl codec [])
      else bindE (walkRecords (subarray 10 (8 + dataLen - 1) bs) (codecShape codecId)) (\<lambda>rawSlices.
           bindE (guardE (Some (length rawSlices) = n1) FrameError) (\<lambda>_.
           bindE (ioPerRecord lib codecId bs (length rawSlices) rawSlices) (\<lambda>ios.
           bindE (mapE (\<lambda>(rw, els). parseRecord codecId rw els) (zip rawSlices ios)) (\<lambda>records.
             Inr (PAvl codec records)))))))"

definition parseCommandFrame :: "bytes \<Rightarrow> nat \<Rightarrow> nat \<Rightarrow> codec_error + parsed_packet" where
  "parseCommandFrame bs dataLen codecId =
     bindE (guardE (\<not> dataLen < 7 + 1) FrameError) (\<lambda>_.
     bindE (readUIntBE 4 bs 11) (\<lambda>len.
     let type = byte_at bs 10; payloadEnd = 15 + len in
     bindE (guardE (payloadEnd + 1 = 8 + dataLen) FrameError) (\<lambda>_.
     let payload = subarray 15 payloadEnd bs;
         codec = (if codecId = 0x0c then 12 else if codecId = 0x0d then 13 else 14);
         textStart = (if codec = 13 then 4 else if codec = 14 then 8 else 0) in
     if codec = 14 \<and> type = Some 0x11 then Inr (PCmd codec [] True)
     else bindE (guardE (type = Some 0x05 \<or> type = Some 0x06) FrameError) (\<lambda>_.
          bindE (guardE (\<not> len < textStart) FrameError) (\<lambda>_.
            Inr (PCmd codec (latin1_string (drop textStart payload)) False))))))"

definition parseFrame :: "(bytes \<Rightarrow> lib_result) \<Rightarrow> frame \<Rightarrow> codec_error + parsed_packet" where
  "parseFrame lib f =
     (case f_kind f of
        KImei \<Rightarrow>
          (let imei = ascii_string (drop 2 (f_bytes f)) in
           bindE (guardE (is_imei imei) FrameError) (\<lambda>_. Inr (PImei imei)))
      | KAvl \<Rightarrow>
          (let bs = f_bytes f in
           bindE (readUIntBE 4 bs 4) (\<lambda>dataLen.
           bindE (guardE (length bs = 8 + dataLen + 4) FrameError) (\<lambda>_.
           bindE (readUIntBE 4 bs (8 + dataLen)) (\<lambda>crcExpected.
           bindE (guardE (crc16ibm (subarray 8 (8 + dataLen) bs) = crcExpected) CrcError) (\<lambda>_.
           case byte_at bs 8 of
             None \<Rightarrow> Inl FrameError
           | Some codecId \<Rightarrow>
               (if codecId \<in> {0x08, 0x8e, 0x10} then parseAvl lib bs dataLen codecId
                else if codecId \<in> {0x0c, 0x0d, 0x0e} then parseCommandFrame bs dataLen codecId
                else Inl FrameError)))))))"

section \<open>Which errors escape the parser\<close>

lemma normalizeIoValue_Inl: "normalizeIoValue v = Inl e \<Longrightarrow> e = FrameError"
  by (cases v rule: normalizeIoValue.cases) (auto split: if_splits)

lemma normalizeEntries_Inl: "normalizeEntries d = Inl e \<Longrightarrow> e = FrameError"
  by (auto simp: normalizeEntries_def bindE_eq_Inl dest!: mapE_InlE normalizeIoValue_Inl)

lemma decodeIoWithLib_Inl:
  "decodeIoWithLib lib bs n = Inl e \<Longrightarrow> e = FrameError \<or> e = CrcError \<or> e = UndecodableRecordsError n"
  by (auto simp: decodeIoWithLib_def split: lib_result.splits option.splits if_splits
      dest!: mapE_InlE normalizeEntries_Inl)

lemma decodeIoWithLib_length: "decodeIoWithLib lib bs n = Inr ios \<Longrightarrow> length ios = n"
  by (auto simp: decodeIoWithLib_def split: lib_result.splits option.splits if_splits
      dest!: mapE_Inr_length)

lemma ioPerRecord_Inl:
  "ioPerRecord lib c bs n rws = Inl e \<Longrightarrow>
     e = FrameError \<or> e = CrcError \<or> e = UndecodableRecordsError n \<and> c \<noteq> 0x10"
  by (auto simp: ioPerRecord_def bindE_eq_Inl split: if_splits
      dest!: mapE_InlE decodeIoWithLib_Inl extractIo16_Inl)

lemma ioPerRecord_length:
  "ioPerRecord lib c bs (length rws) rws = Inr ios \<Longrightarrow> length ios = length rws"
  by (auto simp: ioPerRecord_def split: if_splits dest!: mapE_Inr_length decodeIoWithLib_length)

lemma walked_length: "walkRecord s r 0 = Inr (length r) \<Longrightarrow> 24 + eventIdSize s + countSize s \<le> length r"
proof (erule walkRecord_InrE)
  fix v off2 nTotal off4 el el'
  assume o2: "off2 = 0 + 24 + eventIdSize s + (if generationType s then 1 else 0)"
    and n: "readWidth r (countSize s) off2 = Inr (nTotal, off2 + countSize s)"
  from n have "off2 + countSize s \<le> length r" by (simp add: readWidth_Inr)
  with o2 show ?thesis by (simp split: if_splits)
qed

lemma readU16_total: "off + 2 \<le> length r \<Longrightarrow> \<exists>v. readU16 r off = Inr v"
  by (simp add: readU16_def readUIntBE_def)

lemma readByte_total: "off + 1 \<le> length r \<Longrightarrow> \<exists>v. readByte r off = Inr v"
  by (simp add: readByte_def readUIntBE_def)

lemma readIntBE_total: "off + w \<le> length r \<Longrightarrow> \<exists>v. readIntBE w r off = Inr v"
  by (simp add: readIntBE_def readUIntBE_def)

lemma parseRecord_Inl:
  assumes w: "walkRecords data (codecShape c) = Inr rws" and m: "rw \<in> set rws"
    and e: "parseRecord c rw els = Inl e"
  shows "e = FrameError"
proof -
  have own: "walkRecord (codecShape c) rw 0 = Inr (length rw)"
    using w m walkFrom_sound [of "codecShape c" data 0 rws] by (simp add: walkRecords_def)
  have l: "26 \<le> length rw"
    using walked_length [OF own] by (auto simp: codecShape_def shape_defs split: if_splits)
  have l16: "27 \<le> length rw" if "c = 0x10"
    using walked_length [OF own] that by (simp add: codecShape_def shape_defs)
  have g: "generationTypeOf rw = Inl e' \<Longrightarrow> e' = FrameError" for e'
    using l by (auto simp: generationTypeOf_def bindE_eq_Inl guardE_eq_Inl guardE_eq_Inr readUIntBE_def split: if_splits)
  have nx: "\<exists>x. withNx c rw els = Inr x"
    using w m extractNx8e_total by (fastforce simp: withNx_def codecShape_def)
  have r: "readUIntBE 8 rw 0 = Inr (be_nat (take 8 rw))" using l by (simp add: readUIntBE_def)
  obtain x where x: "withNx c rw els = Inr x" using nx by blast
  obtain b8 where b8: "readByte rw 8 = Inr b8" using readByte_total [of 8 rw] l by auto
  obtain b21 where b21: "readByte rw 21 = Inr b21" using readByte_total [of 21 rw] l by auto
  obtain b24 where b24: "readByte rw 24 = Inr b24" using readByte_total [of 24 rw] l by auto
  obtain w19 where w19: "readU16 rw 19 = Inr w19" using readU16_total [of 19 rw] l by auto
  obtain w22 where w22: "readU16 rw 22 = Inr w22" using readU16_total [of 22 rw] l by auto
  obtain w24 where w24: "readU16 rw 24 = Inr w24" using readU16_total [of 24 rw] l by auto
  obtain i9 where i9: "readIntBE 4 rw 9 = Inr i9" using readIntBE_total [of 9 4 rw] l by auto
  obtain i13 where i13: "readIntBE 4 rw 13 = Inr i13" using readIntBE_total [of 13 4 rw] l by auto
  obtain i17 where i17: "readIntBE 2 rw 17 = Inr i17" using readIntBE_total [of 17 2 rw] l by auto
  have ev: "(if c = 0x08 then readByte rw 24 else readU16 rw 24) = Inr (if c = 0x08 then b24 else w24)"
    using b24 w24 by simp
  from e show ?thesis
    unfolding parseRecord_def r b8 b21 w19 w22 i9 i13 i17 x ev bindE_Inr
    using g by (auto simp: bindE_eq_Inl guardE_eq_Inl split: if_splits)
qed

lemma parseAvl_Inl:
  assumes "parseAvl lib bs dataLen c = Inl e"
  shows "e = FrameError \<or> e = CrcError \<or>
    (\<exists>rws. e = UndecodableRecordsError (length rws) \<and>
       byte_at bs 9 = Some (length rws) \<and> byte_at bs (8 + dataLen - 1) = Some (length rws) \<and>
       walkRecords (subarray 10 (8 + dataLen - 1) bs) (codecShape c) = Inr rws)"
proof (rule ccontr)
  assume n: "\<not> ?thesis"
  let ?w = "walkRecords (subarray 10 (8 + dataLen - 1) bs) (codecShape c)"
  from assms n have n12: "byte_at bs 9 = byte_at bs (8 + dataLen - 1)" and n0: "byte_at bs 9 \<noteq> Some 0"
    by (auto simp: parseAvl_def Let_def bindE_eq_Inl guardE_eq_Inl guardE_eq_Inr split: if_splits)
  show False
  proof (cases ?w)
    case (Inl e')
    then have "e' = FrameError" by (auto simp: walkRecords_def dest: walkFrom_Inl)
    with Inl assms n n12 n0 show False by (simp add: parseAvl_def Let_def)
  next
    case (Inr rws)
    from assms n have len: "Some (length rws) = byte_at bs 9"
      using n12 n0 Inr by (auto simp: parseAvl_def Let_def bindE_eq_Inl guardE_eq_Inl guardE_eq_Inr)
    show False
    proof (cases "ioPerRecord lib c bs (length rws) rws")
      case (Inl e')
      with assms n12 n0 Inr len have "e = e'" by (simp add: parseAvl_def Let_def)
      with ioPerRecord_Inl [OF Inl] n have u: "e = UndecodableRecordsError (length rws)" by auto
      moreover have "byte_at bs (8 + dataLen - 1) = Some (length rws)"
        using len n12 by simp
      ultimately show False using n len Inr by (metis \<open>?w = Inr rws\<close>)
    next
      case (Inr ios)
      with assms n12 n0 \<open>?w = Inr rws\<close> len obtain rw els where
        "rw \<in> set rws" and "parseRecord c rw els = Inl e"
        by (auto simp: parseAvl_def Let_def bindE_eq_Inl dest!: mapE_InlE dest: set_zip_leftD)
      with parseRecord_Inl [OF \<open>?w = Inr rws\<close>] n show False by blast
    qed
  qed
qed

lemma parseCommandFrame_Inl:
  assumes "length bs = 8 + dataLen + 4" and "parseCommandFrame bs dataLen c = Inl e"
  shows "e = FrameError"
proof (cases "dataLen < 8")
  case True
  with assms(2) show ?thesis by (simp add: parseCommandFrame_def)
next
  case False
  with assms(1) obtain len where "readUIntBE 4 bs 11 = Inr len" by (simp add: readUIntBE_def)
  with assms(2) False show ?thesis
    by (auto simp: parseCommandFrame_def Let_def bindE_eq_Inl guardE_eq_Inl split: if_splits)
qed

lemma dispatch_Inl:
  assumes "(if crc \<noteq> w then Inl x else if A then f else if B then g else Inl y) = Inl e"
  shows "e = x \<or> e = y \<or> B \<and> g = Inl e \<or> crc = w \<and> f = Inl e"
  using assms by (auto split: if_splits)

lemma parseFrame_avl:
  assumes "frame_ok m f" and "f_kind f = KAvl"
  obtains d crc c where "length (f_bytes f) = 8 + d + 4" and "readUIntBE 4 (f_bytes f) (8 + d) = Inr crc"
    and "parseFrame lib f =
      (if crc16ibm (subarray 8 (8 + d) (f_bytes f)) \<noteq> crc then Inl CrcError
       else if c \<in> {0x08, 0x8e, 0x10} then parseAvl lib (f_bytes f) d c
       else if c \<in> {0x0c, 0x0d, 0x0e} then parseCommandFrame (f_bytes f) d c else Inl FrameError)"
proof -
  let ?bs = "f_bytes f"
  from assms have l: "13 \<le> length ?bs" and r: "readUIntBE 4 ?bs 4 = Inr (length ?bs - 12)"
    by (simp_all add: frame_ok_def)
  define d where "d = length ?bs - 12"
  from l have len: "length ?bs = 8 + d + 4" by (simp add: d_def)
  have r': "readUIntBE 4 ?bs 4 = Inr d" using r by (simp add: d_def)
  obtain crc where crc: "readUIntBE 4 ?bs (8 + d) = Inr crc" using len by (simp add: readUIntBE_def)
  obtain c where c: "byte_at ?bs 8 = Some c" using len by (simp add: byte_at_def)
  have g: "guardE (length ?bs = 8 + d + 4) FrameError = Inr ()" using len by simp
  show ?thesis
  proof (rule that [OF len crc, of c], cases "crc16ibm (subarray 8 (8 + d) ?bs) = crc")
    case False
    then show "parseFrame lib f = (if crc16ibm (subarray 8 (8 + d) ?bs) \<noteq> crc then Inl CrcError
        else if c \<in> {0x08, 0x8e, 0x10} then parseAvl lib ?bs d c
        else if c \<in> {0x0c, 0x0d, 0x0e} then parseCommandFrame ?bs d c else Inl FrameError)"
      unfolding parseFrame_def assms(2) Let_def
      by (simp only: frame_kind.case r' g crc c bindE_Inr bindE_Inl guardE_False False simp_thms if_True)
  next
    case True
    then show "parseFrame lib f = (if crc16ibm (subarray 8 (8 + d) ?bs) \<noteq> crc then Inl CrcError
        else if c \<in> {0x08, 0x8e, 0x10} then parseAvl lib ?bs d c
        else if c \<in> {0x0c, 0x0d, 0x0e} then parseCommandFrame ?bs d c else Inl FrameError)"
      unfolding parseFrame_def assms(2) Let_def
      by (simp only: frame_kind.case r' g crc c bindE_Inr guardE_True option.case refl simp_thms if_False)
  qed
qed


text \<open>A concrete frame: one empty Codec 8 record, refused by the wrapped library.\<close>

definition sample_frame :: frame where
  "sample_frame = \<lparr>f_kind = KAvl, f_bytes =
     [0, 0, 0, 0, 0, 0, 0, 33] @ [8, 1, 0, 0, 0, 0, 0, 0, 173, 202] @ replicate 22 0 @ [1] @ [0, 0, 0, 5]\<rparr>"

lemma sample_frame_ok: "frame_ok 64 sample_frame"
  by code_simp

lemma sample_crc: "crc16ibm (subarray 8 (8 + 33) (f_bytes sample_frame)) = 5"
proof -
  have "subarray 8 (8 + 33) (f_bytes sample_frame) = [8, 1, 0, 0, 0, 0, 0, 0, 173, 202, 0, 0, 0, 0, 0, 0, 0,
      0, 0, 0, 0, 0, 0, 0, 0, 0, 0, 0, 0, 0, 0, 0, 1]"
    by code_simp
  then show ?thesis by (simp add: crc_eval)
qed

lemma sample_avl:
  "parseAvl (\<lambda>_. LibThrows False) (f_bytes sample_frame) 33 8 = Inl (UndecodableRecordsError 1)"
  by code_simp

lemma sample_frame_undecodable:
  "parseFrame (\<lambda>_. LibThrows False) sample_frame = Inl (UndecodableRecordsError 1)"
proof -
  have "f_kind sample_frame = KAvl" and "readUIntBE 4 (f_bytes sample_frame) 4 = Inr 33"
    and "length (f_bytes sample_frame) = 8 + 33 + 4" and "readUIntBE 4 (f_bytes sample_frame) (8 + 33) = Inr 5"
    and "byte_at (f_bytes sample_frame) 8 = Some 8"
    by code_simp+
  then show ?thesis using sample_crc sample_avl by (simp add: parseFrame_def)
qed


end
