(* ===== verification/RoundTrip.thy ===== *)
theory RoundTrip
  imports Parse
begin

text \<open>
  The encoder (packages/codec/src/encode.ts) and the parser (parse.ts) against each other: every
  packet the encoder produces is framed, passes its CRC, is cut into the encoded records and parses
  back to the same fields, for whatever wrapped library decodes the fixed-width elements as the
  codec documents them.
\<close>

section \<open>The head of a record\<close>

lemma writeUIntBE_at:
  assumes "writeUIntBE w n = Inr bs" and "length pre = off"
  shows "readUIntBE w (pre @ bs @ post) off = Inr (nat n)"
  using writeUIntBE_read(1) [OF assms(1)] assms(2) by blast

lemma writeIntBE_at:
  assumes "writeIntBE w n = Inr bs" and "0 < w" and "length pre = off"
  shows "readIntBE w (pre @ bs @ post) off = Inr n"
proof -
  from writeIntBE_value [OF assms(2,1)] have "signed_of (8 * w) (be_nat bs) = n" and "length bs = w"
    by simp_all
  with assms(3) show ?thesis
    using readUIntBE_append [of bs w pre post] by (simp add: readIntBE_def)
qed

lemma writeUIntBE_nonneg: "writeUIntBE w n = Inr bs \<Longrightarrow> int (nat n) = n"
  using writeUIntBE_read(3) by simp

lemma head_read_back:
  assumes "encodeHead r = Inr head"
  shows "readUIntBE 8 (head @ rest) 0 = Inr (nat (tsMs r))" "0 \<le> tsMs r"
    and "readByte (head @ rest) 8 = Inr (priority r)"
    and "readIntBE 4 (head @ rest) 9 = Inr (js_round (lon r * 10000000))"
    and "readIntBE 4 (head @ rest) 13 = Inr (js_round (lat r * 10000000))"
    and "readIntBE 2 (head @ rest) 17 = Inr (altitude r)"
    and "readU16 (head @ rest) 19 = Inr (angle r)"
    and "readByte (head @ rest) 21 = Inr (satellites r)"
    and "readU16 (head @ rest) 22 = Inr (speed r)"
proof -
  from assms obtain b0 b8 b9 b13 b17 b19 b21 b22 where
    w: "writeUIntBE 8 (tsMs r) = Inr b0" "writeUIntBE 1 (priority r) = Inr b8"
      "writeIntBE 4 (js_round (lon r * 10000000)) = Inr b9"
      "writeIntBE 4 (js_round (lat r * 10000000)) = Inr b13"
      "writeIntBE 2 (altitude r) = Inr b17" "writeUIntBE 2 (angle r) = Inr b19"
      "writeUIntBE 1 (satellites r) = Inr b21" "writeUIntBE 2 (speed r) = Inr b22"
    and h: "head = b0 @ b8 @ b9 @ b13 @ b17 @ b19 @ b21 @ b22"
    unfolding encodeHead_def by (auto simp only: bindE_eq_Inr sum.inject)
  note len = w(1,2,6-8) [THEN writeUIntBE_length] w(3-5) [THEN writeIntBE_length]
  note nn = w(1,2,6-8) [THEN writeUIntBE_nonneg]
  show "readUIntBE 8 (head @ rest) 0 = Inr (nat (tsMs r))"
    using writeUIntBE_at [OF w(1), of "[]" 0] h by simp
  show "0 \<le> tsMs r" by (rule writeUIntBE_read(3) [OF w(1)])
  show "readByte (head @ rest) 8 = Inr (priority r)"
    using writeUIntBE_at [OF w(2), of b0 8] len h nn by (simp add: readByte_def)
  show "readIntBE 4 (head @ rest) 9 = Inr (js_round (lon r * 10000000))"
    using writeIntBE_at [OF w(3), of "b0 @ b8" 9] len h by simp
  show "readIntBE 4 (head @ rest) 13 = Inr (js_round (lat r * 10000000))"
    using writeIntBE_at [OF w(4), of "b0 @ b8 @ b9" 13] len h by simp
  show "readIntBE 2 (head @ rest) 17 = Inr (altitude r)"
    using writeIntBE_at [OF w(5), of "b0 @ b8 @ b9 @ b13" 17] len h by simp
  show "readU16 (head @ rest) 19 = Inr (angle r)"
    using writeUIntBE_at [OF w(6), of "b0 @ b8 @ b9 @ b13 @ b17" 19] len h nn by (simp add: readU16_def)
  show "readByte (head @ rest) 21 = Inr (satellites r)"
    using writeUIntBE_at [OF w(7), of "b0 @ b8 @ b9 @ b13 @ b17 @ b19" 21] len h nn by (simp add: readByte_def)
  show "readU16 (head @ rest) 22 = Inr (speed r)"
    using writeUIntBE_at [OF w(8), of "b0 @ b8 @ b9 @ b13 @ b17 @ b19 @ b21" 22] len h nn
    by (simp add: readU16_def)
qed

section \<open>The elements of a record\<close>

definition fixedElems :: "encodable \<Rightarrow> (int \<times> io_value) set" where
  "fixedElems r = {(k, IoBig n) | k n. (k, IoBig n) \<in> set (io r)}"

lemma splitIo_sets:
  "splitIo extended els (g, nx) = Inr (g', nx') \<Longrightarrow>
     nx' = nx @ concat (map (\<lambda>(k, v). case v of IoBuf b \<Rightarrow> [(k, b)] | IoBig n \<Rightarrow> []) els)"
proof (induction els arbitrary: g nx)
  case Nil
  then show ?case by simp
next
  case (Cons e els)
  obtain k v where e: "e = (k, v)" by (cases e)
  show ?case
  proof (cases v)
    case (IoBig n)
    with Cons.prems e obtain g2 where "splitIo extended els (g2, nx) = Inr (g', nx')"
      by (auto simp: bindE_eq_Inr split: if_splits)
    from Cons.IH [OF this] e IoBig show ?thesis by simp
  next
    case (IoBuf b)
    with Cons.prems e have "splitIo extended els (g, nx @ [(k, b)]) = Inr (g', nx')"
      by (auto split: if_splits)
    from Cons.IH [OF this] e IoBuf show ?thesis by simp
  qed
qed

definition nxElems :: "encodable \<Rightarrow> (int \<times> bytes) list" where
  "nxElems r = concat (map (\<lambda>(k, v). case v of IoBuf b \<Rightarrow> [(k, b)] | IoBig n \<Rightarrow> []) (io r))"

lemma set_nxElems: "(k, b) \<in> set (nxElems r) \<longleftrightarrow> (k, IoBuf b) \<in> set (io r)"
  by (force simp: nxElems_def split: io_value.splits)

lemma nxElems_keys:
  assumes "distinct (map fst (io r))"
  shows "distinct (map fst (nxElems r))"
proof -
  define f where "f = (\<lambda>(k :: int, v). case v of IoBuf b \<Rightarrow> [(k, b)] | IoBig n \<Rightarrow> [])"
  have sub: "set (map fst (concat (map f els))) \<subseteq> set (map fst els)" for els
  proof (induction els)
    case Nil
    then show ?case by simp
  next
    case (Cons e els)
    have "set (map fst (f e)) \<subseteq> {fst e}"
      by (cases e; cases "snd e") (simp_all add: f_def)
    with Cons show ?case by auto
  qed
  have "distinct (map fst els) \<Longrightarrow> distinct (map fst (concat (map f els)))" for els
  proof (induction els)
    case Nil
    then show ?case by simp
  next
    case (Cons e els)
    obtain k v where e: "e = (k, v)" by (cases e)
    from Cons.prems e have "k \<notin> set (map fst (concat (map f els)))"
      using sub [of els] by auto
    moreover from Cons have "distinct (map fst (concat (map f els)))" by simp
    ultimately show ?case using e by (simp add: f_def split: io_value.splits)
  qed
  with assms show ?thesis by (simp add: nxElems_def f_def)
qed

lemma extractNx8e_encoded:
  assumes "encodeRecord r True = Inr bs" and d: "distinct (map fst (io r))"
  shows "extractNx8e bs = Inr (map (\<lambda>(k, b). (nat k, b)) (nxElems r)) \<and> list_all (\<lambda>(k, b). 0 \<le> k) (nxElems r)"
  using assms(1)
proof (rule encodeRecord_E)
  fix head groups nx ev total fixed var
  assume h: "encodeHead r = Inr head"
    and sp: "splitIo True (io r) (\<lambda>_. [], []) = Inr (groups, nx)"
    and e: "writeUIntBE (if True then 2 else 1) (eventIoId r) = Inr ev"
    and t: "writeUIntBE (if True then 2 else 1) (int (length (groups 1) + length (groups 2) + length (groups 4)
              + length (groups 8) + length nx)) = Inr total"
    and f: "encodeGroups (if True then 2 else 1) groups [1, 2, 4, 8] = Inr fixed"
    and v: "if True then \<exists>cnt els. writeUIntBE 2 (int (length nx)) = Inr cnt \<and>
              mapE encodeNxElem nx = Inr els \<and> var = cnt @ concat els else var = []"
    and bs: "bs = head @ ev @ total @ fixed @ var"
  from v obtain cnt els where c: "writeUIntBE 2 (int (length nx)) = Inr cnt"
    and m: "mapE encodeNxElem nx = Inr els" and var: "var = cnt @ concat els" by auto
  have nx: "nx = nxElems r" using splitIo_sets [OF sp] by (simp add: nxElems_def)
  have lh: "length head = 24" by (rule encodeHead_length [OF h])
  have le: "length ev = 2" and lt: "length total = 2"
    using writeUIntBE_length [OF e] writeUIntBE_length [OF t] by simp_all
  have lc: "length cnt = 2" by (rule writeUIntBE_length [OF c])
  have r1: "readUIntBE 2 bs (24 + 2) = Inr (length (groups 1) + length (groups 2) + length (groups 4)
      + length (groups 8) + length nx)"
    using writeUIntBE_at [OF t [simplified], of "head @ ev" 26 "fixed @ var"] lh le bs by simp
  have fx: "walkFixed SHAPE_8E bs [1, 2, 4, 8] 28 0 =
      Inr (28 + length fixed, \<Sum>z\<leftarrow>[1, 2, 4, 8]. length (groups z))"
    using walkFixed_encoded [of SHAPE_8E 2 groups "[1, 2, 4, 8]" fixed "head @ ev @ total" var 0] f lh le lt bs
    by (simp add: SHAPE_8E_def)
  have r2: "skipFixed8e bs [1, 2, 4, 8] (24 + 2 + 2) = Inr (28 + length fixed)"
    using walkFixed_skip [OF fx] by simp
  have r3: "readUIntBE 2 bs (28 + length fixed) = Inr (length nx)"
    using writeUIntBE_at [OF c, of "head @ ev @ total @ fixed" "28 + length fixed" "concat els"] lh le lt bs var
    by simp
  have n: "takeNx bs (length nx) (28 + length fixed + 2) [] = Inr (setAll [] (map (\<lambda>(i, b). (nat i, b)) nx))"
    and pos: "list_all (\<lambda>(i, b). 0 \<le> i) nx"
    using nx_encoded [OF m, of "head @ ev @ total @ fixed @ cnt" "[]" "[]"] lh le lt lc bs var
    by (simp_all add: add.assoc add.commute add.left_commute)
  have "distinct (map fst (map (\<lambda>(i, b). (nat i, b)) nx))"
  proof -
    have "map fst (map (\<lambda>(i, b). (nat i, b)) nx) = map nat (map fst nx)" by auto
    moreover have "inj_on nat (set (map fst nx))"
      proof (rule inj_onI)
      fix x y
      assume "x \<in> set (map fst nx)" and "y \<in> set (map fst nx)" and "nat x = nat y"
      moreover from this pos have "0 \<le> x" and "0 \<le> y" by (auto simp: list_all_iff)
      ultimately show "x = y" by simp
    qed
    moreover have "distinct (map fst nx)" using nxElems_keys [OF d] nx by simp
    ultimately show ?thesis by (simp only: distinct_map [of nat "map fst nx"])
  qed
  then have "setAll [] (map (\<lambda>(i, b). (nat i, b)) nx) = map (\<lambda>(i, b). (nat i, b)) nx"
    using setAll_distinct [of "[]" "map (\<lambda>(i, b). (nat i, b)) nx"] by (simp del: map_map)
  with r1 r2 r3 n pos nx show ?thesis by (simp add: extractNx8e_def)
qed

section \<open>One record, encoded and parsed\<close>

text \<open>What the library is documented to return for one record: the fixed-width elements, each once,
  as values that normalise to their unsigned number.\<close>

definition lib_decodes :: "encodable \<Rightarrow> (int \<times> lib_value) list \<Rightarrow> bool" where
  "lib_decodes r d \<longleftrightarrow>
     distinct (map fst d) \<and>
     (\<forall>(k, v) \<in> set d. \<exists>n. normalizeIoValue v = Inr (Some (IoBig n)) \<and> (k, IoBig n) \<in> set (io r)) \<and>
     (\<forall>(k, x) \<in> set (io r). case x of IoBig n \<Rightarrow> k \<in> fst ` set d | IoBuf b \<Rightarrow> True)"

text \<open>The fields of the parsed record are those of the encoded one, the coordinates at the wire's
  resolution of 1e-7 degrees, the elements as a map, and \<open>raw\<close> is the encoding itself.\<close>

definition same_record :: "bytes \<Rightarrow> encodable \<Rightarrow> avl_record \<Rightarrow> bool" where
  "same_record bs r p \<longleftrightarrow>
     tsMs p = tsMs r \<and> priority p = priority r \<and>
     lat p = of_int (js_round (lat r * 10000000)) / 10000000 \<and>
     lon p = of_int (js_round (lon r * 10000000)) / 10000000 \<and>
     altitude p = altitude r \<and> angle p = angle r \<and> satellites p = satellites r \<and>
     speed p = speed r \<and> eventIoId p = eventIoId r \<and>
     map_of (io p) = map_of (io r) \<and> genType p = None \<and> rec_raw p = bs"

lemma mapE_total: "(\<And>x. x \<in> set xs \<Longrightarrow> \<exists>y. f x = Inr y) \<Longrightarrow> \<exists>ys. mapE f xs = Inr ys"
proof (induction xs)
  case Nil
  then show ?case by simp
next
  case (Cons x xs)
  then obtain y ys where "f x = Inr y" "mapE f xs = Inr ys" by fastforce
  then show ?case by simp
qed

lemma normalizeEntries_decodes:
  assumes "lib_decodes r d"
  obtains es where "normalizeEntries d = Inr es" and "map fst es = map fst d"
    and "\<And>k v. (k, v) \<in> set es \<Longrightarrow> \<exists>n. v = Some (IoBig n) \<and> (k, IoBig n) \<in> set (io r)"
proof -
  define g where "g = (\<lambda>(k :: int, v). (k, case normalizeIoValue v of Inr x \<Rightarrow> x | Inl _ \<Rightarrow> None))"
  have "bindE (normalizeIoValue v) (\<lambda>x. Inr (k, x)) = Inr (g (k, v))"
    if "(k, v) \<in> set d" for k v
    using assms that by (auto simp: lib_decodes_def g_def)
  then have m: "mapE (\<lambda>(k, v). bindE (normalizeIoValue v) (\<lambda>x. Inr (k, x))) d = Inr (map g d)"
    by (intro mapE_Inr_I) auto
  have f: "map fst (map g d) = map fst d" by (auto simp: g_def)
  with assms have "setAll [] (map g d) = map g d"
    using setAll_distinct [of "[]" "map g d"] by (simp add: lib_decodes_def del: map_map)
  with m have n: "normalizeEntries d = Inr (map g d)" by (simp add: normalizeEntries_def)
  moreover have "\<exists>n. v = Some (IoBig n) \<and> (k, IoBig n) \<in> set (io r)" if kv: "(k, v) \<in> set (map g d)" for k v
  proof -
    from kv obtain v0 where "(k, v0) \<in> set d" and "v = snd (g (k, v0))"
      by (auto simp: g_def)
    with assms show ?thesis by (auto simp: lib_decodes_def g_def)
  qed
  ultimately show thesis using that f by blast
qed

lemma map_of_same:
  assumes "distinct (map fst a)" and "distinct (map fst b)" and "set a = set b"
  shows "map_of a = map_of b"
proof
  fix k
  have "map_of a k = Some v \<longleftrightarrow> map_of b k = Some v" for v
    using assms by (metis map_of_eq_Some_iff)
  then show "map_of a k = map_of b k"
    by (metis not_Some_eq option.exhaust)
qed

lemma lib_decodes_set:
  assumes ld: "lib_decodes r d" and f: "map fst es = map fst d"
    and m: "\<And>k v. (k, v) \<in> set es \<Longrightarrow> \<exists>n. v = Some (IoBig n) \<and> (k, IoBig n) \<in> set (io r)"
    and dist: "distinct (map fst (io r))"
  shows "set (map (\<lambda>(k, v). (k, the v)) es) = fixedElems r"
proof (intro equalityI subsetI)
  fix x
  assume "x \<in> set (map (\<lambda>(k, v). (k, the v)) es)"
  then show "x \<in> fixedElems r" using m by (fastforce simp: fixedElems_def)
next
  fix x
  assume "x \<in> fixedElems r"
  then obtain k n where x: "x = (k, IoBig n)" and i: "(k, IoBig n) \<in> set (io r)"
    by (auto simp: fixedElems_def)
  with ld have "k \<in> fst ` set d" by (fastforce simp: lib_decodes_def)
  then have "k \<in> set (map fst es)" using f by simp
  then obtain v where kv: "(k, v) \<in> set es" by auto
  from m [OF kv] obtain n' where v: "v = Some (IoBig n')" and "(k, IoBig n') \<in> set (io r)" by blast
  with i dist have "n' = n" by (metis eq_key_imp_eq_value io_value.inject(1))
  with kv v x show "x \<in> set (map (\<lambda>(k, v). (k, the v)) es)" by force
qed

lemma io_elems: "set (io r) = fixedElems r \<union> {(k, IoBuf b) | k b. (k, b) \<in> set (nxElems r)}"
proof (intro equalityI subsetI)
  fix x
  assume x: "x \<in> set (io r)"
  obtain k v where kv: "x = (k, v)" by (cases x)
  with x show "x \<in> fixedElems r \<union> {(k, IoBuf b) | k b. (k, b) \<in> set (nxElems r)}"
    by (cases v) (simp_all add: fixedElems_def set_nxElems)
next
  fix x
  assume "x \<in> fixedElems r \<union> {(k, IoBuf b) | k b. (k, b) \<in> set (nxElems r)}"
  then show "x \<in> set (io r)" by (auto simp: fixedElems_def set_nxElems)
qed

lemma set_IoBuf_image:
  "set (map (\<lambda>(k, b). (k, IoBuf b)) xs) = {(k, IoBuf b) | k b. (k, b) \<in> set xs}"
  by (induction xs) auto

definition codecOf :: "bool \<Rightarrow> nat" where
  "codecOf extended = (if extended then 0x8e else 0x08)"

lemma withNx_encoded:
  assumes enc: "encodeRecord r extended = Inr bs" and dist: "distinct (map fst (io r))"
    and ld: "lib_decodes r d" and es: "normalizeEntries d = Inr es"
  obtains els where "withNx (codecOf extended) bs es = Inr els"
    and "list_all (\<lambda>(k, v). v \<noteq> None) els"
    and "map_of (map (\<lambda>(k, v). (k, the v)) els) = map_of (io r)"
proof -
  obtain es' where "normalizeEntries d = Inr es'" and f: "map fst es' = map fst d"
    and m: "\<And>k v. (k, v) \<in> set es' \<Longrightarrow> \<exists>n. v = Some (IoBig n) \<and> (k, IoBig n) \<in> set (io r)"
    using normalizeEntries_decodes [OF ld] by blast
  with es have es': "es' = es" by simp
  note f = f [unfolded es'] and m = m [unfolded es']
  have fs: "set (map (\<lambda>(k, v). (k, the v)) es) = fixedElems r"
    by (rule lib_decodes_set [OF ld f m dist])
  have de: "distinct (map fst es)" using f ld by (simp add: lib_decodes_def)
  have some: "list_all (\<lambda>(k, v). v \<noteq> None) es" using m by (force simp: list_all_iff)
  show thesis
  proof (cases extended)
    case False
    have "nxElems r = []"
      using enc False splitIo_sets [of False "io r" "\<lambda>_. []" "[]"] splitIo_no_nx [of "io r" "\<lambda>_. []" "[]"]
      by (auto simp: nxElems_def elim!: encodeRecord_E)
    then have "set (io r) = fixedElems r"
      using io_elems [of r] by simp
    with fs have "set (map (\<lambda>(k, v). (k, the v)) es) = set (io r)" by simp
    moreover have "distinct (map fst (map (\<lambda>(k, v). (k, the v)) es))"
      using de by (simp add: case_prod_beta comp_def)
    ultimately have "map_of (map (\<lambda>(k, v). (k, the v)) es) = map_of (io r)"
      using dist by (intro map_of_same)
    moreover have "withNx (codecOf extended) bs es = Inr es"
      using False by (simp add: withNx_def codecOf_def)
    ultimately show thesis using that some by blast
  next
    case True
    let ?nx = "map (\<lambda>(k, b). (k, Some (IoBuf b))) (nxElems r)"
    from extractNx8e_encoded [of r bs] enc dist True
    have x: "extractNx8e bs = Inr (map (\<lambda>(k, b). (nat k, b)) (nxElems r))"
      and pos: "list_all (\<lambda>(k, b). 0 \<le> k) (nxElems r)" by simp_all
    have nx: "map (\<lambda>(k, b). (int k, Some (IoBuf b))) (map (\<lambda>(k, b). (nat k, b)) (nxElems r)) = ?nx"
      using pos by (auto simp: list_all_iff)
    have dn: "distinct (map fst ?nx)"
      using nxElems_keys [OF dist] by (simp add: case_prod_beta comp_def)
    have disj: "set (map fst es) \<inter> set (map fst ?nx) = {}"
    proof -
      have "k \<notin> set (map fst ?nx)" if k: "k \<in> set (map fst es)" for k
      proof
        assume "k \<in> set (map fst ?nx)"
        then obtain b where "(k, b) \<in> set (nxElems r)" by auto
        then have "(k, IoBuf b) \<in> set (io r)" by (simp add: set_nxElems)
        moreover from k m obtain n where "(k, IoBig n) \<in> set (io r)" by fastforce
        ultimately have "IoBuf b = IoBig n" using dist by (metis eq_key_imp_eq_value)
        then show False by simp
      qed
      then show ?thesis by blast
    qed
    have "distinct (map fst (es @ ?nx))" using de dn disj by (simp del: map_map)
    then have sa: "setAll es ?nx = es @ ?nx" by (rule setAll_distinct)
    then have w: "withNx (codecOf extended) bs es = Inr (es @ ?nx)"
      using True x nx by (simp add: withNx_def codecOf_def del: map_map)
    have "set (map (\<lambda>(k, v). (k, the v)) (es @ ?nx)) = set (io r)"
    proof -
      have "set (map (\<lambda>(k, v). (k, the v)) ?nx) = {(k, IoBuf b) | k b. (k, b) \<in> set (nxElems r)}"
      proof -
        have "map (\<lambda>(k, v). (k, the v)) ?nx = map (\<lambda>(k, b). (k, IoBuf b)) (nxElems r)" by auto
        then show ?thesis by (simp only: set_IoBuf_image)
      qed
      then show ?thesis using fs io_elems [of r] by (simp only: map_append set_append)
    qed
    moreover have "distinct (map fst (map (\<lambda>(k, v). (k, the v)) (es @ ?nx)))"
      using \<open>distinct (map fst (es @ ?nx))\<close> by (simp add: case_prod_beta comp_def)
    ultimately have "map_of (map (\<lambda>(k, v). (k, the v)) (es @ ?nx)) = map_of (io r)"
      using dist by (intro map_of_same)
    moreover have "list_all (\<lambda>(k, v). v \<noteq> None) (es @ ?nx)"
      using some by (auto simp: list_all_iff)
    ultimately show thesis using that w by blast
  qed
qed

lemma parseRecord_encoded:
  assumes enc: "encodeRecord r extended = Inr bs" and dist: "distinct (map fst (io r))"
    and ld: "lib_decodes r d" and es: "normalizeEntries d = Inr es" and prio: "priority r \<le> 2"
  shows "\<exists>p. parseRecord (codecOf extended) bs es = Inr p \<and> same_record bs r p"
  using enc
proof (rule encodeRecord_E)
  fix head groups nx ev total fixed var
  assume h: "encodeHead r = Inr head"
    and e: "writeUIntBE (if extended then 2 else 1) (eventIoId r) = Inr ev"
    and bs: "bs = head @ ev @ total @ fixed @ var"
  have lh: "length head = 24" by (rule encodeHead_length [OF h])
  obtain els where w: "withNx (codecOf extended) bs es = Inr els"
    and some: "list_all (\<lambda>(k, v). v \<noteq> None) els"
    and map: "map_of (map (\<lambda>(k, v). (k, the v)) els) = map_of (io r)"
    by (rule withNx_encoded [OF enc dist ld es])
  note hd = head_read_back(1,3-9) [OF h, of "ev @ total @ fixed @ var", folded bs]
  have re: "(if codecOf extended = 0x08 then readByte bs 24 else readU16 bs 24) = Inr (eventIoId r)"
    using writeUIntBE_at [OF e, of head 24 "total @ fixed @ var"] writeUIntBE_nonneg [OF e] lh bs
    by (auto simp: codecOf_def readByte_def readU16_def)
  have c: "codecOf extended \<noteq> 0x10" by (simp add: codecOf_def)
  have ev: "codecOf extended = 0x10 \<longleftrightarrow> False" using c by simp
  show ?thesis
    unfolding parseRecord_def hd bindE_Inr w re ev
    using prio some map head_read_back(2) [OF h] by (simp add: same_record_def)
qed

section \<open>A data field in its frame\<close>

lemma frame_data_fields:
  assumes "frame_data data = Inr bs"
  shows "length bs = 8 + length data + 4" and "readUIntBE 4 bs 0 = Inr 0"
    and "readUIntBE 4 bs 4 = Inr (length data)"
    and "subarray 8 (8 + length data) bs = data"
    and "readUIntBE 4 bs (8 + length data) = Inr (crc16ibm data)"
    and "drop 8 bs = data @ drop (8 + length data) bs"
proof -
  from assms obtain len crc where l: "writeUIntBE 4 (int (length data)) = Inr len"
    and c: "writeUIntBE 4 (int (crc16ibm data)) = Inr crc" and bs: "bs = [0, 0, 0, 0] @ len @ data @ crc"
    unfolding frame_data_def by (auto simp only: bindE_eq_Inr sum.inject)
  have ll: "length len = 4" and lc: "length crc = 4"
    by (rule writeUIntBE_length [OF l], rule writeUIntBE_length [OF c])
  show "length bs = 8 + length data + 4" using bs ll lc by simp
  show "readUIntBE 4 bs 0 = Inr 0"
    using readUIntBE_append [of "[0, 0, 0, 0]" 4 "[]" "len @ data @ crc"] bs by (simp add: be_nat_def)
  show "readUIntBE 4 bs 4 = Inr (length data)"
    using writeUIntBE_at [OF l, of "[0, 0, 0, 0]" 4 "data @ crc"] bs by simp
  show "subarray 8 (8 + length data) bs = data"
    using subarray_mid [of "[0, 0, 0, 0] @ len" data crc] bs ll by (simp add: add.commute)
  show "readUIntBE 4 bs (8 + length data) = Inr (crc16ibm data)"
    using writeUIntBE_at [OF c, of "[0, 0, 0, 0] @ len @ data" "8 + length data" "[]"] bs ll by simp
  show "drop 8 bs = data @ drop (8 + length data) bs" using bs ll by (simp add: numeral_eq_Suc)
qed

lemma frame_data_byte:
  assumes "frame_data data = Inr bs" and "i < length data"
  shows "byte_at bs (8 + i) = Some (unat (data ! i))"
proof -
  have "bs ! (8 + i) = drop 8 bs ! i"
    using frame_data_fields(1) [OF assms(1)] by simp
  also have "\<dots> = data ! i"
    using frame_data_fields(6) [OF assms(1)] assms(2) by (simp add: nth_append)
  finally show ?thesis
    using frame_data_fields(1) [OF assms(1)] assms(2) by (simp add: byte_at_def)
qed

lemma frame_data_total: "length data < 2 ^ 32 \<Longrightarrow> \<exists>bs. frame_data data = Inr bs"
  using crc16ibm_bound [of data] by (simp add: frame_data_def writeUIntBE_def)

lemma parse_framed:
  assumes f: "frame_data data = Inr bs" and ne: "data \<noteq> []" and c: "c = unat (data ! 0)"
  shows "c \<in> {0x08, 0x8e, 0x10} \<Longrightarrow> parseFrame lib \<lparr>f_kind = KAvl, f_bytes = bs\<rparr> = parseAvl lib bs (length data) c"
    and "c \<in> {0x0c, 0x0d, 0x0e} \<Longrightarrow>
      parseFrame lib \<lparr>f_kind = KAvl, f_bytes = bs\<rparr> = parseCommandFrame bs (length data) c"
proof -
  note fd = frame_data_fields [OF f]
  have b: "byte_at bs 8 = Some c"
    using frame_data_byte [OF f, of 0] ne c by simp
  have r: "readUIntBE 4 bs (8 + length data) = Inr (crc16ibm data)" by (rule fd(5))
  have p: "parseFrame lib \<lparr>f_kind = KAvl, f_bytes = bs\<rparr> =
      (if c \<in> {0x08, 0x8e, 0x10} then parseAvl lib bs (length data) c
       else if c \<in> {0x0c, 0x0d, 0x0e} then parseCommandFrame bs (length data) c else Inl FrameError)"
    unfolding parseFrame_def frame.simps Let_def
    by (simp only: frame_kind.case fd(1,3,4) r b bindE_Inr guardE_True refl option.case)
  show "c \<in> {0x08, 0x8e, 0x10} \<Longrightarrow> parseFrame lib \<lparr>f_kind = KAvl, f_bytes = bs\<rparr> = parseAvl lib bs (length data) c"
    unfolding p by (rule if_P)
  assume c2: "c \<in> {0x0c, 0x0d, 0x0e}"
  then have n: "c \<notin> {0x08, 0x8e, 0x10}" by auto
  show "parseFrame lib \<lparr>f_kind = KAvl, f_bytes = bs\<rparr> = parseCommandFrame bs (length data) c"
    unfolding p if_not_P [OF n] using c2 by (rule if_P)
qed

section \<open>A packet\<close>

lemma mapE_zip:
  assumes "length xs = length ys" and "\<And>i. i < length xs \<Longrightarrow> \<exists>z. f (xs ! i) (ys ! i) = Inr z \<and> Q i z"
  shows "\<exists>zs. mapE (\<lambda>(x, y). f x y) (zip xs ys) = Inr zs \<and> length zs = length xs \<and> (\<forall>i < length xs. Q i (zs ! i))"
  using assms
proof (induction xs ys arbitrary: Q rule: list_induct2)
  case Nil
  then show ?case by simp
next
  case (Cons x xs y ys)
  from Cons.prems [of 0] obtain z where z: "f x y = Inr z" "Q 0 z" by auto
  have "\<And>i. i < length xs \<Longrightarrow> \<exists>z. f (xs ! i) (ys ! i) = Inr z \<and> Q (Suc i) z"
    using Cons.prems by (metis Suc_less_eq length_Cons nth_Cons_Suc)
  from Cons.IH [OF this] obtain zs where "mapE (\<lambda>(x, y). f x y) (zip xs ys) = Inr zs" "length zs = length xs"
    "\<forall>i < length xs. Q (Suc i) (zs ! i)" by blast
  with z show ?case
    by (intro exI [of _ "z # zs"]) (auto simp: nth_Cons split: nat.splits)
qed

lemma encodeAvlPacket_E:
  assumes "encodeAvlPacket codec records = Inr pkt"
  obtains parts where "length records \<le> 0xff"
    and "mapE (\<lambda>r. encodeRecord r (codec = 0x8e)) records = Inr parts"
    and "frame_data ([of_nat codec, of_nat (length records)] @ concat parts @ [of_nat (length records)]) = Inr pkt"
  using assms unfolding encodeAvlPacket_def Let_def
  by (auto simp only: bindE_eq_Inr guardE_eq_Inr)

lemma encoded_slices:
  assumes "mapE (\<lambda>r. encodeRecord r ext) records = Inr parts"
  shows "walkRecords (concat parts) (shape_of ext) = Inr parts"
proof -
  have "walkRecord (shape_of ext) p 0 = Inr (length p)" if "p \<in> set parts" for p
  proof -
    from that obtain i where i: "i < length parts" "p = parts ! i" by (auto simp: in_set_conv_nth)
    then have "encodeRecord (records ! i) ext = Inr p"
      using mapE_Inr_nth [OF assms] mapE_Inr_length [OF assms] by simp
    then show ?thesis by (rule walkRecord_encoded)
  qed
  then show ?thesis
    unfolding walkRecords_def using walkFrom_complete [of parts "shape_of ext" "[]"] by simp
qed

lemma encoded_packet:
  assumes enc: "encodeAvlPacket codec records = Inr pkt" and codec: "codec = 8 \<or> codec = 0x8e"
  obtains parts d where "mapE (\<lambda>r. encodeRecord r (codec = 0x8e)) records = Inr parts"
    and "parseFrame lib \<lparr>f_kind = KAvl, f_bytes = pkt\<rparr> = parseAvl lib pkt d codec"
    and "byte_at pkt 9 = Some (length records)" and "byte_at pkt (8 + d - 1) = Some (length records)"
    and "subarray 10 (8 + d - 1) pkt = concat parts"
proof -
  let ?n = "length records"
  from enc obtain parts where n: "?n \<le> 0xff" and m: "mapE (\<lambda>r. encodeRecord r (codec = 0x8e)) records = Inr parts"
    and f: "frame_data ([of_nat codec, of_nat ?n] @ concat parts @ [of_nat ?n]) = Inr pkt"
    by (rule encodeAvlPacket_E)
  define data where "data = [of_nat codec, of_nat ?n] @ concat parts @ [of_nat ?n :: byte]"
  note f = f [folded data_def]
  have bn: "unat (of_nat ?n :: byte) = ?n" and bc: "unat (of_nat codec :: byte) = codec"
    using n codec by (auto simp: unat_of_nat take_bit_eq_mod)
  have dl: "length data = length (concat parts) + 3" by (simp add: data_def)
  show thesis
  proof (rule that [OF m, of "length data"])
    show "parseFrame lib \<lparr>f_kind = KAvl, f_bytes = pkt\<rparr> = parseAvl lib pkt (length data) codec"
      by (rule parse_framed(1) [OF f]) (use codec bc in \<open>auto simp: data_def\<close>)
    show "byte_at pkt 9 = Some ?n"
      using frame_data_byte [OF f, of 1] dl bn by (simp add: data_def)
    have "data ! (length data - 1) = of_nat ?n" using dl by (simp add: data_def nth_append)
    then show "byte_at pkt (8 + length data - 1) = Some ?n"
      using frame_data_byte [OF f, of "length data - 1"] dl bn by simp
    have "drop 10 pkt = drop 2 (drop 8 pkt)" by simp
    also have "\<dots> = drop 2 (data @ drop (8 + length data) pkt)"
      by (rule arg_cong [OF frame_data_fields(6) [OF f]])
    finally have "drop 10 pkt = drop 2 (data @ drop (8 + length data) pkt)" .
    then show "subarray 10 (8 + length data - 1) pkt = concat parts" by (simp add: subarray_def data_def)
  qed
qed

lemma decoded_elements:
  assumes "list_all2 lib_decodes records ds"
  obtains ess where "mapE normalizeEntries ds = Inr ess" and "length ess = length records"
proof -
  have "\<exists>y. normalizeEntries d = Inr y" if "d \<in> set ds" for d
    using that assms by (auto simp: list_all2_conv_all_nth in_set_conv_nth elim!: normalizeEntries_decodes)
  then obtain ess where ess: "mapE normalizeEntries ds = Inr ess" using mapE_total that by blast
  then show thesis using that mapE_Inr_length [OF ess] assms by (simp add: list_all2_lengthD)
qed

lemma encoded_records:
  assumes m: "mapE (\<lambda>r. encodeRecord r (codec = 0x8e)) records = Inr parts" and cd: "codec = codecOf (codec = 0x8e)"
    and wf: "list_all (\<lambda>r. priority r \<le> 2 \<and> distinct (map fst (io r))) records"
    and ld: "list_all2 lib_decodes records ds" and ess: "mapE normalizeEntries ds = Inr ess"
  obtains ps where "mapE (\<lambda>(x, y). parseRecord codec x y) (zip parts ess) = Inr ps" and "length ps = length parts"
    and "\<forall>i < length parts. \<exists>rw. encodeRecord (records ! i) (codec = 0x8e) = Inr rw \<and> same_record rw (records ! i) (ps ! i)"
proof -
  have lp: "length parts = length records" by (rule mapE_Inr_length [OF m])
  have lds: "length ds = length records" using ld by (simp add: list_all2_lengthD)
  have le: "length ess = length records" using mapE_Inr_length [OF ess] lds by simp
  have each: "\<exists>p. parseRecord codec (parts ! i) (ess ! i) = Inr p \<and>
      (\<exists>rw. encodeRecord (records ! i) (codec = 0x8e) = Inr rw \<and> same_record rw (records ! i) p)" if i: "i < length parts" for i
  proof -
    have e: "encodeRecord (records ! i) (codec = 0x8e) = Inr (parts ! i)"
      using mapE_Inr_nth [OF m] i lp by simp
    have "distinct (map fst (io (records ! i)))" and "priority (records ! i) \<le> 2"
      using wf i lp by (simp_all add: list_all_length)
    moreover have "lib_decodes (records ! i) (ds ! i)"
      using ld i lp by (simp add: list_all2_conv_all_nth)
    moreover have "normalizeEntries (ds ! i) = Inr (ess ! i)"
      using mapE_Inr_nth [OF ess] i lp lds by simp
    ultimately show ?thesis
      using parseRecord_encoded [OF e] e cd by metis
  qed
  show thesis
    using mapE_zip [of parts ess "parseRecord codec"
        "\<lambda>i p. \<exists>rw. encodeRecord (records ! i) (codec = 0x8e) = Inr rw \<and> same_record rw (records ! i) p"] each lp le that
    by auto
qed


text \<open>A concrete packet: one 8E record with a fixed-width and a variable-length element.\<close>

definition sample_record :: encodable where
  "sample_record = \<lparr>tsMs = 0, priority = 1, lat = 0, lon = 0, altitude = 0, angle = 0, satellites = 15,
     speed = 0, eventIoId = 1, io = [(1, IoBig 120), (5, IoBuf [0xAB])]\<rparr>"

definition sample_raw :: bytes where
  "sample_raw = [0, 0, 0, 0, 0, 0, 0, 0, 1, 0, 0, 0, 0, 0, 0, 0, 0, 0, 0, 0, 0, 15, 0, 0, 0, 1, 0, 2,
     0, 1, 0, 1, 120, 0, 0, 0, 0, 0, 0, 0, 1, 0, 5, 0, 1, 171]"

lemma sample_encodes1: "encodeHead sample_record = Inr (take 24 sample_raw)"
  by code_simp

lemma sample_encodes2: "splitIo True (io sample_record) (\<lambda>_. [], []) =
      Inr ((\<lambda>_. [])(1 := [(1, 120)]), [(5, [0xAB])])"
  by (simp add: sample_record_def valueSize_def)

lemma sample_encodes3: "encodeGroups 2 ((\<lambda>_. [])(1 := [(1, 120)])) [1, 2, 4, 8] =
   Inr [0, 1, 0, 1, 120, 0, 0, 0, 0, 0, 0]"
  by code_simp

lemma sample_encodes4: "encodeNxElem (5, [0xAB]) = Inr [0, 5, 0, 1, 0xAB]"
  by (simp add: encodeNxElem_def writeUIntBE_def numeral_2_eq_2)

lemma sample_encodes: "encodeRecord sample_record True = Inr sample_raw"
proof -
  have w: "writeId (eventIoId sample_record) 2 = Inr [0, 1]" "writeId 2 2 = Inr [0, 2]"
    "writeUIntBE 2 1 = Inr [0, 1]" by code_simp+
  have "sample_raw = take 24 sample_raw @ [0, 1] @ [0, 2] @ [0, 1, 0, 1, 120, 0, 0, 0, 0, 0, 0] @
      [0, 1] @ [0, 5, 0, 1, 0xAB]" by (simp add: sample_raw_def)
  then show ?thesis
    by (simp only: encodeRecord_def sample_encodes1 sample_encodes2 bindE_Inr Let_def if_True prod.case w)
      (simp add: sample_encodes3 [simplified] sample_encodes4 w)
qed

lemma sample_packet_crc: "crc16ibm ([0x8e, 1] @ sample_raw @ [1]) = 0"
  by (simp add: crc_eval sample_raw_def)

lemma sample_packet:
  "encodeAvlPacket 0x8e [sample_record] =
     Inr ([0, 0, 0, 0, 0, 0, 0, 49, 0x8e, 1] @ sample_raw @ [1, 0, 0, 0, 0])"
proof -
  have "writeUIntBE 4 49 = Inr [0, 0, 0, 49]" and "writeUIntBE 4 0 = Inr [0, 0, 0, 0]"
    by code_simp+
  moreover have "length sample_raw = 46" by (simp add: sample_raw_def)
  ultimately show ?thesis
    using sample_packet_crc by (simp add: encodeAvlPacket_def frame_data_def sample_encodes)
qed


end
