(* ===== verification/Channels.thy ===== *)
theory Channels
  imports RoundTrip
begin

text \<open>
  packages/codec/src/codec12.ts (commands to the device and their answers), udp.ts (the
  connectionless channel, which re-wraps its payload into a TCP frame and parses it with the one
  parser) and the replies of index.ts.
\<close>

section \<open>Replies\<close>

definition encodeAck :: "int \<Rightarrow> codec_error + bytes" where
  "encodeAck count = writeUIntBE 4 count"

definition encodeImeiReply :: "bool \<Rightarrow> bytes" where
  "encodeImeiReply accept = [if accept then 1 else 0]"

section \<open>Codec 12\<close>

definition encodeCodec12 :: "string \<Rightarrow> codec_error + bytes" where
  "encodeCodec12 cmd =
     bindE (guardE (length cmd \<noteq> 0) FrameError) (\<lambda>_.
     let ascii = latin1_bytes cmd in
     bindE (writeUIntBE 4 (int (length ascii))) (\<lambda>len.
       let data = [0x0c, 0x01, 0x05] @ len @ ascii @ [0x01] in
       frame_data data))"

definition decodeCodec12 :: "(bytes \<Rightarrow> lib_result) \<Rightarrow> frame \<Rightarrow> codec_error + string" where
  "decodeCodec12 lib f =
     bindE (parseFrame lib f) (\<lambda>parsed.
       case parsed of
         PCmd codec text nack \<Rightarrow> if codec = 12 then Inr text else Inl FrameError
       | _ \<Rightarrow> Inl FrameError)"

lemma latin1_inverse [simp]: "latin1_string (latin1_bytes s) = s"
proof -
  have "char_of (unat (of_char c :: byte)) = c" for c :: char
  proof -
    have "(of_char c :: byte) = of_nat (of_char c)" by (simp add: of_nat_of_char)
    then have "unat (of_char c :: byte) = of_char c"
      using nat_of_char_less_256 [of c] by (simp add: unat_of_nat take_bit_eq_mod)
    then show ?thesis by simp
  qed
  then show ?thesis by (simp add: latin1_string_def latin1_bytes_def comp_def)
qed

text \<open>A Codec 12 command survives its wire format: what \<open>encodeCodec12\<close> frames for a non-empty
  command of fewer than 2^32 - 8 characters, \<open>decodeCodec12\<close> reads back as the same text, whatever
  the wrapped library does (it is not consulted).\<close>

theorem codec12_roundtrip:
  assumes "cmd \<noteq> []" and "length cmd < 2 ^ 32 - 8"
  shows "\<exists>bs. encodeCodec12 cmd = Inr bs \<and> decodeCodec12 lib \<lparr>f_kind = KAvl, f_bytes = bs\<rparr> = Inr cmd"
proof -
  have la: "length (latin1_bytes cmd) = length cmd" by (simp add: latin1_bytes_def)
  obtain len where l: "writeUIntBE 4 (int (length cmd)) = Inr len"
    using assms(2) by (simp add: writeUIntBE_def)
  have ll: "length len = 4" by (rule writeUIntBE_length [OF l])
  define data where "data = [0x0c, 0x01, 0x05] @ len @ latin1_bytes cmd @ [0x01 :: byte]"
  have dl: "length data = length cmd + 8" by (simp add: data_def la ll)
  then obtain bs where f: "frame_data data = Inr bs"
    using frame_data_total [of data] assms(2) by auto
  have enc: "encodeCodec12 cmd = Inr bs"
    using assms(1) l f la by (simp add: encodeCodec12_def data_def)
  have d8: "drop 8 bs = data @ drop (8 + length data) bs" by (rule frame_data_fields(6) [OF f])
  have b10: "byte_at bs 10 = Some 0x05"
    using frame_data_byte [OF f, of 2] dl by (simp add: data_def)
  have lb: "length bs = 8 + length data + 4" by (rule frame_data_fields(1) [OF f])
  have r11: "readUIntBE 4 bs 11 = Inr (length cmd)"
  proof -
    have "drop 11 bs = drop 3 (drop 8 bs)" by simp
    also have "\<dots> = len @ latin1_bytes cmd @ [0x01] @ drop (8 + length data) bs"
      unfolding d8 by (simp add: data_def)
    finally have "take 4 (drop 11 bs) = len" using ll by simp
    moreover have "int (be_nat len) = int (length cmd)" using writeUIntBE_value [OF l] by simp
    ultimately show ?thesis using lb dl by (simp add: readUIntBE_def)
  qed
  have sub: "subarray 15 (15 + length cmd) bs = latin1_bytes cmd"
  proof -
    have "drop 15 bs = drop 7 (drop 8 bs)" by simp
    also have "\<dots> = latin1_bytes cmd @ [0x01] @ drop (8 + length data) bs"
      unfolding d8 using ll by (simp add: data_def)
    finally show ?thesis by (simp add: subarray_def la)
  qed
  have "parseFrame lib \<lparr>f_kind = KAvl, f_bytes = bs\<rparr> = parseCommandFrame bs (length data) 0x0c"
    by (rule parse_framed(2) [OF f]) (simp_all add: data_def)
  also have "\<dots> = Inr (PCmd 12 cmd False)"
    using dl r11 b10 sub by (simp add: parseCommandFrame_def Let_def)
  finally show ?thesis using enc by (simp add: decodeCodec12_def)
qed

theorem codec12_roundtrip_witness:
  "\<exists>bs. encodeCodec12 ''getver'' = Inr bs \<and>
     decodeCodec12 (\<lambda>_. LibThrows True) \<lparr>f_kind = KAvl, f_bytes = bs\<rparr> = Inr ''getver''"
  by (rule codec12_roundtrip) simp_all

section \<open>The UDP channel\<close>

record udp_header =
  packetId :: nat
  avlPacketId :: nat
  udp_imei :: string
  avlData :: bytes

definition decodeUdpHeader :: "bytes \<Rightarrow> codec_error + udp_header" where
  "decodeUdpHeader datagram =
     bindE (guardE (\<not> length datagram < 8) FrameError) (\<lambda>_.
     bindE (readUIntBE 2 datagram 0) (\<lambda>len.
     bindE (guardE (int len = int (length datagram) - 2) FrameError) (\<lambda>_.
     bindE (readUIntBE 2 datagram 2) (\<lambda>pid.
     bindE (readUIntBE 1 datagram 5) (\<lambda>aid.
     bindE (readUIntBE 2 datagram 6) (\<lambda>imeiLen.
     let imeiEnd = 8 + imeiLen in
     bindE (guardE (\<not> (imeiLen = 0 \<or> 64 < imeiLen \<or> length datagram < imeiEnd)) FrameError) (\<lambda>_.
     let imei = ascii_string (subarray 8 imeiEnd datagram) in
     bindE (guardE (is_imei imei) FrameError) (\<lambda>_.
       Inr \<lparr>packetId = pid, avlPacketId = aid, udp_imei = imei, avlData = drop imeiEnd datagram\<rparr>))))))))"

definition wrapAsTcpFrame :: "bytes \<Rightarrow> codec_error + bytes" where
  "wrapAsTcpFrame data =
     bindE (writeUIntBE 4 (int (length data))) (\<lambda>len.
     bindE (writeUIntBE 4 (int (crc16ibm data))) (\<lambda>crc.
       Inr ([0, 0, 0, 0] @ len @ data @ crc)))"

definition parseUdpAvl :: "(bytes \<Rightarrow> lib_result) \<Rightarrow> bytes \<Rightarrow> codec_error + parsed_packet" where
  "parseUdpAvl lib data =
     bindE (guardE (\<not> length data < 3) FrameError) (\<lambda>_.
     bindE (wrapAsTcpFrame data) (\<lambda>bs. parseFrame lib \<lparr>f_kind = KAvl, f_bytes = bs\<rparr>))"

definition decodeUdpPacket :: "(bytes \<Rightarrow> lib_result) \<Rightarrow> bytes \<Rightarrow> codec_error + udp_header \<times> parsed_packet" where
  "decodeUdpPacket lib datagram =
     bindE (decodeUdpHeader datagram) (\<lambda>h. bindE (parseUdpAvl lib (avlData h)) (\<lambda>p. Inr (h, p)))"

text \<open>The ids and the count are non-negative integers, so \<open>& 0xff\<close> is \<open>mod 256\<close>.\<close>

definition encodeUdpAck :: "nat \<Rightarrow> nat \<Rightarrow> nat \<Rightarrow> bytes" where
  "encodeUdpAck pid aid count =
     be_bytes 2 5 @ be_bytes 2 (pid mod 65536) @ [1] @ [of_nat (aid mod 256)] @ [of_nat (count mod 256)]"

lemma wrapAsTcpFrame_frame_data: "wrapAsTcpFrame data = frame_data data"
  by (simp add: wrapAsTcpFrame_def frame_data_def)

lemma be_bytes_read:
  assumes "readUIntBE w bs off = Inr n" and "off + w \<le> length bs"
  shows "writeUIntBE w (int n) = Inr (take w (drop off bs))"
proof -
  have n: "n = be_nat (take w (drop off bs))" and "length (take w (drop off bs)) = w"
    using assms by (auto simp: readUIntBE_def split: if_splits)
  then show ?thesis
    using be_bytes_be_nat [of "take w (drop off bs)"] readUIntBE_bound [OF assms(1)]
    by (simp add: writeUIntBE_def)
qed

lemma be4_zero: "be_bytes 4 0 = [0, 0, 0, 0]"
  by code_simp

text \<open>The two transports share one decoder: for any TCP data frame the framer hands out whose CRC
  is right and whose data field has at least three bytes, stripping the preamble, length and CRC and
  sending the bare data over UDP gives exactly the same result, packet or error.\<close>

theorem udp_agrees_with_tcp:
  assumes ok: "frame_ok m f" and avl: "f_kind f = KAvl" and len: "15 \<le> length (f_bytes f)"
    and d: "data = subarray 8 (length (f_bytes f) - 4) (f_bytes f)"
    and crc: "readUIntBE 4 (f_bytes f) (length (f_bytes f) - 4) = Inr (crc16ibm data)"
  shows "parseUdpAvl lib data = parseFrame lib f"
proof -
  let ?bs = "f_bytes f"
  define n where "n = length ?bs - 12"
  have lb: "length ?bs = 8 + n + 4" using len by (simp add: n_def)
  have ld: "length data = n" using d lb by (simp add: length_subarray)
  from ok avl have r0: "readUIntBE 4 ?bs 0 = Inr 0" and r4: "readUIntBE 4 ?bs 4 = Inr n"
    by (simp_all add: frame_ok_def n_def)
  have w1: "writeUIntBE 4 (int (length data)) = Inr (take 4 (drop 4 ?bs))"
    using be_bytes_read [OF r4] lb ld by simp
  have w2: "writeUIntBE 4 (int (crc16ibm data)) = Inr (drop (8 + n) ?bs)"
    using be_bytes_read [OF crc] lb by simp
  have "writeUIntBE 4 (int 0) = Inr (take 4 (drop 0 ?bs))"
    by (rule be_bytes_read [OF r0]) (use lb in simp)
  then have w0: "take 4 ?bs = [0, 0, 0, 0]"
    by (simp add: writeUIntBE_def be4_zero)
  have "?bs = take 4 ?bs @ take 4 (drop 4 ?bs) @ data @ drop (8 + n) ?bs"
  proof -
    have "data @ drop (8 + n) ?bs = drop 8 ?bs"
      using d lb by (simp add: subarray_def) (metis append_take_drop_id drop_drop add.commute)
    moreover have "take 4 (drop 4 ?bs) @ drop 8 ?bs = drop 4 ?bs"
      using append_take_drop_id [of 4 "drop 4 ?bs"] by simp
    ultimately show ?thesis using append_take_drop_id [of 4 ?bs] by simp
  qed
  then have "wrapAsTcpFrame data = Inr ?bs"
    using w0 w1 w2 by (simp add: wrapAsTcpFrame_def)
  moreover have "f = \<lparr>f_kind = KAvl, f_bytes = ?bs\<rparr>" using avl by simp
  moreover have "\<not> length data < 3" using ld lb len by simp
  ultimately show ?thesis by (simp add: parseUdpAvl_def)
qed

theorem udp_agrees_with_tcp_witness:
  "parseUdpAvl (\<lambda>_. LibThrows False) (subarray 8 41 (f_bytes sample_frame)) =
     parseFrame (\<lambda>_. LibThrows False) sample_frame"
proof (rule udp_agrees_with_tcp [OF sample_frame_ok])
  have l: "length (f_bytes sample_frame) = 45" by code_simp
  then show "15 \<le> length (f_bytes sample_frame)"
    and "subarray 8 41 (f_bytes sample_frame) =
      subarray 8 (length (f_bytes sample_frame) - 4) (f_bytes sample_frame)" by simp_all
  show "f_kind sample_frame = KAvl" by code_simp
  have "readUIntBE 4 (f_bytes sample_frame) 41 = Inr 5" by code_simp
  then show "readUIntBE 4 (f_bytes sample_frame) (length (f_bytes sample_frame) - 4) =
      Inr (crc16ibm (subarray 8 41 (f_bytes sample_frame)))"
    using l sample_crc by simp
qed

end
