(* ===== verification/JsText.thy ===== *)
theory JsText
  imports Prelude
begin

text \<open>
  What the components use of JavaScript's strings and string-to-number conversion. A string is a
  list of 8-bit characters. A number is an exact rational, NaN or an infinity; the rounding of a
  decimal literal to the nearest double is not modelled.
\<close>

datatype jsnum = JNaN | JInf bool | JNum rat

definition is_finite :: "jsnum \<Rightarrow> bool" where
  "is_finite x = (case x of JNum q \<Rightarrow> True | _ \<Rightarrow> False)"

definition is_space :: "char \<Rightarrow> bool" where
  "is_space c \<longleftrightarrow> of_char c \<in> {9, 10, 11, 12, 13, 32, 160 :: nat}"

definition trim :: "string \<Rightarrow> string" where
  "trim s = rev (dropWhile is_space (rev (dropWhile is_space s)))"

definition upper_char :: "char \<Rightarrow> char" where
  "upper_char c = (let n = of_char c :: nat in if 97 \<le> n \<and> n \<le> 122 then char_of (n - 32) else c)"

definition toUpperCase :: "string \<Rightarrow> string" where
  "toUpperCase s = map upper_char s"

definition digit :: "char \<Rightarrow> nat option" where
  "digit c = (let n = of_char c :: nat in if 48 \<le> n \<and> n \<le> 57 then Some (n - 48) else None)"

definition all_digits :: "string \<Rightarrow> bool" where
  "all_digits s \<longleftrightarrow> list_all (\<lambda>c. digit c \<noteq> None) s"

definition decimal_nat :: "string \<Rightarrow> nat" where
  "decimal_nat s = foldl (\<lambda>a c. a * 10 + (case digit c of Some d \<Rightarrow> d | None \<Rightarrow> 0)) 0 s"

text \<open>\<open>split_at P s\<close>: the part before the first character satisfying \<open>P\<close>, and the part after it.\<close>

definition split_at :: "(char \<Rightarrow> bool) \<Rightarrow> string \<Rightarrow> string \<times> string option" where
  "split_at P s =
     (let a = takeWhile (\<lambda>c. \<not> P c) s; b = dropWhile (\<lambda>c. \<not> P c) s in
      (a, if b = [] then None else Some (tl b)))"

definition js_sign :: "string \<Rightarrow> bool \<times> string" where
  "js_sign s = (if s \<noteq> [] \<and> hd s = CHR ''-'' then (True, tl s)
                else if s \<noteq> [] \<and> hd s = CHR ''+'' then (False, tl s) else (False, s))"

text \<open>An unsigned decimal literal without exponent: digits, an optional point and more digits, at least
  one digit in all.\<close>

definition js_mantissa :: "string \<Rightarrow> rat option" where
  "js_mantissa s =
     (let (a, ob) = split_at (\<lambda>c. c = CHR ''.'') s; b = (case ob of None \<Rightarrow> [] | Some t \<Rightarrow> t) in
      if a @ b \<noteq> [] \<and> all_digits a \<and> all_digits b
      then Some (of_nat (decimal_nat (a @ b)) / 10 ^ length b) else None)"

definition js_exponent :: "string option \<Rightarrow> int option" where
  "js_exponent oe =
     (case oe of None \<Rightarrow> Some 0
      | Some e \<Rightarrow> (let (neg, ds) = js_sign e in
          if ds \<noteq> [] \<and> all_digits ds then Some (if neg then - int (decimal_nat ds) else int (decimal_nat ds))
          else None))"

definition scale10 :: "rat \<Rightarrow> int \<Rightarrow> rat" where
  "scale10 q e = (if 0 \<le> e then q * 10 ^ nat e else q / 10 ^ nat (- e))"

text \<open>The literals with a radix prefix; they take no sign.\<close>

definition radix_of :: "string \<Rightarrow> nat option" where
  "radix_of s =
     (if take 2 s = ''0x'' \<or> take 2 s = ''0X'' then Some 16
      else if take 2 s = ''0o'' \<or> take 2 s = ''0O'' then Some 8
      else if take 2 s = ''0b'' \<or> take 2 s = ''0B'' then Some 2 else None)"

definition radix_digit :: "nat \<Rightarrow> char \<Rightarrow> nat option" where
  "radix_digit base c =
     (let n = of_char (upper_char c) :: nat;
          d = (if 48 \<le> n \<and> n \<le> 57 then Some (n - 48) else if 65 \<le> n \<and> n \<le> 70 then Some (n - 55) else None) in
      case d of Some k \<Rightarrow> if k < base then Some k else None | None \<Rightarrow> None)"

definition radix_number :: "nat \<Rightarrow> string \<Rightarrow> jsnum" where
  "radix_number base ds =
     (if ds \<noteq> [] \<and> list_all (\<lambda>c. radix_digit base c \<noteq> None) ds
      then JNum (of_nat (foldl (\<lambda>a c. a * base + (case radix_digit base c of Some d \<Rightarrow> d | None \<Rightarrow> 0)) 0 ds))
      else JNaN)"

definition js_Number_str :: "string \<Rightarrow> jsnum" where
  "js_Number_str s0 =
     (let s = trim s0; (neg, u) = js_sign s in
      if s = [] then JNum 0
      else case radix_of s of
        Some base \<Rightarrow> radix_number base (drop 2 s)
      | None \<Rightarrow>
          (if u = ''Infinity'' then JInf neg
           else let (m, oe) = split_at (\<lambda>c. c = CHR ''e'' \<or> c = CHR ''E'') u in
             (case (js_mantissa m, js_exponent oe) of
                (Some q, Some e) \<Rightarrow> JNum (if neg then - scale10 q e else scale10 q e)
              | _ \<Rightarrow> JNaN)))"

text \<open>\<open>Number(undefined)\<close> is NaN.\<close>

definition js_Number :: "string option \<Rightarrow> jsnum" where
  "js_Number os = (case os of None \<Rightarrow> JNaN | Some s \<Rightarrow> js_Number_str s)"

definition is_integer :: "jsnum \<Rightarrow> bool" where
  "is_integer x = (case x of JNum q \<Rightarrow> of_int \<lfloor>q\<rfloor> = q | _ \<Rightarrow> False)"

lemma js_Number_examples:
  "js_Number_str ''-40'' = JNum (- 40)" "js_Number_str '' 12.5 '' = JNum (25 / 2)"
  "js_Number_str ''-1E+2'' = JNum (- 100)" "js_Number_str ''max'' = JNaN" "js_Number_str ''0x1F'' = JNum 31"
  by (simp_all add: js_Number_str_def trim_def is_space_def js_sign_def split_at_def js_mantissa_def
      js_exponent_def all_digits_def digit_def decimal_nat_def scale10_def radix_of_def radix_number_def
      radix_digit_def upper_char_def Let_def)

end
