(* ===== verification/Dictionary.thy ===== *)
theory Dictionary
  imports Bytes JsText
begin

text \<open>
  packages/codec/src/dictionaries.ts: the AVL dictionaries. Which table decodes a model, the reading
  of a wire value as two's complement where the table's row supports it, the Multiplier cell, the
  validation of a dictionary file and the cached loader. The generated JSON files are data: the
  catalogue and the file contents are parameters.
\<close>

section \<open>Entries and files\<close>

record dict_entry =
  d_name :: string
  d_bytes :: "string option"
  d_type :: string
  d_min :: "string option"
  d_max :: "string option"

record dictionary_file =
  source_url :: string
  retrieved_at :: string
  elements :: "(string \<times> dict_entry) list"

type_synonym dictionary = "(int \<times> dict_entry) list"

section \<open>Model to table\<close>

definition model_table :: "(string \<times> string) list \<Rightarrow> (string \<times> string) list" where
  "model_table catalogue = setAll [] (map (\<lambda>(m, d). (toUpperCase m, d)) catalogue)"

definition tableForModel :: "(string \<times> string) list \<Rightarrow> string \<Rightarrow> string option" where
  "tableForModel catalogue model = map_of (model_table catalogue) (toUpperCase (trim model))"

section \<open>Sign extension\<close>

definition width_bits :: "string \<Rightarrow> nat option" where
  "width_bits s =
     (if s = ''1'' then Some 8 else if s = ''2'' then Some 16
      else if s = ''4'' then Some 32 else if s = ''8'' then Some 64 else None)"

definition asIntN :: "nat \<Rightarrow> int \<Rightarrow> int" where
  "asIntN bits v = signed_of bits (nat (v mod 2 ^ bits))"

definition offset_refused :: "nat \<Rightarrow> rat \<Rightarrow> jsnum \<Rightarrow> bool" where
  "offset_refused bits mn mx =
     (case mx of
        JNum m \<Rightarrow>
          (let offsetEncoded = (m - mn \<le> 2 ^ bits - 1 \<and> - (2 ^ (bits - 1)) < mn) in
           offsetEncoded \<and> 2 ^ (bits - 1) - 1 < m)
      | _ \<Rightarrow> False)"

definition applySign :: "dict_entry option \<Rightarrow> int \<Rightarrow> int" where
  "applySign oe v =
     (case oe of None \<Rightarrow> v
      | Some e \<Rightarrow>
          (if d_type e \<noteq> ''Signed'' \<or> v < 0 then v
           else case d_bytes e of None \<Rightarrow> v
           | Some b \<Rightarrow>
               (case width_bits (trim b) of None \<Rightarrow> v
                | Some bits \<Rightarrow>
                    (if 2 ^ bits \<le> v then v
                     else case js_Number (d_min e) of
                         JNum mn \<Rightarrow>
                           (if \<not> mn < 0 then v
                            else if offset_refused bits mn (js_Number (d_max e)) then v
                            else asIntN bits v)
                       | _ \<Rightarrow> v))))"

text \<open>The rows that are read as two's complement, and at which width.\<close>

definition sign_width :: "dict_entry option \<Rightarrow> nat option" where
  "sign_width oe =
     (case oe of None \<Rightarrow> None
      | Some e \<Rightarrow>
          (if d_type e \<noteq> ''Signed'' then None
           else case d_bytes e of None \<Rightarrow> None
           | Some b \<Rightarrow>
               (case width_bits (trim b) of None \<Rightarrow> None
                | Some bits \<Rightarrow>
                    (case js_Number (d_min e) of
                       JNum mn \<Rightarrow>
                         (if mn < 0 \<and> \<not> offset_refused bits mn (js_Number (d_max e)) then Some bits else None)
                     | _ \<Rightarrow> None))))"

lemma width_bits_pos: "width_bits s = Some bits \<Longrightarrow> 8 \<le> bits"
  by (auto simp: width_bits_def split: if_splits)

lemma applySign_width:
  "applySign oe v =
     (case sign_width oe of
        Some bits \<Rightarrow> if 0 \<le> v \<and> v < 2 ^ bits then asIntN bits v else v
      | None \<Rightarrow> v)"
  by (simp add: applySign_def sign_width_def split: option.splits jsnum.splits)

lemma sign_width_pos: "sign_width oe = Some bits \<Longrightarrow> 8 \<le> bits"
  by (auto simp: sign_width_def dest: width_bits_pos split: option.splits jsnum.splits if_splits)

lemma asIntN_value:
  assumes "0 \<le> v" and "v < 2 ^ bits" and "0 < bits"
  shows "asIntN bits v = (if v < 2 ^ (bits - 1) then v else v - 2 ^ bits)"
  using assms by (simp add: asIntN_def signed_of_def nat_less_iff)

text \<open>Sign extension reads back what a device meant: if the table's row is one the code takes as
  two's complement at \<open>bits\<close>, then any quantity in the signed range of that width, sent as its
  \<open>bits\<close>-bit two's complement, comes out as itself; and extending twice changes nothing.\<close>

theorem applySign_reads_back:
  assumes "sign_width oe = Some bits" and "- (2 ^ (bits - 1)) \<le> x" and "x < 2 ^ (bits - 1)"
  shows "applySign oe (x mod 2 ^ bits) = x \<and> applySign oe (applySign oe (x mod 2 ^ bits)) = x"
proof -
  have b: "0 < bits" using sign_width_pos [OF assms(1)] by simp
  then have full: "(2 :: int) ^ bits = 2 * 2 ^ (bits - 1)"
    by (cases bits) simp_all
  have m: "0 \<le> x mod 2 ^ bits" "x mod 2 ^ bits < 2 ^ bits" by simp_all
  have one: "applySign oe (x mod 2 ^ bits) = x"
  proof (cases "0 \<le> x")
    case True
    with assms(3) full have "x mod 2 ^ bits = x" by simp
    with True assms show ?thesis by (simp add: applySign_width asIntN_value b full)
  next
    case False
    have "x mod 2 ^ bits = (x + 2 ^ bits) mod 2 ^ bits" by simp
    also have "\<dots> = x + 2 ^ bits" using False assms(2) full by (intro mod_pos_pos_trivial) auto
    finally have "x mod 2 ^ bits = x + 2 ^ bits" .
    with False assms show ?thesis by (simp add: applySign_width asIntN_value b full)
  qed
  moreover have "applySign oe x = x"
    using assms by (auto simp: applySign_width asIntN_value b)
  ultimately show ?thesis by simp
qed

definition temperature_row :: dict_entry where
  "temperature_row = \<lparr>d_name = ''Dallas Temperature 1'', d_bytes = Some ''2'', d_type = ''Signed'',
     d_min = Some ''-550'', d_max = Some ''1150''\<rparr>"

definition coolant_row :: dict_entry where
  "coolant_row = \<lparr>d_name = ''Engine Coolant Temperature'', d_bytes = Some ''1'', d_type = ''Signed'',
     d_min = Some ''-40'', d_max = Some ''210''\<rparr>"

lemmas js_text_eval = js_Number_def js_Number_str_def trim_def is_space_def js_sign_def split_at_def
  js_mantissa_def js_exponent_def all_digits_def digit_def decimal_nat_def scale10_def radix_of_def

lemma temperature_width: "sign_width (Some temperature_row) = Some 16"
  by (simp add: sign_width_def temperature_row_def width_bits_def offset_refused_def js_text_eval Let_def)

theorem applySign_reads_back_witness:
  "applySign (Some temperature_row) 65486 = - 50"
  using applySign_reads_back [OF temperature_width, of "- 50"] by simp

text \<open>Sign extension is conservative: the value is either passed through untouched or lowered by
  exactly \<open>2^bits\<close>, and the latter only for a wire value that fits the width with its top bit set, on
  a row typed Signed whose readable minimum is negative and whose range is not the signature of an
  offset encoding. In particular the coolant row (1 byte, -40 to 210) is never reinterpreted.\<close>

theorem applySign_conservative:
  "applySign oe v = v \<or>
   (\<exists>e b bits mn. oe = Some e \<and> d_type e = ''Signed'' \<and> d_bytes e = Some b \<and> width_bits (trim b) = Some bits \<and>
      js_Number (d_min e) = JNum mn \<and> mn < 0 \<and> \<not> offset_refused bits mn (js_Number (d_max e)) \<and>
      2 ^ (bits - 1) \<le> v \<and> v < 2 ^ bits \<and> applySign oe v = v - 2 ^ bits)"
proof (cases "applySign oe v = v")
  case False
  then obtain bits where w: "sign_width oe = Some bits" and v: "0 \<le> v" "v < 2 ^ bits"
    by (auto simp: applySign_width split: option.splits if_splits)
  then have "0 < bits" using sign_width_pos [OF w] by simp
  with v w False have a: "applySign oe v = v - 2 ^ bits" "2 ^ (bits - 1) \<le> v"
    by (auto simp: applySign_width asIntN_value split: if_splits)
  from w obtain e b mn where "oe = Some e" "d_type e = ''Signed''" "d_bytes e = Some b"
    "width_bits (trim b) = Some bits" "js_Number (d_min e) = JNum mn" "mn < 0"
    "\<not> offset_refused bits mn (js_Number (d_max e))"
    by (auto simp: sign_width_def split: option.splits jsnum.splits if_splits)
  with a v show ?thesis by blast
qed simp

lemma coolant_never: "applySign (Some coolant_row) v = v"
proof -
  have "sign_width (Some coolant_row) = None"
    by (simp add: sign_width_def coolant_row_def width_bits_def offset_refused_def js_text_eval Let_def)
  then show ?thesis by (simp add: applySign_width)
qed

section \<open>The Multiplier cell\<close>

definition comma_to_point :: "string \<Rightarrow> string" where
  "comma_to_point s =
     (case split_at (\<lambda>c. c = CHR '','') s of (a, None) \<Rightarrow> a | (a, Some b) \<Rightarrow> a @ ''.'' @ b)"

text \<open>\<open>/^\d+(\.\d+)?$/\<close>.\<close>

definition plain_decimal :: "string \<Rightarrow> bool" where
  "plain_decimal t =
     (case split_at (\<lambda>c. c = CHR ''.'') t of
        (a, None) \<Rightarrow> a \<noteq> [] \<and> all_digits a
      | (a, Some b) \<Rightarrow> a \<noteq> [] \<and> all_digits a \<and> b \<noteq> [] \<and> all_digits b)"

definition parseMultiplier :: "string option \<Rightarrow> rat option" where
  "parseMultiplier raw =
     (case raw of None \<Rightarrow> None
      | Some r \<Rightarrow>
          (let t = comma_to_point (trim r) in
           if \<not> plain_decimal t then None
           else case js_Number_str t of JNum n \<Rightarrow> if 0 < n then Some n else None | _ \<Rightarrow> None))"

lemma parseMultiplier_examples:
  "parseMultiplier (Some '' 0,1'') = Some (1 / 10)" "parseMultiplier (Some ''0.01*'') = None"
  "parseMultiplier (Some ''0'') = None"
  by (simp_all add: parseMultiplier_def comma_to_point_def plain_decimal_def js_text_eval Let_def)

lemma parseMultiplier_pos: "parseMultiplier raw = Some n \<Longrightarrow> 0 < n"
  by (auto simp: parseMultiplier_def Let_def split: option.splits if_splits jsnum.splits)

section \<open>Validation of a dictionary file\<close>

definition wiki_prefix :: string where
  "wiki_prefix = ''https://wiki.teltonika-gps.com/''"

definition element_id :: "string \<Rightarrow> codec_error + int" where
  "element_id key =
     (case js_Number_str key of
        JNum q \<Rightarrow> (if of_int \<lfloor>q\<rfloor> = q \<and> \<not> q < 0 \<and> \<not> 0xffff < q then Inr \<lfloor>q\<rfloor> else Inl FrameError)
      | _ \<Rightarrow> Inl FrameError)"

fun buildElements :: "(string \<times> dict_entry) list \<Rightarrow> dictionary \<Rightarrow> codec_error + dictionary" where
  "buildElements [] m = Inr m"
| "buildElements ((key, entry) # rest) m =
     bindE (element_id key) (\<lambda>i.
     bindE (guardE (d_name entry \<noteq> []) FrameError) (\<lambda>_.
       buildElements rest (AList.update i entry m)))"

definition buildDictionary :: "dictionary_file \<Rightarrow> codec_error + dictionary" where
  "buildDictionary file =
     bindE (guardE (take (length wiki_prefix) (source_url file) = wiki_prefix) FrameError) (\<lambda>_.
     bindE (guardE (retrieved_at file \<noteq> []) FrameError) (\<lambda>_.
       buildElements (elements file) []))"

lemma element_id_range: "element_id k = Inr i \<Longrightarrow> 0 \<le> i \<and> i \<le> 0xffff"
  by (auto simp: element_id_def split: jsnum.splits if_splits)

lemma buildElements_ok:
  "buildElements els m = Inr d \<Longrightarrow> (\<forall>(i, e) \<in> set m. 0 \<le> i \<and> i \<le> 0xffff \<and> d_name e \<noteq> []) \<Longrightarrow> distinct (map fst m) \<Longrightarrow>
     (\<forall>(i, e) \<in> set d. 0 \<le> i \<and> i \<le> 0xffff \<and> d_name e \<noteq> []) \<and> distinct (map fst d)"
proof (induction els arbitrary: m)
  case Nil
  then show ?case by simp
next
  case (Cons x els)
  obtain k e where x: "x = (k, e)" by (cases x)
  with Cons.prems(1) obtain i where i: "element_id k = Inr i" and n: "d_name e \<noteq> []"
    and b: "buildElements els (AList.update i e m) = Inr d"
    by (auto simp: bindE_eq_Inr guardE_eq_Inr)
  have "set (AList.update i e m) \<subseteq> insert (i, e) (set m)"
    by (induction m) auto
  with Cons.prems(2) element_id_range [OF i] n
  have "\<forall>(i, e) \<in> set (AList.update i e m). 0 \<le> i \<and> i \<le> 0xffff \<and> d_name e \<noteq> []"
    by fastforce
  from Cons.IH [OF b this] Cons.prems(3) show ?case by (simp add: distinct_update)
qed

section \<open>The cached loader\<close>

datatype file_read = FileText string | FileMissing | FileFault

datatype load_error = ReadFault | BadJson | BadDictionary

type_synonym dict_cache = "(string \<times> dictionary) list"

text \<open>\<open>readFile\<close> and \<open>parseJson\<close> are the file system and \<open>JSON.parse\<close>.\<close>

definition loadDictionary ::
  "(string \<Rightarrow> file_read) \<Rightarrow> (string \<Rightarrow> dictionary_file option) \<Rightarrow> dict_cache \<Rightarrow> string \<Rightarrow>
     dict_cache \<times> (load_error + dictionary)" where
  "loadDictionary readFile parseJson cache table =
     (case map_of cache table of
        Some d \<Rightarrow> (cache, Inr d)
      | None \<Rightarrow>
          (case readFile table of
             FileFault \<Rightarrow> (cache, Inl ReadFault)
           | FileMissing \<Rightarrow> (AList.update table [] cache, Inr [])
           | FileText raw \<Rightarrow>
               (case parseJson raw of
                  None \<Rightarrow> (cache, Inl BadJson)
                | Some file \<Rightarrow>
                    (case buildDictionary file of
                       Inl e \<Rightarrow> (cache, Inl BadDictionary)
                     | Inr m \<Rightarrow> (AList.update table m cache, Inr m)))))"

text \<open>What the cache may hold: for each table the validated dictionary of a file that was read and
  parsed, or the empty one of a table that is not shipped.\<close>

definition comes_from_file ::
  "(string \<Rightarrow> file_read) \<Rightarrow> (string \<Rightarrow> dictionary_file option) \<Rightarrow> string \<Rightarrow> dictionary \<Rightarrow> bool" where
  "comes_from_file readFile parseJson t d \<longleftrightarrow>
     (case readFile t of
        FileMissing \<Rightarrow> d = []
      | FileFault \<Rightarrow> False
      | FileText raw \<Rightarrow>
          (case parseJson raw of None \<Rightarrow> False | Some file \<Rightarrow> buildDictionary file = Inr d))"

definition cache_ok ::
  "(string \<Rightarrow> file_read) \<Rightarrow> (string \<Rightarrow> dictionary_file option) \<Rightarrow> dict_cache \<Rightarrow> bool" where
  "cache_ok readFile parseJson cache \<longleftrightarrow>
     (\<forall>t d. map_of cache t = Some d \<longrightarrow> comes_from_file readFile parseJson t d)"

lemma loadDictionary_new:
  assumes "loadDictionary rd pj cache t = (cache', r)"
  shows "cache' = cache \<or> (\<exists>d. r = Inr d \<and> cache' = AList.update t d cache \<and> comes_from_file rd pj t d)"
  using assms
  by (auto simp: loadDictionary_def comes_from_file_def split: option.splits file_read.splits sum.splits)

lemma loadDictionary_cache_ok:
  assumes ok: "cache_ok rd pj cache" and l: "loadDictionary rd pj cache t = (cache', r)"
  shows "cache_ok rd pj cache'"
proof -
  consider "cache' = cache" | d where "cache' = AList.update t d cache" "comes_from_file rd pj t d"
    using loadDictionary_new [OF l] by blast
  then show ?thesis using ok by cases (simp_all add: cache_ok_def update_conv')
qed

text \<open>The loader never serves a substitute: starting from a sound cache it returns a dictionary
  exactly when the table is not shipped (the empty one) or its file parses and validates (that one),
  so every id is in 0 to 65535 with a non-empty name; a read fault, malformed JSON or an invalid
  file is an error and leaves the cache as it was; a success is what every later call returns.\<close>

theorem loadDictionary_sound:
  assumes ok: "cache_ok rd pj cache" and l: "loadDictionary rd pj cache t = (cache', r)"
  shows "cache_ok rd pj cache' \<and>
    (case r of
       Inl e \<Rightarrow> cache' = cache \<and> rd t \<noteq> FileMissing
     | Inr d \<Rightarrow> list_all (\<lambda>(i, e). 0 \<le> i \<and> i \<le> 0xffff \<and> d_name e \<noteq> []) d \<and> distinct (map fst d) \<and>
         (rd t = FileMissing \<longrightarrow> d = []) \<and> loadDictionary rd' pj' cache' t = (cache', Inr d))"
proof -
  have built: "list_all (\<lambda>(i, e). 0 \<le> i \<and> i \<le> 0xffff \<and> d_name e \<noteq> []) d \<and> distinct (map fst d)"
    if "buildDictionary fl = Inr d" for fl d
    using that buildElements_ok [of "elements fl" "[]" d]
    by (auto simp: buildDictionary_def bindE_eq_Inr list_all_iff)
  have c': "cache_ok rd pj cache'" by (rule loadDictionary_cache_ok [OF ok l])
  show ?thesis
  proof (cases r)
    case (Inl e)
    with l c' show ?thesis
      by (auto simp: loadDictionary_def split: option.splits file_read.splits sum.splits)
  next
    case (Inr d)
    with l have m: "map_of cache' t = Some d"
      by (auto simp: loadDictionary_def update_conv' split: option.splits file_read.splits sum.splits)
    with c' have "comes_from_file rd pj t d"
      by (simp add: cache_ok_def)
    with c' m Inr built show ?thesis
      by (auto simp: loadDictionary_def comes_from_file_def split: file_read.splits option.splits)
  qed
qed

theorem loadDictionary_sound_witness:
  "\<exists>d. loadDictionary (\<lambda>_. FileMissing) (\<lambda>_. None) [] ''fmb120'' = ([(''fmb120'', d)], Inr d) \<and>
     list_all (\<lambda>(i, e). 0 \<le> i \<and> i \<le> 0xffff \<and> d_name e \<noteq> []) d"
proof -
  have "loadDictionary (\<lambda>_. FileMissing) (\<lambda>_. None) [] ''fmb120'' = ([(''fmb120'', [])], Inr [])"
    by (simp add: loadDictionary_def)
  with loadDictionary_sound [OF _ this] show ?thesis by (simp add: cache_ok_def)
qed

end
