(* ===== verification/Records.thy ===== *)
theory Records
  imports JsText
begin

text \<open>
  The pipeline's normalized record (packages/shared/src/records.ts), the clock-skew test of
  apps/worker/src/normalize.ts, the iButton key (packages/shared/src/entities.ts) and the
  great-circle distance (apps/worker/src/geo.ts).

  A JavaScript number is an exact real (rational where it is compared only), a \<open>Date\<close> its
  milliseconds, a \<open>bigint\<close> an integer. The locale \<open>keyed_engine\<close> is the contract the three
  per-device engines of the worker share: one state per device, and nothing else.
\<close>

section \<open>Values and records\<close>

datatype jsval =
    JVUndefined
  | JVNull
  | JVBool bool
  | JVNumber jsnum
  | JVString string
  | JVBigint int
  | JVObject

record nrec =
  r_deviceId :: int
  r_fixTime :: int
  r_serverTime :: int
  r_lat :: real
  r_lon :: real
  r_altitude :: "int option"
  r_speed :: "int option"
  r_course :: "int option"
  r_satellites :: int
  r_fixValid :: bool
  r_ignition :: "bool option"
  r_movement :: "bool option"
  r_odometerM :: "int option"
  r_priority :: int
  r_recHash :: int
  r_attrs :: "(string \<times> jsval) list"

definition attr :: "nrec \<Rightarrow> string \<Rightarrow> jsval" where
  "attr r k = (case map_of (r_attrs r) k of None \<Rightarrow> JVUndefined | Some v \<Rightarrow> v)"

text \<open>\<open>a ?? b\<close>.\<close>

definition nullish :: "jsval \<Rightarrow> jsval \<Rightarrow> jsval" where
  "nullish a b = (if a = JVUndefined \<or> a = JVNull then b else a)"

definition isNullIsland :: "real \<Rightarrow> real \<Rightarrow> bool" where
  "isNullIsland la lo \<longleftrightarrow> la = 0 \<and> lo = 0"

definition MAX_CLOCK_SKEW_MS :: int where
  "MAX_CLOCK_SKEW_MS = 5 * 60000"

definition isClockSkewed :: "nrec \<Rightarrow> bool" where
  "isClockSkewed r \<longleftrightarrow> r_fixTime r > r_serverTime r + MAX_CLOCK_SKEW_MS"

section \<open>iButton keys\<close>

text \<open>A key is a canonical decimal string without leading zeros; it is kept as its number. \<open>String\<close> of
  a JavaScript number is a run of digits exactly for the non-negative integers below 1e21.\<close>

definition ibuttonKeyFromAvl :: "jsval \<Rightarrow> nat option" where
  "ibuttonKeyFromAvl v =
     (case v of
        JVNumber (JNum q) \<Rightarrow>
          (if of_int \<lfloor>q\<rfloor> = q \<and> 0 < q \<and> q < 10 ^ 21 then Some (nat \<lfloor>q\<rfloor>) else None)
      | JVBigint n \<Rightarrow> (if 0 < n then Some (nat n) else None)
      | JVString s \<Rightarrow>
          (let t = trim s in
           if t = [] \<or> \<not> all_digits t then None
           else let n = decimal_nat t in if n = 0 then None else Some n)
      | _ \<Rightarrow> None)"

definition ibuttonKeyFromHex :: "string \<Rightarrow> nat option" where
  "ibuttonKeyFromHex hex =
     (if 1 \<le> length hex \<and> length hex \<le> 32 \<and> list_all (\<lambda>c. radix_digit 16 c \<noteq> None) hex
      then Some (foldl (\<lambda>a c. a * 16 + (case radix_digit 16 c of Some d \<Rightarrow> d | None \<Rightarrow> 0)) 0 hex)
      else None)"

section \<open>Great-circle distance\<close>

definition EARTH_R_M :: real where
  "EARTH_R_M = 6371000"

definition toRad :: "real \<Rightarrow> real" where
  "toRad d = (d * pi) / 180"

definition hav :: "real \<Rightarrow> real \<Rightarrow> real \<Rightarrow> real \<Rightarrow> real" where
  "hav aLat aLon bLat bLon =
     (sin (toRad (bLat - aLat) / 2))\<^sup>2 +
     cos (toRad aLat) * cos (toRad bLat) * (sin (toRad (bLon - aLon) / 2))\<^sup>2"

definition haversineM :: "real \<Rightarrow> real \<Rightarrow> real \<Rightarrow> real \<Rightarrow> real" where
  "haversineM aLat aLon bLat bLon = 2 * EARTH_R_M * arcsin (sqrt (hav aLat aLon bLat bLon))"

lemma haversineM_same [simp]: "haversineM a b a b = 0"
  by (simp add: haversineM_def hav_def toRad_def)

lemma haversineM_sym: "haversineM a b c d = haversineM c d a b"
proof -
  have "toRad (x - y) / 2 = - (toRad (y - x) / 2)" for x y by (simp add: toRad_def field_simps)
  then have "(sin (toRad (x - y) / 2))\<^sup>2 = (sin (toRad (y - x) / 2))\<^sup>2" for x y
    by (metis power2_minus sin_minus)
  then show ?thesis by (simp add: haversineM_def hav_def mult.commute)
qed

lemma hav_range:
  assumes "\<bar>a\<bar> \<le> 90" and "\<bar>c\<bar> \<le> 90"
  shows "0 \<le> hav a b c d" and "hav a b c d \<le> 1"
proof -
  have cos: "0 \<le> cos (toRad x)" if "\<bar>x\<bar> \<le> 90" for x
  proof (rule cos_ge_zero)
    from that have "- 90 \<le> x" "x \<le> 90" by auto
    then have "- 90 * pi \<le> x * pi" "x * pi \<le> 90 * pi"
      by (intro mult_right_mono; simp)+
    then show "- (pi / 2) \<le> toRad x" "toRad x \<le> pi / 2" by (simp_all add: toRad_def)
  qed
  note ca = cos [OF assms(1)] and cc = cos [OF assms(2)]
  let ?u = "toRad a" and ?v = "toRad c" and ?l = "(sin (toRad (d - b) / 2))\<^sup>2"
  have l1: "?l \<le> 1" by (simp add: abs_square_le_1)
  show "0 \<le> hav a b c d"
    using ca cc by (simp add: hav_def)
  have "hav a b c d \<le> (sin (toRad (c - a) / 2))\<^sup>2 + cos ?u * cos ?v"
    using mult_left_mono [OF l1, of "cos ?u * cos ?v"] ca cc by (simp add: hav_def)
  also have "cos ?u * cos ?v = (cos (?v - ?u) + cos (?v + ?u)) / 2"
    by (simp add: cos_diff cos_add)
  also have "\<dots> \<le> (cos (?v - ?u) + 1) / 2" by simp
  also have "cos (?v - ?u) = 1 - 2 * (sin (toRad (c - a) / 2))\<^sup>2"
  proof -
    have "?v - ?u = 2 * (toRad (c - a) / 2)" by (simp add: toRad_def field_simps)
    then show ?thesis by (metis cos_double_sin)
  qed
  finally show "hav a b c d \<le> 1" by (simp add: diff_divide_distrib)
qed

lemma haversineM_range:
  assumes "\<bar>a\<bar> \<le> 90" and "\<bar>c\<bar> \<le> 90"
  shows "0 \<le> haversineM a b c d" and "haversineM a b c d \<le> pi * EARTH_R_M"
proof -
  let ?s = "sqrt (hav a b c d)"
  have s: "0 \<le> ?s" "?s \<le> 1" using hav_range [OF assms] by simp_all
  have "0 \<le> arcsin ?s" using s by (metis arcsin_0 arcsin_le_arcsin neg_le_0_iff_le zero_le_one)
  then show "0 \<le> haversineM a b c d" by (simp add: haversineM_def EARTH_R_M_def)
  have "arcsin ?s \<le> pi / 2" using s by (intro arcsin_ubound) linarith+
  then show "haversineM a b c d \<le> pi * EARTH_R_M" by (simp add: haversineM_def EARTH_R_M_def)
qed

text \<open>The distance function is a bounded, symmetric dissimilarity on the sphere: for latitudes in
  [-90, 90] the argument of \<open>asin\<close> is within its domain, so the result is never NaN, lies between 0 and
  half the Earth's circumference, does not depend on the direction, and is 0 for a point and itself.\<close>

theorem haversine_bounds:
  assumes "\<bar>aLat\<bar> \<le> 90" and "\<bar>bLat\<bar> \<le> 90"
  shows "0 \<le> hav aLat aLon bLat bLon \<and> hav aLat aLon bLat bLon \<le> 1 \<and>
    0 \<le> haversineM aLat aLon bLat bLon \<and> haversineM aLat aLon bLat bLon \<le> pi * EARTH_R_M \<and>
    haversineM aLat aLon bLat bLon = haversineM bLat bLon aLat aLon \<and>
    haversineM aLat aLon aLat aLon = 0"
  using hav_range [OF assms] haversineM_range [OF assms] haversineM_sym haversineM_same by blast

theorem haversine_bounds_witness:
  "0 \<le> haversineM 54 25 55 26 \<and> haversineM 54 25 55 26 \<le> pi * EARTH_R_M"
  using haversine_bounds [of 54 55 25 26] by simp

section \<open>One state per device\<close>

text \<open>The records of one device a live consumer may act on: not ahead of the server's clock, and not
  older than an earlier such record.\<close>

fun in_order :: "int option \<Rightarrow> nrec list \<Rightarrow> nrec list" where
  "in_order seen [] = []"
| "in_order seen (r # rs) =
     (if isClockSkewed r \<or> (case seen of None \<Rightarrow> False | Some s \<Rightarrow> r_fixTime r < s) then in_order seen rs
      else r # in_order (Some (r_fixTime r)) rs)"

locale keyed_engine =
  fixes step :: "'eng \<Rightarrow> 'r \<Rightarrow> 'eng \<times> 'o list"
    and look :: "'eng \<Rightarrow> int \<Rightarrow> 'd"
    and key :: "'r \<Rightarrow> int"
    and okey :: "'o \<Rightarrow> int"
    and feed :: "'eng \<Rightarrow> 'r list \<Rightarrow> 'eng \<times> 'o list"
  assumes other: "key r \<noteq> k \<Longrightarrow> look (fst (step e r)) k = look e k"
    and own: "look e (key r) = look e' (key r) \<Longrightarrow>
      look (fst (step e r)) (key r) = look (fst (step e' r)) (key r) \<and> snd (step e r) = snd (step e' r)"
    and out_key: "x \<in> set (snd (step e r)) \<Longrightarrow> okey x = key r"
    and feed_Nil: "feed e [] = (e, [])"
    and feed_Cons: "feed e (r # rs) = (let (e1, o1) = step e r; (e2, o2) = feed e1 rs in (e2, o1 @ o2))"
begin

lemma out_filter: "filter (\<lambda>x. okey x = k) (snd (step e r)) = (if key r = k then snd (step e r) else [])"
  using out_key [of _ e r] by (auto simp: filter_id_conv filter_empty_conv)

text \<open>What an engine says about one device depends on that device's records alone.\<close>

lemma feed_projects:
  "look e k = look e' k \<Longrightarrow>
     filter (\<lambda>x. okey x = k) (snd (feed e rs)) = snd (feed e' (filter (\<lambda>r. key r = k) rs)) \<and>
     look (fst (feed e rs)) k = look (fst (feed e' (filter (\<lambda>r. key r = k) rs))) k"
proof (induction rs arbitrary: e e')
  case Nil
  then show ?case by (simp add: feed_Nil)
next
  case (Cons r rs)
  show ?case
  proof (cases "key r = k")
    case True
    with Cons.prems own [of e r e'] have l: "look (fst (step e r)) k = look (fst (step e' r)) k"
      and o: "snd (step e r) = snd (step e' r)" by simp_all
    from Cons.IH [OF l] True o out_filter [of k e r] show ?thesis
      by (simp add: feed_Cons case_prod_beta Let_def)
  next
    case False
    then have "look (fst (step e r)) k = look e' k" using other Cons.prems by simp
    from Cons.IH [OF this] False out_filter [of k e r] show ?thesis
      by (simp add: feed_Cons case_prod_beta Let_def)
  qed
qed

end

end
