(* ===== verification/TripEngine.thy ===== *)
theory TripEngine
  imports Records
begin

text \<open>
  apps/worker/src/trip/engine.ts and trip/config.ts: the trip state machine. One state per device,
  driven by the records' fix times only. A step returns the new engine, the events it pushes (in
  order) and, as a flag, whether it called \<open>onOdometerRejected\<close>. The per-device handler is
  \<open>step_device\<close>; the engine adds the clock-skew test, the per-device map and the map of late
  devices. \<open>Number(bigint)\<close> is taken as exact.
\<close>

section \<open>Configuration\<close>

record thresholds =
  moveSpeedKmh :: real
  movingSustainS :: real
  movingDisplaceM :: real
  parkedIgnitionOffS :: real
  idleSpeedKmh :: real
  idleSustainS :: real
  noIgnition :: bool
  parkedDisplaceM :: real
  parkedStopS :: real

definition DEFAULT_THRESHOLDS :: thresholds where
  "DEFAULT_THRESHOLDS = \<lparr>moveSpeedKmh = 6, movingSustainS = 90, movingDisplaceM = 300,
     parkedIgnitionOffS = 180, idleSpeedKmh = 3, idleSustainS = 120, noIgnition = False,
     parkedDisplaceM = 100, parkedStopS = 300\<rparr>"

datatype odometer_source = OdoAuto | OdoDevice | OdoGps

record trip_config =
  thr :: thresholds
  odometerSource :: odometer_source

definition numOr :: "jsval \<Rightarrow> real \<Rightarrow> real" where
  "numOr v fallback = (case v of JVNumber (JNum q) \<Rightarrow> if 0 \<le> q then of_rat q else fallback | _ \<Rightarrow> fallback)"

text \<open>\<open>rules ?? {}\<close>: a missing object reads as one without keys.\<close>

definition thresholdsFromRules :: "(string \<rightharpoonup> jsval) option \<Rightarrow> thresholds" where
  "thresholdsFromRules rules =
     (let m = (case rules of None \<Rightarrow> Map.empty | Some m \<Rightarrow> m);
          g = (\<lambda>k. case m k of None \<Rightarrow> JVUndefined | Some v \<Rightarrow> v);
          d = DEFAULT_THRESHOLDS in
      \<lparr>moveSpeedKmh = numOr (g ''moveSpeedKmh'') (moveSpeedKmh d),
       movingSustainS = numOr (g ''movingSustainS'') (movingSustainS d),
       movingDisplaceM = numOr (g ''movingDisplaceM'') (movingDisplaceM d),
       parkedIgnitionOffS = numOr (g ''parkedIgnitionOffS'') (parkedIgnitionOffS d),
       idleSpeedKmh = numOr (g ''idleSpeedKmh'') (idleSpeedKmh d),
       idleSustainS = numOr (g ''idleSustainS'') (idleSustainS d),
       noIgnition = (g ''noIgnition'' = JVBool True),
       parkedDisplaceM = numOr (g ''parkedDisplaceM'') (parkedDisplaceM d),
       parkedStopS = numOr (g ''parkedStopS'') (parkedStopS d)\<rparr>)"

definition asOdometerSource :: "jsval \<Rightarrow> odometer_source" where
  "asOdometerSource s =
     (if s = JVString ''auto'' then OdoAuto else if s = JVString ''device'' then OdoDevice
      else if s = JVString ''gps'' then OdoGps else OdoAuto)"

definition deviceTripConfig :: "(string \<rightharpoonup> jsval) option \<Rightarrow> jsval \<Rightarrow> trip_config" where
  "deviceTripConfig presenceRules src = \<lparr>thr = thresholdsFromRules presenceRules, odometerSource = asOdometerSource src\<rparr>"

section \<open>State and events\<close>

record candidate =
  c_startTime :: int
  c_startLat :: real
  c_startLon :: real
  c_startOdo :: "int option"
  c_lastLat :: real
  c_lastLon :: real
  c_dispM :: real
  c_maxSpeed :: int
  c_ibutton :: "nat option"

record open_trip =
  t_startTime :: int
  t_startLat :: real
  t_startLon :: real
  t_lastLat :: real
  t_lastLon :: real
  t_lastTime :: int
  t_haversineM :: real
  t_odoStart :: "int option"
  t_odoLast :: "int option"
  t_odoBroken :: bool
  t_maxSpeed :: int
  t_idleS :: int
  t_idleSince :: "int option"
  t_stopSince :: "int option"
  t_ibutton :: "nat option"

datatype phase = Parked | Moving

record device_state =
  d_phase :: phase
  d_cand :: "candidate option"
  d_trip :: "open_trip option"
  d_lastSeen :: "int option"
  d_config :: trip_config

record open_event =
  oe_deviceId :: int
  oe_startTime :: int
  oe_startLat :: real
  oe_startLon :: real

datatype distance_source = SrcGps | SrcOdometer

record close_event =
  ce_deviceId :: int
  ce_startTime :: int
  ce_endTime :: int
  ce_startLat :: real
  ce_startLon :: real
  ce_endLat :: real
  ce_endLon :: real
  ce_distanceM :: int
  ce_distanceSource :: distance_source
  ce_maxSpeed :: int
  ce_idleS :: int
  ce_ibutton :: "nat option"

datatype trip_event = TripOpen open_event | TripClose close_event

record trip_engine =
  te_state :: "(int \<times> device_state) list"
  te_late :: "(int \<times> int) list"
  te_default :: trip_config

section \<open>One record of one device\<close>

definition secs :: "int \<Rightarrow> int \<Rightarrow> real" where
  "secs a b = of_int (a - b) / 1000"

definition round_half_up :: "real \<Rightarrow> int" where
  "round_half_up x = \<lfloor>x + 1 / 2\<rfloor>"

definition recordIbutton :: "nrec \<Rightarrow> nat option" where
  "recordIbutton r =
     ibuttonKeyFromAvl (nullish (attr r ''iButton'') (nullish (attr r ''iButton ID'')
       (nullish (attr r ''IButton ID'') (attr r ''io_78''))))"

definition speed_of :: "nrec \<Rightarrow> int" where
  "speed_of r = (case r_speed r of None \<Rightarrow> 0 | Some s \<Rightarrow> s)"

definition accumulate :: "open_trip \<Rightarrow> nrec \<Rightarrow> open_trip" where
  "accumulate t r =
     t\<lparr>t_haversineM := t_haversineM t + haversineM (t_lastLat t) (t_lastLon t) (r_lat r) (r_lon r),
       t_odoBroken := t_odoBroken t \<or>
         (case (r_odometerM r, t_odoLast t) of (Some o1, Some o0) \<Rightarrow> o1 < o0 | _ \<Rightarrow> True),
       t_odoLast := (case r_odometerM r of None \<Rightarrow> t_odoLast t | Some o1 \<Rightarrow> Some o1),
       t_maxSpeed := (if t_maxSpeed t < speed_of r then speed_of r else t_maxSpeed t),
       t_lastLat := r_lat r, t_lastLon := r_lon r, t_lastTime := r_fixTime r,
       t_ibutton := (case recordIbutton r of None \<Rightarrow> t_ibutton t | Some b \<Rightarrow> Some b)\<rparr>"

definition flushIdle :: "open_trip \<Rightarrow> int \<Rightarrow> real \<Rightarrow> open_trip" where
  "flushIdle t now sustain =
     (case t_idleSince t of None \<Rightarrow> t
      | Some since \<Rightarrow>
          t\<lparr>t_idleS := t_idleS t + (if sustain \<le> secs now since then round_half_up (secs now since) else 0),
            t_idleSince := None\<rparr>)"

definition MAX_PLAUSIBLE_SPEED_MS :: real where
  "MAX_PLAUSIBLE_SPEED_MS = 55"

definition MIN_ODO_CEILING_M :: real where
  "MIN_ODO_CEILING_M = 50000"

definition odoDelta :: "open_trip \<Rightarrow> int option" where
  "odoDelta t = (case (t_odoStart t, t_odoLast t) of (Some a, Some b) \<Rightarrow> Some (b - a) | _ \<Rightarrow> None)"

definition odoCeilingM :: "open_trip \<Rightarrow> int \<Rightarrow> real" where
  "odoCeilingM t endTime = max MIN_ODO_CEILING_M (max 0 (secs endTime (t_startTime t)) * MAX_PLAUSIBLE_SPEED_MS)"

definition odoImplausible :: "open_trip \<Rightarrow> int \<Rightarrow> bool" where
  "odoImplausible t endTime = (case odoDelta t of None \<Rightarrow> False | Some d \<Rightarrow> odoCeilingM t endTime < of_int d)"

definition wouldHaveUsedOdo :: "odometer_source \<Rightarrow> open_trip \<Rightarrow> bool" where
  "wouldHaveUsedOdo src t \<longleftrightarrow>
     src \<noteq> OdoGps \<and> (case odoDelta t of None \<Rightarrow> False | Some d \<Rightarrow> 0 \<le> d) \<and> (src = OdoDevice \<or> \<not> t_odoBroken t)"

definition close_trip :: "int \<Rightarrow> device_state \<Rightarrow> open_trip \<Rightarrow> int \<Rightarrow> device_state \<times> trip_event list \<times> bool" where
  "close_trip dev st trip0 endTime =
     (let trip = flushIdle trip0 endTime (idleSustainS (thr (d_config st)));
          would = wouldHaveUsedOdo (odometerSource (d_config st)) trip;
          implausible = odoImplausible trip endTime;
          useOdo = (would \<and> \<not> implausible) in
      (st\<lparr>d_phase := Parked, d_trip := None, d_cand := None\<rparr>,
       [TripClose \<lparr>ce_deviceId = dev, ce_startTime = t_startTime trip, ce_endTime = endTime,
          ce_startLat = t_startLat trip, ce_startLon = t_startLon trip,
          ce_endLat = t_lastLat trip, ce_endLon = t_lastLon trip,
          ce_distanceM = (if useOdo then the (odoDelta trip) else round_half_up (t_haversineM trip)),
          ce_distanceSource = (if useOdo then SrcOdometer else SrcGps),
          ce_maxSpeed = t_maxSpeed trip, ce_idleS = t_idleS trip, ce_ibutton = t_ibutton trip\<rparr>],
       implausible \<and> would))"

definition observeStopWithoutFix :: "nrec \<Rightarrow> device_state \<Rightarrow> device_state \<times> trip_event list \<times> bool" where
  "observeStopWithoutFix r st =
     (case d_trip st of None \<Rightarrow> (st, [], False)
      | Some trip \<Rightarrow>
          if d_phase st \<noteq> Moving then (st, [], False)
          else if noIgnition (thr (d_config st)) then (st, [], False)
          else if r_ignition r = Some True then (st\<lparr>d_trip := Some (trip\<lparr>t_stopSince := None\<rparr>)\<rparr>, [], False)
          else if r_ignition r \<noteq> Some False then (st, [], False)
          else
            (let since = (case t_stopSince trip of None \<Rightarrow> r_fixTime r | Some s \<Rightarrow> s);
                 trip1 = trip\<lparr>t_stopSince := Some since\<rparr>; st1 = st\<lparr>d_trip := Some trip1\<rparr> in
             if parkedIgnitionOffS (thr (d_config st)) \<le> secs (r_fixTime r) since
             then close_trip (r_deviceId r) st1 trip1 since else (st1, [], False)))"

definition next_candidate :: "nrec \<Rightarrow> candidate option \<Rightarrow> candidate" where
  "next_candidate r oc =
     (case oc of
        None \<Rightarrow> \<lparr>c_startTime = r_fixTime r, c_startLat = r_lat r, c_startLon = r_lon r,
                 c_startOdo = r_odometerM r, c_lastLat = r_lat r, c_lastLon = r_lon r, c_dispM = 0,
                 c_maxSpeed = speed_of r, c_ibutton = recordIbutton r\<rparr>
      | Some c \<Rightarrow>
          c\<lparr>c_dispM := c_dispM c + haversineM (c_lastLat c) (c_lastLon c) (r_lat r) (r_lon r),
            c_lastLat := r_lat r, c_lastLon := r_lon r,
            c_maxSpeed := (if c_maxSpeed c < speed_of r then speed_of r else c_maxSpeed c),
            c_ibutton := (case recordIbutton r of None \<Rightarrow> c_ibutton c | Some b \<Rightarrow> Some b)\<rparr>)"

definition trip_from :: "candidate \<Rightarrow> nrec \<Rightarrow> open_trip" where
  "trip_from c r =
     \<lparr>t_startTime = c_startTime c, t_startLat = c_startLat c, t_startLon = c_startLon c,
      t_lastLat = r_lat r, t_lastLon = r_lon r, t_lastTime = r_fixTime r, t_haversineM = c_dispM c,
      t_odoStart = c_startOdo c, t_odoLast = r_odometerM r,
      t_odoBroken = (case (c_startOdo c, r_odometerM r) of (Some a, Some b) \<Rightarrow> \<not> a \<le> b | _ \<Rightarrow> True),
      t_maxSpeed = max (c_maxSpeed c) (speed_of r), t_idleS = 0, t_idleSince = None, t_stopSince = None,
      t_ibutton = (case c_ibutton c of None \<Rightarrow> recordIbutton r | Some b \<Rightarrow> Some b)\<rparr>"

definition is_moving :: "thresholds \<Rightarrow> nrec \<Rightarrow> bool" where
  "is_moving t r \<longleftrightarrow>
     (if noIgnition t then of_int (speed_of r) > moveSpeedKmh t
      else r_ignition r = Some True \<and> (r_movement r = Some True \<or> of_int (speed_of r) > moveSpeedKmh t))"

definition step_parked :: "nrec \<Rightarrow> device_state \<Rightarrow> device_state \<times> trip_event list \<times> bool" where
  "step_parked r st =
     (let t = thr (d_config st) in
      if \<not> is_moving t r then (st\<lparr>d_cand := None\<rparr>, [], False)
      else let c = next_candidate r (d_cand st) in
        if movingSustainS t \<le> secs (r_fixTime r) (c_startTime c) \<or> movingDisplaceM t \<le> c_dispM c
        then (st\<lparr>d_trip := Some (trip_from c r), d_phase := Moving, d_cand := None\<rparr>,
              [TripOpen \<lparr>oe_deviceId = r_deviceId r, oe_startTime = c_startTime c,
                 oe_startLat = c_startLat c, oe_startLon = c_startLon c\<rparr>], False)
        else (st\<lparr>d_cand := Some c\<rparr>, [], False))"

definition is_stopped :: "thresholds \<Rightarrow> open_trip \<Rightarrow> nrec \<Rightarrow> bool" where
  "is_stopped t trip r \<longleftrightarrow>
     (if noIgnition t
      then of_int (speed_of r) < moveSpeedKmh t \<and>
           haversineM (t_lastLat trip) (t_lastLon trip) (r_lat r) (r_lon r) < parkedDisplaceM t
      else r_ignition r = Some False)"

definition track_idle :: "thresholds \<Rightarrow> nrec \<Rightarrow> open_trip \<Rightarrow> open_trip" where
  "track_idle t r trip =
     (if (noIgnition t \<or> r_ignition r = Some True) \<and> of_int (speed_of r) < idleSpeedKmh t
      then (case t_idleSince trip of None \<Rightarrow> trip\<lparr>t_idleSince := Some (r_fixTime r)\<rparr> | Some s \<Rightarrow> trip)
      else flushIdle trip (r_fixTime r) (idleSustainS t))"

definition step_moving :: "nrec \<Rightarrow> device_state \<Rightarrow> open_trip \<Rightarrow> device_state \<times> trip_event list \<times> bool" where
  "step_moving r st trip0 =
     (let t = thr (d_config st);
          trip1 = track_idle t r (accumulate trip0 r);
          threshold = (if noIgnition t then parkedStopS t else parkedIgnitionOffS t) in
      if is_stopped t trip0 r
      then let since = (case t_stopSince trip1 of None \<Rightarrow> r_fixTime r | Some s \<Rightarrow> s);
               trip2 = trip1\<lparr>t_stopSince := Some since\<rparr>; st2 = st\<lparr>d_trip := Some trip2\<rparr> in
           if threshold \<le> secs (r_fixTime r) since
           then close_trip (r_deviceId r) st2 trip2 since else (st2, [], False)
      else (st\<lparr>d_trip := Some (trip1\<lparr>t_stopSince := None\<rparr>)\<rparr>, [], False))"

text \<open>A device whose phase is moving has a trip (\<open>st.trip!\<close>); the other case cannot arise, by the
  invariant below.\<close>

definition step_device :: "trip_config \<Rightarrow> nrec \<Rightarrow> device_state \<Rightarrow> device_state \<times> trip_event list \<times> bool" where
  "step_device cfg r st0 =
     (let st1 = st0\<lparr>d_lastSeen := Some (r_fixTime r)\<rparr>;
          st = (if d_phase st1 = Parked \<and> d_cand st1 = None \<and> d_trip st1 = None
                then st1\<lparr>d_config := cfg\<rparr> else st1) in
      if \<not> r_fixValid r then observeStopWithoutFix r st
      else if d_phase st = Parked then step_parked r st
      else case d_trip st of None \<Rightarrow> (st, [], False) | Some trip \<Rightarrow> step_moving r st trip)"

section \<open>The engine\<close>

definition new_trip_engine :: "thresholds \<Rightarrow> trip_engine" where
  "new_trip_engine t = \<lparr>te_state = [], te_late = [], te_default = \<lparr>thr = t, odometerSource = OdoAuto\<rparr>\<rparr>"

definition markLate :: "trip_engine \<Rightarrow> int \<Rightarrow> int \<Rightarrow> trip_engine" where
  "markLate e dev from =
     (case map_of (te_late e) dev of
        None \<Rightarrow> e\<lparr>te_late := AList.update dev from (te_late e)\<rparr>
      | Some prev \<Rightarrow> if from < prev then e\<lparr>te_late := AList.update dev from (te_late e)\<rparr> else e)"

definition takeLate :: "trip_engine \<Rightarrow> trip_engine \<times> (int \<times> int) list" where
  "takeLate e = (e\<lparr>te_late := []\<rparr>, te_late e)"

definition hasOpenTrip :: "trip_engine \<Rightarrow> int \<Rightarrow> bool" where
  "hasOpenTrip e dev = (case map_of (te_state e) dev of None \<Rightarrow> False | Some st \<Rightarrow> d_phase st = Moving)"

definition openSnapshot :: "trip_engine \<Rightarrow> int \<Rightarrow> (int \<times> real \<times> real) option" where
  "openSnapshot e dev =
     (case map_of (te_state e) dev of None \<Rightarrow> None
      | Some st \<Rightarrow> map_option (\<lambda>t. (t_startTime t, t_startLat t, t_startLon t)) (d_trip st))"

definition cfg_for :: "trip_engine \<Rightarrow> (int \<Rightarrow> trip_config option) \<Rightarrow> int \<Rightarrow> trip_config" where
  "cfg_for e configFor dev = (case configFor dev of None \<Rightarrow> te_default e | Some c \<Rightarrow> c)"

definition dev_state :: "trip_engine \<Rightarrow> (int \<Rightarrow> trip_config option) \<Rightarrow> int \<Rightarrow> device_state" where
  "dev_state e configFor dev =
     (case map_of (te_state e) dev of
        Some st \<Rightarrow> st
      | None \<Rightarrow> \<lparr>d_phase = Parked, d_cand = None, d_trip = None, d_lastSeen = None,
                 d_config = cfg_for e configFor dev\<rparr>)"

definition trip_step ::
  "(int \<Rightarrow> trip_config option) \<Rightarrow> trip_engine \<Rightarrow> nrec \<Rightarrow> trip_engine \<times> (trip_event list \<times> bool)" where
  "trip_step configFor e r =
     (if isClockSkewed r then (e, [], False)
      else let dev = r_deviceId r; st = dev_state e configFor dev;
               e1 = e\<lparr>te_state := AList.update dev st (te_state e)\<rparr> in
        (case d_lastSeen st of
           Some seen \<Rightarrow>
             (if r_fixTime r < seen then (markLate e1 dev (r_fixTime r), [], False)
              else let (st', evs, rej) = step_device (cfg_for e configFor dev) r st in
                (e\<lparr>te_state := AList.update dev st' (te_state e)\<rparr>, evs, rej))
         | None \<Rightarrow>
             (let (st', evs, rej) = step_device (cfg_for e configFor dev) r st in
                (e\<lparr>te_state := AList.update dev st' (te_state e)\<rparr>, evs, rej))))"

fun trip_feed ::
  "(int \<Rightarrow> trip_config option) \<Rightarrow> trip_engine \<Rightarrow> nrec list \<Rightarrow> trip_engine \<times> trip_event list" where
  "trip_feed configFor e [] = (e, [])"
| "trip_feed configFor e (r # rs) =
     (let (e1, evs, rej) = trip_step configFor e r; (e2, evs2) = trip_feed configFor e1 rs in (e2, evs @ evs2))"

section \<open>The invariant of a device\<close>

definition thr_ok :: "thresholds \<Rightarrow> bool" where
  "thr_ok t \<longleftrightarrow> 0 \<le> idleSustainS t \<and> 0 \<le> parkedIgnitionOffS t \<and> 0 \<le> parkedStopS t"

definition coords_ok :: "real \<Rightarrow> bool" where
  "coords_ok la \<longleftrightarrow> \<bar>la\<bar> \<le> 90"

definition cand_inv :: "int \<Rightarrow> candidate \<Rightarrow> bool" where
  "cand_inv seen c \<longleftrightarrow> c_startTime c \<le> seen \<and> 0 \<le> c_dispM c \<and> coords_ok (c_lastLat c)"

definition trip_inv :: "int \<Rightarrow> open_trip \<Rightarrow> bool" where
  "trip_inv seen t \<longleftrightarrow> t_startTime t \<le> seen \<and> 0 \<le> t_haversineM t \<and> coords_ok (t_lastLat t) \<and> 0 \<le> t_idleS t \<and>
     (\<forall>s. t_stopSince t = Some s \<longrightarrow> t_startTime t \<le> s \<and> s \<le> seen)"

definition dev_inv :: "device_state \<Rightarrow> bool" where
  "dev_inv st \<longleftrightarrow>
     (d_phase st = Moving \<longleftrightarrow> d_trip st \<noteq> None) \<and> (d_phase st = Moving \<longrightarrow> d_cand st = None) \<and>
     thr_ok (thr (d_config st)) \<and>
     (\<forall>c. d_cand st = Some c \<longrightarrow> (\<exists>seen. d_lastSeen st = Some seen \<and> cand_inv seen c)) \<and>
     (\<forall>t. d_trip st = Some t \<longrightarrow> (\<exists>seen. d_lastSeen st = Some seen \<and> trip_inv seen t))"

definition close_ok :: "close_event \<Rightarrow> bool" where
  "close_ok c \<longleftrightarrow>
     ce_startTime c \<le> ce_endTime c \<and> 0 \<le> ce_distanceM c \<and> 0 \<le> ce_idleS c \<and>
     (ce_distanceSource c = SrcOdometer \<longrightarrow>
        of_int (ce_distanceM c) \<le> max MIN_ODO_CEILING_M (secs (ce_endTime c) (ce_startTime c) * MAX_PLAUSIBLE_SPEED_MS))"

definition event_ok :: "trip_event \<Rightarrow> bool" where
  "event_ok e = (case e of TripOpen o1 \<Rightarrow> True | TripClose c \<Rightarrow> close_ok c)"

text \<open>Reading a device's events from the outside: an open must find no trip open, a close must carry
  the start time of the one that is.\<close>

fun replay :: "int option \<Rightarrow> trip_event list \<Rightarrow> int option option" where
  "replay cur [] = Some cur"
| "replay None (TripOpen o1 # es) = replay (Some (oe_startTime o1)) es"
| "replay (Some s) (TripOpen o1 # es) = None"
| "replay None (TripClose c # es) = None"
| "replay (Some s) (TripClose c # es) = (if ce_startTime c = s then replay None es else None)"

lemma replay_append: "replay cur (a @ b) = (case replay cur a of None \<Rightarrow> None | Some cur' \<Rightarrow> replay cur' b)"
  by (induction cur a rule: replay.induct) auto

definition open_start :: "device_state \<Rightarrow> int option" where
  "open_start st = map_option t_startTime (d_trip st)"

lemma secs_nonneg: "0 \<le> secs a b \<longleftrightarrow> b \<le> a"
  by (simp add: secs_def)

lemma round_half_up_nonneg: "0 \<le> x \<Longrightarrow> 0 \<le> round_half_up x"
  by (simp add: round_half_up_def)

lemma flushIdle_fields [simp]:
  "t_startTime (flushIdle t now s) = t_startTime t" "t_haversineM (flushIdle t now s) = t_haversineM t"
  "t_lastLat (flushIdle t now s) = t_lastLat t" "t_lastLon (flushIdle t now s) = t_lastLon t"
  "t_odoStart (flushIdle t now s) = t_odoStart t"
  "t_odoLast (flushIdle t now s) = t_odoLast t" "t_odoBroken (flushIdle t now s) = t_odoBroken t"
  "t_stopSince (flushIdle t now s) = t_stopSince t"
  by (simp_all add: flushIdle_def split: option.split)

lemma flushIdle_idle: "0 \<le> s \<Longrightarrow> 0 \<le> t_idleS t \<Longrightarrow> 0 \<le> t_idleS (flushIdle t now s)"
  by (auto simp: flushIdle_def round_half_up_nonneg split: option.split)

text \<open>What a step on a device promises: the invariant is kept, the last-seen time is the record's, the
  events are well formed and of that device, and they replay the change of the open trip.\<close>

definition step_good :: "int \<Rightarrow> int \<Rightarrow> int option \<Rightarrow> device_state \<times> trip_event list \<times> bool \<Rightarrow> bool" where
  "step_good dev now cur res \<longleftrightarrow>
     (case res of (st, evs, rej) \<Rightarrow>
        dev_inv st \<and> d_lastSeen st = Some now \<and> list_all event_ok evs \<and>
        replay cur evs = Some (open_start st))"

lemma close_trip_good:
  assumes inv: "trip_inv seen t" and stop: "t_startTime t \<le> e" and thr: "thr_ok (thr (d_config st))"
    and seen: "d_lastSeen st = Some seen" and cur: "cur = Some (t_startTime t)"
  shows "step_good dev seen cur (close_trip dev st t e)"
proof -
  let ?t = "flushIdle t e (idleSustainS (thr (d_config st)))"
  let ?use = "wouldHaveUsedOdo (odometerSource (d_config st)) ?t \<and> \<not> odoImplausible ?t e"
  have d0: "0 \<le> (if ?use then the (odoDelta ?t) else round_half_up (t_haversineM ?t))"
    using inv by (auto simp: wouldHaveUsedOdo_def trip_inv_def round_half_up_nonneg split: option.splits)
  have ceil: "of_int (the (odoDelta ?t)) \<le> max MIN_ODO_CEILING_M (secs e (t_startTime t) * MAX_PLAUSIBLE_SPEED_MS)" if ?use
    using that stop secs_nonneg [of e "t_startTime t"]
    by (auto simp: wouldHaveUsedOdo_def odoImplausible_def odoCeilingM_def split: option.splits)
  have idle: "0 \<le> t_idleS ?t"
    using inv thr by (auto simp: trip_inv_def thr_ok_def intro: flushIdle_idle)
  show ?thesis
    using d0 ceil idle stop thr seen cur
    by (simp add: close_trip_def Let_def step_good_def dev_inv_def event_ok_def close_ok_def open_start_def)
qed

lemma observeStop_good:
  assumes inv: "dev_inv st" and seen: "d_lastSeen st = Some (r_fixTime r)"
  shows "step_good (r_deviceId r) (r_fixTime r) (open_start st) (observeStopWithoutFix r st)"
proof (cases "d_trip st")
  case None
  with assms show ?thesis by (simp add: observeStopWithoutFix_def step_good_def)
next
  case (Some t)
  have ph: "d_phase st = Moving" and ti: "trip_inv (r_fixTime r) t" and th: "thr_ok (thr (d_config st))"
    and nc: "d_cand st = None"
    using assms Some by (auto simp: dev_inv_def)
  show ?thesis
  proof (cases "noIgnition (thr (d_config st)) \<or> r_ignition r \<noteq> Some False")
    case True
    then show ?thesis
      using Some ph ti th nc inv seen
      by (auto simp: observeStopWithoutFix_def step_good_def dev_inv_def trip_inv_def open_start_def)
  next
    case False
    define since where "since = (case t_stopSince t of None \<Rightarrow> r_fixTime r | Some s \<Rightarrow> s)"
    have s: "t_startTime t \<le> since" "since \<le> r_fixTime r"
      using ti by (auto simp: since_def trip_inv_def split: option.splits)
    let ?t = "t\<lparr>t_stopSince := Some since\<rparr>" and ?st = "st\<lparr>d_trip := Some (t\<lparr>t_stopSince := Some since\<rparr>)\<rparr>"
    have ti': "trip_inv (r_fixTime r) ?t" using ti s by (simp add: trip_inv_def)
    have o: "observeStopWithoutFix r st =
      (if parkedIgnitionOffS (thr (d_config st)) \<le> secs (r_fixTime r) since
       then close_trip (r_deviceId r) ?st ?t since else (?st, [], False))"
      using False Some ph by (simp add: observeStopWithoutFix_def since_def Let_def)
    show ?thesis
    proof (cases "parkedIgnitionOffS (thr (d_config st)) \<le> secs (r_fixTime r) since")
      case True
      have "step_good (r_deviceId r) (r_fixTime r) (open_start st) (close_trip (r_deviceId r) ?st ?t since)"
        by (rule close_trip_good [OF ti']) (use s th seen Some in \<open>simp_all add: open_start_def\<close>)
      with o True show ?thesis by simp
    next
      case False
      with o ti' ph th nc seen Some show ?thesis
        by (simp add: step_good_def dev_inv_def open_start_def)
    qed
  qed
qed

lemma next_candidate_inv:
  assumes "\<forall>c. oc = Some c \<longrightarrow> cand_inv (r_fixTime r) c" and "coords_ok (r_lat r)"
  shows "cand_inv (r_fixTime r) (next_candidate r oc)"
  using assms haversineM_range(1)
  by (cases oc) (auto simp: next_candidate_def cand_inv_def coords_ok_def)

lemma step_parked_good:
  assumes inv: "dev_inv st" and seen: "d_lastSeen st = Some (r_fixTime r)" and ph: "d_phase st = Parked"
    and la: "coords_ok (r_lat r)"
  shows "step_good (r_deviceId r) (r_fixTime r) (open_start st) (step_parked r st)"
proof -
  have nt: "d_trip st = None" and th: "thr_ok (thr (d_config st))" using inv ph by (auto simp: dev_inv_def)
  have ci: "cand_inv (r_fixTime r) (next_candidate r (d_cand st))"
    by (rule next_candidate_inv) (use inv seen la in \<open>auto simp: dev_inv_def\<close>)
  then have ti: "trip_inv (r_fixTime r) (trip_from (next_candidate r (d_cand st)) r)"
    using la by (simp add: trip_inv_def trip_from_def cand_inv_def)
  show ?thesis
    using ci ti nt th ph seen
    by (simp add: step_parked_def Let_def step_good_def dev_inv_def open_start_def event_ok_def trip_from_def)
qed

lemma track_idle_fields [simp]:
  "t_startTime (track_idle t r trip) = t_startTime trip" "t_haversineM (track_idle t r trip) = t_haversineM trip"
  "t_lastLat (track_idle t r trip) = t_lastLat trip" "t_stopSince (track_idle t r trip) = t_stopSince trip"
  by (simp_all add: track_idle_def split: option.split)

lemma step_moving_good:
  assumes inv: "trip_inv seen0 t" "seen0 \<le> r_fixTime r" and th: "thr_ok (thr (d_config st))"
    and nc: "d_cand st = None" and seen: "d_lastSeen st = Some (r_fixTime r)" and ph: "d_phase st = Moving"
    and la: "coords_ok (r_lat r)" and cur: "d_trip st = Some t"
  shows "step_good (r_deviceId r) (r_fixTime r) (open_start st) (step_moving r st t)"
proof -
  let ?c = "thr (d_config st)"
  define t1 where "t1 = track_idle ?c r (accumulate t r)"
  have idle: "0 \<le> t_idleS (accumulate t r)" using inv by (simp add: accumulate_def trip_inv_def)
  then have idle1: "0 \<le> t_idleS t1"
    using th by (auto simp: t1_def track_idle_def thr_ok_def intro: flushIdle_idle split: option.split)
  have f: "t_startTime t1 = t_startTime t" "t_stopSince t1 = t_stopSince t" "t_lastLat t1 = r_lat r"
    "0 \<le> t_haversineM t1"
    using inv la haversineM_range(1) by (auto simp: t1_def accumulate_def trip_inv_def coords_ok_def)
  define since where "since = (case t_stopSince t1 of None \<Rightarrow> r_fixTime r | Some s \<Rightarrow> s)"
  have s: "t_startTime t \<le> since" "since \<le> r_fixTime r"
    using inv f by (auto simp: since_def trip_inv_def split: option.splits)
  let ?t2 = "t1\<lparr>t_stopSince := Some since\<rparr>"
  have i2: "trip_inv (r_fixTime r) ?t2" and i3: "trip_inv (r_fixTime r) (t1\<lparr>t_stopSince := None\<rparr>)"
    using inv idle1 f s la by (auto simp: trip_inv_def)
  have os: "open_start st = Some (t_startTime t)" using cur by (simp add: open_start_def)
  have c: "step_good (r_deviceId r) (r_fixTime r) (open_start st)
      (close_trip (r_deviceId r) (st\<lparr>d_trip := Some ?t2\<rparr>) ?t2 since)"
    by (rule close_trip_good [OF i2]) (use s f th seen os in simp_all)
  show ?thesis
    unfolding step_moving_def Let_def t1_def [symmetric] since_def [symmetric]
    using c i2 i3 os f ph nc th seen by (simp add: step_good_def dev_inv_def open_start_def)
qed

lemma step_device_good:
  assumes inv: "dev_inv st" and mono: "\<forall>s. d_lastSeen st = Some s \<longrightarrow> s \<le> r_fixTime r"
    and cfg: "thr_ok (thr cfg)" and la: "coords_ok (r_lat r)"
  shows "step_good (r_deviceId r) (r_fixTime r) (open_start st) (step_device cfg r st)"
proof -
  define st1 where "st1 = st\<lparr>d_lastSeen := Some (r_fixTime r)\<rparr>"
  define st2 where "st2 = (if d_phase st1 = Parked \<and> d_cand st1 = None \<and> d_trip st1 = None
                then st1\<lparr>d_config := cfg\<rparr> else st1)"
  have i2: "dev_inv st2"
    using inv mono cfg by (fastforce simp: dev_inv_def st1_def st2_def cand_inv_def trip_inv_def)
  have sd: "step_device cfg r st =
      (if \<not> r_fixValid r then observeStopWithoutFix r st2
       else if d_phase st2 = Parked then step_parked r st2
       else case d_trip st2 of None \<Rightarrow> (st2, [], False) | Some trip \<Rightarrow> step_moving r st2 trip)"
    by (simp only: step_device_def Let_def st1_def st2_def)
  have s2: "d_lastSeen st2 = Some (r_fixTime r)" and o2: "open_start st2 = open_start st"
    by (simp_all add: st1_def st2_def open_start_def)
  show ?thesis
  proof (cases "r_fixValid r")
    case False
    then show ?thesis
      using observeStop_good [OF i2 s2] o2 by (simp only: sd not_False_eq_True if_True)
  next
    case v: True
    show ?thesis
    proof (cases "d_phase st2")
      case Parked
      with v step_parked_good [OF i2 s2 Parked la] o2 show ?thesis
        by (simp only: sd not_True_eq_False if_False if_True simp_thms)
    next
      case Moving
      then obtain t where t: "d_trip st2 = Some t" and ti: "trip_inv (r_fixTime r) t"
        and nc: "d_cand st2 = None" and th: "thr_ok (thr (d_config st2))"
        using i2 s2 by (auto simp: dev_inv_def)
      have "step_device cfg r st = step_moving r st2 t"
        using v Moving t by (simp add: sd)
      with step_moving_good [OF ti _ th nc s2 Moving la t] o2 show ?thesis by simp
    qed
  qed
qed

section \<open>The engine, device by device\<close>

definition event_device :: "trip_event \<Rightarrow> int" where
  "event_device e = (case e of TripOpen o1 \<Rightarrow> oe_deviceId o1 | TripClose c \<Rightarrow> ce_deviceId c)"

text \<open>What the engine knows of one device, and a step without its metric flag.\<close>

definition trip_look :: "trip_engine \<Rightarrow> int \<Rightarrow> device_state option \<times> int option \<times> trip_config" where
  "trip_look e dev = (map_of (te_state e) dev, map_of (te_late e) dev, te_default e)"

definition trip_step2 ::
  "(int \<Rightarrow> trip_config option) \<Rightarrow> trip_engine \<Rightarrow> nrec \<Rightarrow> trip_engine \<times> trip_event list" where
  "trip_step2 configFor e r = (case trip_step configFor e r of (e1, evs, rej) \<Rightarrow> (e1, evs))"

lemma close_trip_device: "x \<in> set (fst (snd (close_trip dev st t e))) \<Longrightarrow> event_device x = dev"
  by (auto simp: close_trip_def Let_def event_device_def)

lemma step_device_events: "x \<in> set (fst (snd (step_device cfg r st))) \<Longrightarrow> event_device x = r_deviceId r"
proof -
  have o: "x \<in> set (fst (snd (observeStopWithoutFix r st))) \<Longrightarrow> event_device x = r_deviceId r" for st
    by (auto simp: observeStopWithoutFix_def Let_def close_trip_device split: option.splits if_splits)
  have p: "x \<in> set (fst (snd (step_parked r st))) \<Longrightarrow> event_device x = r_deviceId r" for st
    by (auto simp: step_parked_def Let_def event_device_def split: if_splits)
  have m: "x \<in> set (fst (snd (step_moving r st t))) \<Longrightarrow> event_device x = r_deviceId r" for st t
    by (auto simp: step_moving_def Let_def close_trip_device split: if_splits)
  assume x: "x \<in> set (fst (snd (step_device cfg r st)))"
  define st1 where "st1 = st\<lparr>d_lastSeen := Some (r_fixTime r)\<rparr>"
  define st2 where "st2 = (if d_phase st1 = Parked \<and> d_cand st1 = None \<and> d_trip st1 = None
                then st1\<lparr>d_config := cfg\<rparr> else st1)"
  have sd: "step_device cfg r st =
      (if \<not> r_fixValid r then observeStopWithoutFix r st2
       else if d_phase st2 = Parked then step_parked r st2
       else case d_trip st2 of None \<Rightarrow> (st2, [], False) | Some trip \<Rightarrow> step_moving r st2 trip)"
    by (simp only: step_device_def Let_def st1_def st2_def)
  show ?thesis
    using x unfolding sd by (cases "d_trip st2") (auto dest: o p m split: if_split_asm)
qed

lemma markLate_other: "k \<noteq> dev \<Longrightarrow> map_of (te_late (markLate e dev t)) k = map_of (te_late e) k"
  by (simp add: markLate_def update_conv' split: option.split)

lemma markLate_state [simp]: "te_state (markLate e dev t) = te_state e" "te_default (markLate e dev t) = te_default e"
  by (simp_all add: markLate_def split: option.split)

lemma markLate_own:
  "map_of (te_late (markLate e dev t)) dev =
     Some (case map_of (te_late e) dev of None \<Rightarrow> t | Some p \<Rightarrow> min t p)"
  by (auto simp: markLate_def update_conv' split: option.split)

text \<open>The step on the device's own state, or the three ways it is left alone.\<close>

lemma trip_step_cases:
  obtains (skewed) "isClockSkewed r" "trip_step cf e r = (e, [], False)"
  | (late) seen where "\<not> isClockSkewed r" "d_lastSeen (dev_state e cf (r_deviceId r)) = Some seen" "r_fixTime r < seen"
      "trip_step cf e r =
         (markLate (e\<lparr>te_state := AList.update (r_deviceId r) (dev_state e cf (r_deviceId r)) (te_state e)\<rparr>)
            (r_deviceId r) (r_fixTime r), [], False)"
  | (applied) st' evs rej where "\<not> isClockSkewed r"
      "\<forall>s. d_lastSeen (dev_state e cf (r_deviceId r)) = Some s \<longrightarrow> s \<le> r_fixTime r"
      "step_device (cfg_for e cf (r_deviceId r)) r (dev_state e cf (r_deviceId r)) = (st', evs, rej)"
      "trip_step cf e r = (e\<lparr>te_state := AList.update (r_deviceId r) st' (te_state e)\<rparr>, evs, rej)"
proof (cases "isClockSkewed r")
  case True
  then show thesis by (intro skewed) (simp_all add: trip_step_def)
next
  case ns: False
  obtain st' evs rej where sd: "step_device (cfg_for e cf (r_deviceId r)) r (dev_state e cf (r_deviceId r)) = (st', evs, rej)"
    by (cases "step_device (cfg_for e cf (r_deviceId r)) r (dev_state e cf (r_deviceId r))") auto
  show thesis
  proof (cases "d_lastSeen (dev_state e cf (r_deviceId r))")
    case None
    with ns sd show thesis by (intro applied) (auto simp: trip_step_def Let_def)
  next
    case (Some seen)
    show thesis
    proof (cases "r_fixTime r < seen")
      case True
      with ns Some show thesis by (intro late) (auto simp: trip_step_def Let_def)
    next
      case False
      with ns sd Some show thesis by (intro applied) (auto simp: trip_step_def Let_def)
    qed
  qed
qed

lemma trip_step_other: "r_deviceId r \<noteq> k \<Longrightarrow> trip_look (fst (trip_step2 cf e r)) k = trip_look e k"
  by (cases rule: trip_step_cases [where r = r and cf = cf and e = e])
    (auto simp: trip_step2_def trip_look_def update_conv' markLate_other)

lemma trip_step_own:
  assumes "trip_look e (r_deviceId r) = trip_look e' (r_deviceId r)"
  shows "trip_look (fst (trip_step2 cf e r)) (r_deviceId r) = trip_look (fst (trip_step2 cf e' r)) (r_deviceId r) \<and>
    snd (trip_step2 cf e r) = snd (trip_step2 cf e' r)"
proof -
  let ?d = "r_deviceId r"
  from assms have l: "map_of (te_late e) ?d = map_of (te_late e') ?d" and t: "te_default e = te_default e'"
    and s: "map_of (te_state e) ?d = map_of (te_state e') ?d" by (simp_all add: trip_look_def)
  have c: "cfg_for e' cf ?d = cfg_for e cf ?d" by (simp only: cfg_for_def t)
  have d: "dev_state e' cf ?d = dev_state e cf ?d" by (simp only: dev_state_def s c)
  show ?thesis
  proof (cases rule: trip_step_cases [where r = r and cf = cf and e = e])
    case skewed
    then have "trip_step cf e' r = (e', [], False)" by (simp add: trip_step_def)
    with skewed assms show ?thesis by (simp add: trip_step2_def)
  next
    case (late seen)
    have "trip_step cf e' r = (markLate (e'\<lparr>te_state := AList.update ?d (dev_state e cf ?d) (te_state e')\<rparr>) ?d (r_fixTime r), [], False)"
      using late by (simp add: trip_step_def Let_def d)
    with late t l show ?thesis by (simp add: trip_step2_def trip_look_def update_conv' markLate_own)
  next
    case (applied st' evs rej)
    then have "trip_step cf e' r = (e'\<lparr>te_state := AList.update ?d st' (te_state e')\<rparr>, evs, rej)"
      by (auto simp: trip_step_def Let_def d c split: option.split)
    with applied t l show ?thesis by (simp add: trip_step2_def trip_look_def update_conv')
  qed
qed

lemma trip_step_device: "x \<in> set (snd (trip_step2 cf e r)) \<Longrightarrow> event_device x = r_deviceId r"
proof (cases rule: trip_step_cases [where r = r and cf = cf and e = e])
  case (applied st' evs rej)
  assume "x \<in> set (snd (trip_step2 cf e r))"
  with applied have "x \<in> set (fst (snd (step_device (cfg_for e cf (r_deviceId r)) r (dev_state e cf (r_deviceId r)))))"
    by (simp add: trip_step2_def)
  then show ?thesis by (rule step_device_events)
qed (auto simp: trip_step2_def)

interpretation trips: keyed_engine "trip_step2 cf" trip_look r_deviceId event_device "trip_feed cf" for cf
proof (unfold_locales, goal_cases)
  case (1 r k e)
  then show ?case by (rule trip_step_other)
next
  case (2 e r e')
  then show ?case by (rule trip_step_own)
next
  case (3 x e r)
  then show ?case by (rule trip_step_device)
next
  case (4 e)
  then show ?case by simp
next
  case (5 e r rs)
  then show ?case by (simp add: trip_step2_def case_prod_beta Let_def)
qed

lemma trip_devices_indep:
  "filter (\<lambda>x. event_device x = dev) (snd (trip_feed configFor e records)) =
     snd (trip_feed configFor e (filter (\<lambda>r. r_deviceId r = dev) records)) \<and>
   trip_look (fst (trip_feed configFor e records)) dev =
     trip_look (fst (trip_feed configFor e (filter (\<lambda>r. r_deviceId r = dev) records))) dev"
  using trips.feed_projects [of e dev e configFor records] by simp

text \<open>Devices do not disturb each other: the trip events of a device, and everything the engine
  remembers about it, are those of an engine that was fed this device's records alone, however the
  batch interleaves the devices.\<close>

theorem trip_devices_independent:
  "filter (\<lambda>x. event_device x = dev) (snd (trip_feed configFor e records)) =
     snd (trip_feed configFor e (filter (\<lambda>r. r_deviceId r = dev) records)) \<and>
   trip_look (fst (trip_feed configFor e records)) dev =
     trip_look (fst (trip_feed configFor e (filter (\<lambda>r. r_deviceId r = dev) records))) dev"
  using trips.feed_projects [of e dev e configFor records] by simp

section \<open>Every event stream is a sequence of trips\<close>

definition engine_inv :: "trip_engine \<Rightarrow> bool" where
  "engine_inv e \<longleftrightarrow> thr_ok (thr (te_default e)) \<and> (\<forall>dev st. map_of (te_state e) dev = Some st \<longrightarrow> dev_inv st)"

definition configs_ok :: "(int \<Rightarrow> trip_config option) \<Rightarrow> bool" where
  "configs_ok cf \<longleftrightarrow> (\<forall>dev c. cf dev = Some c \<longrightarrow> thr_ok (thr c))"

definition open_start_of :: "trip_engine \<Rightarrow> int \<Rightarrow> int option" where
  "open_start_of e dev = map_option fst (openSnapshot e dev)"

lemma open_start_of_state:
  "open_start_of e dev = (case map_of (te_state e) dev of None \<Rightarrow> None | Some st \<Rightarrow> open_start st)"
  by (simp add: open_start_of_def openSnapshot_def open_start_def option.map_comp comp_def split: option.split)

lemma cfg_for_ok: "engine_inv e \<Longrightarrow> configs_ok cf \<Longrightarrow> thr_ok (thr (cfg_for e cf dev))"
  by (simp add: cfg_for_def engine_inv_def configs_ok_def split: option.split)

lemma dev_state_inv: "engine_inv e \<Longrightarrow> configs_ok cf \<Longrightarrow> dev_inv (dev_state e cf dev)"
  using cfg_for_ok [of e cf dev]
  by (auto simp: dev_state_def engine_inv_def dev_inv_def split: option.split)

lemma open_start_dev_state: "open_start (dev_state e cf dev) = open_start_of e dev"
  by (simp add: dev_state_def open_start_of_state open_start_def split: option.split)

lemma trip_step_good:
  assumes inv: "engine_inv e" and cf: "configs_ok cf" and la: "coords_ok (r_lat r)"
  shows "engine_inv (fst (trip_step2 cf e r)) \<and> list_all event_ok (snd (trip_step2 cf e r)) \<and>
    replay (open_start_of e (r_deviceId r)) (snd (trip_step2 cf e r)) =
      Some (open_start_of (fst (trip_step2 cf e r)) (r_deviceId r))"
proof (cases rule: trip_step_cases [where r = r and cf = cf and e = e])
  case skewed
  with inv show ?thesis by (simp add: trip_step2_def)
next
  case (late seen)
  then show ?thesis
    using inv dev_state_inv [OF inv cf, of "r_deviceId r"] open_start_dev_state [of e cf "r_deviceId r"]
    by (auto simp: trip_step2_def engine_inv_def update_conv' open_start_of_state)
next
  case (applied st' evs rej)
  have "step_good (r_deviceId r) (r_fixTime r) (open_start (dev_state e cf (r_deviceId r))) (st', evs, rej)"
    using step_device_good [OF dev_state_inv [OF inv cf] applied(2) cfg_for_ok [OF inv cf] la] applied(3)
    by metis
  with applied inv show ?thesis
    by (auto simp: trip_step2_def step_good_def engine_inv_def update_conv' open_start_of_state
        open_start_dev_state)
qed

lemma trip_feed_good:
  assumes cf: "configs_ok cf"
  shows "engine_inv e \<Longrightarrow> list_all (\<lambda>r. coords_ok (r_lat r) \<and> r_deviceId r = dev) rs \<Longrightarrow>
    engine_inv (fst (trip_feed cf e rs)) \<and> list_all event_ok (snd (trip_feed cf e rs)) \<and>
    replay (open_start_of e dev) (snd (trip_feed cf e rs)) = Some (open_start_of (fst (trip_feed cf e rs)) dev)"
proof (induction rs arbitrary: e)
  case Nil
  then show ?case by simp
next
  case (Cons r rs)
  then have "coords_ok (r_lat r)" and d: "r_deviceId r = dev" by simp_all
  from trip_step_good [OF Cons.prems(1) cf this(1)] d
  have s: "engine_inv (fst (trip_step2 cf e r))" "list_all event_ok (snd (trip_step2 cf e r))"
    "replay (open_start_of e dev) (snd (trip_step2 cf e r)) = Some (open_start_of (fst (trip_step2 cf e r)) dev)"
    by simp_all
  from Cons.IH [OF s(1)] Cons.prems(2) s show ?case
    by (simp add: trips.feed_Cons case_prod_beta Let_def replay_append del: trip_feed.simps)
qed

lemma trip_feed_replays:
  assumes "thr_ok t" and "configs_ok configFor" and "list_all (\<lambda>r. coords_ok (r_lat r)) records"
  shows "let (e, evs) = trip_feed configFor (new_trip_engine t) records;
             mine = filter (\<lambda>x. event_device x = dev) evs in
    replay None mine = Some (map_option fst (openSnapshot e dev)) \<and> list_all event_ok mine"
proof -
  let ?e0 = "new_trip_engine t" and ?mine = "filter (\<lambda>r. r_deviceId r = dev) records"
  have i: "engine_inv ?e0" using assms(1) by (simp add: engine_inv_def new_trip_engine_def)
  have "list_all (\<lambda>r. coords_ok (r_lat r) \<and> r_deviceId r = dev) ?mine"
    using assms(3) by (auto simp: list_all_iff)
  from trip_feed_good [OF assms(2) i this] trip_devices_indep [of dev configFor ?e0 records]
  show ?thesis
    by (simp add: case_prod_beta Let_def open_start_of_def openSnapshot_def trip_look_def new_trip_engine_def)
qed

text \<open>C31. The life of a trip, for each device of a batch of any length, order and validity: the events
  alternate open, close, open, close, each close carries the start time of the open before it, and
  what the engine says is open afterwards is exactly the open event not yet closed. Every close has
  an end not before its start, a non-negative distance and idle time, and, when the odometer was
  used, a distance no vehicle could exceed (55 m/s over the trip, at least 50 km).\<close>

theorem trip_lifecycle:
  assumes "thr_ok t" and "configs_ok configFor" and "list_all (\<lambda>r. coords_ok (r_lat r)) records"
  shows "let (e, evs) = trip_feed configFor (new_trip_engine t) records;
             mine = filter (\<lambda>x. event_device x = dev) evs in
    replay None mine = Some (map_option fst (openSnapshot e dev)) \<and> list_all event_ok mine"
  by (rule trip_feed_replays [OF assms])

text \<open>A concrete drive: 100 s with ignition and movement, then ignition off for 200 s.\<close>

definition drive_record :: "int \<Rightarrow> bool \<Rightarrow> nrec" where
  "drive_record t on = \<lparr>r_deviceId = 7, r_fixTime = t, r_serverTime = t, r_lat = 54, r_lon = 25,
     r_altitude = None, r_speed = Some (if on then 40 else 0), r_course = None, r_satellites = 9,
     r_fixValid = True, r_ignition = Some on, r_movement = Some on, r_odometerM = None, r_priority = 0,
     r_recHash = 0, r_attrs = []\<rparr>"

definition drive :: "nrec list" where
  "drive = [drive_record 0 True, drive_record 100000 True, drive_record 200000 False, drive_record 400000 False]"

lemmas trip_eval = trip_step_def dev_state_def cfg_for_def step_device_def step_parked_def step_moving_def
  is_moving_def is_stopped_def next_candidate_def trip_from_def accumulate_def track_idle_def flushIdle_def
  close_trip_def speed_of_def secs_def isClockSkewed_def MAX_CLOCK_SKEW_MS_def DEFAULT_THRESHOLDS_def
  odoDelta_def wouldHaveUsedOdo_def odoImplausible_def round_half_up_def

lemma no_ibutton [simp]: "recordIbutton (drive_record t on) = None"
  by (simp add: recordIbutton_def drive_record_def attr_def nullish_def ibuttonKeyFromAvl_def)

lemma drive_fields [simp]:
  "r_deviceId (drive_record t on) = 7" "r_fixTime (drive_record t on) = t" "r_serverTime (drive_record t on) = t"
  "r_lat (drive_record t on) = 54" "r_lon (drive_record t on) = 25" "r_fixValid (drive_record t on)"
  "r_speed (drive_record t on) = Some (if on then 40 else 0)" "r_ignition (drive_record t on) = Some on"
  "r_movement (drive_record t on) = Some on" "r_odometerM (drive_record t on) = None"
  by (simp_all add: drive_record_def)

lemma drive_events:
  "snd (trip_feed (\<lambda>_. None) (new_trip_engine DEFAULT_THRESHOLDS) drive) =
     [TripOpen \<lparr>oe_deviceId = 7, oe_startTime = 0, oe_startLat = 54, oe_startLon = 25\<rparr>,
      TripClose \<lparr>ce_deviceId = 7, ce_startTime = 0, ce_endTime = 200000, ce_startLat = 54, ce_startLon = 25,
        ce_endLat = 54, ce_endLon = 25, ce_distanceM = 0, ce_distanceSource = SrcGps, ce_maxSpeed = 40,
        ce_idleS = 0, ce_ibutton = None\<rparr>]"
  by (simp add: drive_def new_trip_engine_def trip_eval Let_def)

theorem trip_lifecycle_witness:
  "length (snd (trip_feed (\<lambda>_. None) (new_trip_engine DEFAULT_THRESHOLDS) drive)) = 2 \<and>
   replay None (filter (\<lambda>x. event_device x = 7)
     (snd (trip_feed (\<lambda>_. None) (new_trip_engine DEFAULT_THRESHOLDS) drive))) =
     Some (map_option fst (openSnapshot
       (fst (trip_feed (\<lambda>_. None) (new_trip_engine DEFAULT_THRESHOLDS) drive)) 7))"
proof -
  have "thr_ok DEFAULT_THRESHOLDS" and "configs_ok (\<lambda>_. None)"
    and "list_all (\<lambda>r. coords_ok (r_lat r)) drive"
    by (simp_all add: thr_ok_def DEFAULT_THRESHOLDS_def configs_ok_def drive_def coords_ok_def)
  from trip_lifecycle [OF this, of 7] drive_events show ?thesis
    by (simp add: case_prod_beta Let_def)
qed

section \<open>What an invalid fix may do\<close>

lemma close_trip_keeps:
  "\<exists>c. close_trip dev st t e = (st\<lparr>d_phase := Parked, d_trip := None, d_cand := None\<rparr>, [TripClose c],
      odoImplausible (flushIdle t e (idleSustainS (thr (d_config st)))) e \<and>
      wouldHaveUsedOdo (odometerSource (d_config st)) (flushIdle t e (idleSustainS (thr (d_config st))))) \<and>
    ce_endLat c = t_lastLat t \<and> ce_endLon c = t_lastLon t \<and> ce_endTime c = e \<and>
    ce_maxSpeed c = t_maxSpeed t \<and>
    (ce_distanceSource c = SrcGps \<longrightarrow> ce_distanceM c = round_half_up (t_haversineM t))"
proof -
  have "t_maxSpeed (flushIdle t e s) = t_maxSpeed t" for s
    by (simp add: flushIdle_def split: option.split)
  then show ?thesis by (simp add: close_trip_def Let_def)
qed

text \<open>An invalid fix cannot place a vehicle: for a device with an open trip, a record without a
  valid fix emits nothing or one close, never an open; if the trip stays open only its stop timer can
  have changed (distance, position, speed, odometer and idle time are untouched), and if it closes it
  ends at the last valid position with the distance accumulated from valid fixes. For a parked
  device the record changes nothing but the last-seen time and, if no candidate is forming, the
  configuration.\<close>

theorem invalid_fix_only_stops:
  assumes "\<not> r_fixValid r" and "step_device cfg r st = (st', evs, rej)" and "dev_inv st"
  shows "(case d_trip st of
      None \<Rightarrow> evs = [] \<and> d_trip st' = None \<and> d_phase st' = d_phase st \<and> d_cand st' = d_cand st
    | Some t \<Rightarrow>
        (evs = [] \<and> (\<exists>ss. d_trip st' = Some (t\<lparr>t_stopSince := ss\<rparr>)) \<or>
         (\<exists>c. evs = [TripClose c] \<and> d_trip st' = None \<and> ce_endLat c = t_lastLat t \<and> ce_endLon c = t_lastLon t \<and>
            ce_maxSpeed c = t_maxSpeed t \<and>
            (ce_distanceSource c = SrcGps \<longrightarrow> ce_distanceM c = round_half_up (t_haversineM t)))))"
proof (cases "d_trip st")
  case None
  with assms show ?thesis
    by (auto simp: step_device_def Let_def observeStopWithoutFix_def split: if_splits)
next
  case (Some t)
  with assms(3) have ph: "d_phase st = Moving" by (simp add: dev_inv_def)
  let ?st = "st\<lparr>d_lastSeen := Some (r_fixTime r)\<rparr>"
  have o: "observeStopWithoutFix r ?st = (st', evs, rej)"
    using assms(1,2) ph by (simp add: step_device_def Let_def)
  show ?thesis
  proof (cases "noIgnition (thr (d_config st)) \<or> r_ignition r \<noteq> Some False")
    case True
    then have "evs = [] \<and> (\<exists>ss. d_trip st' = Some (t\<lparr>t_stopSince := ss\<rparr>))"
    proof (cases "noIgnition (thr (d_config st)) \<or> r_ignition r \<noteq> Some True")
      case True
      with o Some ph \<open>noIgnition (thr (d_config st)) \<or> r_ignition r \<noteq> Some False\<close>
      have "evs = [] \<and> d_trip st' = Some t"
        by (cases "noIgnition (thr (d_config st))") (auto simp: observeStopWithoutFix_def)
      moreover have "t = t\<lparr>t_stopSince := t_stopSince t\<rparr>" by simp
      ultimately show ?thesis by metis
    next
      case False
      with o Some ph show ?thesis by (auto simp: observeStopWithoutFix_def)
    qed
    with Some show ?thesis by simp
  next
    case False
    define since where "since = (case t_stopSince t of None \<Rightarrow> r_fixTime r | Some s \<Rightarrow> s)"
    let ?t = "t\<lparr>t_stopSince := Some since\<rparr>"
    let ?st1 = "?st\<lparr>d_trip := Some ?t\<rparr>"
    have oo: "observeStopWithoutFix r ?st =
      (if parkedIgnitionOffS (thr (d_config st)) \<le> secs (r_fixTime r) since
       then close_trip (r_deviceId r) ?st1 ?t since else (?st1, [], False))"
      using False Some ph by (simp add: observeStopWithoutFix_def since_def Let_def)
    note o' = trans [OF o [symmetric] oo]
    show ?thesis
    proof (cases "parkedIgnitionOffS (thr (d_config st)) \<le> secs (r_fixTime r) since")
      case True
      with o' close_trip_keeps [of "r_deviceId r" ?st1 ?t since] Some show ?thesis by auto
    next
      case False
      with o' Some show ?thesis by auto
    qed
  qed
qed

definition parked_without_sky :: nrec where
  "parked_without_sky = (drive_record 400000 False)\<lparr>r_fixValid := False, r_satellites := 0, r_lat := 0, r_lon := 0\<rparr>"

definition drive_state :: device_state where
  "drive_state = the (map_of (te_state (fst (trip_feed (\<lambda>_. None) (new_trip_engine DEFAULT_THRESHOLDS) (take 3 drive)))) 7)"

lemma drive_state_eq:
  "drive_state = \<lparr>d_phase = Moving, d_cand = None, d_trip = Some
     \<lparr>t_startTime = 0, t_startLat = 54, t_startLon = 25, t_lastLat = 54, t_lastLon = 25, t_lastTime = 200000,
      t_haversineM = 0, t_odoStart = None, t_odoLast = None, t_odoBroken = True, t_maxSpeed = 40, t_idleS = 0,
      t_idleSince = None, t_stopSince = Some 200000, t_ibutton = None\<rparr>,
     d_lastSeen = Some 200000, d_config = \<lparr>thr = DEFAULT_THRESHOLDS, odometerSource = OdoAuto\<rparr>\<rparr>"
  by (simp add: drive_state_def drive_def new_trip_engine_def trip_eval Let_def)

theorem invalid_fix_only_stops_witness:
  "\<exists>st' c rej. step_device (d_config drive_state) parked_without_sky drive_state = (st', [TripClose c], rej) \<and>
     ce_endLat c = 54 \<and> ce_endLon c = 25"
proof -
  obtain st' evs rej where s: "step_device (d_config drive_state) parked_without_sky drive_state = (st', evs, rej)"
    by (cases "step_device (d_config drive_state) parked_without_sky drive_state") auto
  have e: "evs \<noteq> []"
    using s by (auto simp: drive_state_eq parked_without_sky_def observeStopWithoutFix_def trip_eval Let_def)
  have i: "dev_inv drive_state"
    by (simp add: drive_state_eq dev_inv_def thr_ok_def DEFAULT_THRESHOLDS_def trip_inv_def coords_ok_def)
  have "\<not> r_fixValid parked_without_sky" by (simp add: parked_without_sky_def)
  from invalid_fix_only_stops [OF this s i] e s show ?thesis
    by (auto simp: drive_state_eq)
qed

section \<open>Disorder and skew\<close>

definition seen_of :: "trip_engine \<Rightarrow> int \<Rightarrow> int option" where
  "seen_of e dev = (case map_of (te_state e) dev of None \<Rightarrow> None | Some st \<Rightarrow> d_lastSeen st)"

lemma step_device_seen: "d_lastSeen (fst (step_device cfg r st)) = Some (r_fixTime r)"
  by (simp add: step_device_def Let_def observeStopWithoutFix_def step_parked_def step_moving_def close_trip_def
      split: option.split)

lemma seen_dev_state: "d_lastSeen (dev_state e cf dev) = seen_of e dev"
  by (simp add: dev_state_def seen_of_def split: option.split)

lemma feed_in_order:
  "list_all (\<lambda>r. r_deviceId r = dev) rs \<Longrightarrow> te_default e = te_default e' \<Longrightarrow>
   (\<And>cf. dev_state e cf dev = dev_state e' cf dev) \<Longrightarrow>
     snd (trip_feed cf e rs) = snd (trip_feed cf e' (in_order (seen_of e' dev) rs)) \<and>
     open_start_of (fst (trip_feed cf e rs)) dev = open_start_of (fst (trip_feed cf e' (in_order (seen_of e' dev) rs))) dev"
proof (induction rs arbitrary: e e')
  case Nil
  then show ?case
    using open_start_dev_state [of e "\<lambda>_. None" dev] open_start_dev_state [of e' "\<lambda>_. None" dev] by simp
next
  case (Cons r rs)
  from Cons.prems have d: "r_deviceId r = dev" and rs: "list_all (\<lambda>r. r_deviceId r = dev) rs" by simp_all
  have s: "seen_of e dev = seen_of e' dev"
    using Cons.prems(3) seen_dev_state by metis
  have ds: "dev_state e cf dev = dev_state e' cf dev" by (rule Cons.prems(3))
  have cfg: "cfg_for e cf dev = cfg_for e' cf dev" for cf by (simp only: cfg_for_def Cons.prems(2))
  show ?case
  proof (cases rule: trip_step_cases [where r = r and cf = cf and e = e])
    case skewed
    with Cons.IH [OF rs Cons.prems(2,3)] show ?thesis
      by (simp add: trips.feed_Cons trip_step2_def case_prod_beta Let_def del: trip_feed.simps)
  next
    case (late seen)
    let ?e1 = "fst (trip_step2 cf e r)"
    have "te_default ?e1 = te_default e'" and "dev_state ?e1 cf' dev = dev_state e' cf' dev" for cf'
      using late d Cons.prems(2) ds by (auto simp: trip_step2_def dev_state_def update_conv' split: option.splits)
    from Cons.IH [OF rs this] late d s seen_dev_state [of e cf dev] show ?thesis
      by (simp add: trips.feed_Cons trip_step2_def case_prod_beta Let_def del: trip_feed.simps)
  next
    case (applied st' evs rej)
    let ?e1 = "fst (trip_step2 cf e r)" and ?e1' = "fst (trip_step2 cf e' r)"
    have t': "trip_step cf e' r = (e'\<lparr>te_state := AList.update dev st' (te_state e')\<rparr>, evs, rej)"
      using applied d ds cfg [of cf] by (auto simp: trip_step_def Let_def split: option.split)
    have e1: "?e1 = e\<lparr>te_state := AList.update dev st' (te_state e)\<rparr>"
      and e1': "?e1' = e'\<lparr>te_state := AList.update dev st' (te_state e')\<rparr>"
      using applied t' d by (simp_all add: trip_step2_def)
    have "te_default ?e1 = te_default ?e1'" and "dev_state ?e1 cf' dev = dev_state ?e1' cf' dev" for cf'
      using Cons.prems(2) unfolding e1 e1' by (simp_all add: dev_state_def update_conv')
    note ih = Cons.IH [OF rs this]
    have se: "seen_of ?e1' dev = Some (r_fixTime r)"
      using step_device_seen [of "cfg_for e cf dev" r "dev_state e cf dev"] applied d
      unfolding e1' by (simp add: seen_of_def update_conv')
    have io: "in_order (seen_of e' dev) (r # rs) = r # in_order (Some (r_fixTime r)) rs"
      using applied(1,2) d seen_dev_state [of e cf dev] s by (auto split: option.split)
    show ?thesis
      unfolding io using ih t' applied d se
      by (simp add: trips.feed_Cons trip_step2_def case_prod_beta Let_def del: trip_feed.simps)
  qed
qed

text \<open>Late and clock-skewed records cannot corrupt a trip: the events of a device, and the trip it
  has open, are exactly those of the sub-sequence of records that are neither ahead of the server's
  clock nor older than an accepted one. So a buffered batch delivered late produces no negative
  duration and no double trip, it only leaves a reconcile mark.\<close>

theorem trip_feed_ignores_disorder:
  "filter (\<lambda>x. event_device x = dev) (snd (trip_feed configFor (new_trip_engine t) records)) =
     snd (trip_feed configFor (new_trip_engine t) (in_order None (filter (\<lambda>r. r_deviceId r = dev) records)))"
proof -
  have "list_all (\<lambda>r. r_deviceId r = dev) (filter (\<lambda>r. r_deviceId r = dev) records)"
    by (simp add: list_all_iff)
  from feed_in_order [where e = "new_trip_engine t" and e' = "new_trip_engine t" and cf = configFor,
      OF this refl refl]
  have "snd (trip_feed configFor (new_trip_engine t) (filter (\<lambda>r. r_deviceId r = dev) records)) =
      snd (trip_feed configFor (new_trip_engine t) (in_order None (filter (\<lambda>r. r_deviceId r = dev) records)))"
    by (simp add: seen_of_def new_trip_engine_def)
  with trip_devices_indep [of dev configFor "new_trip_engine t" records] show ?thesis by simp
qed

end
