(* ===== verification/Point.thy ===== *)
theory Point
  imports Prelude
begin

text \<open>
  apps/worker/src/geofence/point.ts: containment of a point in a GeoJSON polygon by ray casting, and
  the bounding-box rejection that precedes it. A position is a pair (longitude, latitude) of reals.
  The envelope of an empty ring, all infinities in the code, is \<open>EmptyBox\<close>: every point is outside it.
\<close>

type_synonym ring = "(real \<times> real) list"

type_synonym polygon = "ring list"

datatype bbox = EmptyBox | Box real real real real

fun grow_box :: "bbox \<Rightarrow> real \<times> real \<Rightarrow> bbox" where
  "grow_box EmptyBox (x, y) = Box x y x y"
| "grow_box (Box minLon minLat maxLon maxLat) (x, y) =
     Box (if x < minLon then x else minLon) (if y < minLat then y else minLat)
         (if x > maxLon then x else maxLon) (if y > maxLat then y else maxLat)"

definition bboxOf :: "polygon \<Rightarrow> bbox" where
  "bboxOf poly = foldl grow_box EmptyBox (case poly of [] \<Rightarrow> [] | outer # holes \<Rightarrow> outer)"

fun outsideBBox :: "real \<Rightarrow> real \<Rightarrow> bbox \<Rightarrow> bool" where
  "outsideBBox lon lat EmptyBox = True"
| "outsideBBox lon lat (Box minLon minLat maxLon maxLat) \<longleftrightarrow>
     lon < minLon \<or> lon > maxLon \<or> lat < minLat \<or> lat > maxLat"

definition crosses :: "real \<Rightarrow> real \<Rightarrow> real \<times> real \<Rightarrow> real \<times> real \<Rightarrow> bool" where
  "crosses lon lat p q =
     (let (xi, yi) = p; (xj, yj) = q in
      (yi > lat) \<noteq> (yj > lat) \<and> lon < (xj - xi) * (lat - yi) / (yj - yi) + xi)"

text \<open>The loop of \<open>inRing\<close>: the previous vertex (the last one at first) and the parity so far.\<close>

fun inRing_loop :: "real \<Rightarrow> real \<Rightarrow> real \<times> real \<Rightarrow> bool \<Rightarrow> ring \<Rightarrow> bool" where
  "inRing_loop lon lat pj inside [] = inside"
| "inRing_loop lon lat pj inside (p # ps) =
     inRing_loop lon lat p (if crosses lon lat p pj then \<not> inside else inside) ps"

definition inRing :: "real \<Rightarrow> real \<Rightarrow> ring \<Rightarrow> bool" where
  "inRing lon lat rng = (case rng of [] \<Rightarrow> False | _ \<Rightarrow> inRing_loop lon lat (last rng) False rng)"

definition pointInPolygon :: "real \<Rightarrow> real \<Rightarrow> polygon \<Rightarrow> bool" where
  "pointInPolygon lon lat poly =
     (case poly of [] \<Rightarrow> False
      | outer # holes \<Rightarrow> inRing lon lat outer \<and> \<not> list_ex (inRing lon lat) holes)"

section \<open>The envelope\<close>

definition in_box :: "bbox \<Rightarrow> real \<times> real \<Rightarrow> bool" where
  "in_box b p = (case p of (x, y) \<Rightarrow> \<not> outsideBBox x y b)"

lemma grow_box_contains: "in_box (grow_box b p) p"
  by (cases b; cases p) (auto simp: in_box_def)

lemma grow_box_mono: "in_box b q \<Longrightarrow> in_box (grow_box b p) q"
  by (cases b; cases p; cases q) (auto simp: in_box_def)

lemma foldl_box_mono: "in_box b q \<Longrightarrow> in_box (foldl grow_box b ps) q"
  by (induction ps arbitrary: b) (auto intro: grow_box_mono)

lemma foldl_box_contains: "p \<in> set ps \<Longrightarrow> in_box (foldl grow_box b ps) p"
  by (induction ps arbitrary: b) (auto intro: foldl_box_mono grow_box_contains)

section \<open>Crossings of the ray\<close>

lemma crossing_between:
  fixes xi yi xj yj lat :: real
  assumes "(yi > lat) \<noteq> (yj > lat)"
  shows "min xi xj \<le> (xj - xi) * (lat - yi) / (yj - yi) + xi \<and>
    (xj - xi) * (lat - yi) / (yj - yi) + xi \<le> max xi xj"
proof -
  define t where "t = (lat - yi) / (yj - yi)"
  have t: "0 \<le> t" "t \<le> 1"
    using assms by (auto simp: t_def divide_le_eq zero_le_divide_iff)
  have e: "(xj - xi) * (lat - yi) / (yj - yi) + xi = xi + t * (xj - xi)"
    by (simp add: t_def)
  show ?thesis
  proof (cases "xi \<le> xj")
    case True
    then have "0 \<le> t * (xj - xi)" "t * (xj - xi) \<le> 1 * (xj - xi)"
      using t by (simp, intro mult_right_mono) auto
    with True e show ?thesis by simp
  next
    case False
    then have "0 \<le> t * (xi - xj)" "t * (xi - xj) \<le> 1 * (xi - xj)"
      using t by (simp, intro mult_right_mono) auto
    moreover have "t * (xj - xi) = - (t * (xi - xj))" by (simp add: algebra_simps)
    ultimately show ?thesis using False e unfolding min_def max_def by (simp only: if_False mult_1) linarith
  qed
qed

lemma no_crossing_loop:
  "(\<forall>p \<in> set ps. \<forall>q. q \<in> insert pj (set ps) \<longrightarrow> \<not> crosses lon lat p q) \<Longrightarrow>
     inRing_loop lon lat pj inside ps = inside"
  by (induction ps arbitrary: pj) auto

text \<open>To the left of every vertex each edge that spans the latitude is crossed, and a closed ring has an
  even number of them.\<close>

lemma left_parity:
  "(\<forall>p \<in> insert pj (set ps). \<forall>q \<in> insert pj (set ps).
      crosses lon lat p q \<longleftrightarrow> ((snd p > lat) \<noteq> (snd q > lat))) \<Longrightarrow>
     inRing_loop lon lat pj inside ps =
       (inside \<noteq> ((snd pj > lat) \<noteq> (snd (last (pj # ps)) > lat)))"
proof (induction ps arbitrary: pj inside)
  case Nil
  then show ?case by simp
next
  case (Cons p ps)
  have c: "crosses lon lat p pj \<longleftrightarrow> ((snd p > lat) \<noteq> (snd pj > lat))"
    using Cons.prems by simp
  have "inRing_loop lon lat p (if crosses lon lat p pj then \<not> inside else inside) ps =
      ((if crosses lon lat p pj then \<not> inside else inside) \<noteq> ((snd p > lat) \<noteq> (snd (last (p # ps)) > lat)))"
    by (rule Cons.IH) (use Cons.prems in simp)
  then show ?case using c by auto
qed

lemma outside_not_in_ring:
  assumes box: "\<forall>p \<in> set rng. in_box b p" and out: "outsideBBox lon lat b"
  shows "\<not> inRing lon lat rng"
proof (cases rng)
  case Nil
  then show ?thesis by (simp add: inRing_def)
next
  case (Cons p0 ps)
  then have l: "last rng \<in> set rng" by simp
  obtain x0 y0 x1 y1 where b: "b = Box x0 y0 x1 y1"
    using box Cons by (cases b; cases p0) (auto simp: in_box_def)
  have bx: "x0 \<le> fst p \<and> fst p \<le> x1 \<and> y0 \<le> snd p \<and> snd p \<le> y1" if "p \<in> set rng" for p
    using box that b by (cases p) (auto simp: in_box_def)
  have eq: "inRing lon lat rng = inRing_loop lon lat (last rng) False rng"
    using Cons by (simp add: inRing_def)
  consider "lon < x0" | "lon > x1" | "lat < y0 \<or> lat > y1" using out b by auto
  then show ?thesis
  proof cases
    case 1
    have "crosses lon lat p q \<longleftrightarrow> ((snd p > lat) \<noteq> (snd q > lat))" if "p \<in> set rng" "q \<in> set rng" for p q
    proof -
      have "lon < min (fst p) (fst q)" using bx [OF that(1)] bx [OF that(2)] 1 by simp
      then show ?thesis
        using crossing_between [of lat "snd p" "snd q" "fst p" "fst q"]
        by (auto simp: crosses_def case_prod_beta Let_def)
    qed
    with l have "inRing_loop lon lat (last rng) False rng = (False \<noteq> ((snd (last rng) > lat) \<noteq> (snd (last (last rng # rng)) > lat)))"
      by (intro left_parity) auto
    with eq Cons show ?thesis by simp
  next
    case 2
    have "\<not> crosses lon lat p q" if "p \<in> set rng" "q \<in> set rng" for p q
    proof -
      have m: "max (fst p) (fst q) < lon" using bx [OF that(1)] bx [OF that(2)] 2 by simp
      show ?thesis
      proof
        assume "crosses lon lat p q"
        then have ne: "(snd p > lat) \<noteq> (snd q > lat)"
          and "lon < (fst q - fst p) * (lat - snd p) / (snd q - snd p) + fst p"
          by (simp_all add: crosses_def case_prod_beta Let_def)
        with crossing_between [OF ne, of "fst p" "fst q"] m show False by linarith
      qed
    qed
    with l eq show ?thesis by (simp add: no_crossing_loop)
  next
    case 3
    have "\<not> crosses lon lat p q" if "p \<in> set rng" "q \<in> set rng" for p q
    proof -
      have "(snd p > lat) = (snd q > lat)" using bx [OF that(1)] bx [OF that(2)] 3 by auto
      then show ?thesis by (simp add: crosses_def case_prod_beta Let_def)
    qed
    with l eq show ?thesis by (simp add: no_crossing_loop)
  qed
qed

text \<open>The envelope test is an exact rejection: a point outside the bounding box of a polygon's
  outer ring is never inside the polygon, so answering "out" without casting the ray changes nothing,
  for any polygon, convex or not, open or closed, with or without holes.\<close>

theorem bbox_rejection_exact:
  assumes "outsideBBox lon lat (bboxOf poly)"
  shows "\<not> pointInPolygon lon lat poly"
proof (cases poly)
  case Nil
  then show ?thesis by (simp add: pointInPolygon_def)
next
  case (Cons outer holes)
  have "\<forall>p \<in> set outer. in_box (bboxOf poly) p"
    using Cons foldl_box_contains by (simp add: bboxOf_def)
  from outside_not_in_ring [OF this assms] Cons show ?thesis by (simp add: pointInPolygon_def)
qed

theorem bbox_rejection_exact_witness:
  "\<not> pointInPolygon (- 1) 1 [[(0, 0), (0, 2), (2, 2), (2, 0)]]"
  by (rule bbox_rejection_exact) (simp add: bboxOf_def)

lemma pointInPolygon_example: "pointInPolygon 1 1 [[(0, 0), (0, 2), (2, 2), (2, 0)]]"
  by (simp add: pointInPolygon_def inRing_def crosses_def)

end
