(* ===== verification/GeofenceEngine.thy ===== *)
theory GeofenceEngine
  imports Records Point
begin

text \<open>
  apps/worker/src/geofence/engine.ts: geofence transitions with hysteresis. The engine keeps, per
  device and fence, the confirmed side and a streak of observations of the other side; a pair's key
  \<open>device:fence\<close> is a pair here. \<open>insideFor\<close> is the durable side a pair is warm-started from, a
  missing one being constantly false.
\<close>

section \<open>State\<close>

record geofence_def =
  gf_id :: string
  gf_name :: string
  gf_geometry :: polygon
  gf_bbox :: "bbox option"

datatype side = In | Out

datatype crossing = Enter | Exit

record transition =
  tr_deviceId :: int
  tr_geofenceId :: string
  tr_geofenceName :: string
  tr_type :: crossing
  tr_at :: int
  tr_lat :: real
  tr_lon :: real

record pair_state =
  ps_inside :: bool
  ps_pendingSide :: "side option"
  ps_pendingCount :: nat

record geofence_engine =
  gs_state :: "((int \<times> string) \<times> pair_state) list"
  gs_lastSeen :: "(int \<times> int) list"
  gs_pairsByDevice :: "(int \<times> string list) list"
  gs_enterStreak :: nat
  gs_exitStreak :: nat

definition new_geofence_engine :: "nat \<Rightarrow> nat \<Rightarrow> geofence_engine" where
  "new_geofence_engine enter exit =
     \<lparr>gs_state = [], gs_lastSeen = [], gs_pairsByDevice = [], gs_enterStreak = enter, gs_exitStreak = exit\<rparr>"

section \<open>One observation of one fence\<close>

definition side_of :: "nrec \<Rightarrow> geofence_def \<Rightarrow> side" where
  "side_of r gf =
     (if (case gf_bbox gf of None \<Rightarrow> False | Some b \<Rightarrow> outsideBBox (r_lon r) (r_lat r) b) then Out
      else if pointInPolygon (r_lon r) (r_lat r) (gf_geometry gf) then In else Out)"

definition confirmed :: "pair_state \<Rightarrow> side" where
  "confirmed st = (if ps_inside st then In else Out)"

text \<open>The streak logic: the new state, and whether the flip was confirmed.\<close>

definition pair_step :: "nat \<Rightarrow> nat \<Rightarrow> side \<Rightarrow> pair_state \<Rightarrow> pair_state \<times> bool" where
  "pair_step enter exit sd st =
     (if sd = confirmed st then (st\<lparr>ps_pendingSide := None, ps_pendingCount := 0\<rparr>, False)
      else let st1 = (if ps_pendingSide st = Some sd then st\<lparr>ps_pendingCount := ps_pendingCount st + 1\<rparr>
                      else st\<lparr>ps_pendingSide := Some sd, ps_pendingCount := 1\<rparr>);
               threshold = (if sd = In then enter else exit) in
        if threshold \<le> ps_pendingCount st1
        then (\<lparr>ps_inside = (sd = In), ps_pendingSide = None, ps_pendingCount = 0\<rparr>, True)
        else (st1, False))"

definition pair_of :: "geofence_engine \<Rightarrow> (int \<Rightarrow> string \<Rightarrow> bool) \<Rightarrow> int \<Rightarrow> string \<Rightarrow> pair_state" where
  "pair_of e insideFor dev g =
     (case map_of (gs_state e) (dev, g) of
        Some st \<Rightarrow> st
      | None \<Rightarrow> \<lparr>ps_inside = insideFor dev g, ps_pendingSide = None, ps_pendingCount = 0\<rparr>)"

definition add_pair :: "geofence_engine \<Rightarrow> int \<Rightarrow> string \<Rightarrow> geofence_engine" where
  "add_pair e dev g =
     (let mine = (case map_of (gs_pairsByDevice e) dev of None \<Rightarrow> [] | Some m \<Rightarrow> m) in
      e\<lparr>gs_pairsByDevice := AList.update dev (List.insert g mine) (gs_pairsByDevice e)\<rparr>)"

definition transition_of :: "nrec \<Rightarrow> geofence_def \<Rightarrow> side \<Rightarrow> transition" where
  "transition_of r gf sd =
     \<lparr>tr_deviceId = r_deviceId r, tr_geofenceId = gf_id gf, tr_geofenceName = gf_name gf,
      tr_type = (if sd = In then Enter else Exit), tr_at = r_fixTime r, tr_lat = r_lat r, tr_lon = r_lon r\<rparr>"

definition fence_step ::
  "(int \<Rightarrow> string \<Rightarrow> bool) \<Rightarrow> nrec \<Rightarrow> geofence_engine \<Rightarrow> geofence_def \<Rightarrow> geofence_engine \<times> transition list" where
  "fence_step insideFor r e gf =
     (let dev = r_deviceId r; sd = side_of r gf;
          (st', flipped) = pair_step (gs_enterStreak e) (gs_exitStreak e) sd (pair_of e insideFor dev (gf_id gf));
          e1 = add_pair e dev (gf_id gf) in
      (e1\<lparr>gs_state := AList.update (dev, gf_id gf) st' (gs_state e1)\<rparr>,
       if flipped then [transition_of r gf sd] else []))"

fun fences_step ::
  "(int \<Rightarrow> string \<Rightarrow> bool) \<Rightarrow> nrec \<Rightarrow> geofence_engine \<Rightarrow> geofence_def list \<Rightarrow> geofence_engine \<times> transition list" where
  "fences_step insideFor r e [] = (e, [])"
| "fences_step insideFor r e (gf # gfs) =
     (let (e1, o1) = fence_step insideFor r e gf; (e2, o2) = fences_step insideFor r e1 gfs in (e2, o1 @ o2))"

section \<open>A batch\<close>

definition accepts :: "geofence_engine \<Rightarrow> nrec \<Rightarrow> bool" where
  "accepts e r \<longleftrightarrow>
     r_fixValid r \<and> \<not> isClockSkewed r \<and>
     (case map_of (gs_lastSeen e) (r_deviceId r) of None \<Rightarrow> True | Some seen \<Rightarrow> \<not> r_fixTime r < seen)"

definition geo_record ::
  "(int \<Rightarrow> geofence_def list) \<Rightarrow> (int \<Rightarrow> string \<Rightarrow> bool) \<Rightarrow> geofence_engine \<Rightarrow> nrec \<Rightarrow> geofence_engine \<times> transition list" where
  "geo_record geofencesFor insideFor e r =
     (if \<not> accepts e r then (e, [])
      else fences_step insideFor r
             (e\<lparr>gs_lastSeen := AList.update (r_deviceId r) (r_fixTime r) (gs_lastSeen e)\<rparr>)
             (geofencesFor (r_deviceId r)))"

fun geo_loop ::
  "(int \<Rightarrow> geofence_def list) \<Rightarrow> (int \<Rightarrow> string \<Rightarrow> bool) \<Rightarrow> geofence_engine \<Rightarrow> nrec list \<Rightarrow>
     geofence_engine \<times> transition list" where
  "geo_loop geofencesFor insideFor e [] = (e, [])"
| "geo_loop geofencesFor insideFor e (r # rs) =
     (let (e1, o1) = geo_record geofencesFor insideFor e r;
          (e2, o2) = geo_loop geofencesFor insideFor e1 rs in (e2, o1 @ o2))"

text \<open>The devices whose last accepted record set their fences (\<open>lastFences\<close>), in insertion order.\<close>

fun seen_devices ::
  "(int \<Rightarrow> geofence_def list) \<Rightarrow> (int \<Rightarrow> string \<Rightarrow> bool) \<Rightarrow> geofence_engine \<Rightarrow> nrec list \<Rightarrow> int list" where
  "seen_devices geofencesFor insideFor e [] = []"
| "seen_devices geofencesFor insideFor e (r # rs) =
     (let rest = seen_devices geofencesFor insideFor (fst (geo_record geofencesFor insideFor e r)) rs in
      if accepts e r then r_deviceId r # removeAll (r_deviceId r) rest else rest)"

definition prune :: "geofence_engine \<Rightarrow> int \<Rightarrow> geofence_def list \<Rightarrow> geofence_engine" where
  "prune e dev fences =
     (case map_of (gs_pairsByDevice e) dev of None \<Rightarrow> e
      | Some mine \<Rightarrow>
          (let live = map gf_id fences; gone = filter (\<lambda>g. g \<notin> set live) mine;
               mine' = filter (\<lambda>g. g \<in> set live) mine in
           e\<lparr>gs_state := filter (\<lambda>(k, v). \<not> (fst k = dev \<and> snd k \<in> set gone)) (gs_state e),
             gs_pairsByDevice := (if mine' = [] then AList.delete dev (gs_pairsByDevice e)
                                  else AList.update dev mine' (gs_pairsByDevice e))\<rparr>))"

definition geo_feed ::
  "(int \<Rightarrow> geofence_def list) \<Rightarrow> (int \<Rightarrow> string \<Rightarrow> bool) \<Rightarrow> geofence_engine \<Rightarrow> nrec list \<Rightarrow>
     geofence_engine \<times> transition list" where
  "geo_feed geofencesFor insideFor e rs =
     (let (e1, evs) = geo_loop geofencesFor insideFor e rs in
      (foldl (\<lambda>e dev. prune e dev (geofencesFor dev)) e1 (seen_devices geofencesFor insideFor e rs), evs))"

fun rollback_one :: "geofence_engine \<Rightarrow> transition \<Rightarrow> geofence_engine" where
  "rollback_one e t =
     (case map_of (gs_state e) (tr_deviceId t, tr_geofenceId t) of None \<Rightarrow> e
      | Some st \<Rightarrow>
          e\<lparr>gs_state := AList.update (tr_deviceId t, tr_geofenceId t)
             \<lparr>ps_inside = (tr_type t = Exit), ps_pendingSide = None, ps_pendingCount = 0\<rparr> (gs_state e)\<rparr>)"

definition rollback :: "geofence_engine \<Rightarrow> transition list \<Rightarrow> geofence_engine" where
  "rollback e ts = foldl rollback_one e (rev ts)"

section \<open>Hysteresis of one pair\<close>

text \<open>A run of observations of one pair; the confirmed flips with the index of the observation that
  confirmed them are the events.\<close>

fun pair_run :: "nat \<Rightarrow> nat \<Rightarrow> pair_state \<Rightarrow> side list \<Rightarrow> pair_state \<times> side list" where
  "pair_run n m st [] = (st, [])"
| "pair_run n m st (s # ss) =
     (let (st1, fl) = pair_step n m s st; (st2, evs) = pair_run n m st1 ss in
      (st2, if fl then s # evs else evs))"

definition streak_needed :: "nat \<Rightarrow> nat \<Rightarrow> side \<Rightarrow> nat" where
  "streak_needed n m s = (if s = In then n else m)"

definition opposite :: "side \<Rightarrow> side" where
  "opposite s = (if s = In then Out else In)"

fun alternates :: "side \<Rightarrow> side list \<Rightarrow> bool" where
  "alternates c [] = True"
| "alternates c (s # ss) = (s = opposite c \<and> alternates s ss)"

lemma opposite_simps [simp]: "opposite In = Out" "opposite Out = In" "opposite s \<noteq> s" "s \<noteq> opposite s"
  "opposite (opposite s) = s"
  by (cases s; simp add: opposite_def)+

lemma side_neq: "s \<noteq> t \<Longrightarrow> s = opposite t"
  by (cases s; cases t) simp_all

text \<open>The pending streak is the maximal run of the latest observations (\<open>hist\<close>, latest first) on the
  side that is not confirmed, and it is shorter than what a flip needs.\<close>

definition pair_inv :: "nat \<Rightarrow> nat \<Rightarrow> side list \<Rightarrow> pair_state \<Rightarrow> bool" where
  "pair_inv n m hist st \<longleftrightarrow>
     (let p = ps_pendingCount st; s = opposite (confirmed st) in
      ps_pendingSide st = (if p = 0 then None else Some s) \<and> p < streak_needed n m s \<and> p \<le> length hist \<and>
      take p hist = replicate p s \<and> (p = length hist \<or> hist ! p = confirmed st))"

lemma pair_step_same:
  assumes "s = confirmed st"
  shows "pair_step n m s st = (st\<lparr>ps_pendingSide := None, ps_pendingCount := 0\<rparr>, False)"
  using assms by (simp add: pair_step_def)

lemma pair_step_other:
  assumes inv: "pair_inv n m hist st" and s: "s = opposite (confirmed st)"
  shows "pair_step n m s st =
    (if streak_needed n m s = ps_pendingCount st + 1
     then (\<lparr>ps_inside = (s = In), ps_pendingSide = None, ps_pendingCount = 0\<rparr>, True)
     else (st\<lparr>ps_pendingSide := Some s, ps_pendingCount := ps_pendingCount st + 1\<rparr>, False))"
proof -
  have lt: "ps_pendingCount st < streak_needed n m s"
    and pend: "ps_pendingSide st = (if ps_pendingCount st = 0 then None else Some s)"
    using inv s by (simp_all add: pair_inv_def Let_def)
  let ?st1 = "st\<lparr>ps_pendingSide := Some s, ps_pendingCount := ps_pendingCount st + 1\<rparr>"
  have "(if ps_pendingSide st = Some s then st\<lparr>ps_pendingCount := ps_pendingCount st + 1\<rparr>
         else st\<lparr>ps_pendingSide := Some s, ps_pendingCount := 1\<rparr>) = ?st1"
    using pend by (cases st) auto
  moreover have "s \<noteq> confirmed st" using s by simp
  ultimately have "pair_step n m s st =
      (if streak_needed n m s \<le> ps_pendingCount st + 1
       then (\<lparr>ps_inside = (s = In), ps_pendingSide = None, ps_pendingCount = 0\<rparr>, True) else (?st1, False))"
    by (simp add: pair_step_def streak_needed_def)
  with lt show ?thesis by auto
qed

lemma confirmed_simps [simp]:
  "confirmed (st\<lparr>ps_pendingSide := a, ps_pendingCount := b\<rparr>) = confirmed st"
  "confirmed \<lparr>ps_inside = (s = In), ps_pendingSide = a, ps_pendingCount = b\<rparr> = s"
  by (cases s; simp add: confirmed_def)+

lemma pair_step_inv:
  assumes pos: "0 < n" "0 < m" and inv: "pair_inv n m hist st" and step: "pair_step n m s st = (st', fl)"
  shows "pair_inv n m (s # hist) st'"
    and "fl \<Longrightarrow> s = opposite (confirmed st) \<and> confirmed st' = s \<and>
           take (streak_needed n m s) (s # hist) = replicate (streak_needed n m s) s"
    and "\<not> fl \<Longrightarrow> confirmed st' = confirmed st"
proof -
  have k0: "0 < streak_needed n m t" for t using pos by (simp add: streak_needed_def)
  have "pair_inv n m (s # hist) st' \<and>
    (fl \<longrightarrow> s = opposite (confirmed st) \<and> confirmed st' = s \<and>
       take (streak_needed n m s) (s # hist) = replicate (streak_needed n m s) s) \<and>
    (\<not> fl \<longrightarrow> confirmed st' = confirmed st)"
  proof (cases "s = confirmed st")
    case True
    with step k0 show ?thesis by (auto simp: pair_step_same pair_inv_def Let_def)
  next
    case False
    then have s: "s = opposite (confirmed st)" by (rule side_neq)
    let ?p = "ps_pendingCount st"
    have i: "?p < streak_needed n m s" "?p \<le> length hist" "take ?p hist = replicate ?p s"
      "?p = length hist \<or> hist ! ?p = confirmed st"
      using inv s by (simp_all add: pair_inv_def Let_def)
    show ?thesis
    proof (cases "streak_needed n m s = ?p + 1")
      case True
      with step [unfolded pair_step_other [OF inv s]]
      have r: "st' = \<lparr>ps_inside = (s = In), ps_pendingSide = None, ps_pendingCount = 0\<rparr>" "fl"
        by simp_all
      then have c: "confirmed st' = s" by simp
      have "take (streak_needed n m s) (s # hist) = replicate (streak_needed n m s) s"
        using i(3) True by simp
      moreover have "pair_inv n m (s # hist) st'"
        using r c k0 by (simp add: pair_inv_def Let_def)
      ultimately show ?thesis using r c s by simp
    next
      case False
      with step [unfolded pair_step_other [OF inv s]]
      have r: "st' = st\<lparr>ps_pendingSide := Some s, ps_pendingCount := ?p + 1\<rparr>" "\<not> fl"
        by simp_all
      then have c: "confirmed st' = confirmed st" by simp
      have "pair_inv n m (s # hist) st'"
        using r c i False s by (auto simp: pair_inv_def Let_def)
      with r c show ?thesis by simp
    qed
  qed
  then show "pair_inv n m (s # hist) st'"
    and "fl \<Longrightarrow> s = opposite (confirmed st) \<and> confirmed st' = s \<and>
           take (streak_needed n m s) (s # hist) = replicate (streak_needed n m s) s"
    and "\<not> fl \<Longrightarrow> confirmed st' = confirmed st" by blast+
qed

lemma pair_inv_complete:
  assumes "pair_inv n m hist st" and "take (streak_needed n m s) hist = replicate (streak_needed n m s) s"
    and "0 < streak_needed n m s"
  shows "confirmed st = s"
proof (rule ccontr)
  assume "confirmed st \<noteq> s"
  then have s: "s = opposite (confirmed st)" using side_neq by metis
  let ?p = "ps_pendingCount st" and ?k = "streak_needed n m s"
  have p: "?p < ?k" and e: "?p = length hist \<or> hist ! ?p = confirmed st"
    using assms(1) s by (simp_all add: pair_inv_def Let_def)
  have "?k \<le> length hist" using arg_cong [OF assms(2), of length] by simp
  moreover have "hist ! ?p = s"
    using arg_cong [OF assms(2), of "\<lambda>xs. xs ! ?p"] p by simp
  ultimately show False using p e s by auto
qed

definition has_streak :: "nat \<Rightarrow> side \<Rightarrow> side list \<Rightarrow> bool" where
  "has_streak k s ss \<longleftrightarrow> (\<exists>a b. ss = a @ replicate k s @ b)"

lemma has_streak_take: "take k (rev ss) = replicate k s \<Longrightarrow> has_streak k s ss"
proof -
  assume t: "take k (rev ss) = replicate k s"
  have "rev ss = replicate k s @ drop k (rev ss)" using append_take_drop_id [of k "rev ss"] t by simp
  then have "ss = rev (drop k (rev ss)) @ replicate k s @ []"
    by (metis append_Nil2 rev_append rev_replicate rev_rev_ident)
  then show ?thesis unfolding has_streak_def by blast
qed

lemma has_streak_append: "has_streak k s xs \<Longrightarrow> has_streak k s (xs @ ys)"
  unfolding has_streak_def by (metis append_assoc)

lemma pair_run_good:
  assumes pos: "0 < n" "0 < m"
  shows "pair_inv n m (rev pre) st \<Longrightarrow> pair_run n m st ss = (st', evs) \<Longrightarrow>
    pair_inv n m (rev (pre @ ss)) st' \<and> alternates (confirmed st) evs \<and>
    confirmed st' = last (confirmed st # evs) \<and>
    (\<forall>s \<in> set evs. has_streak (streak_needed n m s) s (pre @ ss))"
proof (induction ss arbitrary: st pre evs)
  case Nil
  then show ?case by simp
next
  case (Cons s ss)
  obtain st1 fl where st: "pair_step n m s st = (st1, fl)" by (cases "pair_step n m s st") auto
  obtain st2 evs1 where run0: "pair_run n m st1 ss = (st2, evs1)" by (cases "pair_run n m st1 ss") auto
  with Cons.prems(2) st have run: "pair_run n m st1 ss = (st', evs1)" and evs: "evs = (if fl then s # evs1 else evs1)"
    by simp_all
  note inv = pair_step_inv [OF pos Cons.prems(1) st]
  have i: "pair_inv n m (rev (pre @ [s])) st1" using inv(1) by simp
  note ih = Cons.IH [OF i run]
  have hs: "has_streak (streak_needed n m s) s ((pre @ [s]) @ ss)" if fl
  proof (rule has_streak_append [OF has_streak_take])
    have r: "rev (pre @ [s]) = s # rev pre" by simp
    show "take (streak_needed n m s) (rev (pre @ [s])) = replicate (streak_needed n m s) s"
      unfolding r using inv(2) [OF that] by blast
  qed
  show ?case using ih inv(2,3) evs hs by (cases fl) auto
qed

lemma geofence_hysteresis_lemma:
  assumes "0 < n" and "0 < m"
    and fresh: "ps_pendingSide st = None" "ps_pendingCount st = 0"
    and run: "pair_run n m st ss = (st', evs)"
  shows "alternates (confirmed st) evs \<and> confirmed st' = last (confirmed st # evs) \<and>
    (\<forall>s \<in> set evs. has_streak (streak_needed n m s) s ss) \<and>
    (\<forall>s. take (streak_needed n m s) (rev ss) = replicate (streak_needed n m s) s \<longrightarrow> confirmed st' = s)"
proof -
  have k: "0 < streak_needed n m s" for s using assms(1,2) by (simp add: streak_needed_def)
  have "pair_inv n m (rev []) st" using fresh k by (simp add: pair_inv_def Let_def)
  from pair_run_good [OF assms(1,2) this run] pair_inv_complete k show ?thesis by auto
qed

text \<open>Hysteresis: whatever sequence of sides a device shows to a fence, the confirmed transitions
  alternate (never two enters in a row), each of them is backed by the full streak of consecutive
  observations on the new side, so jitter shorter than the streak fires nothing, and conversely
  once the latest observations form a full streak on a side, that side is the confirmed one.\<close>

theorem geofence_hysteresis:
  assumes "0 < n" and "0 < m"
    and fresh: "ps_pendingSide st = None" "ps_pendingCount st = 0"
    and run: "pair_run n m st ss = (st', evs)"
  shows "alternates (confirmed st) evs \<and> confirmed st' = last (confirmed st # evs) \<and>
    (\<forall>s \<in> set evs. has_streak (streak_needed n m s) s ss) \<and>
    (\<forall>s. take (streak_needed n m s) (rev ss) = replicate (streak_needed n m s) s \<longrightarrow> confirmed st' = s)"
  using geofence_hysteresis_lemma [OF assms] .

theorem geofence_hysteresis_witness:
  "alternates Out [In, Out] \<and>
   pair_run 2 2 \<lparr>ps_inside = False, ps_pendingSide = None, ps_pendingCount = 0\<rparr> [In, Out, In, In, Out, In, Out, Out] =
     (\<lparr>ps_inside = False, ps_pendingSide = None, ps_pendingCount = 0\<rparr>, [In, Out])"
proof -
  have r: "pair_run 2 2 \<lparr>ps_inside = False, ps_pendingSide = None, ps_pendingCount = 0\<rparr> [In, Out, In, In, Out, In, Out, Out] =
     (\<lparr>ps_inside = False, ps_pendingSide = None, ps_pendingCount = 0\<rparr>, [In, Out])"
    by (simp add: pair_step_def confirmed_def)
  have "alternates (confirmed \<lparr>ps_inside = False, ps_pendingSide = None, ps_pendingCount = 0\<rparr>) [In, Out]"
    using geofence_hysteresis [OF _ _ _ _ r] by simp
  with r show ?thesis by (simp add: confirmed_def)
qed

section \<open>The engine runs one hysteresis per pair\<close>

lemma add_pair_fields [simp]:
  "gs_state (add_pair e d g) = gs_state e" "gs_lastSeen (add_pair e d g) = gs_lastSeen e"
  "gs_enterStreak (add_pair e d g) = gs_enterStreak e" "gs_exitStreak (add_pair e d g) = gs_exitStreak e"
  by (simp_all add: add_pair_def Let_def)

lemma fence_step_fields:
  "gs_lastSeen (fst (fence_step I r e gf)) = gs_lastSeen e"
  "gs_enterStreak (fst (fence_step I r e gf)) = gs_enterStreak e"
  "gs_exitStreak (fst (fence_step I r e gf)) = gs_exitStreak e"
  "gs_state (fst (fence_step I r e gf)) = AList.update (r_deviceId r, gf_id gf)
     (fst (pair_step (gs_enterStreak e) (gs_exitStreak e) (side_of r gf) (pair_of e I (r_deviceId r) (gf_id gf))))
     (gs_state e)"
  "snd (fence_step I r e gf) =
     (if snd (pair_step (gs_enterStreak e) (gs_exitStreak e) (side_of r gf) (pair_of e I (r_deviceId r) (gf_id gf)))
      then [transition_of r gf (side_of r gf)] else [])"
  by (simp_all add: fence_step_def case_prod_beta Let_def)

lemma fences_step_fields:
  "gs_lastSeen (fst (fences_step I r e gfs)) = gs_lastSeen e \<and>
   gs_enterStreak (fst (fences_step I r e gfs)) = gs_enterStreak e \<and>
   gs_exitStreak (fst (fences_step I r e gfs)) = gs_exitStreak e"
  by (induction gfs arbitrary: e) (simp_all add: case_prod_beta Let_def fence_step_fields)

lemma fences_step_other:
  "dev \<noteq> r_deviceId r \<or> g \<notin> gf_id ` set gfs \<Longrightarrow>
     map_of (gs_state (fst (fences_step I r e gfs))) (dev, g) = map_of (gs_state e) (dev, g) \<and>
     filter (\<lambda>t. tr_deviceId t = dev \<and> tr_geofenceId t = g) (snd (fences_step I r e gfs)) = []"
  by (induction gfs arbitrary: e)
    (auto simp: case_prod_beta Let_def fence_step_fields update_conv' transition_of_def filter_empty_conv)

lemma fences_step_own:
  assumes "distinct (map gf_id gfs)" and "gf \<in> set gfs"
  shows "map_of (gs_state (fst (fences_step I r e gfs))) (r_deviceId r, gf_id gf) =
      Some (fst (pair_step (gs_enterStreak e) (gs_exitStreak e) (side_of r gf) (pair_of e I (r_deviceId r) (gf_id gf)))) \<and>
    filter (\<lambda>t. tr_deviceId t = r_deviceId r \<and> tr_geofenceId t = gf_id gf) (snd (fences_step I r e gfs)) =
      (if snd (pair_step (gs_enterStreak e) (gs_exitStreak e) (side_of r gf) (pair_of e I (r_deviceId r) (gf_id gf)))
       then [transition_of r gf (side_of r gf)] else [])"
  using assms
proof (induction gfs arbitrary: e)
  case Nil
  then show ?case by simp
next
  case (Cons x gfs)
  let ?d = "r_deviceId r" and ?e1 = "fst (fence_step I r e x)"
  show ?case
  proof (cases "gf = x")
    case True
    with Cons.prems have n: "gf_id gf \<notin> gf_id ` set gfs" by auto
    from fences_step_other [of ?d r "gf_id gf" gfs I ?e1] n True show ?thesis
      by (simp add: case_prod_beta Let_def fence_step_fields update_conv' transition_of_def)
  next
    case False
    with Cons.prems have gf: "gf \<in> set gfs" and d: "distinct (map gf_id gfs)" and ne: "gf_id x \<noteq> gf_id gf"
      by auto
    have "pair_of ?e1 I ?d (gf_id gf) = pair_of e I ?d (gf_id gf)"
      using ne by (simp add: pair_of_def fence_step_fields update_conv')
    with Cons.IH [OF d gf, of ?e1] ne show ?thesis
      by (simp add: case_prod_beta Let_def fence_step_fields transition_of_def)
  qed
qed

definition geo_look ::
  "geofence_engine \<Rightarrow> int \<Rightarrow> int option \<times> (string \<Rightarrow> pair_state option) \<times> nat \<times> nat" where
  "geo_look e dev = (map_of (gs_lastSeen e) dev, (\<lambda>g. map_of (gs_state e) (dev, g)), gs_enterStreak e, gs_exitStreak e)"

lemma geo_look_eq:
  "geo_look e dev = geo_look e' dev \<longleftrightarrow>
     map_of (gs_lastSeen e) dev = map_of (gs_lastSeen e') dev \<and>
     (\<forall>g. map_of (gs_state e) (dev, g) = map_of (gs_state e') (dev, g)) \<and>
     gs_enterStreak e = gs_enterStreak e' \<and> gs_exitStreak e = gs_exitStreak e'"
  by (auto simp: geo_look_def fun_eq_iff)

lemma fence_step_local:
  assumes "geo_look e (r_deviceId r) = geo_look e' (r_deviceId r)"
  shows "geo_look (fst (fence_step I r e gf)) (r_deviceId r) = geo_look (fst (fence_step I r e' gf)) (r_deviceId r) \<and>
    snd (fence_step I r e gf) = snd (fence_step I r e' gf)"
proof -
  have "pair_of e I (r_deviceId r) (gf_id gf) = pair_of e' I (r_deviceId r) (gf_id gf)"
    using assms by (simp only: pair_of_def geo_look_eq)
  with assms show ?thesis by (simp add: geo_look_eq fence_step_fields update_conv')
qed

lemma fences_step_local:
  "geo_look e (r_deviceId r) = geo_look e' (r_deviceId r) \<Longrightarrow>
     geo_look (fst (fences_step I r e gfs)) (r_deviceId r) = geo_look (fst (fences_step I r e' gfs)) (r_deviceId r) \<and>
     snd (fences_step I r e gfs) = snd (fences_step I r e' gfs)"
proof (induction gfs arbitrary: e e')
  case Nil
  then show ?case by simp
next
  case (Cons gf gfs)
  note l = fence_step_local [OF Cons.prems, of I gf]
  from Cons.IH [OF conjunct1 [OF l]] conjunct2 [OF l] show ?case
    by (simp add: case_prod_beta Let_def)
qed

lemma fences_step_device: "t \<in> set (snd (fences_step I r e gfs)) \<Longrightarrow> tr_deviceId t = r_deviceId r"
  by (induction gfs arbitrary: e)
    (auto simp: case_prod_beta Let_def fence_step_fields transition_of_def split: if_splits)

interpretation fences: keyed_engine "geo_record G I" geo_look r_deviceId tr_deviceId "geo_loop G I" for G I
proof (unfold_locales, goal_cases)
  case (1 r k e)
  let ?e = "e\<lparr>gs_lastSeen := AList.update (r_deviceId r) (r_fixTime r) (gs_lastSeen e)\<rparr>"
  have "map_of (gs_state (fst (fences_step I r ?e gfs))) (k, g) = map_of (gs_state ?e) (k, g)" for gfs g
    using fences_step_other [of k r g gfs I ?e] 1 by simp
  then show ?case
    using 1 fences_step_fields [of I r ?e "G (r_deviceId r)"]
    by (simp add: geo_record_def geo_look_eq update_conv')
next
  case (2 e r e')
  then have "accepts e r = accepts e' r" by (simp add: accepts_def geo_look_eq)
  moreover have "geo_look (e\<lparr>gs_lastSeen := AList.update (r_deviceId r) (r_fixTime r) (gs_lastSeen e)\<rparr>) (r_deviceId r) =
      geo_look (e'\<lparr>gs_lastSeen := AList.update (r_deviceId r) (r_fixTime r) (gs_lastSeen e')\<rparr>) (r_deviceId r)"
    using 2 by (simp add: geo_look_eq update_conv')
  ultimately show ?case
    using 2 fences_step_local [of "e\<lparr>gs_lastSeen := AList.update (r_deviceId r) (r_fixTime r) (gs_lastSeen e)\<rparr>" r
        "e'\<lparr>gs_lastSeen := AList.update (r_deviceId r) (r_fixTime r) (gs_lastSeen e')\<rparr>" I "G (r_deviceId r)"]
    by (simp add: geo_record_def)
next
  case (3 x e r)
  then show ?case by (auto simp: geo_record_def dest: fences_step_device split: if_splits)
next
  case (4 e)
  then show ?case by simp
next
  case (5 e r rs)
  then show ?case by simp
qed

lemma pair_run_step:
  "pair_run n m st (s # ss) =
     (fst (pair_run n m (fst (pair_step n m s st)) ss),
      (if snd (pair_step n m s st) then [s] else []) @ snd (pair_run n m (fst (pair_step n m s st)) ss))"
  by (simp add: case_prod_beta Let_def)

lemma geo_record_own:
  assumes "distinct (map gf_id (G dev))" and "gf \<in> set (G dev)" and "r_deviceId r = dev" and "accepts e r"
  shows "pair_of (fst (geo_record G I e r)) I dev (gf_id gf) =
      fst (pair_step (gs_enterStreak e) (gs_exitStreak e) (side_of r gf) (pair_of e I dev (gf_id gf)))"
    and "filter (\<lambda>t. tr_deviceId t = dev \<and> tr_geofenceId t = gf_id gf) (snd (geo_record G I e r)) =
      (if snd (pair_step (gs_enterStreak e) (gs_exitStreak e) (side_of r gf) (pair_of e I dev (gf_id gf)))
       then [transition_of r gf (side_of r gf)] else [])"
proof -
  let ?e = "e\<lparr>gs_lastSeen := AList.update dev (r_fixTime r) (gs_lastSeen e)\<rparr>"
  have p: "pair_of ?e I dev (gf_id gf) = pair_of e I dev (gf_id gf)" by (simp add: pair_of_def)
  have g: "geo_record G I e r = fences_step I r ?e (G dev)" using assms(3,4) by (simp add: geo_record_def)
  note own = fences_step_own [OF assms(1,2), of I r ?e]
  show "pair_of (fst (geo_record G I e r)) I dev (gf_id gf) =
      fst (pair_step (gs_enterStreak e) (gs_exitStreak e) (side_of r gf) (pair_of e I dev (gf_id gf)))"
    unfolding g using own assms(3) p by (simp add: pair_of_def [of "fst (fences_step I r ?e (G dev))"])
  show "filter (\<lambda>t. tr_deviceId t = dev \<and> tr_geofenceId t = gf_id gf) (snd (geo_record G I e r)) =
      (if snd (pair_step (gs_enterStreak e) (gs_exitStreak e) (side_of r gf) (pair_of e I dev (gf_id gf)))
       then [transition_of r gf (side_of r gf)] else [])"
    unfolding g using own assms(3) p by simp
qed

definition crossing_side :: "transition \<Rightarrow> side" where
  "crossing_side t = (case tr_type t of Enter \<Rightarrow> In | Exit \<Rightarrow> Out)"

lemma geo_loop_pair:
  assumes "distinct (map gf_id (G dev))" and "gf \<in> set (G dev)"
  shows "list_all (\<lambda>r. r_deviceId r = dev) rs \<Longrightarrow>
    pair_run (gs_enterStreak e) (gs_exitStreak e) (pair_of e I dev (gf_id gf))
      (map (\<lambda>r. side_of r gf) (in_order (map_of (gs_lastSeen e) dev) (filter r_fixValid rs))) =
    (pair_of (fst (geo_loop G I e rs)) I dev (gf_id gf),
     map crossing_side (filter (\<lambda>t. tr_deviceId t = dev \<and> tr_geofenceId t = gf_id gf) (snd (geo_loop G I e rs))))"
proof (induction rs arbitrary: e)
  case Nil
  then show ?case by simp
next
  case (Cons r rs)
  then have d: "r_deviceId r = dev" and rs: "list_all (\<lambda>r. r_deviceId r = dev) rs" by simp_all
  let ?n = "gs_enterStreak e" and ?m = "gs_exitStreak e"
  show ?case
  proof (cases "accepts e r")
    case False
    with d have "in_order (map_of (gs_lastSeen e) dev) (filter r_fixValid (r # rs)) =
        in_order (map_of (gs_lastSeen e) dev) (filter r_fixValid rs)"
      by (auto simp: accepts_def split: option.splits)
    moreover have "geo_record G I e r = (e, [])" using False by (simp add: geo_record_def)
    ultimately show ?thesis using Cons.IH [OF rs, of e] by simp
  next
    case True
    let ?e1 = "fst (geo_record G I e r)"
    have io: "in_order (map_of (gs_lastSeen e) dev) (filter r_fixValid (r # rs)) =
        r # in_order (Some (r_fixTime r)) (filter r_fixValid rs)"
      using True d by (auto simp: accepts_def split: option.splits)
    have f: "gs_enterStreak ?e1 = ?n" "gs_exitStreak ?e1 = ?m" "map_of (gs_lastSeen ?e1) dev = Some (r_fixTime r)"
      using True d fences_step_fields by (simp_all add: geo_record_def update_conv')
    note own = geo_record_own [where G = G and dev = dev and gf = gf and r = r and e = e and I = I, OF assms d True]
    have cs: "crossing_side (transition_of r gf s) = s" for s
      by (cases s) (simp_all add: crossing_side_def transition_of_def)
    from Cons.IH [OF rs, of ?e1] show ?thesis
      unfolding io list.map pair_run_step f own(1) using own(2) cs
      by (simp add: case_prod_beta Let_def)
  qed
qed

lemma map_of_filter_key: "map_of (filter (\<lambda>(k, v). P k) xs) k = (if P k then map_of xs k else None)"
  by (induction xs) auto

lemma gs_state_upd: "gs_state (e\<lparr>gs_state := x, gs_pairsByDevice := y\<rparr>) = x"
  by simp

lemma prune_keeps:
  assumes "g \<in> gf_id ` set (G dev)"
  shows "map_of (gs_state (prune e d (G d))) (dev, g) = map_of (gs_state e) (dev, g)"
proof (cases "map_of (gs_pairsByDevice e) d")
  case None
  then show ?thesis by (simp add: prune_def)
next
  case (Some mine)
  let ?gone = "filter (\<lambda>g. g \<notin> set (map gf_id (G d))) mine"
  have "gs_state (prune e d (G d)) = filter (\<lambda>(k, v). \<not> (fst k = d \<and> snd k \<in> set ?gone)) (gs_state e)"
    by (simp only: prune_def Some option.case Let_def gs_state_upd)
  moreover have "\<not> (fst (dev, g) = d \<and> snd (dev, g) \<in> set ?gone)" using assms by auto
  ultimately show ?thesis
    by (simp only: map_of_filter_key [of "\<lambda>k. \<not> (fst k = d \<and> snd k \<in> set ?gone)"] if_True simp_thms)
qed

lemma prunes_keep:
  "g \<in> gf_id ` set (G dev) \<Longrightarrow>
     map_of (gs_state (foldl (\<lambda>e d. prune e d (G d)) e ds)) (dev, g) = map_of (gs_state e) (dev, g)"
  by (induction ds arbitrary: e) (simp_all add: prune_keeps)

lemma geo_feed_pair:
  assumes "distinct (map gf_id (G dev))" and "gf \<in> set (G dev)"
    and "geo_feed G insideFor e records = (e', evs)"
  shows "pair_run (gs_enterStreak e) (gs_exitStreak e) (pair_of e insideFor dev (gf_id gf))
      (map (\<lambda>r. side_of r gf)
        (in_order (map_of (gs_lastSeen e) dev) (filter r_fixValid (filter (\<lambda>r. r_deviceId r = dev) records)))) =
    (pair_of e' insideFor dev (gf_id gf),
     map crossing_side (filter (\<lambda>t. tr_deviceId t = dev \<and> tr_geofenceId t = gf_id gf) evs))"
proof -
  let ?mine = "filter (\<lambda>r. r_deviceId r = dev) records"
  let ?l = "geo_loop G insideFor e records" and ?l' = "geo_loop G insideFor e ?mine"
  have g: "gf_id gf \<in> gf_id ` set (G dev)" using assms(2) by simp
  have evs: "evs = snd ?l"
    and e': "e' = foldl (\<lambda>e d. prune e d (G d)) (fst ?l) (seen_devices G insideFor e records)"
    using assms(3) by (simp_all add: geo_feed_def case_prod_beta Let_def)
  have pr: "filter (\<lambda>t. tr_deviceId t = dev) (snd ?l) = snd ?l'" "geo_look (fst ?l) dev = geo_look (fst ?l') dev"
    using fences.feed_projects [of e dev e G insideFor records] by simp_all
  have all: "list_all (\<lambda>r. r_deviceId r = dev) ?mine" by (simp add: list_all_iff)
  have dd: "tr_deviceId t = dev" if "t \<in> set (snd ?l')" for t
    using that unfolding pr(1) [symmetric] by simp
  have "filter (\<lambda>t. tr_deviceId t = dev \<and> tr_geofenceId t = gf_id gf) evs =
      filter (\<lambda>t. tr_geofenceId t = gf_id gf) (filter (\<lambda>t. tr_deviceId t = dev) (snd ?l))"
    unfolding evs by (simp only: filter_filter)
  also have "\<dots> = filter (\<lambda>t. tr_deviceId t = dev \<and> tr_geofenceId t = gf_id gf) (snd ?l')"
    unfolding pr(1) using dd by (auto intro: filter_cong)
  finally have f: "filter (\<lambda>t. tr_deviceId t = dev \<and> tr_geofenceId t = gf_id gf) evs =
      filter (\<lambda>t. tr_deviceId t = dev \<and> tr_geofenceId t = gf_id gf) (snd ?l')" .
  have "map_of (gs_state e') (dev, gf_id gf) = map_of (gs_state (fst ?l')) (dev, gf_id gf)"
    unfolding e' prunes_keep [of "gf_id gf" G dev, OF g] using pr(2) by (simp add: geo_look_eq)
  then have p: "pair_of e' insideFor dev (gf_id gf) = pair_of (fst ?l') insideFor dev (gf_id gf)"
    by (simp only: pair_of_def)
  show ?thesis
    unfolding f p by (rule geo_loop_pair [where G = G, OF assms(1,2) all])
qed

text \<open>C32. The engine refines the streak logic of a single pair: in a batch of any devices, lengths and
  orders, the transitions of a device and one of its fences are exactly the confirmed flips of one
  \<open>pair_run\<close> over the sides of that device's valid, in-order, unskewed records, and the pair's state
  after the batch (pruning included) is that run's. Other devices, other fences, invalid fixes and
  late records do not count.\<close>

theorem geofence_engine_refines_pair:
  assumes "distinct (map gf_id (G dev))" and "gf \<in> set (G dev)"
    and "geo_feed G insideFor e records = (e', evs)"
  shows "pair_run (gs_enterStreak e) (gs_exitStreak e) (pair_of e insideFor dev (gf_id gf))
      (map (\<lambda>r. side_of r gf)
        (in_order (map_of (gs_lastSeen e) dev) (filter r_fixValid (filter (\<lambda>r. r_deviceId r = dev) records)))) =
    (pair_of e' insideFor dev (gf_id gf),
     map crossing_side (filter (\<lambda>t. tr_deviceId t = dev \<and> tr_geofenceId t = gf_id gf) evs))"
  using geo_feed_pair [where G = G, OF assms] .

definition depot :: geofence_def where
  "depot = \<lparr>gf_id = ''depot'', gf_name = ''Depot'', gf_geometry = [[(0, 0), (0, 2), (2, 2), (2, 0)]],
     gf_bbox = Some (Box 0 0 2 2)\<rparr>"

definition fix_at :: "int \<Rightarrow> real \<Rightarrow> real \<Rightarrow> nrec" where
  "fix_at t la lo = \<lparr>r_deviceId = 7, r_fixTime = t, r_serverTime = t, r_lat = la, r_lon = lo,
     r_altitude = None, r_speed = None, r_course = None, r_satellites = 9, r_fixValid = True,
     r_ignition = None, r_movement = None, r_odometerM = None, r_priority = 0, r_recHash = 0, r_attrs = []\<rparr>"

lemma fix_at_fields [simp]:
  "r_deviceId (fix_at t la lo) = 7" "r_fixTime (fix_at t la lo) = t" "r_serverTime (fix_at t la lo) = t"
  "r_fixValid (fix_at t la lo)" "gf_id depot = ''depot''"
  by (simp_all add: fix_at_def depot_def)

lemma depot_sides: "side_of (fix_at t 1 1) depot = In" "side_of (fix_at t 5 5) depot = Out"
  by (simp_all add: side_of_def depot_def fix_at_def pointInPolygon_def inRing_def crosses_def)

theorem geofence_engine_refines_pair_witness:
  "map crossing_side (filter (\<lambda>t. tr_deviceId t = 7 \<and> tr_geofenceId t = ''depot'')
     (snd (geo_feed (\<lambda>_. [depot]) (\<lambda>_ _. False) (new_geofence_engine 2 2)
       [fix_at 1 1 1, fix_at 2 5 5, fix_at 3 1 1, fix_at 4 1 1]))) = [In]"
proof -
  let ?rs = "[fix_at 1 1 1, fix_at 2 5 5, fix_at 3 1 1, fix_at 4 1 1]"
  obtain e' evs where g: "geo_feed (\<lambda>_. [depot]) (\<lambda>_ _. False) (new_geofence_engine 2 2) ?rs = (e', evs)"
    by (cases "geo_feed (\<lambda>_. [depot]) (\<lambda>_ _. False) (new_geofence_engine 2 2) ?rs") auto
  have io: "in_order None (filter r_fixValid (filter (\<lambda>r. r_deviceId r = 7) ?rs)) = ?rs"
    by (simp add: fix_at_def isClockSkewed_def MAX_CLOCK_SKEW_MS_def)
  have "pair_run 2 2 \<lparr>ps_inside = False, ps_pendingSide = None, ps_pendingCount = 0\<rparr> [In, Out, In, In] =
      (pair_of e' (\<lambda>_ _. False) 7 ''depot'', map crossing_side (filter (\<lambda>t. tr_deviceId t = 7 \<and> tr_geofenceId t = ''depot'') evs))"
    using geofence_engine_refines_pair [where G = "\<lambda>_. [depot]" and dev = 7 and gf = depot, OF _ _ g] io
    by (simp add: new_geofence_engine_def pair_of_def depot_sides)
  then show ?thesis using g by (simp add: pair_step_def confirmed_def)
qed

section \<open>Rolling back a batch that could not be persisted\<close>

lemma rollback_one_at:
  "map_of (gs_state (rollback_one e t)) k =
     (if k = (tr_deviceId t, tr_geofenceId t) \<and> map_of (gs_state e) k \<noteq> None
      then Some \<lparr>ps_inside = (tr_type t = Exit), ps_pendingSide = None, ps_pendingCount = 0\<rparr>
      else map_of (gs_state e) k)"
  by (auto simp: update_conv' split: option.split)

declare rollback_one.simps [simp del]

lemma rollback_at:
  "map_of (gs_state (foldr (\<lambda>t e. rollback_one e t) ts e)) (d, g) =
     (case filter (\<lambda>t. tr_deviceId t = d \<and> tr_geofenceId t = g) ts of
        [] \<Rightarrow> map_of (gs_state e) (d, g)
      | t # _ \<Rightarrow>
          (if map_of (gs_state e) (d, g) = None then None
           else Some \<lparr>ps_inside = (tr_type t = Exit), ps_pendingSide = None, ps_pendingCount = 0\<rparr>))"
  by (induction ts) (auto simp: rollback_one_at split: list.splits)

lemma geo_loop_known:
  assumes "distinct (map gf_id (G dev))" and "gf \<in> set (G dev)"
  shows "map_of (gs_state (fst (geo_loop G I e rs))) (dev, gf_id gf) = None \<Longrightarrow>
    filter (\<lambda>t. tr_deviceId t = dev \<and> tr_geofenceId t = gf_id gf) (snd (geo_loop G I e rs)) = [] \<and>
    map_of (gs_state e) (dev, gf_id gf) = None"
proof (induction rs arbitrary: e)
  case Nil
  then show ?case by simp
next
  case (Cons r rs)
  let ?e1 = "fst (geo_record G I e r)"
  from Cons have ih: "filter (\<lambda>t. tr_deviceId t = dev \<and> tr_geofenceId t = gf_id gf) (snd (geo_loop G I ?e1 rs)) = []"
    "map_of (gs_state ?e1) (dev, gf_id gf) = None"
    by (simp_all add: case_prod_beta Let_def)
  let ?e = "e\<lparr>gs_lastSeen := AList.update (r_deviceId r) (r_fixTime r) (gs_lastSeen e)\<rparr>"
  have "filter (\<lambda>t. tr_deviceId t = dev \<and> tr_geofenceId t = gf_id gf) (snd (geo_record G I e r)) = [] \<and>
      map_of (gs_state e) (dev, gf_id gf) = None"
  proof (cases "accepts e r")
    case False
    with ih show ?thesis by (simp add: geo_record_def)
  next
    case True
    show ?thesis
    proof (cases "r_deviceId r = dev")
      case True
      with \<open>accepts e r\<close> ih(2) fences_step_own [OF assms, of I r ?e] show ?thesis
        by (simp add: geo_record_def)
    next
      case False
      with \<open>accepts e r\<close> ih(2) fences_step_other [of dev r "gf_id gf" "G (r_deviceId r)" I ?e] show ?thesis
        by (simp add: geo_record_def)
    qed
  qed
  with ih show ?case by (simp add: case_prod_beta Let_def)
qed

lemma geo_feed_known:
  assumes "distinct (map gf_id (G dev))" and "gf \<in> set (G dev)" and "geo_feed G I e rs = (e', evs)"
    and "map_of (gs_state e') (dev, gf_id gf) = None"
  shows "filter (\<lambda>t. tr_deviceId t = dev \<and> tr_geofenceId t = gf_id gf) evs = []"
proof -
  have "gf_id gf \<in> gf_id ` set (G dev)" using assms(2) by simp
  from prunes_keep [of "gf_id gf" G dev, OF this] assms(3,4)
  have "map_of (gs_state (fst (geo_loop G I e rs))) (dev, gf_id gf) = None"
    by (auto simp: geo_feed_def case_prod_beta Let_def)
  from geo_loop_known [where G = G, OF assms(1,2) this] assms(3) show ?thesis
    by (auto simp: geo_feed_def case_prod_beta Let_def)
qed

text \<open>A batch whose transitions could not be persisted is undone exactly: after \<open>rollback\<close> with all
  the transitions of the batch, every pair that flipped is back on the side confirmed before the
  batch, with an empty streak, however many times it flipped; so the next fixes on the new side
  confirm and emit the crossing again.\<close>

theorem rollback_restores_side:
  assumes "distinct (map gf_id (G dev))" and "gf \<in> set (G dev)" and "0 < gs_enterStreak e" and "0 < gs_exitStreak e"
    and fresh: "ps_pendingSide (pair_of e insideFor dev (gf_id gf)) = None"
      "ps_pendingCount (pair_of e insideFor dev (gf_id gf)) = 0"
    and feed: "geo_feed G insideFor e records = (e', evs)"
    and flipped: "\<exists>t \<in> set evs. tr_deviceId t = dev \<and> tr_geofenceId t = gf_id gf"
  shows "pair_of (rollback e' evs) insideFor dev (gf_id gf) = pair_of e insideFor dev (gf_id gf)"
proof -
  let ?P = "\<lambda>t. tr_deviceId t = dev \<and> tr_geofenceId t = gf_id gf"
  let ?st = "pair_of e insideFor dev (gf_id gf)"
  note run = geo_feed_pair [where G = G, OF assms(1,2) feed]
  have alt: "alternates (confirmed ?st) (map crossing_side (filter ?P evs))"
    using geofence_hysteresis_lemma [OF assms(3,4) fresh run] by blast
  obtain t ts where f: "filter ?P evs = t # ts"
    using flipped by (cases "filter ?P evs") (auto simp: filter_empty_conv)
  with alt have cs: "crossing_side t = opposite (confirmed ?st)" by simp
  have ins: "(tr_type t = Exit) = ps_inside ?st"
    using cs by (cases "tr_type t"; cases "ps_inside ?st") (simp_all add: crossing_side_def confirmed_def)
  have some: "map_of (gs_state e') (dev, gf_id gf) \<noteq> None"
  proof -
    have "filter ?P evs \<noteq> []" using f by simp
    then show ?thesis using geo_feed_known [OF assms(1,2) feed] by blast
  qed
  have st: "?st = \<lparr>ps_inside = ps_inside ?st, ps_pendingSide = None, ps_pendingCount = 0\<rparr>"
    using fresh by simp
  have "map_of (gs_state (foldr (\<lambda>t e. rollback_one e t) evs e')) (dev, gf_id gf) = Some ?st"
    using some f ins st rollback_at [of evs e' dev "gf_id gf"] by simp
  then show ?thesis
    by (simp add: rollback_def foldl_conv_foldr pair_of_def [of "foldr (\<lambda>t e. rollback_one e t) evs e'"])
qed

theorem rollback_restores_side_witness:
  "\<exists>e' evs. geo_feed (\<lambda>_. [depot]) (\<lambda>_ _. False) (new_geofence_engine 2 2) [fix_at 1 1 1, fix_at 2 1 1] = (e', evs) \<and>
     evs \<noteq> [] \<and> ps_inside (pair_of (rollback e' evs) (\<lambda>_ _. False) 7 ''depot'') = False"
proof -
  let ?rs = "[fix_at 1 1 1, fix_at 2 1 1]"
  obtain e' evs where g: "geo_feed (\<lambda>_. [depot]) (\<lambda>_ _. False) (new_geofence_engine 2 2) ?rs = (e', evs)"
    by (cases "geo_feed (\<lambda>_. [depot]) (\<lambda>_ _. False) (new_geofence_engine 2 2) ?rs") auto
  have evs: "evs = [transition_of (fix_at 2 1 1) depot In]"
    using g depot_sides
    by (simp add: geo_feed_def geo_record_def accepts_def fence_step_def pair_step_def pair_of_def
        new_geofence_engine_def add_pair_def confirmed_def isClockSkewed_def MAX_CLOCK_SKEW_MS_def Let_def update_conv')
  have "pair_of (rollback e' evs) (\<lambda>_ _. False) 7 (gf_id depot) =
      pair_of (new_geofence_engine 2 2) (\<lambda>_ _. False) 7 (gf_id depot)"
    by (rule rollback_restores_side [where G = "\<lambda>_. [depot]" and dev = 7 and gf = depot, OF _ _ _ _ _ _ g])
      (simp_all add: evs transition_of_def fix_at_def depot_def new_geofence_engine_def pair_of_def)
  moreover have "pair_of (new_geofence_engine 2 2) (\<lambda>_ _. False) 7 ''depot'' =
      \<lparr>ps_inside = False, ps_pendingSide = None, ps_pendingCount = 0\<rparr>"
    by (simp add: pair_of_def new_geofence_engine_def)
  ultimately have "ps_inside (pair_of (rollback e' evs) (\<lambda>_ _. False) 7 ''depot'') = False"
    by simp
  with g evs show ?thesis by blast
qed

end
