(* ===== verification/RuleEngine.thy ===== *)
theory RuleEngine
  imports Records
begin

text \<open>
  apps/worker/src/rules/io.ts, types.ts and engine.ts: the accessors that read a semantic IO value
  from a record's attributes and the rule engine (edge kinds fire on a transition, level kinds at
  most once per batch). Numbers are exact rationals; a rule's
  configuration is an association list of JavaScript values.
\<close>

section \<open>Reading IO values\<close>

definition attrNumber :: "nrec \<Rightarrow> string \<Rightarrow> string list \<Rightarrow> rat option" where
  "attrNumber r ioKey names =
     (case foldl (\<lambda>v n. nullish v (attr r n)) (attr r ioKey) names of
        JVNumber (JNum q) \<Rightarrow> Some q
      | _ \<Rightarrow> None)"

definition ignitionOf :: "nrec \<Rightarrow> bool option" where
  "ignitionOf r = r_ignition r"

definition din1Of :: "nrec \<Rightarrow> bool option" where
  "din1Of r = map_option (\<lambda>v. v \<noteq> 0) (attrNumber r ''io_1'' [''Digital Input 1'', ''Digital Input Status 1''])"

definition unplugOf :: "nrec \<Rightarrow> bool option" where
  "unplugOf r = map_option (\<lambda>v. v \<noteq> 0) (attrNumber r ''io_252'' [''Unplug'', ''Unplug detection''])"

definition alarmOf :: "nrec \<Rightarrow> bool option" where
  "alarmOf r = map_option (\<lambda>v. v \<noteq> 0) (attrNumber r ''io_236'' [''Alarm'', ''Alarm button''])"

definition batteryVoltsOf :: "nrec \<Rightarrow> rat option" where
  "batteryVoltsOf r = map_option (\<lambda>mv. mv * (1 / 1000)) (attrNumber r ''io_67'' [''Battery Voltage''])"

definition orElse :: "'a option \<Rightarrow> 'a option \<Rightarrow> 'a option" where
  "orElse a b = (case a of None \<Rightarrow> b | Some x \<Rightarrow> Some x)"

definition fuelPctOf :: "nrec \<Rightarrow> rat option" where
  "fuelPctOf r = orElse (attrNumber r ''io_89'' []) (attrNumber r ''io_48'' [])"

definition fuelLitersOf :: "nrec \<Rightarrow> rat option" where
  "fuelLitersOf r = map_option (\<lambda>l. l * (1 / 10)) (attrNumber r ''io_84'' [])"

section \<open>Rules, events, state\<close>

datatype rule_kind = Overspeed | Ignition | DinChange | PowerCut | LowBattery | Panic | FuelTheft

record rule_def =
  ru_id :: string
  ru_accountId :: string
  ru_kind :: rule_kind
  ru_name :: string
  ru_config :: "(string \<times> jsval) list"
  ru_cooldownS :: int

datatype payload =
    POverspeed int rat
  | PLowBattery rat rat
  | PIgnition bool
  | PDin1 bool
  | PUnplug
  | PAlarm
  | PFuel bool rat rat rat

record rule_event =
  re_deviceId :: int
  re_ruleId :: string
  re_kind :: rule_kind
  re_at :: int
  re_lat :: real
  re_lon :: real
  re_cooldownS :: int
  re_bypassCooldown :: bool
  re_rule :: string
  re_payload :: payload

record device_io =
  io_ignition :: "bool option"
  io_din1 :: "bool option"
  io_unplug :: "bool option"
  io_alarm :: "bool option"
  io_fuelPct :: "rat option"
  io_fuelL :: "rat option"
  io_fuelBasePct :: "rat option"
  io_fuelBaseL :: "rat option"

definition EMPTY_IO :: device_io where
  "EMPTY_IO = \<lparr>io_ignition = None, io_din1 = None, io_unplug = None, io_alarm = None, io_fuelPct = None,
     io_fuelL = None, io_fuelBasePct = None, io_fuelBaseL = None\<rparr>"

text \<open>The engine and, for the batch being fed, the level rules that have fired (rule and device).\<close>

record rule_engine =
  rg_io :: "(int \<times> device_io) list"
  rg_lastSeen :: "(int \<times> int) list"
  rg_firedLevel :: "(string \<times> int) list"

section \<open>Evaluation\<close>

definition num :: "jsval \<Rightarrow> rat \<Rightarrow> rat" where
  "num v dflt =
     (case v of
        JVNumber n \<Rightarrow> (case n of JNum q \<Rightarrow> q | _ \<Rightarrow> dflt)
      | JVString s \<Rightarrow> (case js_Number_str s of JNum q \<Rightarrow> q | _ \<Rightarrow> dflt)
      | _ \<Rightarrow> dflt)"

definition config :: "rule_def \<Rightarrow> string \<Rightarrow> jsval" where
  "config ru k = (case map_of (ru_config ru) k of None \<Rightarrow> JVUndefined | Some v \<Rightarrow> v)"

definition BYPASS :: "rule_kind \<Rightarrow> bool" where
  "BYPASS k \<longleftrightarrow> k = Panic \<or> k = PowerCut"

definition emit :: "rule_def \<Rightarrow> nrec \<Rightarrow> payload \<Rightarrow> rule_event" where
  "emit ru r p =
     \<lparr>re_deviceId = r_deviceId r, re_ruleId = ru_id ru, re_kind = ru_kind ru, re_at = r_fixTime r,
      re_lat = r_lat r, re_lon = r_lon r, re_cooldownS = ru_cooldownS ru,
      re_bypassCooldown = BYPASS (ru_kind ru), re_rule = ru_name ru, re_payload = p\<rparr>"

definition changed :: "bool option \<Rightarrow> bool option \<Rightarrow> bool" where
  "changed prev cur = (case (prev, cur) of (Some a, Some b) \<Rightarrow> b \<noteq> a | _ \<Rightarrow> False)"

definition fuel_dropped :: "rat \<Rightarrow> rat option \<Rightarrow> rat option \<Rightarrow> rat option \<Rightarrow> bool" where
  "fuel_dropped thr base prev cur =
     (case (base, cur, prev) of (Some b, Some c, Some p) \<Rightarrow> thr \<le> b - c \<and> thr \<le> b - p | _ \<Rightarrow> False)"

definition fuel_event :: "rule_def \<Rightarrow> nrec \<Rightarrow> device_io \<Rightarrow> device_io \<Rightarrow> rule_event option" where
  "fuel_event ru r prev cur =
     (if io_ignition prev \<noteq> Some False \<or> io_ignition cur \<noteq> Some False then None
      else let dropPct = num (config ru ''dropPct'') 15;
               dropLiters = (if config ru ''dropLiters'' \<noteq> JVUndefined
                             then Some (num (config ru ''dropLiters'') 0) else None) in
        if fuel_dropped dropPct (io_fuelBasePct prev) (io_fuelPct prev) (io_fuelPct cur)
        then Some (emit ru r (PFuel True (the (io_fuelBasePct prev)) (the (io_fuelPct cur))
                    (the (io_fuelBasePct prev) - the (io_fuelPct cur))))
        else case dropLiters of
               None \<Rightarrow> None
             | Some dl \<Rightarrow>
                 (if 0 < dl \<and> fuel_dropped dl (io_fuelBaseL prev) (io_fuelL prev) (io_fuelL cur)
                  then Some (emit ru r (PFuel False (the (io_fuelBaseL prev)) (the (io_fuelL cur))
                              (the (io_fuelBaseL prev) - the (io_fuelL cur))))
                  else None))"

text \<open>The event of one rule on one record, and the updated set of fired level rules.\<close>

definition evaluate ::
  "rule_def \<Rightarrow> nrec \<Rightarrow> device_io \<Rightarrow> device_io \<Rightarrow> (string \<times> int) list \<Rightarrow> rule_event option \<times> (string \<times> int) list" where
  "evaluate ru r prev cur fired =
     (let levelKey = (ru_id ru, r_deviceId r) in
      case ru_kind ru of
        Overspeed \<Rightarrow>
          (if \<not> r_fixValid r then (None, fired)
           else if levelKey \<in> set fired then (None, fired)
           else let limit = num (config ru ''speedKmh'') 90 in
             (case r_speed r of
                None \<Rightarrow> (None, fired)
              | Some s \<Rightarrow> (if limit < of_int s then (Some (emit ru r (POverspeed s limit)), levelKey # fired)
                          else (None, fired))))
      | LowBattery \<Rightarrow>
          (if levelKey \<in> set fired then (None, fired)
           else let threshold = num (config ru ''thresholdV'') 11 in
             (case batteryVoltsOf r of
                None \<Rightarrow> (None, fired)
              | Some v \<Rightarrow> (if v < threshold then (Some (emit ru r (PLowBattery v threshold)), levelKey # fired)
                          else (None, fired))))
      | Ignition \<Rightarrow>
          (if changed (io_ignition prev) (io_ignition cur)
           then (Some (emit ru r (PIgnition (the (io_ignition cur)))), fired) else (None, fired))
      | DinChange \<Rightarrow>
          (if changed (io_din1 prev) (io_din1 cur)
           then (Some (emit ru r (PDin1 (the (io_din1 cur)))), fired) else (None, fired))
      | PowerCut \<Rightarrow>
          (if io_unplug prev = Some False \<and> io_unplug cur = Some True
           then (Some (emit ru r PUnplug), fired) else (None, fired))
      | Panic \<Rightarrow>
          (if io_alarm prev = Some False \<and> io_alarm cur = Some True
           then (Some (emit ru r PAlarm), fired) else (None, fired))
      | FuelTheft \<Rightarrow> (fuel_event ru r prev cur, fired))"

fun evaluate_all ::
  "rule_def list \<Rightarrow> nrec \<Rightarrow> device_io \<Rightarrow> device_io \<Rightarrow> (string \<times> int) list \<Rightarrow> rule_event list \<times> (string \<times> int) list" where
  "evaluate_all [] r prev cur fired = ([], fired)"
| "evaluate_all (ru # rus) r prev cur fired =
     (let (oe, fired1) = evaluate ru r prev cur fired;
          (es, fired2) = evaluate_all rus r prev cur fired1 in
      ((case oe of None \<Rightarrow> es | Some e \<Rightarrow> e # es), fired2))"

definition current_io :: "nrec \<Rightarrow> device_io" where
  "current_io r = \<lparr>io_ignition = ignitionOf r, io_din1 = din1Of r, io_unplug = unplugOf r, io_alarm = alarmOf r,
     io_fuelPct = fuelPctOf r, io_fuelL = fuelLitersOf r, io_fuelBasePct = None, io_fuelBaseL = None\<rparr>"

definition carry_forward :: "device_io \<Rightarrow> device_io \<Rightarrow> device_io" where
  "carry_forward prev cur =
     (let seedIgnOff = (io_ignition cur = Some False \<or> (io_ignition cur = None \<and> io_ignition prev = Some False)) in
      \<lparr>io_ignition = orElse (io_ignition cur) (io_ignition prev),
       io_din1 = orElse (io_din1 cur) (io_din1 prev),
       io_unplug = orElse (io_unplug cur) (io_unplug prev),
       io_alarm = orElse (io_alarm cur) (io_alarm prev),
       io_fuelPct = orElse (io_fuelPct cur) (io_fuelPct prev),
       io_fuelL = orElse (io_fuelL cur) (io_fuelL prev),
       io_fuelBasePct = (if io_ignition cur = Some True then None
                         else orElse (io_fuelBasePct prev) (if seedIgnOff then io_fuelPct cur else None)),
       io_fuelBaseL = (if io_ignition cur = Some True then None
                       else orElse (io_fuelBaseL prev) (if seedIgnOff then io_fuelL cur else None))\<rparr>)"

section \<open>A batch\<close>

definition prev_io :: "(int \<Rightarrow> device_io option) \<Rightarrow> rule_engine \<Rightarrow> int \<Rightarrow> device_io" where
  "prev_io ioStateFor e dev =
     (case map_of (rg_io e) dev of Some p \<Rightarrow> p
      | None \<Rightarrow> (case ioStateFor dev of Some p \<Rightarrow> p | None \<Rightarrow> EMPTY_IO))"

definition rule_record ::
  "(int \<Rightarrow> rule_def list) \<Rightarrow> (int \<Rightarrow> device_io option) \<Rightarrow> rule_engine \<Rightarrow> nrec \<Rightarrow> rule_engine \<times> rule_event list" where
  "rule_record rulesFor ioStateFor e r =
     (let dev = r_deviceId r;
          late = (case map_of (rg_lastSeen e) dev of None \<Rightarrow> False | Some seen \<Rightarrow> r_fixTime r < seen) in
      if \<not> isClockSkewed r \<and> late then (e, [])
      else let e1 = (if isClockSkewed r then e
                     else e\<lparr>rg_lastSeen := AList.update dev (r_fixTime r) (rg_lastSeen e)\<rparr>);
               rules = rulesFor dev in
        if rules = [] then (e1, [])
        else let prev = prev_io ioStateFor e dev; cur = current_io r;
                 (evs, fired) = evaluate_all rules r prev cur (rg_firedLevel e) in
          (e1\<lparr>rg_io := AList.update dev (carry_forward prev cur) (rg_io e), rg_firedLevel := fired\<rparr>, evs))"

fun rule_loop ::
  "(int \<Rightarrow> rule_def list) \<Rightarrow> (int \<Rightarrow> device_io option) \<Rightarrow> rule_engine \<Rightarrow> nrec list \<Rightarrow> rule_engine \<times> rule_event list" where
  "rule_loop rulesFor ioStateFor e [] = (e, [])"
| "rule_loop rulesFor ioStateFor e (r # rs) =
     (let (e1, o1) = rule_record rulesFor ioStateFor e r;
          (e2, o2) = rule_loop rulesFor ioStateFor e1 rs in (e2, o1 @ o2))"

definition rule_feed ::
  "(int \<Rightarrow> rule_def list) \<Rightarrow> (int \<Rightarrow> device_io option) \<Rightarrow> rule_engine \<Rightarrow> nrec list \<Rightarrow> rule_engine \<times> rule_event list" where
  "rule_feed rulesFor ioStateFor e rs = rule_loop rulesFor ioStateFor (e\<lparr>rg_firedLevel := []\<rparr>) rs"

definition rollbackIo :: "rule_engine \<Rightarrow> (int \<rightharpoonup> device_io) \<Rightarrow> int list \<Rightarrow> rule_engine" where
  "rollbackIo e preFeed devices =
     foldl (\<lambda>e dev. case preFeed dev of
         Some prior \<Rightarrow> e\<lparr>rg_io := AList.update dev prior (rg_io e)\<rparr>
       | None \<Rightarrow> e\<lparr>rg_io := AList.delete dev (rg_io e)\<rparr>) e devices"

definition io_snapshot :: "rule_engine \<Rightarrow> int \<Rightarrow> device_io option" where
  "io_snapshot e dev = map_of (rg_io e) dev"

section \<open>One state per device\<close>

definition rule_look :: "rule_engine \<Rightarrow> int \<Rightarrow> device_io option \<times> int option \<times> string set" where
  "rule_look e dev = (map_of (rg_io e) dev, map_of (rg_lastSeen e) dev, {i. (i, dev) \<in> set (rg_firedLevel e)})"

lemma emit_device [simp]: "re_deviceId (emit ru r p) = r_deviceId r" "re_ruleId (emit ru r p) = ru_id ru"
  "re_at (emit ru r p) = r_fixTime r"
  by (simp_all add: emit_def)

lemma evaluate_event: "fst (evaluate ru r prev cur fired) = Some ev \<Longrightarrow>
    re_deviceId ev = r_deviceId r \<and> re_ruleId ev = ru_id ru \<and> re_at ev = r_fixTime r"
  by (auto simp: evaluate_def fuel_event_def Let_def split: rule_kind.splits if_splits option.splits)

lemma evaluate_fires_key: "(ru_id ru, r_deviceId r) \<in> set f \<longleftrightarrow> (ru_id ru, r_deviceId r) \<in> set f' \<Longrightarrow>
    fst (evaluate ru r prev cur f) = fst (evaluate ru r prev cur f')"
  by (cases "ru_kind ru") (auto simp: evaluate_def Let_def split: option.splits)

text \<open>The level rules whose condition the record meets, and the set of fired entries a record leaves.\<close>

definition level_hit :: "rule_def \<Rightarrow> nrec \<Rightarrow> bool" where
  "level_hit ru r =
     (case ru_kind ru of
        Overspeed \<Rightarrow> r_fixValid r \<and> (case r_speed r of None \<Rightarrow> False | Some s \<Rightarrow> num (config ru ''speedKmh'') 90 < of_int s)
      | LowBattery \<Rightarrow> (case batteryVoltsOf r of None \<Rightarrow> False | Some v \<Rightarrow> v < num (config ru ''thresholdV'') 11)
      | _ \<Rightarrow> False)"

lemma evaluate_fired: "set (snd (evaluate ru r prev cur f)) =
    set f \<union> (if level_hit ru r then {(ru_id ru, r_deviceId r)} else {})"
  by (cases "ru_kind ru") (auto simp: evaluate_def level_hit_def Let_def split: option.splits)

lemma evaluate_all_fired: "set (snd (evaluate_all rus r prev cur f)) =
    set f \<union> {(ru_id ru, r_deviceId r) |ru. ru \<in> set rus \<and> level_hit ru r}"
proof (induction rus arbitrary: f)
  case Nil
  then show ?case by simp
next
  case (Cons ru rus)
  show ?case by (simp add: case_prod_beta Let_def Cons.IH evaluate_fired) auto
qed

lemma evaluate_all_device: "ev \<in> set (fst (evaluate_all rus r prev cur fired)) \<Longrightarrow>
    re_deviceId ev = r_deviceId r \<and> re_at ev = r_fixTime r \<and> re_ruleId ev \<in> ru_id ` set rus"
proof (induction rus arbitrary: fired)
  case Nil
  then show ?case by simp
next
  case (Cons ru rus)
  from Cons.prems consider "fst (evaluate ru r prev cur fired) = Some ev"
    | "ev \<in> set (fst (evaluate_all rus r prev cur (snd (evaluate ru r prev cur fired))))"
    by (auto simp: case_prod_beta Let_def split: option.splits)
  then show ?case
  proof cases
    case 1
    from evaluate_event [OF this] show ?thesis by auto
  next
    case 2
    from Cons.IH [OF this] show ?thesis by auto
  qed
qed

text \<open>Only the fired entries of the record's own device are consulted.\<close>

lemma evaluate_all_local:
  "(\<And>i. (i, r_deviceId r) \<in> set f \<longleftrightarrow> (i, r_deviceId r) \<in> set f') \<Longrightarrow>
    fst (evaluate_all rus r prev cur f) = fst (evaluate_all rus r prev cur f')"
proof (induction rus arbitrary: f f')
  case Nil
  then show ?case by simp
next
  case (Cons ru rus)
  have "fst (evaluate_all rus r prev cur (snd (evaluate ru r prev cur f))) =
      fst (evaluate_all rus r prev cur (snd (evaluate ru r prev cur f')))"
    by (rule Cons.IH) (simp add: evaluate_fired Cons.prems)
  moreover have "fst (evaluate ru r prev cur f) = fst (evaluate ru r prev cur f')"
    by (rule evaluate_fires_key) (simp add: Cons.prems)
  ultimately show ?case by (simp add: case_prod_beta Let_def split: option.split)
qed

text \<open>With distinct identifiers, the events of one rule are those it gives by itself.\<close>

lemma evaluate_all_rule:
  "ru \<in> set rus \<Longrightarrow> distinct (map ru_id rus) \<Longrightarrow>
    filter (\<lambda>x. re_ruleId x = ru_id ru) (fst (evaluate_all rus r prev cur f)) =
      (case fst (evaluate ru r prev cur f) of None \<Rightarrow> [] | Some ev \<Rightarrow> [ev])"
proof (induction rus arbitrary: f)
  case Nil
  then show ?case by simp
next
  case (Cons a rus)
  let ?f = "snd (evaluate a r prev cur f)"
  show ?case
  proof (cases "ru = a")
    case True
    have none: "filter (\<lambda>x. re_ruleId x = ru_id ru) (fst (evaluate_all rus r prev cur ?f)) = []"
      unfolding filter_empty_conv
    proof
      fix x
      assume "x \<in> set (fst (evaluate_all rus r prev cur ?f))"
      from evaluate_all_device [OF this] Cons.prems(2) True show "re_ruleId x \<noteq> ru_id ru" by auto
    qed
    show ?thesis
    proof (cases "fst (evaluate ru r prev cur f)")
      case None
      with none True show ?thesis by (simp add: case_prod_beta Let_def)
    next
      case (Some ev)
      with none True evaluate_event [OF Some] show ?thesis by (simp add: case_prod_beta Let_def)
    qed
  next
    case False
    with Cons.prems have ru: "ru \<in> set rus" and d: "distinct (map ru_id rus)" and ne: "ru_id a \<noteq> ru_id ru" by auto
    have "fst (evaluate ru r prev cur ?f) = fst (evaluate ru r prev cur f)"
      by (rule evaluate_fires_key) (use ne in \<open>simp add: evaluate_fired\<close>)
    with Cons.IH [OF ru d, of ?f] ne evaluate_event [of a r prev cur f] show ?thesis
      by (cases "fst (evaluate a r prev cur f)") (simp_all add: case_prod_beta Let_def)
  qed
qed

text \<open>A record's device sees the same state whichever engine holds it.\<close>

definition rule_accepts :: "int option \<Rightarrow> nrec \<Rightarrow> bool" where
  "rule_accepts seen r \<longleftrightarrow> isClockSkewed r \<or> (case seen of None \<Rightarrow> True | Some s \<Rightarrow> \<not> r_fixTime r < s)"

definition rule_seen :: "int option \<Rightarrow> nrec \<Rightarrow> int option" where
  "rule_seen seen r = (if isClockSkewed r then seen else Some (r_fixTime r))"

lemma rule_record_rejects:
  "\<not> rule_accepts (map_of (rg_lastSeen e) (r_deviceId r)) r \<Longrightarrow> rule_record R I e r = (e, [])"
  by (cases "map_of (rg_lastSeen e) (r_deviceId r)") (simp_all add: rule_record_def rule_accepts_def Let_def)

lemma rule_record_accepts:
  assumes "rule_accepts (map_of (rg_lastSeen e) (r_deviceId r)) r"
  shows "snd (rule_record R I e r) =
      (if R (r_deviceId r) = [] then []
       else fst (evaluate_all (R (r_deviceId r)) r (prev_io I e (r_deviceId r)) (current_io r) (rg_firedLevel e)))"
    and "map_of (rg_lastSeen (fst (rule_record R I e r))) =
      (map_of (rg_lastSeen e)) (r_deviceId r := rule_seen (map_of (rg_lastSeen e) (r_deviceId r)) r)"
    and "map_of (rg_io (fst (rule_record R I e r))) =
      (if R (r_deviceId r) = [] then map_of (rg_io e)
       else (map_of (rg_io e)) (r_deviceId r \<mapsto> carry_forward (prev_io I e (r_deviceId r)) (current_io r)))"
    and "set (rg_firedLevel (fst (rule_record R I e r))) = set (rg_firedLevel e) \<union>
      {(ru_id ru, r_deviceId r) |ru. ru \<in> set (R (r_deviceId r)) \<and> level_hit ru r}"
  using assms
  by (auto simp: rule_record_def rule_accepts_def rule_seen_def Let_def case_prod_beta update_conv' fun_upd_idem
      evaluate_all_fired split: option.splits)

lemma prev_io_own: "map_of (rg_io e) dev = map_of (rg_io e') dev \<Longrightarrow> prev_io I e dev = prev_io I e' dev"
  by (simp add: prev_io_def)

lemma rule_record_other: "r_deviceId r \<noteq> k \<Longrightarrow> rule_look (fst (rule_record R I e r)) k = rule_look e k"
proof (cases "rule_accepts (map_of (rg_lastSeen e) (r_deviceId r)) r")
  case True
  assume "r_deviceId r \<noteq> k"
  with rule_record_accepts [OF True, of R I] show ?thesis by (auto simp: rule_look_def)
qed (simp add: rule_record_rejects)

lemma rule_record_own:
  assumes "rule_look e (r_deviceId r) = rule_look e' (r_deviceId r)"
  shows "rule_look (fst (rule_record R I e r)) (r_deviceId r) = rule_look (fst (rule_record R I e' r)) (r_deviceId r) \<and>
    snd (rule_record R I e r) = snd (rule_record R I e' r)"
proof -
  let ?d = "r_deviceId r"
  from assms have io: "map_of (rg_io e) ?d = map_of (rg_io e') ?d"
    and ls: "map_of (rg_lastSeen e) ?d = map_of (rg_lastSeen e') ?d"
    and fl: "(i, ?d) \<in> set (rg_firedLevel e) \<longleftrightarrow> (i, ?d) \<in> set (rg_firedLevel e')" for i
    by (auto simp: rule_look_def)
  note p = prev_io_own [OF io, of I]
  show ?thesis
  proof (cases "rule_accepts (map_of (rg_lastSeen e) ?d) r")
    case True
    then have True': "rule_accepts (map_of (rg_lastSeen e') ?d) r" by (simp add: ls)
    from evaluate_all_local [OF fl] show ?thesis
      by (simp add: rule_look_def rule_record_accepts [OF True] rule_record_accepts [OF True'] p ls io fl)
  next
    case False
    then have False': "\<not> rule_accepts (map_of (rg_lastSeen e') ?d) r" by (simp add: ls)
    show ?thesis using assms by (simp add: rule_record_rejects [OF False] rule_record_rejects [OF False'])
  qed
qed

lemma rule_record_device: "x \<in> set (snd (rule_record R I e r)) \<Longrightarrow> re_deviceId x = r_deviceId r"
  by (cases "rule_accepts (map_of (rg_lastSeen e) (r_deviceId r)) r")
    (auto simp: rule_record_rejects rule_record_accepts(1) dest: evaluate_all_device split: if_splits)

interpretation rules: keyed_engine "rule_record R I" rule_look r_deviceId re_deviceId "rule_loop R I" for R I
proof (unfold_locales, goal_cases)
  case (1 r k e)
  then show ?case by (rule rule_record_other)
next
  case (2 e r e')
  then show ?case by (rule rule_record_own)
next
  case (3 x e r)
  then show ?case by (rule rule_record_device)
next
  case (4 e)
  then show ?case by simp
next
  case (5 e r rs)
  then show ?case by simp
qed

section \<open>What each kind of rule reports\<close>

text \<open>The records the engine evaluates: those ahead of the clock, and the others in order.\<close>

fun evaluated :: "int option \<Rightarrow> nrec list \<Rightarrow> nrec list" where
  "evaluated seen [] = []"
| "evaluated seen (r # rs) =
     (if rule_accepts seen r then r # evaluated (rule_seen seen r) rs else evaluated seen rs)"

text \<open>The reading an edge rule follows, its remembered value, and whether it reports both directions.\<close>

definition edge_reading :: "rule_kind \<Rightarrow> nrec \<Rightarrow> bool option" where
  "edge_reading k r = (case k of Ignition \<Rightarrow> ignitionOf r | DinChange \<Rightarrow> din1Of r
     | PowerCut \<Rightarrow> unplugOf r | Panic \<Rightarrow> alarmOf r | _ \<Rightarrow> None)"

definition edge_memory :: "rule_kind \<Rightarrow> device_io \<Rightarrow> bool option" where
  "edge_memory k p = (case k of Ignition \<Rightarrow> io_ignition p | DinChange \<Rightarrow> io_din1 p
     | PowerCut \<Rightarrow> io_unplug p | Panic \<Rightarrow> io_alarm p | _ \<Rightarrow> None)"

definition both_ways :: "rule_kind \<Rightarrow> bool" where
  "both_ways k \<longleftrightarrow> k = Ignition \<or> k = DinChange"

text \<open>The specification: the times at which a sequence of optional readings changes value.\<close>

fun edge_times :: "bool \<Rightarrow> bool option \<Rightarrow> (int \<times> bool option) list \<Rightarrow> int list" where
  "edge_times both p [] = []"
| "edge_times both p ((t, None) # xs) = edge_times both p xs"
| "edge_times both p ((t, Some b) # xs) =
     (if p = Some (\<not> b) \<and> (both \<or> b) then [t] else []) @ edge_times both (Some b) xs"

definition is_edge_kind :: "rule_kind \<Rightarrow> bool" where
  "is_edge_kind k \<longleftrightarrow> k \<in> {Ignition, DinChange, PowerCut, Panic}"

lemma edge_memory_carry: "edge_memory k (carry_forward p (current_io r)) =
    (case edge_reading k r of None \<Rightarrow> edge_memory k p | Some b \<Rightarrow> Some b)"
  by (cases k) (simp_all add: edge_memory_def edge_reading_def carry_forward_def current_io_def orElse_def Let_def split: option.split)

lemma evaluate_edge:
  assumes "is_edge_kind (ru_kind ru)"
  shows "map re_at (case fst (evaluate ru r p (current_io r) f) of None \<Rightarrow> [] | Some ev \<Rightarrow> [ev]) =
    (case edge_reading (ru_kind ru) r of
       Some b \<Rightarrow> if edge_memory (ru_kind ru) p = Some (\<not> b) \<and> (both_ways (ru_kind ru) \<or> b) then [r_fixTime r] else []
     | None \<Rightarrow> [])"
  using assms
  by (cases "ru_kind ru")
    (auto simp: is_edge_kind_def evaluate_def edge_reading_def edge_memory_def both_ways_def changed_def current_io_def
      split: option.splits)

lemma rule_loop_single:
  assumes ru: "ru \<in> set (R dev)" and d: "distinct (map ru_id (R dev))" and k: "is_edge_kind (ru_kind ru)"
  shows "\<forall>r \<in> set rs. r_deviceId r = dev \<Longrightarrow>
    map re_at (filter (\<lambda>x. re_ruleId x = ru_id ru) (snd (rule_loop R I e rs))) =
      edge_times (both_ways (ru_kind ru)) (edge_memory (ru_kind ru) (prev_io I e dev))
        (map (\<lambda>r. (r_fixTime r, edge_reading (ru_kind ru) r)) (evaluated (map_of (rg_lastSeen e) dev) rs))"
proof (induction rs arbitrary: e)
  case Nil
  then show ?case by simp
next
  case (Cons r rs)
  let ?e = "fst (rule_record R I e r)"
  from Cons.prems have r: "r_deviceId r = dev" and rs: "\<forall>r \<in> set rs. r_deviceId r = dev" by simp_all
  note IH = Cons.IH [OF rs, of ?e]
  from ru have ne: "R dev \<noteq> []" by auto
  show ?case
  proof (cases "rule_accepts (map_of (rg_lastSeen e) dev) r")
    case True
    note acc = rule_record_accepts [of e r R I, unfolded r, OF True]
    have p: "prev_io I ?e dev = carry_forward (prev_io I e dev) (current_io r)"
      using acc(3) ne by (simp add: prev_io_def)
    note out = evaluate_all_rule [OF ru d, of r "prev_io I e dev" "current_io r" "rg_firedLevel e"]
    from True show ?thesis
      by (simp add: case_prod_beta Let_def acc(1) ne out evaluate_edge [OF k] IH acc(2) p edge_memory_carry
          split: option.split)
  next
    case False
    with rule_record_rejects [of e r R I] r have "rule_record R I e r = (e, [])" by simp
    with False IH show ?thesis by simp
  qed
qed

lemma filter_conj_swap: "filter (\<lambda>x. P x \<and> Q x) xs = filter P (filter Q xs)"
  by (induction xs) auto

lemma prev_io_look: "rule_look e dev = rule_look e' dev \<Longrightarrow> prev_io I e dev = prev_io I e' dev"
  by (simp add: rule_look_def prev_io_def)

lemma prev_io_fired [simp]: "prev_io I (e\<lparr>rg_firedLevel := x\<rparr>) dev = prev_io I e dev"
  by (simp add: prev_io_def)

text \<open>The alarms that may not be lost. For a rule on an input (ignition, digital input, power cut,
  panic) the events of a batch are exactly the changes in the sequence of that input's readings,
  starting from the remembered (or stored) one: a record that does not carry the input neither fires
  nor forgets, a panic or power cut fires on the rising edge only, a first reading never fires, a
  record ahead of the server's clock still counts, and other devices and other rules do not matter.\<close>

theorem edge_rules_report_edges:
  assumes "ru \<in> set (rulesFor dev)" and "distinct (map ru_id (rulesFor dev))"
    and "is_edge_kind (ru_kind ru)"
  shows "map re_at (filter (\<lambda>x. re_ruleId x = ru_id ru \<and> re_deviceId x = dev) (snd (rule_feed rulesFor ioStateFor e rs))) =
    edge_times (both_ways (ru_kind ru)) (edge_memory (ru_kind ru) (prev_io ioStateFor e dev))
      (map (\<lambda>r. (r_fixTime r, edge_reading (ru_kind ru) r))
        (evaluated (map_of (rg_lastSeen e) dev) (filter (\<lambda>r. r_deviceId r = dev) rs)))"
proof -
  let ?e = "e\<lparr>rg_firedLevel := []\<rparr>" and ?rs = "filter (\<lambda>r. r_deviceId r = dev) rs"
  have "filter (\<lambda>x. re_deviceId x = dev) (snd (rule_feed rulesFor ioStateFor e rs)) =
      snd (rule_loop rulesFor ioStateFor ?e ?rs)"
    using rules.feed_projects [of ?e dev ?e rulesFor ioStateFor rs] by (simp add: rule_feed_def)
  then show ?thesis
    using rule_loop_single [where R = rulesFor and e = ?e and rs = ?rs and I = ioStateFor, OF assms]
    by (simp add: filter_conj_swap)
qed

definition sample_rec :: "int \<Rightarrow> (string \<times> jsval) list \<Rightarrow> nrec" where
  "sample_rec t attrs = \<lparr>r_deviceId = 7, r_fixTime = t, r_serverTime = 1000, r_lat = 54, r_lon = 25,
     r_altitude = None, r_speed = Some 120, r_course = None, r_satellites = 9, r_fixValid = True,
     r_ignition = None, r_movement = None, r_odometerM = None, r_priority = 0, r_recHash = t, r_attrs = attrs\<rparr>"

definition sample_rule :: "rule_kind \<Rightarrow> rule_def" where
  "sample_rule k = \<lparr>ru_id = ''r1'', ru_accountId = ''a'', ru_kind = k, ru_name = ''n'', ru_config = [], ru_cooldownS = 60\<rparr>"

definition fresh_rules :: rule_engine where
  "fresh_rules = \<lparr>rg_io = [], rg_lastSeen = [], rg_firedLevel = []\<rparr>"

definition alarm_reading :: "rat \<Rightarrow> (string \<times> jsval) list" where
  "alarm_reading q = [(''Alarm'', JVNumber (JNum q))]"

theorem edge_rules_report_edges_witness:
  "map re_at (filter (\<lambda>x. re_ruleId x = ''r1'' \<and> re_deviceId x = 7)
     (snd (rule_feed (\<lambda>_. [sample_rule Panic]) (\<lambda>_. None) fresh_rules
       [sample_rec 10 (alarm_reading 0), sample_rec 20 [], sample_rec 30 (alarm_reading 1), sample_rec 40 (alarm_reading 1)]))) = [30]"
  using edge_rules_report_edges [where ru = "sample_rule Panic" and rulesFor = "\<lambda>_. [sample_rule Panic]" and dev = 7 and
      ioStateFor = "\<lambda>_. None" and e = fresh_rules and
      rs = "[sample_rec 10 (alarm_reading 0), sample_rec 20 [], sample_rec 30 (alarm_reading 1), sample_rec 40 (alarm_reading 1)]"]
  by (simp add: sample_rule_def sample_rec_def fresh_rules_def alarm_reading_def is_edge_kind_def both_ways_def edge_memory_def
      edge_reading_def prev_io_def EMPTY_IO_def rule_accepts_def rule_seen_def isClockSkewed_def MAX_CLOCK_SKEW_MS_def
      alarmOf_def attrNumber_def attr_def nullish_def)

section \<open>Level rules\<close>

lemma evaluate_level:
  assumes "ru_kind ru = Overspeed \<or> ru_kind ru = LowBattery"
  shows "map re_at (case fst (evaluate ru r p c f) of None \<Rightarrow> [] | Some ev \<Rightarrow> [ev]) =
    (if (ru_id ru, r_deviceId r) \<notin> set f \<and> level_hit ru r then [r_fixTime r] else [])"
  using assms
proof
  assume "ru_kind ru = Overspeed"
  then show ?thesis by (cases "r_speed r") (simp_all add: evaluate_def level_hit_def Let_def)
next
  assume "ru_kind ru = LowBattery"
  then show ?thesis by (cases "batteryVoltsOf r") (simp_all add: evaluate_def level_hit_def Let_def)
qed

lemma level_loop_single:
  assumes ru: "ru \<in> set (R dev)" and d: "distinct (map ru_id (R dev))"
    and k: "ru_kind ru = Overspeed \<or> ru_kind ru = LowBattery"
  shows "\<forall>r \<in> set rs. r_deviceId r = dev \<Longrightarrow>
    map re_at (filter (\<lambda>x. re_ruleId x = ru_id ru) (snd (rule_loop R I e rs))) =
      (if (ru_id ru, dev) \<in> set (rg_firedLevel e) then []
       else case find (level_hit ru) (evaluated (map_of (rg_lastSeen e) dev) rs) of None \<Rightarrow> [] | Some r \<Rightarrow> [r_fixTime r])"
proof (induction rs arbitrary: e)
  case Nil
  then show ?case by simp
next
  case (Cons r rs)
  let ?e = "fst (rule_record R I e r)"
  from Cons.prems have r: "r_deviceId r = dev" and rs: "\<forall>r \<in> set rs. r_deviceId r = dev" by simp_all
  note IH = Cons.IH [OF rs, of ?e]
  from ru have ne: "R dev \<noteq> []" by auto
  show ?case
  proof (cases "rule_accepts (map_of (rg_lastSeen e) dev) r")
    case True
    note acc = rule_record_accepts [of e r R I, unfolded r, OF True]
    note out = evaluate_all_rule [OF ru d, of r "prev_io I e dev" "current_io r" "rg_firedLevel e"]
    have "(ru_id ru, dev) \<in> set (rg_firedLevel ?e) \<longleftrightarrow> (ru_id ru, dev) \<in> set (rg_firedLevel e) \<or> level_hit ru r"
      using ru d by (auto simp: acc(4) distinct_map dest: inj_onD)
    with True show ?thesis
      by (simp add: case_prod_beta Let_def acc(1) ne out evaluate_level [OF k] IH acc(2) r)
  next
    case False
    with rule_record_rejects [of e r R I] r have "rule_record R I e r = (e, [])" by simp
    with False IH show ?thesis by simp
  qed
qed

text \<open>A level rule (overspeed, low battery) reports at most once per batch and device, at the first
  evaluated record whose condition holds, and reports whenever there is one. Overspeed holds only on a
  valid fix and strictly above the limit; low battery strictly below the threshold; a configuration
  value that is not a finite number gives the defaults 90 km/h and 11 V.\<close>

theorem level_rules_report_once:
  assumes "ru \<in> set (rulesFor dev)" and "distinct (map ru_id (rulesFor dev))"
    and "ru_kind ru = Overspeed \<or> ru_kind ru = LowBattery"
  shows "map re_at (filter (\<lambda>x. re_ruleId x = ru_id ru \<and> re_deviceId x = dev) (snd (rule_feed rulesFor ioStateFor e rs))) =
    (case find (level_hit ru) (evaluated (map_of (rg_lastSeen e) dev) (filter (\<lambda>r. r_deviceId r = dev) rs)) of
       None \<Rightarrow> [] | Some r \<Rightarrow> [r_fixTime r])"
proof -
  let ?e = "e\<lparr>rg_firedLevel := []\<rparr>" and ?rs = "filter (\<lambda>r. r_deviceId r = dev) rs"
  have "filter (\<lambda>x. re_deviceId x = dev) (snd (rule_feed rulesFor ioStateFor e rs)) =
      snd (rule_loop rulesFor ioStateFor ?e ?rs)"
    using rules.feed_projects [of ?e dev ?e rulesFor ioStateFor rs] by (simp add: rule_feed_def)
  then show ?thesis
    using level_loop_single [where R = rulesFor and e = ?e and rs = ?rs and I = ioStateFor, OF assms]
    by (simp add: filter_conj_swap)
qed

theorem level_rules_report_once_witness:
  "map re_at (filter (\<lambda>x. re_ruleId x = ''r1'' \<and> re_deviceId x = 7)
     (snd (rule_feed (\<lambda>_. [sample_rule Overspeed]) (\<lambda>_. None) fresh_rules [sample_rec 10 [], sample_rec 20 []]))) = [10]"
  using level_rules_report_once [where ru = "sample_rule Overspeed" and rulesFor = "\<lambda>_. [sample_rule Overspeed]" and dev = 7 and
      ioStateFor = "\<lambda>_. None" and e = fresh_rules and rs = "[sample_rec 10 [], sample_rec 20 []]"]
  by (simp add: sample_rule_def sample_rec_def fresh_rules_def level_hit_def num_def config_def rule_accepts_def rule_seen_def
      isClockSkewed_def MAX_CLOCK_SKEW_MS_def)

section \<open>A failed batch\<close>

text \<open>When the events of a batch could not be stored, the remembered readings go back to those before
  the batch, so that a sustained edge is found again; \<open>preFeed\<close> is the caller's snapshot.\<close>

lemma rollbackIo_map: "map_of (rg_io (rollbackIo e pre devs)) =
    (\<lambda>dev. if dev \<in> set devs then pre dev else map_of (rg_io e) dev)"
  unfolding rollbackIo_def
proof (induction devs arbitrary: e)
  case Nil
  then show ?case by simp
next
  case (Cons d devs)
  show ?case by (cases "pre d") (auto simp: Cons.IH update_conv' delete_conv')
qed

lemma rollbackIo_restores:
  "dev \<in> set devs \<Longrightarrow> io_snapshot (rollbackIo e' (map_of (rg_io e)) devs) dev = io_snapshot e dev \<and>
    prev_io I (rollbackIo e' (map_of (rg_io e)) devs) dev = prev_io I e dev"
  by (simp add: io_snapshot_def prev_io_def rollbackIo_map)

end
