(* ===== verification/Offline.thy ===== *)
theory Offline
  imports RuleEngine
begin

text \<open>
  apps/worker/src/rules/offline.ts: the sweep that finds devices whose last contact is older than the
  threshold of their account's offline rules. Redis state (the last contact, the fired flags) and the
  rules are arguments, as in the source; an event keeps the fields the sweep computes.
\<close>

section \<open>The sweep\<close>

record offline_rule =
  of_ruleId :: string
  of_accountId :: string
  of_afterH :: "jsnum option"

record offline_device =
  od_deviceId :: int
  od_tenantId :: string
  od_accountId :: string
  od_lastFixMs :: "int option"
  od_lastContactMs :: "int option"
  od_profileOfflineAfterH :: "jsnum option"

record offline_event =
  oe_deviceId :: int
  oe_ruleId :: string
  oe_at :: int
  oe_thresholdH :: rat
  oe_offlineH :: int

definition DEFAULT_OFFLINE_H :: rat where
  "DEFAULT_OFFLINE_H = 26"

definition posH :: "jsnum option \<Rightarrow> rat option" where
  "posH v = (case v of Some (JNum q) \<Rightarrow> (if 0 < q then Some q else None) | _ \<Rightarrow> None)"

definition rule_hours :: "offline_device \<Rightarrow> offline_rule \<Rightarrow> rat" where
  "rule_hours d r = (case orElse (posH (of_afterH r)) (posH (od_profileOfflineAfterH d)) of
     Some h \<Rightarrow> h | None \<Rightarrow> DEFAULT_OFFLINE_H)"

text \<open>The first rule with the least threshold; \<open>None\<close> is the initial \<open>firing = undefined\<close>.\<close>

definition firing_rule :: "offline_device \<Rightarrow> offline_rule list \<Rightarrow> (offline_rule \<times> rat) option" where
  "firing_rule d rules =
     foldl (\<lambda>best r. let th = rule_hours d r in
         case best of None \<Rightarrow> Some (r, th) | Some (b, h) \<Rightarrow> (if th < h then Some (r, th) else Some (b, h))) None rules"

record offline_sweep =
  os_events :: "offline_event list"
  os_toFlag :: "int list"
  os_toClear :: "int list"

definition sweep_device ::
  "(string \<Rightarrow> offline_rule list option) \<Rightarrow> int set \<Rightarrow> int \<Rightarrow> offline_sweep \<Rightarrow> offline_device \<Rightarrow> offline_sweep" where
  "sweep_device rulesByAccount flagged nowMs out d =
     (case rulesByAccount (od_accountId d) of
        None \<Rightarrow> out
      | Some rules \<Rightarrow>
          (case orElse (od_lastContactMs d) (od_lastFixMs d) of
             None \<Rightarrow> out
           | Some contactMs \<Rightarrow>
               (case firing_rule d rules of
                  None \<Rightarrow> out
                | Some (firing, thresholdH) \<Rightarrow>
                    let offlineMs = nowMs - contactMs;
                        isOffline = (thresholdH * 3600000 \<le> of_int offlineMs);
                        wasFlagged = (od_deviceId d \<in> flagged) in
                    if isOffline \<and> \<not> wasFlagged then
                      out\<lparr>os_events := os_events out @ [\<lparr>oe_deviceId = od_deviceId d, oe_ruleId = of_ruleId firing,
                            oe_at = nowMs, oe_thresholdH = thresholdH, oe_offlineH = offlineMs div 3600000\<rparr>],
                          os_toFlag := os_toFlag out @ [od_deviceId d]\<rparr>
                    else if \<not> isOffline \<and> wasFlagged then
                      out\<lparr>os_toClear := os_toClear out @ [od_deviceId d]\<rparr>
                    else out)))"

definition sweepOffline ::
  "offline_device list \<Rightarrow> (string \<Rightarrow> offline_rule list option) \<Rightarrow> int set \<Rightarrow> int \<Rightarrow> offline_sweep" where
  "sweepOffline devices rulesByAccount flagged nowMs =
     foldl (sweep_device rulesByAccount flagged nowMs) \<lparr>os_events = [], os_toFlag = [], os_toClear = []\<rparr> devices"

section \<open>The smallest threshold decides\<close>

definition is_offline :: "(string \<Rightarrow> offline_rule list option) \<Rightarrow> int \<Rightarrow> offline_device \<Rightarrow> bool option" where
  "is_offline rulesByAccount nowMs d =
     (case rulesByAccount (od_accountId d) of
        None \<Rightarrow> None
      | Some rules \<Rightarrow>
          (if rules = [] then None
           else case orElse (od_lastContactMs d) (od_lastFixMs d) of
             None \<Rightarrow> None
           | Some contactMs \<Rightarrow> Some (Min (rule_hours d ` set rules) * 3600000 \<le> of_int (nowMs - contactMs))))"

definition better_rule :: "offline_device \<Rightarrow> (offline_rule \<times> rat) option \<Rightarrow> offline_rule \<Rightarrow> (offline_rule \<times> rat) option" where
  "better_rule d best r = (case best of None \<Rightarrow> Some (r, rule_hours d r)
     | Some (b, h) \<Rightarrow> (if rule_hours d r < h then Some (r, rule_hours d r) else Some (b, h)))"

lemma firing_rule_fold: "firing_rule d rules = foldl (better_rule d) None rules"
  by (simp add: firing_rule_def better_rule_def [abs_def] Let_def)

lemma better_rule_from: "\<exists>b'. foldl (better_rule d) (Some (b, h)) rules = Some (b', Min (insert h (rule_hours d ` set rules)))"
proof (induction rules arbitrary: b h)
  case Nil
  then show ?case by simp
next
  case (Cons r rules)
  let ?h = "if rule_hours d r < h then rule_hours d r else h"
  obtain b1 where b1: "better_rule d (Some (b, h)) r = Some (b1, ?h)"
    by (cases "rule_hours d r < h") (simp_all add: better_rule_def)
  from Cons.IH [of b1 ?h] obtain b2
    where b2: "foldl (better_rule d) (Some (b1, ?h)) rules = Some (b2, Min (insert ?h (rule_hours d ` set rules)))" by blast
  have "Min (insert ?h (rule_hours d ` set rules)) = Min (insert h (rule_hours d ` set (r # rules)))"
    by (cases "rules = []") (auto simp: Min_insert2 min_def)
  with b1 b2 show ?case by simp
qed

lemma firing_rule_min: "rules \<noteq> [] \<Longrightarrow> \<exists>b. firing_rule d rules = Some (b, Min (rule_hours d ` set rules))"
  using better_rule_from [of d "hd rules" "rule_hours d (hd rules)" "tl rules"]
  by (cases rules) (simp_all add: firing_rule_fold better_rule_def)

lemma firing_rule_none: "firing_rule d [] = None"
  by (simp add: firing_rule_def)

lemma sweep_device_step:
  "os_toFlag (sweep_device R F now out d) =
     os_toFlag out @ (if is_offline R now d = Some True \<and> od_deviceId d \<notin> F then [od_deviceId d] else []) \<and>
   os_toClear (sweep_device R F now out d) =
     os_toClear out @ (if is_offline R now d = Some False \<and> od_deviceId d \<in> F then [od_deviceId d] else []) \<and>
   map oe_deviceId (os_events (sweep_device R F now out d)) =
     map oe_deviceId (os_events out) @ (if is_offline R now d = Some True \<and> od_deviceId d \<notin> F then [od_deviceId d] else [])"
proof (cases "R (od_accountId d)")
  case None
  then show ?thesis by (simp add: sweep_device_def is_offline_def)
next
  case (Some rules)
  show ?thesis
  proof (cases "orElse (od_lastContactMs d) (od_lastFixMs d)")
    case None
    with Some show ?thesis by (simp add: sweep_device_def is_offline_def)
  next
    case (Some c)
    show ?thesis
    proof (cases "rules = []")
      case True
      with Some \<open>R (od_accountId d) = Some rules\<close> show ?thesis
        by (simp add: sweep_device_def is_offline_def firing_rule_none)
    next
      case False
      with firing_rule_min obtain b where "firing_rule d rules = Some (b, Min (rule_hours d ` set rules))" by blast
      with False Some \<open>R (od_accountId d) = Some rules\<close> show ?thesis
        by (simp add: sweep_device_def is_offline_def Let_def)
    qed
  qed
qed

lemma sweep_fold:
  "os_toFlag (foldl (sweep_device R F now) out ds) =
     os_toFlag out @ map od_deviceId (filter (\<lambda>d. is_offline R now d = Some True \<and> od_deviceId d \<notin> F) ds) \<and>
   os_toClear (foldl (sweep_device R F now) out ds) =
     os_toClear out @ map od_deviceId (filter (\<lambda>d. is_offline R now d = Some False \<and> od_deviceId d \<in> F) ds) \<and>
   map oe_deviceId (os_events (foldl (sweep_device R F now) out ds)) =
     map oe_deviceId (os_events out) @ map od_deviceId (filter (\<lambda>d. is_offline R now d = Some True \<and> od_deviceId d \<notin> F) ds)"
proof (induction ds arbitrary: out)
  case Nil
  then show ?case by simp
next
  case (Cons d ds)
  show ?case by (simp add: Cons.IH sweep_device_step)
qed

lemmas sweep_lists = sweep_fold [of R F now "\<lparr>os_events = [], os_toFlag = [], os_toClear = []\<rparr>" ds for R F now ds,
  folded sweepOffline_def, simplified]

text \<open>An offline episode is reported once. A device is judged by the smallest effective threshold of
  its account's rules (a rule's own positive finite hours, else the profile's, else 26) against its
  last contact; it is reported and flagged exactly when it is offline and not flagged, unflagged
  exactly when it is back, never judged without a rule or a contact; and a sweep with the updated flags
  reports, flags and clears nothing more.\<close>

theorem offline_reported_once:
  assumes "distinct (map od_deviceId devices)"
  shows "let out = sweepOffline devices rulesByAccount flagged nowMs;
             again = sweepOffline devices rulesByAccount (flagged \<union> set (os_toFlag out) - set (os_toClear out)) nowMs in
    os_toFlag out = map od_deviceId (filter (\<lambda>d. is_offline rulesByAccount nowMs d = Some True \<and> od_deviceId d \<notin> flagged) devices) \<and>
    os_toClear out = map od_deviceId (filter (\<lambda>d. is_offline rulesByAccount nowMs d = Some False \<and> od_deviceId d \<in> flagged) devices) \<and>
    map oe_deviceId (os_events out) = os_toFlag out \<and>
    os_events again = [] \<and> os_toFlag again = [] \<and> os_toClear again = []"
proof -
  let ?out = "sweepOffline devices rulesByAccount flagged nowMs"
  let ?F = "flagged \<union> set (os_toFlag ?out) - set (os_toClear ?out)"
  note a = sweep_lists [where R = rulesByAccount and F = flagged and now = nowMs and ds = devices]
  note b = sweep_lists [where R = rulesByAccount and F = ?F and now = nowMs and ds = devices]
  have inj: "d = d'" if "d \<in> set devices" "d' \<in> set devices" "od_deviceId d = od_deviceId d'" for d d'
    using assms that by (auto simp: distinct_map dest: inj_onD)
  let ?off = "\<lambda>v d. d \<in> set devices \<and> is_offline rulesByAccount nowMs d = Some v"
  have flagged: "i \<in> set (os_toFlag ?out) \<longleftrightarrow> (\<exists>d. ?off True d \<and> od_deviceId d \<notin> flagged \<and> i = od_deviceId d)" for i
    unfolding a [THEN conjunct1] by auto
  have cleared: "i \<in> set (os_toClear ?out) \<longleftrightarrow> (\<exists>d. ?off False d \<and> od_deviceId d \<in> flagged \<and> i = od_deviceId d)" for i
    unfolding a [THEN conjunct2, THEN conjunct1] by auto
  have other: "\<not> ?off False d'" if "?off True d" "od_deviceId d = od_deviceId d'" for d d'
    using inj [of d d'] that by auto
  have "od_deviceId d \<in> ?F" if "?off True d" for d
    using that other [OF that] unfolding Un_iff Diff_iff flagged cleared by blast
  then have 1: "filter (\<lambda>d. is_offline rulesByAccount nowMs d = Some True \<and> od_deviceId d \<notin> ?F) devices = []"
    unfolding filter_empty_conv by blast
  have "od_deviceId d \<notin> ?F" if "?off False d" for d
    using that other [of _ d] unfolding Un_iff Diff_iff flagged cleared by metis
  then have 2: "filter (\<lambda>d. is_offline rulesByAccount nowMs d = Some False \<and> od_deviceId d \<in> ?F) devices = []"
    unfolding filter_empty_conv by blast
  show ?thesis unfolding Let_def using a b 1 2 by simp
qed

definition sample_offline :: "int \<Rightarrow> int \<Rightarrow> offline_device" where
  "sample_offline dev contact = \<lparr>od_deviceId = dev, od_tenantId = ''t'', od_accountId = ''a'', od_lastFixMs = None,
     od_lastContactMs = Some contact, od_profileOfflineAfterH = None\<rparr>"

theorem offline_reported_once_witness:
  "os_toFlag (sweepOffline [sample_offline 1 0, sample_offline 2 7000000]
     (\<lambda>_. Some [\<lparr>of_ruleId = ''r'', of_accountId = ''a'', of_afterH = Some (JNum 1)\<rparr>]) {} 7200000) = [1]"
  using offline_reported_once [of "[sample_offline 1 0, sample_offline 2 7000000]"
      "\<lambda>_. Some [\<lparr>of_ruleId = ''r'', of_accountId = ''a'', of_afterH = Some (JNum 1)\<rparr>]" "{}" 7200000]
  by (simp add: Let_def sample_offline_def is_offline_def orElse_def rule_hours_def posH_def)

end
