(* ===== verification/Multisets.thy ===== *)
theory Multisets
  imports Prelude "HOL-Library.Multiset"
begin

text \<open>
  The facts on multisets that the accounting proofs share: what a routine hands out, taken together, is what
  it was given, in whatever order.
\<close>

lemma mset_filter_split: "mset (map g (filter P xs)) + mset (map g (filter (\<lambda>x. \<not> P x) xs)) = mset (map g xs)"
  by (induction xs) simp_all

end
