(* ===== verification/Calls.thy ===== *)
theory Calls
  imports Prelude
begin

text \<open>
  Awaited calls to Redis and Postgres. A \<open>reply\<close> to a read is an argument of the model, \<open>Inl ()\<close> a rejected
  promise. A call that changes something is answered, or fails, and then may or may not have been executed.
  \<open>issue\<close> is what the store holds afterwards, with the answer if one arrives.
\<close>

type_synonym 'a reply = "unit + 'a"

datatype call = Answered | Failed bool

definition issue :: "call \<Rightarrow> ('s \<Rightarrow> 's \<times> 'a) \<Rightarrow> 's \<Rightarrow> 's \<times> 'a reply" where
  "issue c f ls =
     (case c of
        Answered \<Rightarrow> (let (ls', x) = f ls in (ls', Inr x))
      | Failed executed \<Rightarrow> (if executed then fst (f ls) else ls, Inl ()))"

lemma issue_answered: "issue Answered f s = (fst (f s), Inr (snd (f s)))"
  by (simp add: issue_def case_prod_beta)

lemma issue_cases:
  assumes "issue c f s = (s', r)"
  obtains (answered) x where "f s = (s', x)" and "r = Inr x"
    | (lost) "s' = fst (f s)" and "c = Failed True" and "r = Inl ()"
    | (failed) "s' = s" and "c = Failed False" and "r = Inl ()"
  using assms by (auto simp: issue_def split: call.splits prod.splits if_splits)

section \<open>Pipelines\<close>

text \<open>A pipeline of commands: either every command is answered, some with an error and then not executed, or the
  whole is rejected after some of them were executed.\<close>

datatype pipe_run = PipeRuns "nat \<Rightarrow> bool" | PipeRejects nat

fun run_cmds :: "(nat \<Rightarrow> bool) \<Rightarrow> nat \<Rightarrow> ('k \<Rightarrow> 's \<Rightarrow> 's \<times> 'a) \<Rightarrow> 'k list \<Rightarrow> 's \<Rightarrow> 's \<times> 'a option list" where
  "run_cmds err i f [] s = (s, [])"
| "run_cmds err i f (k # ks) s =
     (let (s1, a) = (if err i then (s, None) else let (s', x) = f k s in (s', Some x));
          (s2, as) = run_cmds err (Suc i) f ks s1 in
      (s2, a # as))"

definition run_pipe :: "pipe_run \<Rightarrow> ('k \<Rightarrow> 's \<Rightarrow> 's \<times> 'a) \<Rightarrow> 'k list \<Rightarrow> 's \<Rightarrow> 's \<times> 'a option list reply" where
  "run_pipe p f ks s =
     (case p of
        PipeRuns err \<Rightarrow> (let (s', as) = run_cmds err 0 f ks s in (s', Inr as))
      | PipeRejects n \<Rightarrow> (fst (run_cmds (\<lambda>i. False) 0 f (take n ks) s), Inl ()))"

lemma length_run_cmds [simp]: "length (snd (run_cmds err i f ks s)) = length ks"
  by (induction ks arbitrary: i s) (simp_all add: case_prod_beta Let_def)

lemma run_pipe_cases:
  assumes "run_pipe p f ks s = (s', r)"
  obtains (runs) err as where "p = PipeRuns err" and "run_cmds err 0 f ks s = (s', as)" and "r = Inr as" and "length as = length ks"
    | (rejects) n where "p = PipeRejects n" and "s' = fst (run_cmds (\<lambda>i. False) 0 f (take n ks) s)" and "r = Inl ()"
proof (cases p)
  case (PipeRuns err)
  obtain t as where t: "run_cmds err 0 f ks s = (t, as)" by fastforce
  with assms PipeRuns have "t = s'" "r = Inr as" by (simp_all add: run_pipe_def)
  then show thesis using that(1) PipeRuns t length_run_cmds [of err 0 f ks s] by simp
next
  case (PipeRejects n)
  then show thesis using that(2) assms by (simp add: run_pipe_def)
qed

end
