(* ===== verification/Persist.thy ===== *)
theory Persist
  imports Channels JsText Multisets Calls
begin

text \<open>
  apps/ingest/src/metrics.ts, registry.ts and persist.ts: the counters of the ingest process, the IMEI
  registry and quarantine, the sanity window and the batch that is added to the Redis streams.

  Redis is a parameter: a reply is an argument, \<open>Inl ()\<close> a rejected promise. What the code sends is
  a list of \<open>xadd\<close> commands; the CBOR payload is the record the encoder is given.
\<close>

section \<open>Counters\<close>

record ingest_metrics =
  m_msgsTotal :: nat
  m_parseFailTotal :: nat
  m_frameViolationsTotal :: nat
  m_unsupportedCodecTotal :: nat
  m_ackedRecordsTotal :: nat
  m_rejectedImeiTotal :: nat
  m_sanityRejectsTotal :: nat
  m_pausedSockets :: int
  m_sessionErrorsTotal :: nat
  m_udpDatagramsTotal :: nat
  m_udpRateLimitedTotal :: nat
  m_udpBackpressureDropsTotal :: nat
  m_udpInflightDropsTotal :: nat

definition new_metrics :: ingest_metrics where
  "new_metrics = \<lparr>m_msgsTotal = 0, m_parseFailTotal = 0, m_frameViolationsTotal = 0, m_unsupportedCodecTotal = 0,
     m_ackedRecordsTotal = 0, m_rejectedImeiTotal = 0, m_sanityRejectsTotal = 0, m_pausedSockets = 0,
     m_sessionErrorsTotal = 0, m_udpDatagramsTotal = 0, m_udpRateLimitedTotal = 0, m_udpBackpressureDropsTotal = 0,
     m_udpInflightDropsTotal = 0\<rparr>"

section \<open>Registry\<close>

text \<open>\<open>HGET registry:imei\<close> answers a decimal string; \<open>BigInt\<close> of anything else throws.\<close>

definition registry_lookup :: "string option reply \<Rightarrow> int option reply" where
  "registry_lookup hget =
     bindE hget (\<lambda>r. case r of None \<Rightarrow> Inr None
       | Some s \<Rightarrow> (if is_decimal s then Inr (Some (bigint_of_decimal s)) else Inl ()))"

datatype quarantine_cmd =
    ZAddQuarantine int string
  | TrimQuarantine
  | IncrRejects string
  | ExpireRejects string

definition quarantine_cmds :: "string \<Rightarrow> int \<Rightarrow> bool \<Rightarrow> quarantine_cmd list" where
  "quarantine_cmds imei nowMs countRejects =
     [ZAddQuarantine nowMs imei, TrimQuarantine] @
     (if countRejects then [IncrRejects imei, ExpireRejects imei] else [])"

text \<open>The third result is the counter; a missing one counts as 1.\<close>

definition quarantine_count :: "bool \<Rightarrow> int option list option reply \<Rightarrow> int reply" where
  "quarantine_count countRejects results =
     bindE results (\<lambda>rs.
       if \<not> countRejects then Inr 0
       else Inr (case rs of None \<Rightarrow> 1
         | Some xs \<Rightarrow> (if length xs \<le> 2 then 1 else case xs ! 2 of None \<Rightarrow> 1 | Some n \<Rightarrow> n)))"

section \<open>Sanity\<close>

record session_config =
  pauseAboveDepth :: int
  handshakeTimeoutMs :: int
  readIdleTimeoutMs :: int
  maxFutureMs :: int
  minTsMs :: int
  depthCacheMs :: int

datatype sanity = FixTime | Coords

definition sanityFailure :: "('a encodable_scheme) \<Rightarrow> session_config \<Rightarrow> int \<Rightarrow> sanity option" where
  "sanityFailure rec config nowMs =
     (if tsMs rec < minTsMs config \<or> nowMs + maxFutureMs config < tsMs rec then Some FixTime
      else if 90 < \<bar>lat rec\<bar> \<or> 180 < \<bar>lon rec\<bar> then Some Coords
      else None)"

definition isSaneRecord :: "('a encodable_scheme) \<Rightarrow> session_config \<Rightarrow> int \<Rightarrow> bool" where
  "isSaneRecord rec config nowMs \<longleftrightarrow> sanityFailure rec config nowMs = None"

section \<open>The batch\<close>

record persist_target =
  pt_deviceId :: int
  pt_imei :: string
  pt_shard :: nat

record raw_payload =
  p_deviceId :: int
  p_imei :: string
  p_serverTimeMs :: int
  p_tsMs :: int
  p_priority :: int
  p_lat :: rat
  p_lon :: rat
  p_altitude :: int
  p_angle :: int
  p_satellites :: int
  p_speed :: int
  p_eventIoId :: int
  p_io :: "(int \<times> io_value) list"
  p_raw :: bytes

datatype xadd =
    XRejects string int bytes sanity
  | XRaw nat raw_payload
  | XUnsupported string int bytes string

definition payload_of :: "persist_target \<Rightarrow> int \<Rightarrow> avl_record \<Rightarrow> raw_payload" where
  "payload_of target nowMs rec =
     \<lparr>p_deviceId = pt_deviceId target, p_imei = pt_imei target, p_serverTimeMs = nowMs, p_tsMs = tsMs rec,
      p_priority = priority rec, p_lat = lat rec, p_lon = lon rec, p_altitude = altitude rec, p_angle = angle rec,
      p_satellites = satellites rec, p_speed = speed rec, p_eventIoId = eventIoId rec, p_io = io rec,
      p_raw = rec_raw rec\<rparr>"

fun split_batch :: "session_config \<Rightarrow> int \<Rightarrow> avl_record list \<Rightarrow> avl_record list \<times> (avl_record \<times> sanity) list" where
  "split_batch config nowMs [] = ([], [])"
| "split_batch config nowMs (rec # recs) =
     (let (good, insane) = split_batch config nowMs recs in
      case sanityFailure rec config nowMs of
        None \<Rightarrow> (rec # good, insane)
      | Some why \<Rightarrow> (good, (rec, why) # insane))"

definition batch_cmds :: "persist_target \<Rightarrow> session_config \<Rightarrow> int \<Rightarrow> avl_record list \<Rightarrow> xadd list" where
  "batch_cmds target config nowMs records =
     (let (good, insane) = split_batch config nowMs records in
      map (\<lambda>(rec, why). XRejects (pt_imei target) (tsMs rec) (rec_raw rec) why) insane @
      map (\<lambda>rec. XRaw (pt_shard target) (payload_of target nowMs rec)) good)"

text \<open>\<open>exec\<close> is the pipeline's reply: for each command whether its error is \<open>null\<close>, or \<open>null\<close> for the
  whole. The result is the counters, the commands sent with their success, and the number persisted.\<close>

definition persistAvlBatch ::
  "(xadd list \<Rightarrow> bool list option reply) \<Rightarrow> persist_target \<Rightarrow> avl_record list \<Rightarrow> session_config \<Rightarrow> ingest_metrics \<Rightarrow> int \<Rightarrow>
     ingest_metrics \<times> (xadd \<times> bool) list \<times> nat reply" where
  "persistAvlBatch exec target records config metrics nowMs =
     (let (good, insane) = split_batch config nowMs records in
      if good = [] \<and> insane = [] then (metrics, [], Inr 0)
      else let cmds = batch_cmds target config nowMs records;
               m1 = metrics\<lparr>m_sanityRejectsTotal := m_sanityRejectsTotal metrics + length insane\<rparr> in
        case exec cmds of
          Inl u \<Rightarrow> (m1, [], Inl u)
        | Inr results \<Rightarrow>
            let oks = (case results of None \<Rightarrow> [] | Some bs \<Rightarrow> bs);
                persisted = length (filter id oks) in
            (m1\<lparr>m_ackedRecordsTotal := m_ackedRecordsTotal m1 + persisted\<rparr>, zip cmds oks, Inr persisted))"

definition parkUndecodableFrame :: "string \<Rightarrow> bytes \<Rightarrow> int \<Rightarrow> string \<Rightarrow> xadd" where
  "parkUndecodableFrame imei rw nowMs reason = XUnsupported imei nowMs rw reason"

section \<open>Nothing is lost and nothing counted twice\<close>

text \<open>The documented contract of a pipeline: one result per command.\<close>

definition pipeline_ok :: "(xadd list \<Rightarrow> bool list option reply) \<Rightarrow> bool" where
  "pipeline_ok exec \<longleftrightarrow> (\<forall>cs bs. exec cs = Inr (Some bs) \<longrightarrow> length bs = length cs)"

definition entry_raw :: "xadd \<Rightarrow> bytes" where
  "entry_raw x = (case x of XRejects i t rw w \<Rightarrow> rw | XRaw s p \<Rightarrow> p_raw p | XUnsupported i t rw r \<Rightarrow> rw)"

lemma split_batch_filter:
  "split_batch config nowMs recs =
     (filter (\<lambda>rec. sanityFailure rec config nowMs = None) recs,
      map (\<lambda>rec. (rec, the (sanityFailure rec config nowMs))) (filter (\<lambda>rec. sanityFailure rec config nowMs \<noteq> None) recs))"
  by (induction recs) (auto split: option.split)

lemma batch_cmds_raw: "mset (map entry_raw (batch_cmds target config nowMs recs)) = mset (map rec_raw recs)"
proof -
  have eq: "map entry_raw (batch_cmds target config nowMs recs) =
      map rec_raw (filter (\<lambda>rec. sanityFailure rec config nowMs \<noteq> None) recs @
        filter (\<lambda>rec. sanityFailure rec config nowMs = None) recs)"
    by (simp add: batch_cmds_def split_batch_filter entry_raw_def payload_of_def comp_def)
  have "mset (map entry_raw (batch_cmds target config nowMs recs)) =
      image_mset rec_raw (mset (filter (\<lambda>rec. \<not> sanityFailure rec config nowMs = None) recs) +
        mset (filter (\<lambda>rec. sanityFailure rec config nowMs = None) recs))"
    by (simp only: eq mset_map mset_append)
  also have "\<dots> = image_mset rec_raw (mset recs)" by (simp add: mset_filter_split [of "\<lambda>x. x", simplified])
  finally show ?thesis by simp
qed

lemma batch_cmds_length: "length (batch_cmds target config nowMs recs) = length recs"
  using batch_cmds_raw [of target config nowMs recs] by (metis length_map size_mset)

lemma length_filter_zip_snd: "length bs = length cs \<Longrightarrow> length (filter snd (zip cs bs)) = length (filter id bs)"
  by (induction cs bs rule: list_induct2') auto

lemma persist_counts:
  assumes "pipeline_ok exec" and "persistAvlBatch exec target records config metrics nowMs = (m, sent, Inr n)"
  shows "n = length (filter snd sent)" and "m_ackedRecordsTotal m = m_ackedRecordsTotal metrics + n"
    and "n \<le> length records"
proof -
  show "n = length (filter snd sent)" "m_ackedRecordsTotal m = m_ackedRecordsTotal metrics + n"
    using assms
    by (auto simp: persistAvlBatch_def Let_def case_prod_beta pipeline_ok_def length_filter_zip_snd
        split: if_splits sum.splits option.splits)
  have "length sent \<le> length records"
    using assms(2) batch_cmds_length [of target config nowMs records]
    by (auto simp: persistAvlBatch_def Let_def case_prod_beta split: if_splits sum.splits)
  then show "n \<le> length records"
    using \<open>n = length (filter snd sent)\<close> length_filter_le [of snd sent] by linarith
qed

lemma batch_cmds_raw_entry:
  "XRaw s p \<in> set (batch_cmds target config nowMs recs) \<longleftrightarrow>
     s = pt_shard target \<and> (\<exists>rec \<in> set recs. isSaneRecord rec config nowMs \<and> p = payload_of target nowMs rec)"
  by (auto simp: batch_cmds_def split_batch_filter isSaneRecord_def)

text \<open>C34. What is acknowledged was stored. A batch becomes one stream entry per record, with the record's
  own wire bytes and none twice: a record in the sanity window goes to its device's shard with its
  fields, any other to the rejects stream. The number returned (and added to the acknowledged counter)
  is the number of entries the store accepted; it is the size of the batch exactly when all were.\<close>

theorem persist_accounts:
  assumes "pipeline_ok exec" and "persistAvlBatch exec target records config metrics nowMs = (m, sent, Inr n)"
  shows "mset (map entry_raw (batch_cmds target config nowMs records)) = mset (map rec_raw records) \<and>
    (\<forall>s p. XRaw s p \<in> set (batch_cmds target config nowMs records) \<longleftrightarrow>
       s = pt_shard target \<and> (\<exists>rec \<in> set records. isSaneRecord rec config nowMs \<and> p = payload_of target nowMs rec)) \<and>
    n = length (filter snd sent) \<and> m_ackedRecordsTotal m = m_ackedRecordsTotal metrics + n \<and> n \<le> length records \<and>
    (n = length records \<longleftrightarrow> map fst (filter snd sent) = batch_cmds target config nowMs records)"
proof -
  note c = persist_counts [OF assms]
  have "n = length records \<longleftrightarrow> map fst (filter snd sent) = batch_cmds target config nowMs records"
  proof
    assume "map fst (filter snd sent) = batch_cmds target config nowMs records"
    then have "length (filter snd sent) = length (batch_cmds target config nowMs records)" by (metis length_map)
    with c(1) show "n = length records" by (simp add: batch_cmds_length)
  next
    assume n: "n = length records"
    have "map fst sent = take (length sent) (batch_cmds target config nowMs records) \<and> length sent \<le> length records"
      using assms(2) batch_cmds_length [of target config nowMs records]
      by (auto simp: persistAvlBatch_def Let_def case_prod_beta map_fst_zip_take split_batch_filter filter_empty_conv
          split: if_splits sum.splits)
    moreover from this n c(1) have "filter snd sent = sent"
      using length_filter_less [of _ sent snd] by (metis filter_id_conv leD length_filter_le order.antisym)
    ultimately show "map fst (filter snd sent) = batch_cmds target config nowMs records"
      using n c(1) by (simp add: batch_cmds_length)
  qed
  then show ?thesis using c batch_cmds_raw batch_cmds_raw_entry by blast
qed

definition sample_avl :: avl_record where
  "sample_avl = \<lparr>tsMs = 1000, priority = 0, lat = 54, lon = 25, altitude = 1, angle = 2, satellites = 9, speed = 3,
     eventIoId = 0, io = [], genType = None, rec_raw = [7]\<rparr>"

definition sample_config :: session_config where
  "sample_config = \<lparr>pauseAboveDepth = 50, handshakeTimeoutMs = 10, readIdleTimeoutMs = 20, maxFutureMs = 100,
     minTsMs = 0, depthCacheMs = 0\<rparr>"

definition sample_target :: persist_target where
  "sample_target = \<lparr>pt_deviceId = 5, pt_imei = ''12345678'', pt_shard = 3\<rparr>"

theorem persist_accounts_witness:
  "(case persistAvlBatch (\<lambda>cs. Inr (Some (map (\<lambda>_. True) cs))) sample_target [sample_avl, sample_avl\<lparr>lat := 91\<rparr>] sample_config new_metrics 1000 of
     (m, sent, r) \<Rightarrow> r = Inr 2 \<and> m_ackedRecordsTotal m = 2 \<and> m_sanityRejectsTotal m = 1)"
  using persist_accounts [of "\<lambda>cs. Inr (Some (map (\<lambda>_. True) cs))" sample_target "[sample_avl, sample_avl\<lparr>lat := 91\<rparr>]" sample_config new_metrics 1000]
  by (simp add: pipeline_ok_def persistAvlBatch_def sanityFailure_def sample_avl_def sample_config_def new_metrics_def
      batch_cmds_def)

end
