(* ===== verification/Backlog.thy ===== *)
theory Backlog
  imports Persist
begin

text \<open>
  The backlog probe of apps/ingest/src/session.ts: how many entries of a shard's stream the pipeline has
  not consumed, and the per-shard cache in front of it. The replies of Redis are arguments; XINFO
  GROUPS answers one flat list of alternating keys and values per group.
\<close>

section \<open>Numbers\<close>

definition js_add :: "jsnum \<Rightarrow> jsnum \<Rightarrow> jsnum" where
  "js_add a b =
     (case (a, b) of
        (JNum x, JNum y) \<Rightarrow> JNum (x + y)
      | (JInf s, JNum y) \<Rightarrow> JInf s
      | (JNum x, JInf s) \<Rightarrow> JInf s
      | (JInf s, JInf t) \<Rightarrow> (if s = t then JInf s else JNaN)
      | _ \<Rightarrow> JNaN)"

text \<open>\<open>a > n\<close> and \<open>a <= n\<close> for an integer \<open>n\<close>: both are false for NaN.\<close>

definition js_above :: "jsnum \<Rightarrow> int \<Rightarrow> bool" where
  "js_above a n = (case a of JNum x \<Rightarrow> of_int n < x | JInf neg \<Rightarrow> \<not> neg | JNaN \<Rightarrow> False)"

definition js_at_most :: "jsnum \<Rightarrow> int \<Rightarrow> bool" where
  "js_at_most a n = (case a of JNum x \<Rightarrow> x \<le> of_int n | JInf neg \<Rightarrow> neg | JNaN \<Rightarrow> False)"

section \<open>The probe\<close>

datatype resp = RespNull | RespInt int | RespStr string

definition resp_number :: "resp \<Rightarrow> jsnum" where
  "resp_number r = (case r of RespNull \<Rightarrow> JNum 0 | RespInt n \<Rightarrow> JNum (of_int n) | RespStr s \<Rightarrow> js_Number_str s)"

text \<open>The walk over pairs; \<open>None\<close> is \<open>undefined\<close>.\<close>

fun field_at :: "string \<Rightarrow> resp list \<Rightarrow> resp option" where
  "field_at k (key # v # rest) = (if key = RespStr k then Some v else field_at k rest)"
| "field_at k _ = None"

definition PIPELINE_GROUP :: string where
  "PIPELINE_GROUP = ''pipeline''"

definition pending_of :: "resp list \<Rightarrow> rat" where
  "pending_of flat =
     (case resp_number (case field_at ''pending'' flat of None \<Rightarrow> RespInt 0 | Some RespNull \<Rightarrow> RespInt 0 | Some r \<Rightarrow> r) of
        JNum q \<Rightarrow> q | _ \<Rightarrow> 0)"

datatype xinfo_reply = XNoSuchKey | XFails | XGroups "resp list list"

fun group_backlog :: "resp list list \<Rightarrow> int reply \<Rightarrow> jsnum reply" where
  "group_backlog [] xlen = bindE xlen (\<lambda>n. Inr (JNum (of_int n)))"
| "group_backlog (flat # groups) xlen =
     (if field_at ''name'' flat \<noteq> Some (RespStr PIPELINE_GROUP) then group_backlog groups xlen
      else case field_at ''lag'' flat of
        Some (RespInt n) \<Rightarrow> Inr (js_add (JNum (of_int n)) (JNum (pending_of flat)))
      | Some (RespStr s) \<Rightarrow> Inr (js_add (js_Number_str s) (JNum (pending_of flat)))
      | _ \<Rightarrow> bindE xlen (\<lambda>n. Inr (JNum (max (pending_of flat) (of_int n)))))"

definition shardBacklog :: "xinfo_reply \<Rightarrow> int reply \<Rightarrow> jsnum reply" where
  "shardBacklog xinfo xlen =
     (case xinfo of
        XNoSuchKey \<Rightarrow> Inr (JNum 0)
      | XFails \<Rightarrow> Inl ()
      | XGroups groups \<Rightarrow> group_backlog groups xlen)"

section \<open>The cache\<close>

record depth_entry =
  de_at :: int
  de_depth :: jsnum

type_synonym depth_cache = "(nat \<times> depth_entry) list"

definition getCachedShardDepth ::
  "depth_cache \<Rightarrow> nat \<Rightarrow> int \<Rightarrow> bool \<Rightarrow> int \<Rightarrow> jsnum reply \<Rightarrow> (jsnum \<times> depth_cache) reply" where
  "getCachedShardDepth cache shard nowMs force ttlMs backlog =
     (case (if force then None else
            case map_of cache shard of None \<Rightarrow> None
            | Some c \<Rightarrow> (if nowMs - de_at c < ttlMs then Some c else None)) of
        Some c \<Rightarrow> Inr (de_depth c, cache)
      | None \<Rightarrow> bindE backlog (\<lambda>depth. Inr (depth, AList.update shard \<lparr>de_at = nowMs, de_depth = depth\<rparr> cache)))"

section \<open>The probe errs high\<close>

text \<open>A group as Redis describes it: named fields. The wire form flattens the pairs.\<close>

definition flatten_group :: "(string \<times> resp) list \<Rightarrow> resp list" where
  "flatten_group kvs = concat (map (\<lambda>(k, v). [RespStr k, v]) kvs)"

lemma field_at_flatten: "field_at k (flatten_group kvs) = map_of kvs k"
  by (induction kvs) (auto simp: flatten_group_def)

definition is_pipeline :: "(string \<times> resp) list \<Rightarrow> bool" where
  "is_pipeline kvs \<longleftrightarrow> map_of kvs ''name'' = Some (RespStr ''pipeline'')"

lemma group_backlog_find:
  "group_backlog (map flatten_group groups) xlen =
     (case find is_pipeline groups of
        None \<Rightarrow> bindE xlen (\<lambda>n. Inr (JNum (of_int n)))
      | Some kvs \<Rightarrow> group_backlog [flatten_group kvs] xlen)"
  by (induction groups) (auto simp: field_at_flatten is_pipeline_def PIPELINE_GROUP_def)

text \<open>The backlog probe is exact when Redis can tell and errs high when it cannot. Only a missing
  stream counts as empty and a failed probe stays a failure; without the pipeline's group the whole
  stream is backlog; with it the answer is lag + pending when Redis knows the lag, else at least both
  the pending count and the stream's length. A value of some field that happens to read \<open>lag\<close> or
  \<open>pipeline\<close> is never taken for a field.\<close>

theorem backlog_errs_high:
  "shardBacklog XNoSuchKey xlen = Inr (JNum 0) \<and> shardBacklog XFails xlen = Inl () \<and>
   (case find is_pipeline groups of
      None \<Rightarrow> shardBacklog (XGroups (map flatten_group groups)) (Inr entries) = Inr (JNum (of_int entries))
    | Some kvs \<Rightarrow>
        map_of kvs ''pending'' = Some (RespInt pending) \<longrightarrow>
        (case map_of kvs ''lag'' of
           Some (RespInt lag) \<Rightarrow>
             shardBacklog (XGroups (map flatten_group groups)) (Inr entries) = Inr (JNum (of_int (lag + pending)))
         | Some (RespStr s) \<Rightarrow>
             shardBacklog (XGroups (map flatten_group groups)) (Inr entries) = Inr (js_add (js_Number_str s) (JNum (of_int pending)))
         | _ \<Rightarrow>
             shardBacklog (XGroups (map flatten_group groups)) (Inr entries) = Inr (JNum (of_int (max pending entries)))))"
  by (auto simp: shardBacklog_def group_backlog_find field_at_flatten is_pipeline_def PIPELINE_GROUP_def pending_of_def
      resp_number_def js_add_def max_def dest!: find_SomeD split: option.splits resp.splits)

theorem backlog_errs_high_witness:
  "shardBacklog (XGroups (map flatten_group [[(''name'', RespStr ''lag''), (''lag'', RespInt 3)],
     [(''name'', RespStr ''pipeline''), (''pending'', RespInt 4), (''lag'', RespInt 9)]])) (Inr 50) = Inr (JNum 13)"
  using backlog_errs_high [where groups = "[[(''name'', RespStr ''lag''), (''lag'', RespInt 3)],
     [(''name'', RespStr ''pipeline''), (''pending'', RespInt 4), (''lag'', RespInt 9)]]" and entries = 50 and pending = 4]
  by (simp add: is_pipeline_def)

end
