(* ===== verification/Session.thy ===== *)
theory Session
  imports Backlog Framer
begin

text \<open>
  apps/ingest/src/session.ts: the protocol session of one TCP connection. The state is the one of the
  class and its socket; what the session writes to the socket and to Redis is appended to a trace, so
  that the order of effects can be stated. The replies of Redis and the clock of one frame are an
  argument (\<open>replies\<close>); a rejected promise ends the handler with the state reached, as \<open>Inl\<close>.

  Packets are handled one chunk at a time (the code chains the handlers on one promise), a socket that
  dies while a handler waits is the flag \<open>dr_gone\<close> of the next command. The latency and parse-failure
  callbacks are left out: they only report.
\<close>

section \<open>State\<close>

datatype phase_state = AwaitImei | Streaming

record queued_cmd =
  qc_id :: string
  qc_text :: string
  qc_attempt :: "int option"
  qc_expiresAtMs :: "int option"

record inflight_cmd =
  ic_id :: string
  ic_text :: string
  ic_attempt :: int
  ic_sentAtMs :: int
  ic_expiresAtMs :: "int option"

datatype action =
    SendImei bytes
  | SendAck nat bytes
  | SendCommand bytes
  | Stored xadd bool
  | Parked xadd nat
  | InFlight inflight_cmd
  | Responded int nat string bool
  | Quarantined "quarantine_cmd list"
  | AuthenticatedAs string int

record session =
  se_state :: phase_state
  se_framer :: framer
  se_imei :: string
  se_deviceId :: "int option"
  se_shard :: nat
  se_paused :: bool
  se_timer :: "int option"
  se_destroyed :: bool
  se_ended :: bool
  se_flowing :: bool
  se_polling :: bool
  se_cache :: depth_cache
  se_metrics :: ingest_metrics
  se_trace :: "action list"

record drain_reply =
  dr_gone :: bool
  dr_lpop :: "string option reply"
  dr_exec :: "unit reply"

record replies =
  rp_now :: int
  rp_hget :: "string \<Rightarrow> string option reply"
  rp_quarantine :: "int option list option reply"
  rp_exec :: "xadd list \<Rightarrow> bool list option reply"
  rp_park :: "unit reply"
  rp_response :: "unit reply"
  rp_xinfo :: xinfo_reply
  rp_xlen :: "int reply"
  rp_drain :: "drain_reply list"

text \<open>What a handler needs from outside: the wrapped parser, \<open>JSON.parse\<close> of a queued command, the
  configuration.\<close>

record session_deps =
  sd_lib :: "bytes \<Rightarrow> lib_result"
  sd_json :: "string \<Rightarrow> queued_cmd option"
  sd_config :: session_config

type_synonym handled = "session + session"

definition SHARD_COUNT :: nat where
  "SHARD_COUNT = 16"

section \<open>Elementary effects\<close>

definition act :: "action \<Rightarrow> session \<Rightarrow> session" where
  "act a s = s\<lparr>se_trace := se_trace s @ [a]\<rparr>"

definition metered :: "(ingest_metrics \<Rightarrow> ingest_metrics) \<Rightarrow> session \<Rightarrow> session" where
  "metered f s = s\<lparr>se_metrics := f (se_metrics s)\<rparr>"

definition armTimer :: "int \<Rightarrow> session \<Rightarrow> session" where
  "armTimer ms s = s\<lparr>se_timer := Some ms\<rparr>"

definition releasePaused :: "session \<Rightarrow> session" where
  "releasePaused s =
     (let s1 = s\<lparr>se_timer := None\<rparr> in
      if \<not> se_paused s1 then s1
      else metered (\<lambda>m. m\<lparr>m_pausedSockets := m_pausedSockets m - 1\<rparr>) (s1\<lparr>se_paused := False\<rparr>))"

definition destroy :: "session \<Rightarrow> session" where
  "destroy s = (releasePaused s)\<lparr>se_destroyed := True\<rparr>"

definition new_session :: "nat \<Rightarrow> session_config \<Rightarrow> depth_cache \<Rightarrow> ingest_metrics \<Rightarrow> session" where
  "new_session maxLen config cache metrics =
     \<lparr>se_state = AwaitImei, se_framer = new_framer maxLen, se_imei = [], se_deviceId = None, se_shard = 0,
      se_paused = False, se_timer = Some (handshakeTimeoutMs config), se_destroyed = False, se_ended = False,
      se_flowing = True, se_polling = False, se_cache = cache, se_metrics = metrics, se_trace = []\<rparr>"

section \<open>Commands to the device\<close>

definition inflight_of :: "queued_cmd \<Rightarrow> int \<Rightarrow> inflight_cmd" where
  "inflight_of cmd now =
     \<lparr>ic_id = qc_id cmd, ic_text = qc_text cmd, ic_attempt = (case qc_attempt cmd of None \<Rightarrow> 0 | Some a \<Rightarrow> a),
      ic_sentAtMs = now, ic_expiresAtMs = qc_expiresAtMs cmd\<rparr>"

definition expired :: "queued_cmd \<Rightarrow> int \<Rightarrow> bool" where
  "expired cmd now = (case qc_expiresAtMs cmd of None \<Rightarrow> False | Some e \<Rightarrow> e \<le> now)"

fun drain_loop :: "session_deps \<Rightarrow> int \<Rightarrow> nat \<Rightarrow> drain_reply list \<Rightarrow> session \<Rightarrow> handled" where
  "drain_loop deps now 0 ds s = Inr s"
| "drain_loop deps now (Suc n) [] s = Inr s"
| "drain_loop deps now (Suc n) (d # ds) s =
     (let s1 = (if dr_gone d then s\<lparr>se_destroyed := True\<rparr> else s) in
      if se_destroyed s1 \<or> se_ended s1 then Inr s1
      else case dr_lpop d of
        Inl u \<Rightarrow> Inl s1
      | Inr None \<Rightarrow> Inr s1
      | Inr (Some text) \<Rightarrow>
          (case sd_json deps text of
             None \<Rightarrow> drain_loop deps now n ds s1
           | Some cmd \<Rightarrow>
               if expired cmd now then drain_loop deps now n ds s1
               else case encodeCodec12 (qc_text cmd) of
                 Inl e \<Rightarrow> drain_loop deps now n ds s1
               | Inr frame \<Rightarrow>
                   (case dr_exec d of
                      Inl u \<Rightarrow> Inl s1
                    | Inr _ \<Rightarrow> drain_loop deps now n ds (act (SendCommand frame) (act (InFlight (inflight_of cmd now)) s1)))))"

definition drainPending :: "session_deps \<Rightarrow> replies \<Rightarrow> session \<Rightarrow> handled" where
  "drainPending deps rp s =
     (if se_deviceId s = None then Inr s else drain_loop deps (rp_now rp) 16 (rp_drain rp) s)"

section \<open>Backpressure\<close>

definition shard_depth :: "session_deps \<Rightarrow> replies \<Rightarrow> session \<Rightarrow> (jsnum \<times> depth_cache) reply" where
  "shard_depth deps rp s =
     getCachedShardDepth (se_cache s) (se_shard s) (rp_now rp) False (depthCacheMs (sd_config deps))
       (shardBacklog (rp_xinfo rp) (rp_xlen rp))"

definition maybeBackpressure :: "session_deps \<Rightarrow> replies \<Rightarrow> session \<Rightarrow> handled" where
  "maybeBackpressure deps rp s =
     (case shard_depth deps rp s of
        Inl u \<Rightarrow> Inl s
      | Inr (depth, cache) \<Rightarrow>
          let s1 = s\<lparr>se_cache := cache\<rparr> in
          if js_above depth (pauseAboveDepth (sd_config deps)) \<and> \<not> se_paused s1
          then Inr (metered (\<lambda>m. m\<lparr>m_pausedSockets := m_pausedSockets m + 1\<rparr>)
                     (s1\<lparr>se_paused := True, se_flowing := False, se_polling := True\<rparr>))
          else Inr s1)"

text \<open>One tick of \<open>pollForDrain\<close>. A failed probe reads as infinite depth; \<open>gone\<close> is a destroy that
  landed during the probe.\<close>

definition poll_tick :: "session_deps \<Rightarrow> replies \<Rightarrow> bool \<Rightarrow> session \<Rightarrow> session" where
  "poll_tick deps rp gone s0 =
     (let s = s0\<lparr>se_polling := False\<rparr> in
      if se_destroyed s then s
      else let (depth, cache) = (case shard_depth deps rp s of Inl u \<Rightarrow> (JInf False, se_cache s) | Inr dc \<Rightarrow> dc);
               s1 = (if gone then destroy (s\<lparr>se_cache := cache\<rparr>) else s\<lparr>se_cache := cache\<rparr>) in
        if se_destroyed s1 \<or> \<not> se_paused s1 then s1
        else if js_at_most depth (pauseAboveDepth (sd_config deps))
        then metered (\<lambda>m. m\<lparr>m_pausedSockets := m_pausedSockets m - 1\<rparr>) (s1\<lparr>se_paused := False, se_flowing := True\<rparr>)
        else s1\<lparr>se_polling := True\<rparr>)"

section \<open>Frames\<close>

definition handleImei :: "session_deps \<Rightarrow> replies \<Rightarrow> frame \<Rightarrow> session \<Rightarrow> handled" where
  "handleImei deps rp f s =
     (if f_kind f \<noteq> KImei
      then Inr (destroy (metered (\<lambda>m. m\<lparr>m_frameViolationsTotal := m_frameViolationsTotal m + 1\<rparr>) s))
      else case parseFrame (sd_lib deps) f of
        Inl e \<Rightarrow> Inl s
      | Inr (PImei imei) \<Rightarrow>
          (case registry_lookup (rp_hget rp imei) of
             Inl u \<Rightarrow> Inl s
           | Inr None \<Rightarrow>
               (let s1 = metered (\<lambda>m. m\<lparr>m_rejectedImeiTotal := m_rejectedImeiTotal m + 1\<rparr>) s in
                case quarantine_count True (rp_quarantine rp) of
                  Inl u \<Rightarrow> Inl s1
                | Inr rejects \<Rightarrow>
                    let s2 = act (SendImei (encodeImeiReply False))
                               (act (Quarantined (quarantine_cmds imei (rp_now rp) True)) s1) in
                    if 3 \<le> rejects then Inr (destroy s2) else Inr (s2\<lparr>se_ended := True\<rparr>))
           | Inr (Some dev) \<Rightarrow>
               drainPending deps rp
                 (armTimer (readIdleTimeoutMs (sd_config deps))
                   (act (SendImei (encodeImeiReply True))
                     (act (AuthenticatedAs imei dev)
                       (s\<lparr>se_imei := imei, se_deviceId := Some dev, se_shard := decimal_nat imei mod SHARD_COUNT,
                          se_state := Streaming\<rparr>)))))
      | Inr _ \<Rightarrow> Inr s)"

definition send_ack :: "nat \<Rightarrow> session \<Rightarrow> handled" where
  "send_ack n s = (case encodeAck (int n) of Inl e \<Rightarrow> Inl s | Inr bs \<Rightarrow> Inr (act (SendAck n bs) s))"

definition handle_undecodable :: "session_deps \<Rightarrow> replies \<Rightarrow> frame \<Rightarrow> nat \<Rightarrow> session \<Rightarrow> handled" where
  "handle_undecodable deps rp f declared s =
     (let s1 = metered (\<lambda>m. m\<lparr>m_parseFailTotal := m_parseFailTotal m + 1\<rparr>) s in
      case rp_park rp of
        Inl u \<Rightarrow> Inl s1
      | Inr _ \<Rightarrow>
          let s2 = metered (\<lambda>m. m\<lparr>m_unsupportedCodecTotal := m_unsupportedCodecTotal m + 1,
                       m_ackedRecordsTotal := m_ackedRecordsTotal m + declared\<rparr>)
                     (act (Parked (parkUndecodableFrame (se_imei s1) (f_bytes f) (rp_now rp) ''undecodable-records'') declared) s1) in
          bindE (send_ack declared s2) (\<lambda>s3. bindE (maybeBackpressure deps rp s3) (drainPending deps rp)))"

definition handle_corrupt :: "session \<Rightarrow> handled" where
  "handle_corrupt s = send_ack 0 (metered (\<lambda>m. m\<lparr>m_parseFailTotal := m_parseFailTotal m + 1\<rparr>) s)"

definition record_sent :: "(xadd \<times> bool) list \<Rightarrow> session \<Rightarrow> session" where
  "record_sent sent s = s\<lparr>se_trace := se_trace s @ map (\<lambda>(x, ok). Stored x ok) sent\<rparr>"

definition handle_avl :: "session_deps \<Rightarrow> replies \<Rightarrow> avl_record list \<Rightarrow> session \<Rightarrow> handled" where
  "handle_avl deps rp records s =
     (case registry_lookup (rp_hget rp (se_imei s)) of
        Inl u \<Rightarrow> Inl s
      | Inr mapped \<Rightarrow>
          if mapped = None \<or> mapped \<noteq> se_deviceId s
          then Inr ((metered (\<lambda>m. m\<lparr>m_rejectedImeiTotal := m_rejectedImeiTotal m + 1\<rparr>) s)\<lparr>se_destroyed := True\<rparr>)
          else case se_deviceId s of
            None \<Rightarrow> Inr s
          | Some dev \<Rightarrow>
              (let (m, sent, r) = persistAvlBatch (rp_exec rp)
                     \<lparr>pt_deviceId = dev, pt_imei = se_imei s, pt_shard = se_shard s\<rparr> records (sd_config deps) (se_metrics s) (rp_now rp);
                   s1 = record_sent sent (s\<lparr>se_metrics := m\<rparr>) in
               case r of
                 Inl u \<Rightarrow> Inl s1
               | Inr persisted \<Rightarrow>
                   bindE (send_ack persisted s1) (\<lambda>s2. bindE (maybeBackpressure deps rp s2) (drainPending deps rp))))"

definition handle_response :: "replies \<Rightarrow> nat \<Rightarrow> string \<Rightarrow> bool \<Rightarrow> session \<Rightarrow> handled" where
  "handle_response rp codec text nack s =
     (case rp_response rp of
        Inl u \<Rightarrow> Inl s
      | Inr _ \<Rightarrow> Inr (case se_deviceId s of None \<Rightarrow> s | Some dev \<Rightarrow> act (Responded dev codec text nack) s))"

definition handleStreamFrame :: "session_deps \<Rightarrow> replies \<Rightarrow> frame \<Rightarrow> session \<Rightarrow> handled" where
  "handleStreamFrame deps rp f s0 =
     (let s = metered (\<lambda>m. m\<lparr>m_msgsTotal := m_msgsTotal m + 1\<rparr>) s0 in
      case parseFrame (sd_lib deps) f of
        Inl (UndecodableRecordsError declared) \<Rightarrow>
          (if se_deviceId s \<noteq> None then handle_undecodable deps rp f declared s else handle_corrupt s)
      | Inl CrcError \<Rightarrow> handle_corrupt s
      | Inl FrameError \<Rightarrow> handle_corrupt s
      | Inl RangeError \<Rightarrow> Inl s
      | Inr (PCmd codec text nack) \<Rightarrow> handle_response rp codec text nack s
      | Inr (PImei imei) \<Rightarrow> Inr s
      | Inr (PAvl codec records) \<Rightarrow> handle_avl deps rp records s)"

section \<open>Chunks\<close>

fun frames_loop :: "session_deps \<Rightarrow> (nat \<Rightarrow> replies) \<Rightarrow> nat \<Rightarrow> frame list \<Rightarrow> session \<Rightarrow> handled" where
  "frames_loop deps rps i [] s = Inr s"
| "frames_loop deps rps i (f # fs) s =
     bindE (if se_state s = AwaitImei then handleImei deps (rps i) f s else handleStreamFrame deps (rps i) f s) (\<lambda>s1.
       if se_destroyed s1 then Inr s1 else frames_loop deps rps (Suc i) fs s1)"

definition onData :: "session_deps \<Rightarrow> (nat \<Rightarrow> replies) \<Rightarrow> bytes \<Rightarrow> session \<Rightarrow> handled" where
  "onData deps rps chunk s =
     (if se_destroyed s then Inr s
      else let (fr, r) = feed (se_framer s) chunk; s0 = s\<lparr>se_framer := fr\<rparr> in
        case r of
          Inl FrameError \<Rightarrow> Inr (destroy (metered (\<lambda>m. m\<lparr>m_frameViolationsTotal := m_frameViolationsTotal m + 1\<rparr>) s0))
        | Inl e \<Rightarrow> Inl s0
        | Inr frames \<Rightarrow>
            bindE (frames_loop deps rps 0 frames s0) (\<lambda>s1.
              if \<not> se_destroyed s1 \<and> frames \<noteq> [] \<and> se_state s1 = Streaming
              then Inr (armTimer (readIdleTimeoutMs (sd_config deps)) s1) else Inr s1))"

text \<open>The data event: the socket is paused while the chunk is handled, an escaped error is counted and
  ends the session, and reading resumes unless the session is paused or gone.\<close>

definition on_chunk :: "session_deps \<Rightarrow> (nat \<Rightarrow> replies) \<Rightarrow> bytes \<Rightarrow> session \<Rightarrow> session" where
  "on_chunk deps rps chunk s =
     (let s1 = (case onData deps rps chunk (s\<lparr>se_flowing := False\<rparr>) of
                  Inr s1 \<Rightarrow> s1
                | Inl s1 \<Rightarrow> destroy (metered (\<lambda>m. m\<lparr>m_sessionErrorsTotal := m_sessionErrorsTotal m + 1\<rparr>) s1)) in
      if \<not> se_paused s1 \<and> \<not> se_destroyed s1 then s1\<lparr>se_flowing := True\<rparr> else s1)"

end
