(* ===== verification/SessionProtocol.thy ===== *)
theory SessionProtocol
  imports Session
begin

text \<open>
  What a TCP session promises, stated as a monitor of its trace: an abstract automaton that knows the
  authenticated device, the records stored and not yet acknowledged, and the command recorded in
  flight. The session refines it: its trace is accepted whatever arrives and whatever Redis answers.
  The step relation of a session covers chunks, polls, timers and socket events.
\<close>

section \<open>The monitor\<close>

record monitor =
  mo_auth :: "(string \<times> int) option"
  mo_credit :: int
  mo_inflight :: "inflight_cmd option"

definition monitor0 :: monitor where
  "monitor0 = \<lparr>mo_auth = None, mo_credit = 0, mo_inflight = None\<rparr>"

definition belongs :: "string \<Rightarrow> int \<Rightarrow> xadd \<Rightarrow> bool" where
  "belongs imei dev x =
     (case x of
        XRaw s p \<Rightarrow> s = decimal_nat imei mod 16 \<and> p_imei p = imei \<and> p_deviceId p = dev
      | XRejects i t rw w \<Rightarrow> i = imei
      | XUnsupported i t rw r \<Rightarrow> i = imei)"

definition fresh_cmd :: "inflight_cmd \<Rightarrow> bool" where
  "fresh_cmd c = (case ic_expiresAtMs c of None \<Rightarrow> True | Some e \<Rightarrow> ic_sentAtMs c < e)"

definition monitor_step :: "monitor \<Rightarrow> action \<Rightarrow> monitor option" where
  "monitor_step m a =
     (case a of
        AuthenticatedAs imei dev \<Rightarrow> (if mo_auth m = None then Some (m\<lparr>mo_auth := Some (imei, dev)\<rparr>) else None)
      | SendImei bs \<Rightarrow> (if bs = [if mo_auth m = None then 0 else 1] then Some m else None)
      | Quarantined q \<Rightarrow> (if mo_auth m = None then Some m else None)
      | Stored x ok \<Rightarrow>
          (case mo_auth m of None \<Rightarrow> None
           | Some (imei, dev) \<Rightarrow>
               (if belongs imei dev x then Some (m\<lparr>mo_credit := mo_credit m + (if ok then 1 else 0)\<rparr>) else None))
      | Parked x n \<Rightarrow>
          (case mo_auth m of None \<Rightarrow> None
           | Some (imei, dev) \<Rightarrow> (if belongs imei dev x then Some (m\<lparr>mo_credit := mo_credit m + int n\<rparr>) else None))
      | SendAck n bs \<Rightarrow>
          (if mo_auth m \<noteq> None \<and> int n \<le> mo_credit m \<and> encodeAck (int n) = Inr bs
           then Some (m\<lparr>mo_credit := mo_credit m - int n\<rparr>) else None)
      | InFlight c \<Rightarrow>
          (if mo_auth m \<noteq> None \<and> mo_inflight m = None \<and> fresh_cmd c then Some (m\<lparr>mo_inflight := Some c\<rparr>) else None)
      | SendCommand bs \<Rightarrow>
          (case mo_inflight m of None \<Rightarrow> None
           | Some c \<Rightarrow> (if encodeCodec12 (ic_text c) = Inr bs then Some (m\<lparr>mo_inflight := None\<rparr>) else None))
      | Responded dev codec text nack \<Rightarrow>
          (case mo_auth m of None \<Rightarrow> None | Some (imei, d) \<Rightarrow> (if d = dev then Some m else None)))"

fun monitor_run :: "monitor \<Rightarrow> action list \<Rightarrow> monitor option" where
  "monitor_run m [] = Some m"
| "monitor_run m (a # as) = (case monitor_step m a of None \<Rightarrow> None | Some m1 \<Rightarrow> monitor_run m1 as)"

lemma monitor_run_append:
  "monitor_run m (xs @ ys) = (case monitor_run m xs of None \<Rightarrow> None | Some m1 \<Rightarrow> monitor_run m1 ys)"
  by (induction xs arbitrary: m) (auto split: option.split)

lemma monitor_run_prefix: "monitor_run m (xs @ ys) = Some m2 \<Longrightarrow> \<exists>m1. monitor_run m xs = Some m1"
  by (cases "monitor_run m xs") (simp_all add: monitor_run_append)

lemma monitor_step_stored: "mo_auth m = Some (imei, dev) \<Longrightarrow> belongs imei dev x \<Longrightarrow>
    monitor_step m (Stored x ok) = Some (m\<lparr>mo_credit := mo_credit m + (if ok then 1 else 0)\<rparr>)"
  by (simp add: monitor_step_def)

lemma monitor_run_stored:
  "mo_auth m = Some (imei, dev) \<Longrightarrow> \<forall>x \<in> fst ` set sent. belongs imei dev x \<Longrightarrow>
     monitor_run m (map (\<lambda>(x, ok). Stored x ok) sent) = Some (m\<lparr>mo_credit := mo_credit m + int (length (filter snd sent))\<rparr>)"
proof (induction sent arbitrary: m)
  case Nil
  then show ?case by simp
next
  case (Cons a sent)
  obtain x ok where a: "a = (x, ok)" by (cases a)
  with Cons.prems have b: "belongs imei dev x" by auto
  from Cons.IH [of "m\<lparr>mo_credit := mo_credit m + (if ok then 1 else 0)\<rparr>"] Cons.prems a show ?case
    by (simp add: monitor_step_stored [OF Cons.prems(1) b] add.assoc)
qed

section \<open>The refinement\<close>

text \<open>\<open>follows c s\<close>: the trace of the session is accepted, the monitor knows what the session knows, and
  \<open>c\<close> records are stored and not yet acknowledged.\<close>

definition auth_of :: "session \<Rightarrow> (string \<times> int) option" where
  "auth_of s = (if se_state s = Streaming then map_option (\<lambda>d. (se_imei s, d)) (se_deviceId s) else None)"

definition follows :: "int \<Rightarrow> session \<Rightarrow> bool" where
  "follows c s \<longleftrightarrow>
     monitor_run monitor0 (se_trace s) = Some \<lparr>mo_auth = auth_of s, mo_credit = c, mo_inflight = None\<rparr> \<and>
     (se_state s = Streaming \<longrightarrow> se_deviceId s \<noteq> None \<and> se_shard s = decimal_nat (se_imei s) mod 16)"

text \<open>After a handler of an authenticated session: nothing is owed on success; on an escaped error the
  trace is still accepted.\<close>

fun live :: "handled \<Rightarrow> bool" where
  "live (Inr s) = (follows 0 s \<and> se_state s = Streaming)"
| "live (Inl s) = (\<exists>c. follows c s)"

fun settled :: "handled \<Rightarrow> bool" where
  "settled (Inr s) = follows 0 s"
| "settled (Inl s) = (\<exists>c. follows c s)"

lemma live_settled: "live r \<Longrightarrow> settled r"
  by (cases r) auto

lemma live_bind: "live r \<Longrightarrow> (\<And>s. follows 0 s \<Longrightarrow> se_state s = Streaming \<Longrightarrow> live (f s)) \<Longrightarrow> live (bindE r f)"
  by (cases r) auto

lemma follows_act:
  "follows c s \<Longrightarrow> monitor_step \<lparr>mo_auth = auth_of s, mo_credit = c, mo_inflight = None\<rparr> a =
      Some \<lparr>mo_auth = auth_of s, mo_credit = c', mo_inflight = None\<rparr> \<Longrightarrow> follows c' (act a s)"
  by (auto simp: follows_def act_def monitor_run_append auth_of_def)

text \<open>Changes the monitor does not see.\<close>

lemma follows_cong:
  "se_trace s' = se_trace s \<Longrightarrow> se_state s' = se_state s \<Longrightarrow> se_imei s' = se_imei s \<Longrightarrow> se_deviceId s' = se_deviceId s \<Longrightarrow>
    se_shard s' = se_shard s \<Longrightarrow> follows c s' \<longleftrightarrow> follows c s"
  by (simp add: follows_def auth_of_def)

lemma follows_frame [simp]:
  "follows c (s\<lparr>se_destroyed := b\<rparr>) = follows c s" "follows c (s\<lparr>se_ended := b\<rparr>) = follows c s"
  "follows c (s\<lparr>se_timer := t\<rparr>) = follows c s" "follows c (s\<lparr>se_paused := b\<rparr>) = follows c s"
  "follows c (s\<lparr>se_flowing := b\<rparr>) = follows c s" "follows c (s\<lparr>se_polling := b\<rparr>) = follows c s"
  "follows c (s\<lparr>se_cache := ca\<rparr>) = follows c s" "follows c (s\<lparr>se_metrics := me\<rparr>) = follows c s"
  "follows c (s\<lparr>se_framer := fr\<rparr>) = follows c s" "follows c (metered f s) = follows c s"
  "follows c (armTimer ms s) = follows c s"
  by (simp_all add: follows_def auth_of_def metered_def armTimer_def)

lemma follows_destroy [simp]: "follows c (destroy s) = follows c s"
  by (simp add: destroy_def releasePaused_def Let_def)

lemma follows_command:
  assumes "follows c s" and "se_state s = Streaming" and "encodeCodec12 (ic_text ic) = Inr frame" and "fresh_cmd ic"
  shows "follows c (act (SendCommand frame) (act (InFlight ic) s))"
proof -
  from assms(1,2) obtain d where "auth_of s = Some (se_imei s, d)" by (auto simp: follows_def auth_of_def)
  with assms show ?thesis
    by (auto simp: follows_def act_def monitor_run_append monitor_step_def auth_of_def)
qed

lemma act_state [simp]: "se_state (act a s) = se_state s" "se_imei (act a s) = se_imei s"
  "se_deviceId (act a s) = se_deviceId s" "se_shard (act a s) = se_shard s"
  "se_destroyed (act a s) = se_destroyed s" "se_ended (act a s) = se_ended s"
  by (simp_all add: act_def)

lemma metered_state [simp]: "se_state (metered f s) = se_state s" "se_imei (metered f s) = se_imei s"
  "se_deviceId (metered f s) = se_deviceId s" "se_shard (metered f s) = se_shard s"
  "se_trace (metered f s) = se_trace s" "se_destroyed (metered f s) = se_destroyed s"
  by (simp_all add: metered_def)

lemma destroy_state [simp]: "se_state (destroy s) = se_state s" "se_destroyed (destroy s)"
  by (simp_all add: destroy_def releasePaused_def Let_def)

lemma fresh_inflight: "\<not> expired cmd now \<Longrightarrow> fresh_cmd (inflight_of cmd now)"
  by (auto simp: expired_def fresh_cmd_def inflight_of_def split: option.splits)

lemma live_drain_loop: "follows 0 s \<Longrightarrow> se_state s = Streaming \<Longrightarrow> live (drain_loop deps now n ds s)"
proof (induction n arbitrary: ds s)
  case 0
  then show ?case by simp
next
  case (Suc n)
  show ?case
  proof (cases ds)
    case Nil
    with Suc.prems show ?thesis by simp
  next
    case (Cons d ds')
    let ?s = "if dr_gone d then s\<lparr>se_destroyed := True\<rparr> else s"
    have s: "follows 0 ?s" "se_state ?s = Streaming" using Suc.prems by simp_all
    show ?thesis
    proof (cases "se_destroyed ?s \<or> se_ended ?s")
      case True
      with Cons s show ?thesis by (simp add: Let_def)
    next
      case False
      consider (fails) u where "dr_lpop d = Inl u" | (empty) "dr_lpop d = Inr None"
        | (skip) w where "dr_lpop d = Inr (Some w)"
            "sd_json deps w = None \<or> (\<exists>cmd. sd_json deps w = Some cmd \<and>
               (expired cmd now \<or> (\<exists>e. encodeCodec12 (qc_text cmd) = Inl e)))"
        | (send) w cmd fr where "dr_lpop d = Inr (Some w)" "sd_json deps w = Some cmd" "\<not> expired cmd now"
            "encodeCodec12 (qc_text cmd) = Inr fr"
        by (metis option.exhaust sumE)
      then show ?thesis
      proof cases
        case fails
        with Cons s False Suc.prems show ?thesis by (auto simp: Let_def)
      next
        case empty
        with Cons s False show ?thesis by (simp add: Let_def)
      next
        case skip
        with Cons False Suc.IH [OF s, of ds'] show ?thesis by (auto simp: Let_def)
      next
        case send
        have f: "follows 0 (act (SendCommand fr) (act (InFlight (inflight_of cmd now)) ?s))"
          using send fresh_inflight [OF send(3)] s by (intro follows_command) (simp_all add: inflight_of_def)
        from Suc.IH [OF f, of ds'] send Cons False s Suc.prems show ?thesis
          by (cases "dr_exec d") (auto simp: Let_def)
      qed
    qed
  qed
qed

lemma live_drainPending: "follows 0 s \<Longrightarrow> se_state s = Streaming \<Longrightarrow> live (drainPending deps rp s)"
  by (simp add: drainPending_def live_drain_loop)

lemma live_backpressure: "follows 0 s \<Longrightarrow> se_state s = Streaming \<Longrightarrow> live (maybeBackpressure deps rp s)"
  by (auto simp: maybeBackpressure_def Let_def split: sum.split)

lemmas live_after_ack = live_bind [OF live_backpressure live_drainPending]

lemma follows_auth: "follows c s \<Longrightarrow> se_state s = Streaming \<Longrightarrow> \<exists>d. se_deviceId s = Some d \<and> auth_of s = Some (se_imei s, d)"
  by (auto simp: follows_def auth_of_def)

lemma live_ack: "follows (int n) s \<Longrightarrow> se_state s = Streaming \<Longrightarrow> live (send_ack n s)"
proof (cases "encodeAck (int n)")
  case (Inl e)
  assume "follows (int n) s" "se_state s = Streaming"
  with Inl show ?thesis by (auto simp: send_ack_def)
next
  case (Inr bs)
  assume f: "follows (int n) s" and st: "se_state s = Streaming"
  from follows_auth [OF f st] obtain d where "auth_of s = Some (se_imei s, d)" by blast
  with Inr have "follows 0 (act (SendAck n bs) s)"
    by (intro follows_act [OF f]) (simp add: monitor_step_def)
  with Inr st show ?thesis by (simp add: send_ack_def)
qed

lemma live_corrupt: "follows 0 s \<Longrightarrow> se_state s = Streaming \<Longrightarrow> live (handle_corrupt s)"
  unfolding handle_corrupt_def by (rule live_ack) simp_all

lemma live_undecodable:
  assumes f: "follows 0 s" and st: "se_state s = Streaming"
  shows "live (handle_undecodable deps rp fr n s)"
proof (cases "rp_park rp")
  case (Inl u)
  with f show ?thesis by (auto simp: handle_undecodable_def Let_def)
next
  case (Inr u)
  let ?p = "Parked (parkUndecodableFrame (se_imei s) (f_bytes fr) (rp_now rp) ''undecodable-records'') n"
  let ?s = "metered (\<lambda>m. m\<lparr>m_parseFailTotal := m_parseFailTotal m + 1\<rparr>) s"
  have "auth_of ?s = auth_of s" by (simp add: auth_of_def)
  moreover from follows_auth [OF f st] obtain d where "auth_of s = Some (se_imei s, d)" by blast
  ultimately have "follows (int n) (act ?p ?s)"
    by (intro follows_act [of 0 ?s]) (simp_all add: f monitor_step_def belongs_def parkUndecodableFrame_def)
  then show ?thesis
    using Inr st by (auto simp: handle_undecodable_def Let_def intro!: live_bind [OF live_ack] live_after_ack)
qed

lemma persist_sent_belong:
  assumes "persistAvlBatch exec \<lparr>pt_deviceId = dev, pt_imei = imei, pt_shard = decimal_nat imei mod 16\<rparr> records config m now = (m', sent, r)"
  shows "\<forall>x \<in> fst ` set sent. belongs imei dev x"
proof
  fix x
  assume "x \<in> fst ` set sent"
  then have "x \<in> set (batch_cmds \<lparr>pt_deviceId = dev, pt_imei = imei, pt_shard = decimal_nat imei mod 16\<rparr> config now records)"
    using assms by (auto simp: persistAvlBatch_def Let_def case_prod_beta dest: set_zip_leftD split: if_splits sum.splits)
  then show "belongs imei dev x"
    by (auto simp: batch_cmds_def case_prod_beta belongs_def payload_of_def)
qed

lemma follows_record_sent:
  assumes f: "follows 0 s" and st: "se_state s = Streaming" and dv: "se_deviceId s = Some dev"
    and sent: "\<forall>x \<in> fst ` set sent. belongs (se_imei s) dev x"
  shows "follows (int (length (filter snd sent))) (record_sent sent s)"
proof -
  have "auth_of s = Some (se_imei s, dev)" using st dv by (simp add: auth_of_def)
  then have "monitor_run \<lparr>mo_auth = auth_of s, mo_credit = 0, mo_inflight = None\<rparr> (map (\<lambda>(x, ok). Stored x ok) sent) =
      Some \<lparr>mo_auth = auth_of s, mo_credit = int (length (filter snd sent)), mo_inflight = None\<rparr>"
    using monitor_run_stored [of "\<lparr>mo_auth = auth_of s, mo_credit = 0, mo_inflight = None\<rparr>" "se_imei s" dev sent] sent by simp
  with f st dv show ?thesis
    by (simp add: follows_def record_sent_def monitor_run_append auth_of_def)
qed

lemma settled_avl:
  assumes f: "follows 0 s" and st: "se_state s = Streaming" and ok: "pipeline_ok (rp_exec rp)"
  shows "settled (handle_avl deps rp records s)"
proof -
  from f st obtain d where d: "se_deviceId s = Some d" and sh: "se_shard s = decimal_nat (se_imei s) mod 16"
    by (auto simp: follows_def)
  obtain m sent r where p: "persistAvlBatch (rp_exec rp) \<lparr>pt_deviceId = d, pt_imei = se_imei s, pt_shard = se_shard s\<rparr>
      records (sd_config deps) (se_metrics s) (rp_now rp) = (m, sent, r)" by (metis prod_cases3)
  let ?s = "record_sent sent (s\<lparr>se_metrics := m\<rparr>)"
  have fs: "follows (int (length (filter snd sent))) ?s"
    using f st d persist_sent_belong [OF p [unfolded sh]] by (intro follows_record_sent [where dev = d]) simp_all
  have sts: "se_state ?s = Streaming" using st by (simp add: record_sent_def)
  show ?thesis
  proof (cases "registry_lookup (rp_hget rp (se_imei s)) = Inr (Some d)")
    case True
    have "live (case r of Inl u \<Rightarrow> Inl ?s
        | Inr persisted \<Rightarrow> bindE (send_ack persisted ?s) (\<lambda>s2. bindE (maybeBackpressure deps rp s2) (drainPending deps rp)))"
    proof (cases r)
      case (Inl u)
      with fs show ?thesis by auto
    next
      case (Inr n)
      from fs have "follows (int n) ?s" by (simp only: persist_counts(1) [OF ok p [unfolded Inr], symmetric])
      then show ?thesis using Inr sts by (auto intro!: live_bind [OF live_ack] live_after_ack)
    qed
    from live_settled [OF this] True d p show ?thesis by (simp add: handle_avl_def Let_def)
  next
    case False
    with f d show ?thesis
      by (cases "registry_lookup (rp_hget rp (se_imei s))") (auto simp: handle_avl_def)
  qed
qed

lemma settled_response: "follows 0 s \<Longrightarrow> se_state s = Streaming \<Longrightarrow> settled (handle_response rp codec txt nack s)"
proof (cases "rp_response rp")
  case (Inr u)
  assume f: "follows 0 s" and st: "se_state s = Streaming"
  from follows_auth [OF f st] obtain d where d: "se_deviceId s = Some d" "auth_of s = Some (se_imei s, d)" by blast
  then have "follows 0 (act (Responded d codec txt nack) s)"
    by (intro follows_act [OF f]) (simp add: monitor_step_def)
  with Inr d show ?thesis by (simp add: handle_response_def)
qed (auto simp: handle_response_def)

lemma settled_stream:
  assumes "follows 0 s" and "se_state s = Streaming" and "pipeline_ok (rp_exec rp)"
  shows "settled (handleStreamFrame deps rp fr s)"
proof -
  let ?s = "metered (\<lambda>m. m\<lparr>m_msgsTotal := m_msgsTotal m + 1\<rparr>) s"
  have f: "follows 0 ?s" "se_state ?s = Streaming" using assms by simp_all
  show ?thesis
    using f live_settled [OF live_undecodable [OF f]] live_settled [OF live_corrupt [OF f]] settled_response [OF f]
      settled_avl [OF f assms(3)]
    by (auto simp: handleStreamFrame_def Let_def split: sum.split codec_error.split parsed_packet.split)
qed

lemma settled_imei:
  assumes f: "follows 0 s" and st: "se_state s = AwaitImei"
  shows "settled (handleImei deps rp fr s)"
proof -
  have a0: "auth_of s = None" using st by (simp add: auth_of_def)
  have quiet: "follows 0 (act (SendImei (encodeImeiReply False)) (act (Quarantined q) (metered g s)))" for q g
  proof (rule follows_act [where c = 0])
    show "follows 0 (act (Quarantined q) (metered g s))"
      by (rule follows_act [where c = 0]) (simp_all add: f monitor_step_def auth_of_def st)
  qed (simp add: monitor_step_def auth_of_def st encodeImeiReply_def)
  have auth: "live (drainPending deps rp (armTimer ms (act (SendImei (encodeImeiReply True)) (act (AuthenticatedAs imei d)
      (s\<lparr>se_imei := imei, se_deviceId := Some d, se_shard := decimal_nat imei mod SHARD_COUNT, se_state := Streaming\<rparr>)))))"
    for ms imei d
    using f a0
    by (intro live_drainPending)
      (auto simp: follows_def act_def monitor_run_append monitor_step_def auth_of_def encodeImeiReply_def SHARD_COUNT_def
        armTimer_def)
  show ?thesis
    using f quiet auth [THEN live_settled]
    by (auto simp: handleImei_def Let_def split: sum.split parsed_packet.split option.split)
qed

lemma settled_frames:
  "follows 0 s \<Longrightarrow> \<forall>i. pipeline_ok (rp_exec (rps i)) \<Longrightarrow> settled (frames_loop deps rps i fs s)"
proof (induction fs arbitrary: i s)
  case Nil
  then show ?case by simp
next
  case (Cons f fs)
  let ?r = "if se_state s = AwaitImei then handleImei deps (rps i) f s else handleStreamFrame deps (rps i) f s"
  have r: "settled ?r"
    using Cons.prems settled_imei settled_stream phase_state.exhaust by (metis (full_types))
  show ?case
  proof (cases ?r)
    case (Inl s1)
    with r show ?thesis by simp
  next
    case (Inr s1)
    with r Cons.IH [of s1 "Suc i"] Cons.prems show ?thesis by simp
  qed
qed

lemma follows_on_chunk:
  assumes "follows 0 s" and "\<forall>i. pipeline_ok (rp_exec (rps i))"
  shows "\<exists>c. follows c (on_chunk deps rps chunk s) \<and> (\<not> se_destroyed (on_chunk deps rps chunk s) \<longrightarrow> c = 0)"
proof -
  have "settled (onData deps rps chunk (s\<lparr>se_flowing := False\<rparr>))"
  proof (cases "se_destroyed s")
    case True
    with assms show ?thesis by (simp add: onData_def)
  next
    case False
    obtain fr r where feed: "feed (se_framer s) chunk = (fr, r)" by (cases "feed (se_framer s) chunk")
    show ?thesis
    proof (cases r)
      case (Inl e)
      with False feed assms(1) show ?thesis by (cases e) (auto simp: onData_def)
    next
      case (Inr frames)
      let ?s = "s\<lparr>se_flowing := False, se_framer := fr\<rparr>"
      have "settled (frames_loop deps rps 0 frames ?s)"
        using assms by (intro settled_frames) simp_all
      then show ?thesis
        using Inr False feed by (cases "frames_loop deps rps 0 frames ?s") (auto simp: onData_def)
    qed
  qed
  then show ?thesis
    by (cases "onData deps rps chunk (s\<lparr>se_flowing := False\<rparr>)") (auto simp: on_chunk_def Let_def)
qed

section \<open>Steps and reachable sessions\<close>

text \<open>What happens to a session: a chunk of the stream, a tick of the drain poll, the armed timer, an
  error or the close of the socket, a newer connection of the same IMEI, another session refreshing the
  shared depth cache.\<close>

inductive sess_step :: "session_deps \<Rightarrow> session \<Rightarrow> session \<Rightarrow> bool" for deps :: session_deps where
  Chunk: "\<forall>i. pipeline_ok (rp_exec (rps i)) \<Longrightarrow> sess_step deps s (on_chunk deps rps chunk s)"
| Poll: "se_polling s \<Longrightarrow> sess_step deps s (poll_tick deps rp gone s)"
| Timeout: "se_timer s = Some ms \<Longrightarrow> sess_step deps s (destroy s)"
| SocketError: "sess_step deps s (destroy s)"
| SocketClose: "sess_step deps s (releasePaused (s\<lparr>se_destroyed := True\<rparr>))"
| Superseded: "sess_step deps s (destroy s)"
| CacheRefreshed: "sess_step deps s (s\<lparr>se_cache := cache\<rparr>)"

inductive sess_reach :: "session_deps \<Rightarrow> session \<Rightarrow> session \<Rightarrow> bool" for deps :: session_deps and s0 :: session where
  start: "sess_reach deps s0 s0"
| step: "sess_reach deps s0 s \<Longrightarrow> sess_step deps s s' \<Longrightarrow> sess_reach deps s0 s'"

inductive_cases sess_stepE: "sess_step deps s s'"

lemma follows_release [simp]: "follows c (releasePaused s) = follows c s"
  by (simp add: releasePaused_def Let_def)

lemma follows_poll: "follows c (poll_tick deps rp gone s) = follows c s"
  by (simp add: poll_tick_def Let_def case_prod_beta)

lemma poll_destroyed: "se_destroyed s \<Longrightarrow> se_destroyed (poll_tick deps rp gone s)"
  by (simp add: poll_tick_def Let_def)

lemma chunk_destroyed: "se_destroyed s \<Longrightarrow> on_chunk deps rps chunk s = s\<lparr>se_flowing := False\<rparr>"
  by (simp add: on_chunk_def onData_def)

lemma release_destroyed [simp]: "se_destroyed (releasePaused s) = se_destroyed s"
  by (simp add: releasePaused_def Let_def metered_def)

lemma follows_new: "follows 0 (new_session maxLen config cache metrics)"
  by (simp add: follows_def new_session_def monitor0_def auth_of_def)

lemma reach_follows:
  "sess_reach deps (new_session maxLen config cache metrics) s \<Longrightarrow>
     \<exists>c. follows c s \<and> (\<not> se_destroyed s \<longrightarrow> c = 0)"
proof (induction rule: sess_reach.induct)
  case start
  then show ?case using follows_new by blast
next
  case (step s s')
  then obtain c where c: "follows c s" "\<not> se_destroyed s \<longrightarrow> c = 0" by blast
  from step(2) show ?case
  proof (cases rule: sess_step.cases)
    case (Chunk rps chunk)
    show ?thesis
    proof (cases "se_destroyed s")
      case True
      with c Chunk show ?thesis by (auto simp: chunk_destroyed)
    next
      case False
      with c have "follows 0 s" by simp
      from follows_on_chunk [OF this Chunk(2), of deps chunk] Chunk show ?thesis by simp
    qed
  next
    case (Poll rp gone)
    with c poll_destroyed [of s deps rp gone] show ?thesis by (auto simp: follows_poll)
  qed (use c in auto)
qed

section \<open>What the monitor implies\<close>

fun covered_in :: "action list \<Rightarrow> int" where
  "covered_in [] = 0"
| "covered_in (a # as) = (case a of Stored x ok \<Rightarrow> (if ok then 1 else 0) | Parked x n \<Rightarrow> int n | _ \<Rightarrow> 0) + covered_in as"

fun acked_in :: "action list \<Rightarrow> int" where
  "acked_in [] = 0"
| "acked_in (a # as) = (case a of SendAck n bs \<Rightarrow> int n | _ \<Rightarrow> 0) + acked_in as"

lemma monitor_step_credit: "monitor_step m a = Some m' \<Longrightarrow>
    mo_credit m' = mo_credit m + covered_in [a] - acked_in [a] \<and> (0 \<le> mo_credit m \<longrightarrow> 0 \<le> mo_credit m')"
  by (cases a) (auto simp: monitor_step_def split: if_splits option.splits)

lemma monitor_run_credit: "monitor_run m as = Some m' \<Longrightarrow>
    mo_credit m' = mo_credit m + covered_in as - acked_in as \<and> (0 \<le> mo_credit m \<longrightarrow> 0 \<le> mo_credit m')"
proof (induction as arbitrary: m)
  case Nil
  then show ?case by simp
next
  case (Cons a as)
  then obtain m1 where m1: "monitor_step m a = Some m1" "monitor_run m1 as = Some m'" by (auto split: option.splits)
  from monitor_step_credit [OF m1(1)] Cons.IH [OF m1(2)] show ?case by auto
qed


definition sample_deps :: session_deps where
  "sample_deps = \<lparr>sd_lib = (\<lambda>_. LibThrows True), sd_json = (\<lambda>_. None), sd_config = sample_config\<rparr>"

definition sample_replies :: replies where
  "sample_replies = \<lparr>rp_now = 1000, rp_hget = (\<lambda>_. Inr (Some ''42'')), rp_quarantine = Inl (), rp_exec = (\<lambda>cs. Inr (Some (map (\<lambda>_. True) cs))),
     rp_park = Inr (), rp_response = Inr (), rp_xinfo = XNoSuchKey, rp_xlen = Inr 0, rp_drain = []\<rparr>"

definition login_chunk :: bytes where
  "login_chunk = [0, 8] @ map (\<lambda>n. of_nat (48 + n)) [1, 2, 3, 4, 5, 6, 7, 8]"

definition sample_session :: session where
  "sample_session = on_chunk sample_deps (\<lambda>_. sample_replies) login_chunk (new_session 4096 sample_config [] new_metrics)"

lemma sample_session_reach: "sess_reach sample_deps (new_session 4096 sample_config [] new_metrics) sample_session"
  unfolding sample_session_def
  by (rule sess_reach.step [OF sess_reach.start]) (rule sess_step.Chunk, simp add: sample_replies_def pipeline_ok_def)

lemma sample_feed: "feed (new_framer 4096) login_chunk = (\<lparr>buf = [], maxDataLength = 4096\<rparr>, Inr [\<lparr>f_kind = KImei, f_bytes = login_chunk\<rparr>])"
  by (simp add: feed_def push_def new_framer_def login_chunk_def drain.simps tryExtract_def Let_def readUIntBE_def subarray_def be_nat_def)

lemma sample_parse: "parseFrame lib \<lparr>f_kind = KImei, f_bytes = login_chunk\<rparr> = Inr (PImei ''12345678'')"
  by (simp add: parseFrame_def login_chunk_def ascii_string_def is_imei_def is_digit_def Let_def char_of_def bit_Suc_0_iff)

lemma drain_loop_nil: "drain_loop deps now n [] s = Inr s"
  by (cases n) simp_all

lemma sample_lookup: "registry_lookup (Inr (Some ''42'')) = Inr (Some 42)"
  by (simp add: registry_lookup_def is_decimal_def is_digit_def bigint_of_decimal_def digits_value_def hex_value_def)

lemma sample_session_auth: "auth_of sample_session = Some (''12345678'', 42)"
  by (simp add: sample_session_def on_chunk_def onData_def new_session_def sample_feed handleImei_def sample_parse
      sample_replies_def sample_lookup drainPending_def drain_loop_nil Let_def metered_def act_def armTimer_def auth_of_def)


end
