(* ===== verification/SessionFlow.thy ===== *)
theory SessionFlow
  imports SessionProtocol
begin

text \<open>
  Flow control and timers of a TCP session: the paused-sockets gauge counts this session exactly when it
  is paused, a session that is not torn down always has a timer armed, and it is either reading its
  socket or has a poll scheduled that will let it read again.
\<close>

section \<open>No session is stuck\<close>

text \<open>During a handler nothing reads the socket. \<open>steady\<close> is the invariant between steps.\<close>

definition gauge_ok :: "session \<Rightarrow> bool" where
  "gauge_ok s \<longleftrightarrow> m_pausedSockets (se_metrics s) = (if se_paused s then 1 else 0)"

definition handling :: "session \<Rightarrow> bool" where
  "handling s \<longleftrightarrow> gauge_ok s \<and> \<not> se_flowing s \<and>
     (\<not> se_destroyed s \<longrightarrow> se_timer s \<noteq> None \<and> (se_paused s \<longrightarrow> se_polling s))"

definition steady :: "session \<Rightarrow> bool" where
  "steady s \<longleftrightarrow> gauge_ok s \<and> (se_flowing s \<longrightarrow> \<not> se_paused s) \<and>
     (\<not> se_destroyed s \<longrightarrow> se_timer s \<noteq> None \<and> (if se_paused s then se_polling s else se_flowing s))"

fun handles :: "handled \<Rightarrow> bool" where
  "handles (Inr s) = handling s"
| "handles (Inl s) = handling s"

lemma handles_bind: "handles r \<Longrightarrow> (\<And>s. handling s \<Longrightarrow> handles (f s)) \<Longrightarrow> handles (bindE r f)"
  by (cases r) auto

definition keeps_gauge :: "(ingest_metrics \<Rightarrow> ingest_metrics) \<Rightarrow> bool" where
  "keeps_gauge f \<longleftrightarrow> (\<forall>m. m_pausedSockets (f m) = m_pausedSockets m)"

lemma handling_act [simp]: "handling (act a s) = handling s"
  by (simp add: handling_def gauge_ok_def act_def)

lemma handling_armed: "handling s \<Longrightarrow> handling (armTimer ms s)"
  by (simp add: handling_def gauge_ok_def armTimer_def)

lemma handling_metered: "keeps_gauge f \<Longrightarrow> handling (metered f s) = handling s"
  by (simp add: handling_def gauge_ok_def metered_def keeps_gauge_def)

lemma handling_frame [simp]:
  "handling (s\<lparr>se_cache := c\<rparr>) = handling s" "handling (s\<lparr>se_ended := b\<rparr>) = handling s"
  "handling (s\<lparr>se_framer := fr\<rparr>) = handling s" "handling (record_sent sent s) = handling s"
  "handling (s\<lparr>se_imei := i, se_deviceId := d, se_shard := n, se_state := t\<rparr>) = handling s"
  by (simp_all add: handling_def gauge_ok_def record_sent_def)

lemma handling_gone: "handling s \<Longrightarrow> handling (s\<lparr>se_destroyed := True\<rparr>)"
  by (simp add: handling_def gauge_ok_def)

lemma handling_destroy: "handling s \<Longrightarrow> handling (destroy s)"
  by (auto simp: handling_def gauge_ok_def destroy_def releasePaused_def Let_def metered_def)

lemma handles_drain_loop: "handling s \<Longrightarrow> handles (drain_loop deps now n ds s)"
proof (induction n arbitrary: ds s)
  case 0
  then show ?case by simp
next
  case (Suc n)
  show ?case
  proof (cases ds)
    case Nil
    with Suc.prems show ?thesis by simp
  next
    case (Cons d ds')
    define s1 where "s1 = (if dr_gone d then s\<lparr>se_destroyed := True\<rparr> else s)"
    have s1: "handling s1" using Suc.prems handling_gone by (simp add: s1_def)
    with Suc.IH show ?thesis
      unfolding Cons drain_loop.simps Let_def s1_def [symmetric]
      by (auto split: sum.split option.split)
  qed
qed

lemma handles_drainPending: "handling s \<Longrightarrow> handles (drainPending deps rp s)"
  by (simp add: drainPending_def handles_drain_loop)

lemma handles_backpressure: "handling s \<Longrightarrow> handles (maybeBackpressure deps rp s)"
  by (auto simp: maybeBackpressure_def Let_def handling_def gauge_ok_def metered_def split: sum.split)

lemma handles_ack: "handling s \<Longrightarrow> handles (send_ack n s)"
  by (auto simp: send_ack_def split: sum.split)

lemmas handles_after_ack = handles_bind [OF handles_ack handles_bind [OF handles_backpressure handles_drainPending]]

lemma handles_imei: "handling s \<Longrightarrow> handles (handleImei deps rp fr s)"
  by (auto simp: handleImei_def Let_def handling_metered keeps_gauge_def
      intro!: handling_destroy handles_drainPending handling_armed split: sum.split parsed_packet.split option.split)

lemma persist_gauge: "persistAvlBatch exec t records config m now = (m', sent, r) \<Longrightarrow> m_pausedSockets m' = m_pausedSockets m"
  by (auto simp: persistAvlBatch_def Let_def case_prod_beta split: if_splits sum.splits)

lemma handles_avl: "handling s \<Longrightarrow> handles (handle_avl deps rp records s)"
proof -
  assume s: "handling s"
  have sent: "handling (record_sent sent (s\<lparr>se_metrics := m'\<rparr>))"
    if "persistAvlBatch (rp_exec rp) t records c (se_metrics s) now = (m', sent, r)" for t c now m' sent r
    using s persist_gauge [OF that] by (simp add: handling_def gauge_ok_def record_sent_def)
  have gone: "handling ((metered (\<lambda>m. m\<lparr>m_rejectedImeiTotal := m_rejectedImeiTotal m + 1\<rparr>) s)\<lparr>se_destroyed := True\<rparr>)"
    by (rule handling_gone) (simp add: handling_metered keeps_gauge_def s)
  show ?thesis
  proof (cases "registry_lookup (rp_hget rp (se_imei s))")
    case (Inl u)
    with s show ?thesis by (simp add: handle_avl_def)
  next
    case (Inr mapped)
    with gone show ?thesis
      using s sent
      by (cases "mapped = None \<or> mapped \<noteq> se_deviceId s")
        (auto simp: handle_avl_def Let_def intro!: handles_after_ack split: prod.split sum.split option.split)
  qed
qed

lemma handles_stream: "handling s \<Longrightarrow> handles (handleStreamFrame deps rp fr s)"
proof -
  assume "handling s"
  then have s: "handling (metered (\<lambda>m. m\<lparr>m_msgsTotal := m_msgsTotal m + 1\<rparr>) s)"
    by (simp add: handling_metered keeps_gauge_def)
  have corrupt: "handles (handle_corrupt s)" if "handling s" for s
    using that by (auto simp: handle_corrupt_def handling_metered keeps_gauge_def intro!: handles_ack)
  have undec: "handles (handle_undecodable deps rp fr n s)" if "handling s" for n s
    using that by (auto simp: handle_undecodable_def Let_def handling_metered keeps_gauge_def intro!: handles_after_ack split: sum.split)
  have resp: "handles (handle_response rp c t n s)" if "handling s" for c t n s
    using that by (auto simp: handle_response_def split: sum.split option.split)
  show ?thesis
    using s corrupt [OF s] undec [OF s] resp [OF s] handles_avl [OF s]
    by (auto simp: handleStreamFrame_def Let_def split: sum.split codec_error.split parsed_packet.split)
qed

lemma handles_frames: "handling s \<Longrightarrow> handles (frames_loop deps rps i fs s)"
proof (induction fs arbitrary: i s)
  case Nil
  then show ?case by simp
next
  case (Cons f fs)
  show ?case
    unfolding frames_loop.simps
    by (rule handles_bind) (use Cons handles_imei handles_stream in auto)
qed

lemma handles_onData: "handling s \<Longrightarrow> handles (onData deps rps chunk s)"
proof -
  assume s: "handling s"
  obtain fr r where feed: "feed (se_framer s) chunk = (fr, r)" by (cases "feed (se_framer s) chunk")
  have s0: "handling (s\<lparr>se_framer := fr\<rparr>)" using s by simp
  show ?thesis
  proof (cases r)
    case (Inl e)
    with s s0 feed show ?thesis
      by (cases e) (auto simp: onData_def handling_metered keeps_gauge_def intro!: handling_destroy)
  next
    case (Inr frames)
    with s feed show ?thesis
      using handles_bind [OF handles_frames [OF s0, of deps rps 0 frames]] handling_armed
      by (auto simp: onData_def)
  qed
qed

section \<open>Between steps\<close>

lemma steady_handling: "steady s \<Longrightarrow> handling (s\<lparr>se_flowing := False\<rparr>)"
  by (auto simp: steady_def handling_def gauge_ok_def split: if_splits)

lemma handling_steady: "handling s \<Longrightarrow> steady (if \<not> se_paused s \<and> \<not> se_destroyed s then s\<lparr>se_flowing := True\<rparr> else s)"
  by (auto simp: steady_def handling_def gauge_ok_def)

lemma steady_chunk: "steady s \<Longrightarrow> steady (on_chunk deps rps chunk s)"
proof -
  assume "steady s"
  then have "handles (onData deps rps chunk (s\<lparr>se_flowing := False\<rparr>))"
    by (intro handles_onData steady_handling)
  then show ?thesis
  proof (cases "onData deps rps chunk (s\<lparr>se_flowing := False\<rparr>)")
    case (Inl s1)
    assume "handles (onData deps rps chunk (s\<lparr>se_flowing := False\<rparr>))"
    with Inl have "handling (destroy (metered (\<lambda>m. m\<lparr>m_sessionErrorsTotal := m_sessionErrorsTotal m + 1\<rparr>) s1))"
      by (intro handling_destroy) (simp add: handling_metered keeps_gauge_def)
    from handling_steady [OF this] Inl show ?thesis by (simp add: on_chunk_def Let_def)
  next
    case (Inr s1)
    assume "handles (onData deps rps chunk (s\<lparr>se_flowing := False\<rparr>))"
    with Inr have "handling s1" by simp
    from handling_steady [OF this] Inr show ?thesis by (simp add: on_chunk_def Let_def)
  qed
qed

lemma steady_destroy: "steady s \<Longrightarrow> steady (destroy s)"
  by (auto simp: steady_def gauge_ok_def destroy_def releasePaused_def Let_def metered_def)

lemma steady_close: "steady s \<Longrightarrow> steady (releasePaused (s\<lparr>se_destroyed := True\<rparr>))"
  by (auto simp: steady_def gauge_ok_def releasePaused_def Let_def metered_def)

lemma steady_destroyed: "gauge_ok s \<Longrightarrow> (se_flowing s \<Longrightarrow> \<not> se_paused s) \<Longrightarrow> steady (destroy s)"
  by (cases "se_paused s") (simp_all add: steady_def gauge_ok_def destroy_def releasePaused_def metered_def)

lemma steady_poll:
  assumes "steady s"
  shows "steady (poll_tick deps rp gone s)"
proof -
  obtain depth c where dc: "(case shard_depth deps rp (s\<lparr>se_polling := False\<rparr>) of
      Inl u \<Rightarrow> (JInf False, se_cache (s\<lparr>se_polling := False\<rparr>)) | Inr dc \<Rightarrow> dc) = (depth, c)"
    by (metis surj_pair)
  have poll: "poll_tick deps rp gone s =
      (if se_destroyed s then s\<lparr>se_polling := False\<rparr>
       else let s1 = (if gone then destroy (s\<lparr>se_polling := False, se_cache := c\<rparr>) else s\<lparr>se_polling := False, se_cache := c\<rparr>) in
         if se_destroyed s1 \<or> \<not> se_paused s1 then s1
         else if js_at_most depth (pauseAboveDepth (sd_config deps))
         then metered (\<lambda>m. m\<lparr>m_pausedSockets := m_pausedSockets m - 1\<rparr>) (s1\<lparr>se_paused := False, se_flowing := True\<rparr>)
         else s1\<lparr>se_polling := True\<rparr>)"
    unfolding poll_tick_def Let_def dc by simp
  show ?thesis
  proof (cases "se_destroyed s \<or> gone")
    case True
    then consider "se_destroyed s" | "\<not> se_destroyed s" "gone" by blast
    then show ?thesis
    proof cases
      case 1
      with assms show ?thesis unfolding poll by (simp add: steady_def gauge_ok_def)
    next
      case 2
      have "steady (destroy (s\<lparr>se_polling := False, se_cache := c\<rparr>))"
        using assms by (intro steady_destroyed) (simp_all add: steady_def gauge_ok_def)
      with 2 show ?thesis unfolding poll by simp
    qed
  next
    case False
    then have d: "\<not> se_destroyed s" "\<not> gone" by simp_all
    show ?thesis
    proof (cases "se_paused s")
      case True
      with assms d show ?thesis unfolding poll by (simp add: Let_def steady_def gauge_ok_def metered_def)
    next
      case False
      with assms d show ?thesis unfolding poll by (simp add: Let_def steady_def gauge_ok_def)
    qed
  qed
qed

lemma steady_cache: "steady (s\<lparr>se_cache := c\<rparr>) = steady s"
  by (simp add: steady_def gauge_ok_def)

lemma steady_step: "sess_step deps s s' \<Longrightarrow> steady s \<Longrightarrow> steady s'"
  by (erule sess_stepE) (simp_all only: steady_chunk steady_destroy steady_close steady_poll steady_cache)

lemma steady_reach: "sess_reach deps s0 s \<Longrightarrow> steady s0 \<Longrightarrow> steady s"
  by (induction rule: sess_reach.induct) (auto intro: steady_step)

text \<open>C38. No session is stuck and the backpressure gauge does not drift. Between two events of any
  session's life: the gauge counts the session exactly when it is paused; a session that is not torn
  down has a timer armed (the handshake or the idle window), so an abandoned one ends; and it is either
  reading its socket or has a drain poll scheduled, never both paused and unpolled.\<close>

theorem session_never_stuck:
  assumes "sess_reach deps (new_session maxLen config cache metrics) s" and "m_pausedSockets metrics = 0"
  shows "m_pausedSockets (se_metrics s) = (if se_paused s then 1 else 0) \<and>
    (\<not> se_destroyed s \<longrightarrow> se_timer s \<noteq> None \<and> (if se_paused s then se_polling s \<and> \<not> se_flowing s else se_flowing s))"
proof -
  have "steady (new_session maxLen config cache metrics)"
    using assms(2) by (simp add: steady_def gauge_ok_def new_session_def)
  from steady_reach [OF assms(1) this] show ?thesis by (auto simp: steady_def gauge_ok_def)
qed

lemma sample_session_alive: "\<not> se_destroyed sample_session \<and> \<not> se_paused sample_session"
  by (simp add: sample_session_def on_chunk_def onData_def new_session_def sample_feed handleImei_def sample_parse
      sample_replies_def sample_lookup drainPending_def drain_loop_nil Let_def metered_def act_def armTimer_def)

theorem session_never_stuck_witness:
  "m_pausedSockets (se_metrics sample_session) = 0 \<and> se_timer sample_session \<noteq> None \<and> se_flowing sample_session"
  using session_never_stuck [OF sample_session_reach] sample_session_alive by (simp add: new_metrics_def)

end
