(* ===== verification/Admission.thy ===== *)
theory Admission
  imports Prelude
begin

text \<open>
  apps/ingest/src/limits.ts: the admission control of the ingest process. \<open>IpLimiter\<close> counts live
  connections per address, \<open>HandshakeRateLimiter\<close> keeps a two-bucket sliding minute per address in a
  map of bounded size, \<open>GlobalRateLimiter\<close> is a fixed one-second window. The clock is an argument
  (milliseconds); the estimate of the sliding window is an exact rational.

  The locale \<open>window_counter\<close> is what the two rate limiters have in common: a counter per clock window.
\<close>

lemma length_update_mem: "k \<in> fst ` set ps \<Longrightarrow> length (AList.update k v ps) = length ps"
  by (metis length_map map_fst_update_mem)

lemma filter_same_length: "length (filter P xs) = length xs \<Longrightarrow> filter P xs = xs"
  by (metis filter_id_conv length_filter_less less_irrefl)

section \<open>Live connections per address\<close>

record ip_limiter =
  il_max :: int
  il_counts :: "(string \<times> int) list"

definition activeFor :: "ip_limiter \<Rightarrow> string \<Rightarrow> int" where
  "activeFor l ip = (case map_of (il_counts l) ip of None \<Rightarrow> 0 | Some n \<Rightarrow> n)"

definition tryAcquire :: "string \<Rightarrow> ip_limiter \<Rightarrow> ip_limiter \<times> bool" where
  "tryAcquire ip l =
     (let current = activeFor l ip in
      if il_max l \<le> current then (l, False)
      else (l\<lparr>il_counts := AList.update ip (current + 1) (il_counts l)\<rparr>, True))"

definition release_ip :: "string \<Rightarrow> ip_limiter \<Rightarrow> ip_limiter" where
  "release_ip ip l =
     (let current = activeFor l ip in
      if current \<le> 1 then l\<lparr>il_counts := AList.delete ip (il_counts l)\<rparr>
      else l\<lparr>il_counts := AList.update ip (current - 1) (il_counts l)\<rparr>)"

lemma activeFor_acquire:
  "snd (tryAcquire ip l) \<Longrightarrow> activeFor (fst (tryAcquire ip l)) k = activeFor l k + (if k = ip then 1 else 0)"
  by (auto simp: tryAcquire_def activeFor_def Let_def update_conv' split: if_splits)

lemma acquire_refused: "\<not> snd (tryAcquire ip l) \<Longrightarrow> fst (tryAcquire ip l) = l"
  by (simp add: tryAcquire_def Let_def split: if_splits)

lemma acquire_below: "snd (tryAcquire ip l) \<longleftrightarrow> activeFor l ip < il_max l"
  by (auto simp: tryAcquire_def Let_def)

lemma il_max_const [simp]: "il_max (fst (tryAcquire ip l)) = il_max l" "il_max (release_ip ip l) = il_max l"
  by (simp_all add: tryAcquire_def release_ip_def Let_def)

lemma activeFor_release:
  "0 < activeFor l ip \<Longrightarrow> activeFor (release_ip ip l) k = activeFor l k - (if k = ip then 1 else 0)"
  by (auto simp: release_ip_def activeFor_def Let_def update_conv' delete_conv' split: option.splits)

section \<open>Handshakes per address and minute\<close>

record bucket =
  b_minute :: int
  b_cur :: int
  b_prev :: int

record handshake_limiter =
  hl_maxPerMinute :: int
  hl_maxTrackedIps :: nat
  hl_windows :: "(string \<times> bucket) list"

definition roll :: "int \<Rightarrow> bucket \<Rightarrow> bucket" where
  "roll minute b =
     (if b_minute b \<noteq> minute
      then \<lparr>b_minute = minute, b_cur = 0, b_prev = (if b_minute b = minute - 1 then b_cur b else 0)\<rparr>
      else b)"

definition estimate :: "int \<Rightarrow> bucket \<Rightarrow> rat" where
  "estimate t b = of_int (b_prev b) * (1 - of_int (t mod 60000) / 60000) + of_int (b_cur b)"

definition admit :: "int \<Rightarrow> int \<Rightarrow> bucket \<Rightarrow> bucket \<times> bool" where
  "admit maxPerMinute t b =
     (if of_int maxPerMinute \<le> estimate t b then (b, False) else (b\<lparr>b_cur := b_cur b + 1\<rparr>, True))"

definition allow_handshake :: "int \<Rightarrow> string \<Rightarrow> handshake_limiter \<Rightarrow> handshake_limiter \<times> bool" where
  "allow_handshake t ip l =
     (let minute = t div 60000 in
      case map_of (hl_windows l) ip of
        None \<Rightarrow>
          (if hl_maxTrackedIps l \<le> length (hl_windows l) then (l, False)
           else let (b, ok) = admit (hl_maxPerMinute l) t \<lparr>b_minute = minute, b_cur = 0, b_prev = 0\<rparr> in
             (l\<lparr>hl_windows := AList.update ip b (hl_windows l)\<rparr>, ok))
      | Some b0 \<Rightarrow>
          (let (b, ok) = admit (hl_maxPerMinute l) t (roll minute b0) in
             (l\<lparr>hl_windows := AList.update ip b (hl_windows l)\<rparr>, ok)))"

definition sweep_handshakes :: "int \<Rightarrow> handshake_limiter \<Rightarrow> handshake_limiter" where
  "sweep_handshakes t l =
     (let minute = t div 60000 in
      l\<lparr>hl_windows := filter (\<lambda>(ip, b). \<not> b_minute b < minute - 1) (hl_windows l)\<rparr>)"

section \<open>Datagrams per second\<close>

record global_limiter =
  gl_maxPerSecond :: int
  gl_windowSec :: int
  gl_count :: int

definition allow_global :: "int \<Rightarrow> global_limiter \<Rightarrow> global_limiter \<times> bool" where
  "allow_global t l =
     (let sec = t div 1000;
          l1 = (if sec \<noteq> gl_windowSec l then l\<lparr>gl_windowSec := sec, gl_count := 0\<rparr> else l) in
      if gl_maxPerSecond l1 \<le> gl_count l1 then (l1, False)
      else (l1\<lparr>gl_count := gl_count l1 + 1\<rparr>, True))"

section \<open>A counter per clock window\<close>

locale window_counter =
  fixes allow :: "'q \<Rightarrow> 's \<Rightarrow> 's \<times> bool"
    and mine :: "'q \<Rightarrow> bool"
    and counted :: "'s \<Rightarrow> int \<Rightarrow> int"
    and window :: "'q \<Rightarrow> int"
    and cap :: "'s \<Rightarrow> int"
    and wf :: "'s \<Rightarrow> bool"
  assumes wf_step: "wf s \<Longrightarrow> wf (fst (allow q s))"
    and cap_step: "cap (fst (allow q s)) = cap s"
    and admitted: "wf s \<Longrightarrow> mine q \<Longrightarrow> snd (allow q s) \<Longrightarrow>
      counted (fst (allow q s)) (window q) = counted s (window q) + 1 \<and> counted s (window q) < cap s"
    and otherwise: "wf s \<Longrightarrow> \<not> (mine q \<and> snd (allow q s)) \<Longrightarrow>
      counted s (window q) \<le> counted (fst (allow q s)) (window q)"
begin

fun admissions :: "'s \<Rightarrow> 'q list \<Rightarrow> nat" where
  "admissions s [] = 0"
| "admissions s (q # qs) = (if mine q \<and> snd (allow q s) then 1 else 0) + admissions (fst (allow q s)) qs"

lemma admissions_counted:
  "wf s \<Longrightarrow> \<forall>q \<in> set qs. window q = w \<Longrightarrow> int (admissions s qs) \<le> max 0 (cap s - counted s w)"
proof (induction qs arbitrary: s)
  case Nil
  then show ?case by simp
next
  case (Cons q qs)
  let ?s = "fst (allow q s)"
  from Cons.prems have w: "window q = w" and qs: "\<forall>q \<in> set qs. window q = w" by simp_all
  note IH = Cons.IH [OF wf_step [OF Cons.prems(1)] qs, unfolded cap_step]
  show ?case
  proof (cases "mine q \<and> snd (allow q s)")
    case True
    with admitted [OF Cons.prems(1), of q] w IH [of q] show ?thesis by auto
  next
    case False
    with otherwise [OF Cons.prems(1), of q] w IH [of q] show ?thesis by auto
  qed
qed

lemma admissions_bound:
  assumes "wf s" and "\<forall>q \<in> set qs. window q = w" and "0 \<le> counted s w"
  shows "int (admissions s qs) \<le> max 0 (cap s)"
  using admissions_counted [OF assms(1,2)] assms(3) by linarith

end

definition hl_counted :: "string \<Rightarrow> handshake_limiter \<Rightarrow> int \<Rightarrow> int" where
  "hl_counted ip l w = (case map_of (hl_windows l) ip of Some b \<Rightarrow> (if b_minute b = w then b_cur b else 0) | None \<Rightarrow> 0)"

definition bucket_ok :: "bucket \<Rightarrow> bool" where
  "bucket_ok b \<longleftrightarrow> 0 \<le> b_cur b \<and> 0 \<le> b_prev b"

definition hl_ok :: "handshake_limiter \<Rightarrow> bool" where
  "hl_ok l \<longleftrightarrow> distinct (map fst (hl_windows l)) \<and> (\<forall>ip b. map_of (hl_windows l) ip = Some b \<longrightarrow> bucket_ok b)"

lemma estimate_cur: "bucket_ok b \<Longrightarrow> of_int (b_cur b) \<le> estimate t b"
proof -
  assume b: "bucket_ok b"
  have "t mod 60000 \<le> 60000" using pos_mod_bound [of 60000 t] by linarith
  then have "(of_int (t mod 60000) :: rat) \<le> of_int 60000" by (rule of_int_le_iff [THEN iffD2])
  then have "(0 :: rat) \<le> of_int (b_prev b) * (1 - of_int (t mod 60000) / 60000)"
    using b by (intro mult_nonneg_nonneg) (simp_all add: bucket_ok_def)
  then show ?thesis by (simp add: estimate_def)
qed

lemma admit_ok: "bucket_ok b \<Longrightarrow> bucket_ok (fst (admit m t b)) \<and> b_minute (fst (admit m t b)) = b_minute b \<and>
    b_cur (fst (admit m t b)) = b_cur b + (if snd (admit m t b) then 1 else 0) \<and>
    (snd (admit m t b) \<longrightarrow> b_cur b < m)"
proof -
  assume b: "bucket_ok b"
  have "b_cur b < m" if "\<not> (of_int m :: rat) \<le> estimate t b"
  proof -
    from that estimate_cur [OF b, of t] have "(of_int (b_cur b) :: rat) < of_int m" by linarith
    then show ?thesis by simp
  qed
  then show ?thesis using b by (auto simp: admit_def bucket_ok_def)
qed

lemma roll_ok: "bucket_ok b \<Longrightarrow> bucket_ok (roll m b) \<and> b_minute (roll m b) = m \<and>
    b_cur (roll m b) = (if b_minute b = m then b_cur b else 0)"
  by (auto simp: roll_def bucket_ok_def)

text \<open>The bucket a query works on: the stored one brought up to date, or a new one.\<close>

definition current_bucket :: "int \<Rightarrow> string \<Rightarrow> handshake_limiter \<Rightarrow> bucket" where
  "current_bucket t ip l =
     (case map_of (hl_windows l) ip of None \<Rightarrow> \<lparr>b_minute = t div 60000, b_cur = 0, b_prev = 0\<rparr>
      | Some b \<Rightarrow> roll (t div 60000) b)"

definition full_for :: "string \<Rightarrow> handshake_limiter \<Rightarrow> bool" where
  "full_for ip l \<longleftrightarrow> map_of (hl_windows l) ip = None \<and> hl_maxTrackedIps l \<le> length (hl_windows l)"

lemma allow_handshake_eq:
  "allow_handshake t ip l =
     (if full_for ip l then (l, False)
      else (l\<lparr>hl_windows := AList.update ip (fst (admit (hl_maxPerMinute l) t (current_bucket t ip l))) (hl_windows l)\<rparr>,
            snd (admit (hl_maxPerMinute l) t (current_bucket t ip l))))"
  by (auto simp: allow_handshake_def full_for_def current_bucket_def Let_def case_prod_beta split: option.splits)

lemma current_bucket_ok: "hl_ok l \<Longrightarrow> bucket_ok (current_bucket t ip l) \<and>
    b_minute (current_bucket t ip l) = t div 60000 \<and> b_cur (current_bucket t ip l) = hl_counted ip l (t div 60000)"
  using roll_ok by (auto simp: current_bucket_def hl_ok_def hl_counted_def bucket_ok_def split: option.split)

lemma hl_ok_allow: "hl_ok l \<Longrightarrow> hl_ok (fst (allow_handshake t ip l))"
proof -
  assume l: "hl_ok l"
  note b = admit_ok [OF current_bucket_ok [OF l, THEN conjunct1], THEN conjunct1]
  show ?thesis
  proof (cases "full_for ip l")
    case True
    with l show ?thesis by (simp add: allow_handshake_eq)
  next
    case False
    with l b show ?thesis
      by (simp add: allow_handshake_eq hl_ok_def update_conv' distinct_update)
  qed
qed

interpretation handshakes: window_counter "\<lambda>q. allow_handshake (fst q) (snd q)" "\<lambda>q. snd q = ip" "hl_counted ip"
    "\<lambda>q. fst q div 60000" hl_maxPerMinute hl_ok for ip
proof (unfold_locales, goal_cases)
  case (1 s q)
  then show ?case by (rule hl_ok_allow)
next
  case (2 q s)
  then show ?case by (cases q) (simp add: allow_handshake_eq)
next
  case (3 s q)
  obtain t k where q: "q = (t, k)" by (cases q)
  note c = current_bucket_ok [OF 3(1), of t ip]
  from 3 q admit_ok [OF c [THEN conjunct1], of "hl_maxPerMinute s" t] c show ?case
    by (auto simp: allow_handshake_eq hl_counted_def update_conv' split: if_splits)
next
  case (4 s q)
  obtain t k where q: "q = (t, k)" by (cases q)
  note c = current_bucket_ok [OF 4(1), of t ip]
  from 4 q admit_ok [OF c [THEN conjunct1], of "hl_maxPerMinute s" t] c show ?case
    by (auto simp: allow_handshake_eq hl_counted_def update_conv' split: if_splits)
qed

definition gl_counted :: "global_limiter \<Rightarrow> int \<Rightarrow> int" where
  "gl_counted l w = (if gl_windowSec l = w then gl_count l else 0)"

interpretation datagrams: window_counter allow_global "\<lambda>t. True" gl_counted "\<lambda>t. t div 1000" gl_maxPerSecond "\<lambda>l. 0 \<le> gl_count l"
  by unfold_locales (auto simp: allow_global_def gl_counted_def Let_def split: if_splits)

section \<open>The limits\<close>

text \<open>How many of a sequence of requests (time, address) are granted to one address.\<close>

fun handshake_grants :: "string \<Rightarrow> handshake_limiter \<Rightarrow> (int \<times> string) list \<Rightarrow> nat" where
  "handshake_grants ip l [] = 0"
| "handshake_grants ip l ((t, k) # qs) =
     (let (l1, ok) = allow_handshake t k l in (if k = ip \<and> ok then 1 else 0) + handshake_grants ip l1 qs)"

fun datagram_grants :: "global_limiter \<Rightarrow> int list \<Rightarrow> nat" where
  "datagram_grants l [] = 0"
| "datagram_grants l (t # ts) = (let (l1, ok) = allow_global t l in (if ok then 1 else 0) + datagram_grants l1 ts)"

lemma handshake_grants_admissions: "handshake_grants ip l qs = handshakes.admissions ip l qs"
  by (induction qs arbitrary: l) (simp, case_tac a, simp add: Let_def case_prod_beta)

lemma datagram_grants_admissions: "datagram_grants l ts = datagrams.admissions l ts"
  by (induction ts arbitrary: l) (simp_all add: Let_def case_prod_beta)

text \<open>The limits are limits. Whatever the history, the handshakes granted to one address in one
  clock minute never exceed the configured maximum, however the requests of other addresses are mixed
  in, and the datagrams accepted in one second never exceed the global ceiling.\<close>

theorem rate_limits_hold:
  assumes "hl_ok l" and "\<forall>q \<in> set qs. fst q div 60000 = m" and "0 \<le> gl_count g" and "\<forall>t \<in> set ts. t div 1000 = s"
    and "0 \<le> hl_maxPerMinute l" and "0 \<le> gl_maxPerSecond g"
  shows "int (handshake_grants ip l qs) \<le> hl_maxPerMinute l \<and> int (datagram_grants g ts) \<le> gl_maxPerSecond g"
proof -
  have "0 \<le> hl_counted ip l m"
    using assms(1) by (auto simp: hl_counted_def hl_ok_def bucket_ok_def split: option.split)
  then have "int (handshake_grants ip l qs) \<le> max 0 (hl_maxPerMinute l)"
    unfolding handshake_grants_admissions using handshakes.admissions_bound [OF assms(1,2)] by simp
  moreover have "int (datagram_grants g ts) \<le> max 0 (gl_maxPerSecond g)"
    unfolding datagram_grants_admissions using datagrams.admissions_bound [OF assms(3,4)] assms(3)
    by (simp add: gl_counted_def)
  ultimately show ?thesis using assms(5,6) by simp
qed

theorem rate_limits_hold_witness:
  "int (handshake_grants ''a'' \<lparr>hl_maxPerMinute = 1, hl_maxTrackedIps = 9, hl_windows = []\<rparr> [(5, ''a''), (6, ''b''), (7, ''a'')]) \<le> 1 \<and>
   int (datagram_grants \<lparr>gl_maxPerSecond = 1, gl_windowSec = 0, gl_count = 0\<rparr> [1, 2]) \<le> 1"
  using rate_limits_hold [of "\<lparr>hl_maxPerMinute = 1, hl_maxTrackedIps = 9, hl_windows = []\<rparr>" "[(5, ''a''), (6, ''b''), (7, ''a'')]" 0
      "\<lparr>gl_maxPerSecond = 1, gl_windowSec = 0, gl_count = 0\<rparr>" "[1, 2]" 0 "''a''"]
  by (simp add: hl_ok_def)

section \<open>Sweeping\<close>

lemma map_of_sweep:
  "distinct (map fst ws) \<Longrightarrow> map_of (filter (\<lambda>(ip, b). P b) ws) ip =
     (case map_of ws ip of Some b \<Rightarrow> (if P b then Some b else None) | None \<Rightarrow> None)"
proof (induction ws)
  case Nil
  then show ?case by simp
next
  case (Cons w ws)
  obtain k b where w: "w = (k, b)" by (cases w)
  from Cons.prems w have "map_of ws k = None" by (simp add: map_of_eq_None_iff)
  with Cons w show ?case by auto
qed

lemma stale_bucket_rolls_fresh: "b_minute b < m - 1 \<Longrightarrow> roll m b = \<lparr>b_minute = m, b_cur = 0, b_prev = 0\<rparr>"
  by (simp add: roll_def)

lemma current_bucket_sweep:
  assumes "hl_ok l" and "t0 \<le> t"
  shows "current_bucket t ip (sweep_handshakes t0 l) = current_bucket t ip l"
proof (cases "map_of (hl_windows l) ip")
  case None
  with assms(1) show ?thesis by (simp add: current_bucket_def sweep_handshakes_def Let_def map_of_sweep hl_ok_def)
next
  case (Some b)
  have "t0 div 60000 \<le> t div 60000" using assms(2) by (rule zdiv_mono1) simp
  then have "b_minute b < t0 div 60000 - 1 \<Longrightarrow> roll (t div 60000) b = \<lparr>b_minute = t div 60000, b_cur = 0, b_prev = 0\<rparr>"
    by (intro stale_bucket_rolls_fresh) linarith
  with Some assms(1) show ?thesis
    by (simp add: current_bucket_def sweep_handshakes_def Let_def map_of_sweep hl_ok_def)
qed

lemma full_for_room: "length (hl_windows l) < hl_maxTrackedIps l \<Longrightarrow> \<not> full_for ip l"
  by (simp add: full_for_def)

lemma sweep_length: "length (hl_windows (sweep_handshakes t l)) \<le> length (hl_windows l)"
  by (simp add: sweep_handshakes_def Let_def)

text \<open>The memory of the handshake limiter is bounded at no cost. A request never makes the map of
  addresses grow past its cap; a full map refuses only unknown addresses; and the periodic sweep never
  turns a granted request into a refused one, nor, for a known address or while the map has room, a
  refused one into a granted one: the buckets it drops say nothing about the trailing minute.\<close>

theorem sweep_changes_no_decision:
  assumes "hl_ok l" and "t0 \<le> t" and "length (hl_windows l) \<le> hl_maxTrackedIps l"
  shows "length (hl_windows (fst (allow_handshake t ip l))) \<le> hl_maxTrackedIps l \<and>
    (map_of (hl_windows l) ip \<noteq> None \<longrightarrow>
       snd (allow_handshake t ip l) = snd (admit (hl_maxPerMinute l) t (current_bucket t ip l))) \<and>
    (length (hl_windows l) < hl_maxTrackedIps l \<or> map_of (hl_windows l) ip \<noteq> None \<longrightarrow>
       snd (allow_handshake t ip (sweep_handshakes t0 l)) = snd (allow_handshake t ip l)) \<and>
    (map_of (hl_windows l) ip = None \<longrightarrow> snd (allow_handshake t ip l) \<longrightarrow> snd (allow_handshake t ip (sweep_handshakes t0 l)))"
proof -
  have m [simp]: "hl_maxPerMinute (sweep_handshakes t0 l) = hl_maxPerMinute l"
    "hl_maxTrackedIps (sweep_handshakes t0 l) = hl_maxTrackedIps l"
    by (simp_all add: sweep_handshakes_def Let_def)
  note [simp] = current_bucket_sweep [OF assms(1,2)]
  have len: "length (AList.update ip b (hl_windows l)) \<le> hl_maxTrackedIps l" if "\<not> full_for ip l" for b
    using that assms(3) by (cases "ip \<in> fst ` set (hl_windows l)")
      (auto simp: full_for_def map_of_eq_None_iff length_update_mem map_fst_update_new)
  have tracked: "\<not> full_for ip (sweep_handshakes t0 l)" if "map_of (hl_windows l) ip = Some b" for b
  proof (cases "length (hl_windows (sweep_handshakes t0 l)) = length (hl_windows l)")
    case True
    then have "filter (\<lambda>(ip, b). \<not> b_minute b < t0 div 60000 - 1) (hl_windows l) = hl_windows l"
      unfolding sweep_handshakes_def Let_def by (simp add: filter_same_length)
    with that show ?thesis by (simp add: full_for_def sweep_handshakes_def Let_def)
  next
    case False
    with sweep_length [of t0 l] assms(3) show ?thesis by (simp add: full_for_def)
  qed
  have keep: "\<not> full_for ip (sweep_handshakes t0 l)" if "\<not> full_for ip l"
    using that tracked sweep_length [of t0 l] by (cases "map_of (hl_windows l) ip") (auto simp: full_for_def)
  have "\<not> full_for ip l" if "map_of (hl_windows l) ip = Some b" for b
    using that by (simp add: full_for_def)
  then show ?thesis
    using len keep assms(3) full_for_room [of l ip] by (auto simp: allow_handshake_eq)
qed

theorem sweep_changes_no_decision_witness:
  "snd (allow_handshake 200000 ''a'' (sweep_handshakes 180000
      \<lparr>hl_maxPerMinute = 1, hl_maxTrackedIps = 2, hl_windows = [(''a'', \<lparr>b_minute = 0, b_cur = 1, b_prev = 0\<rparr>)]\<rparr>)) =
   snd (allow_handshake 200000 ''a''
      \<lparr>hl_maxPerMinute = 1, hl_maxTrackedIps = 2, hl_windows = [(''a'', \<lparr>b_minute = 0, b_cur = 1, b_prev = 0\<rparr>)]\<rparr>)"
  using sweep_changes_no_decision [of "\<lparr>hl_maxPerMinute = 1, hl_maxTrackedIps = 2, hl_windows = [(''a'', \<lparr>b_minute = 0, b_cur = 1, b_prev = 0\<rparr>)]\<rparr>"
      180000 200000 "''a''"]
  by (simp add: hl_ok_def bucket_ok_def)

end
