(* ===== verification/Udp.thy ===== *)
theory Udp
  imports SessionProtocol Admission
begin

text \<open>
  apps/ingest/src/udp.ts: the connectionless listener. Each datagram is handled alone; the state is the
  two rate limiters, the number of handlers in flight, the depth cache and the counters. The replies of
  Redis and the clock are arguments as in the TCP session, and what is written is appended to a trace.
\<close>

datatype udp_action =
    UStored xadd bool
  | UParked xadd nat
  | UQuarantined "quarantine_cmd list"
  | USend bytes

record udp_server =
  us_global :: global_limiter
  us_perIp :: handshake_limiter
  us_inFlight :: nat
  us_cache :: depth_cache
  us_metrics :: ingest_metrics
  us_trace :: "udp_action list"

type_synonym udp_handled = "udp_server + udp_server"

definition uact :: "udp_action \<Rightarrow> udp_server \<Rightarrow> udp_server" where
  "uact a s = s\<lparr>us_trace := us_trace s @ [a]\<rparr>"

definition umetered :: "(ingest_metrics \<Rightarrow> ingest_metrics) \<Rightarrow> udp_server \<Rightarrow> udp_server" where
  "umetered f s = s\<lparr>us_metrics := f (us_metrics s)\<rparr>"

definition udp_admit :: "int \<Rightarrow> string \<Rightarrow> udp_server \<Rightarrow> udp_server \<times> bool" where
  "udp_admit t ip s =
     (let (g, ok) = allow_global t (us_global s) in
      if \<not> ok then (s\<lparr>us_global := g\<rparr>, False)
      else let (p, ok2) = allow_handshake t ip (us_perIp s) in (s\<lparr>us_global := g, us_perIp := p\<rparr>, ok2))"

definition udp_persist ::
  "session_deps \<Rightarrow> replies \<Rightarrow> udp_header \<Rightarrow> int \<Rightarrow> avl_record list \<Rightarrow> udp_server \<Rightarrow> udp_handled" where
  "udp_persist deps rp h dev records s =
     (let shard = decimal_nat (udp_imei h) mod SHARD_COUNT in
      case getCachedShardDepth (us_cache s) shard (rp_now rp) False (depthCacheMs (sd_config deps))
             (shardBacklog (rp_xinfo rp) (rp_xlen rp)) of
        Inl u \<Rightarrow> Inl s
      | Inr (depth, cache) \<Rightarrow>
          let s1 = s\<lparr>us_cache := cache\<rparr> in
          if js_above depth (pauseAboveDepth (sd_config deps))
          then Inr (umetered (\<lambda>m. m\<lparr>m_udpBackpressureDropsTotal := m_udpBackpressureDropsTotal m + 1\<rparr>) s1)
          else let (m, sent, r) = persistAvlBatch (rp_exec rp) \<lparr>pt_deviceId = dev, pt_imei = udp_imei h, pt_shard = shard\<rparr>
                     records (sd_config deps) (us_metrics s1) (rp_now rp);
                   s2 = s1\<lparr>us_metrics := m, us_trace := us_trace s1 @ map (\<lambda>(x, ok). UStored x ok) sent\<rparr> in
            case r of
              Inl u \<Rightarrow> Inl s2
            | Inr persisted \<Rightarrow> Inr (uact (USend (encodeUdpAck (packetId h) (avlPacketId h) persisted)) s2))"

definition udp_undecodable :: "replies \<Rightarrow> udp_header \<Rightarrow> nat \<Rightarrow> udp_server \<Rightarrow> udp_handled" where
  "udp_undecodable rp h declared s =
     (let s1 = umetered (\<lambda>m. m\<lparr>m_parseFailTotal := m_parseFailTotal m + 1\<rparr>) s in
      case rp_park rp of
        Inl u \<Rightarrow> Inl s1
      | Inr _ \<Rightarrow>
          Inr (uact (USend (encodeUdpAck (packetId h) (avlPacketId h) declared))
                (umetered (\<lambda>m. m\<lparr>m_unsupportedCodecTotal := m_unsupportedCodecTotal m + 1,
                      m_ackedRecordsTotal := m_ackedRecordsTotal m + declared\<rparr>)
                  (uact (UParked (parkUndecodableFrame (udp_imei h) (avlData h) (rp_now rp) ''undecodable-records'') declared) s1))))"

definition udp_body :: "session_deps \<Rightarrow> replies \<Rightarrow> udp_header \<Rightarrow> int \<Rightarrow> udp_server \<Rightarrow> udp_handled" where
  "udp_body deps rp h dev s =
     (let ack0 = uact (USend (encodeUdpAck (packetId h) (avlPacketId h) 0)) in
      case parseUdpAvl (sd_lib deps) (avlData h) of
        Inl (UndecodableRecordsError declared) \<Rightarrow> udp_undecodable rp h declared s
      | Inl FrameError \<Rightarrow> Inr (ack0 (umetered (\<lambda>m. m\<lparr>m_frameViolationsTotal := m_frameViolationsTotal m + 1\<rparr>) s))
      | Inl CrcError \<Rightarrow> Inr (ack0 (umetered (\<lambda>m. m\<lparr>m_parseFailTotal := m_parseFailTotal m + 1\<rparr>) s))
      | Inl RangeError \<Rightarrow> Inl s
      | Inr (PAvl codec records) \<Rightarrow> udp_persist deps rp h dev records s
      | Inr _ \<Rightarrow> Inr (ack0 s))"

definition udp_handle :: "session_deps \<Rightarrow> replies \<Rightarrow> string \<Rightarrow> bytes \<Rightarrow> udp_server \<Rightarrow> udp_handled" where
  "udp_handle deps rp ip datagram s0 =
     (let (s1, ok) = udp_admit (rp_now rp) ip s0 in
      if \<not> ok then Inr (umetered (\<lambda>m. m\<lparr>m_udpRateLimitedTotal := m_udpRateLimitedTotal m + 1\<rparr>) s1)
      else let s = umetered (\<lambda>m. m\<lparr>m_udpDatagramsTotal := m_udpDatagramsTotal m + 1, m_msgsTotal := m_msgsTotal m + 1\<rparr>) s1 in
        case decodeUdpHeader datagram of
          Inl RangeError \<Rightarrow> Inl s
        | Inl CrcError \<Rightarrow> Inl s
        | Inl e \<Rightarrow> Inr (umetered (\<lambda>m. m\<lparr>m_frameViolationsTotal := m_frameViolationsTotal m + 1\<rparr>) s)
        | Inr h \<Rightarrow>
            (case registry_lookup (rp_hget rp (udp_imei h)) of
               Inl u \<Rightarrow> Inl s
             | Inr None \<Rightarrow>
                 (let s2 = umetered (\<lambda>m. m\<lparr>m_rejectedImeiTotal := m_rejectedImeiTotal m + 1\<rparr>) s in
                  case quarantine_count False (rp_quarantine rp) of
                    Inl u \<Rightarrow> Inl s2
                  | Inr _ \<Rightarrow> Inr (uact (UQuarantined (quarantine_cmds (udp_imei h) (rp_now rp) False)) s2))
             | Inr (Some dev) \<Rightarrow> udp_body deps rp h dev s))"

text \<open>The message event: admitted while fewer than \<open>maxInFlight\<close> handlers are pending, settled later.\<close>

definition udp_receive :: "nat \<Rightarrow> udp_server \<Rightarrow> udp_server \<times> bool" where
  "udp_receive maxInFlight s =
     (if maxInFlight \<le> us_inFlight s
      then (umetered (\<lambda>m. m\<lparr>m_udpInflightDropsTotal := m_udpInflightDropsTotal m + 1\<rparr>) s, False)
      else (s\<lparr>us_inFlight := us_inFlight s + 1\<rparr>, True))"

definition udp_settle :: "udp_handled \<Rightarrow> udp_server" where
  "udp_settle r =
     (let s = (case r of Inr s \<Rightarrow> s | Inl s \<Rightarrow> umetered (\<lambda>m. m\<lparr>m_sessionErrorsTotal := m_sessionErrorsTotal m + 1\<rparr>) s) in
      s\<lparr>us_inFlight := us_inFlight s - 1\<rparr>)"

section \<open>One datagram, at most one acknowledgement\<close>

text \<open>The records a datagram's trace accounts for: accepted by the store, or declared by a parked frame.\<close>

fun udp_covered :: "udp_action list \<Rightarrow> nat" where
  "udp_covered [] = 0"
| "udp_covered (a # as) = (case a of UStored x ok \<Rightarrow> (if ok then 1 else 0) | UParked x n \<Rightarrow> n | _ \<Rightarrow> 0) + udp_covered as"

definition udp_belongs :: "string \<Rightarrow> int \<Rightarrow> udp_action \<Rightarrow> bool" where
  "udp_belongs imei dev a =
     (case a of
        UStored (XRaw s p) ok \<Rightarrow> s = decimal_nat imei mod 16 \<and> p_imei p = imei \<and> p_deviceId p = dev
      | UStored (XRejects i t rw w) ok \<Rightarrow> i = imei
      | UParked (XUnsupported i t rw r) n \<Rightarrow> i = imei
      | _ \<Rightarrow> False)"

text \<open>What a handled datagram may append: nothing, a quarantine entry, or stores of an authorized device
  followed by one acknowledgement that echoes the datagram's ids and counts exactly those stores.\<close>

definition udp_segment :: "replies \<Rightarrow> bytes \<Rightarrow> udp_action list \<Rightarrow> bool" where
  "udp_segment rp datagram seg \<longleftrightarrow>
     seg = [] \<or> (\<exists>q. seg = [UQuarantined q]) \<or>
     (\<exists>h dev st. decodeUdpHeader datagram = Inr h \<and> registry_lookup (rp_hget rp (udp_imei h)) = Inr (Some dev) \<and>
        (\<forall>a \<in> set st. udp_belongs (udp_imei h) dev a) \<and>
        seg = st @ [USend (encodeUdpAck (packetId h) (avlPacketId h) (udp_covered st))])"

lemma udp_covered_stored: "udp_covered (map (\<lambda>(x, ok). UStored x ok) sent) = length (filter snd sent)"
  by (induction sent) auto

lemma udp_admit_trace [simp]: "us_trace (fst (udp_admit t ip s)) = us_trace s"
  by (simp add: udp_admit_def Let_def case_prod_beta)

lemma umetered_trace [simp]: "us_trace (umetered f s) = us_trace s" "us_cache (umetered f s) = us_cache s"
  by (simp_all add: umetered_def)

lemma uact_trace [simp]: "us_trace (uact a s) = us_trace s @ [a]"
  by (simp add: uact_def)

lemma udp_sent_belong:
  assumes "persistAvlBatch exec \<lparr>pt_deviceId = dev, pt_imei = imei, pt_shard = decimal_nat imei mod 16\<rparr> records config m now = (m', sent, r)"
    and "a \<in> set (map (\<lambda>(x, ok). UStored x ok) sent)"
  shows "udp_belongs imei dev a"
proof -
  from assms(2) obtain x ok where a: "a = UStored x ok" "(x, ok) \<in> set sent" by auto
  then have "x \<in> set (batch_cmds \<lparr>pt_deviceId = dev, pt_imei = imei, pt_shard = decimal_nat imei mod 16\<rparr> config now records)"
    using assms(1) by (auto simp: persistAvlBatch_def Let_def case_prod_beta dest: set_zip_leftD split: if_splits sum.splits)
  with a show ?thesis by (auto simp: batch_cmds_def case_prod_beta udp_belongs_def payload_of_def)
qed

lemma udp_ack_segment:
  assumes "decodeUdpHeader datagram = Inr h" and "registry_lookup (rp_hget rp (udp_imei h)) = Inr (Some dev)"
    and "\<forall>a \<in> set st. udp_belongs (udp_imei h) dev a" and "n = udp_covered st"
  shows "udp_segment rp datagram (st @ [USend (encodeUdpAck (packetId h) (avlPacketId h) n)])"
  using assms unfolding udp_segment_def by blast

lemma udp_persist_segment:
  assumes h: "decodeUdpHeader datagram = Inr h" "registry_lookup (rp_hget rp (udp_imei h)) = Inr (Some dev)"
    and ok: "pipeline_ok (rp_exec rp)" and r: "udp_persist deps rp h dev records s = Inr s'"
  shows "\<exists>seg. us_trace s' = us_trace s @ seg \<and> udp_segment rp datagram seg"
proof -
  let ?t = "\<lparr>pt_deviceId = dev, pt_imei = udp_imei h, pt_shard = decimal_nat (udp_imei h) mod 16\<rparr>"
  from r obtain depth cache where c: "getCachedShardDepth (us_cache s) (decimal_nat (udp_imei h) mod SHARD_COUNT) (rp_now rp) False
      (depthCacheMs (sd_config deps)) (shardBacklog (rp_xinfo rp) (rp_xlen rp)) = Inr (depth, cache)"
    by (auto simp: udp_persist_def Let_def split: sum.splits)
  obtain m sent q where p: "persistAvlBatch (rp_exec rp) ?t records (sd_config deps) (us_metrics s) (rp_now rp) = (m, sent, q)"
    by (metis prod_cases3)
  show ?thesis
  proof (cases "js_above depth (pauseAboveDepth (sd_config deps))")
    case True
    with r c have "us_trace s' = us_trace s" by (auto simp: udp_persist_def Let_def)
    then show ?thesis by (auto simp: udp_segment_def)
  next
    case False
    with r c p obtain n where n: "q = Inr n"
      and t: "us_trace s' = us_trace s @ map (\<lambda>(x, ok). UStored x ok) sent @ [USend (encodeUdpAck (packetId h) (avlPacketId h) n)]"
      by (auto simp: udp_persist_def Let_def SHARD_COUNT_def split: sum.splits)
    have "udp_segment rp datagram (map (\<lambda>(x, ok). UStored x ok) sent @ [USend (encodeUdpAck (packetId h) (avlPacketId h) n)])"
      using udp_sent_belong [OF p] persist_counts(1) [OF ok p [unfolded n]]
      by (intro udp_ack_segment [OF h]) (auto simp: udp_covered_stored)
    with t show ?thesis by blast
  qed
qed

lemma udp_body_segment:
  assumes h: "decodeUdpHeader datagram = Inr h" "registry_lookup (rp_hget rp (udp_imei h)) = Inr (Some dev)"
    and ok: "pipeline_ok (rp_exec rp)" and r: "udp_body deps rp h dev s = Inr s'"
  shows "\<exists>seg. us_trace s' = us_trace s @ seg \<and> udp_segment rp datagram seg"
proof -
  have ack0: "udp_segment rp datagram [USend (encodeUdpAck (packetId h) (avlPacketId h) 0)]"
    using udp_ack_segment [OF h, of "[]" 0] by simp
  have park: "udp_segment rp datagram [UParked (parkUndecodableFrame (udp_imei h) (avlData h) now rs) n,
      USend (encodeUdpAck (packetId h) (avlPacketId h) n)]" for now rs n
    using udp_ack_segment [OF h, of "[UParked (parkUndecodableFrame (udp_imei h) (avlData h) now rs) n]" n]
    by (simp add: udp_belongs_def parkUndecodableFrame_def)
  show ?thesis
    using r ack0 park udp_persist_segment [OF h ok]
    by (auto simp: udp_body_def udp_undecodable_def Let_def split: sum.splits codec_error.splits parsed_packet.splits)
qed

text \<open>A datagram is acknowledged for exactly what it stored. Whatever arrives, handling one datagram
  appends nothing, or a quarantine entry, or stores of the registered device under its own IMEI, id and
  shard followed by one reply that echoes the datagram's two ids and counts those stores (a frame our
  decoder cannot read is parked and counts the records it declares): nothing is acknowledged for an
  unknown device, a rate-limited or shed datagram, or one whose handling failed before storing.\<close>

theorem udp_acks_what_it_stores:
  assumes "pipeline_ok (rp_exec rp)" and "udp_handle deps rp ip datagram s = Inr s'"
  shows "\<exists>seg. us_trace s' = us_trace s @ seg \<and> udp_segment rp datagram seg"
proof -
  obtain s1 ok where a: "udp_admit (rp_now rp) ip s = (s1, ok)" by (cases "udp_admit (rp_now rp) ip s")
  then have t: "us_trace s1 = us_trace s" using udp_admit_trace [of "rp_now rp" ip s] by simp
  have none: "udp_segment rp datagram []" "udp_segment rp datagram [UQuarantined q]" for q
    by (simp_all add: udp_segment_def)
  show ?thesis
  proof (cases ok)
    case False
    with assms(2) a t none show ?thesis by (auto simp: udp_handle_def)
  next
    case True
    with assms(2) a t none udp_body_segment [OF _ _ assms(1)] show ?thesis
      by (auto simp: udp_handle_def Let_def split: sum.splits codec_error.splits option.splits) fastforce+
  qed
qed

definition sample_datagram :: bytes where
  "sample_datagram = [0, 14, 0, 1, 1, 2, 0, 8] @ map (\<lambda>n. of_nat (48 + n)) [1, 2, 3, 4, 5, 6, 7, 8]"

definition sample_udp :: udp_server where
  "sample_udp = \<lparr>us_global = \<lparr>gl_maxPerSecond = 9, gl_windowSec = 0, gl_count = 0\<rparr>,
     us_perIp = \<lparr>hl_maxPerMinute = 9, hl_maxTrackedIps = 9, hl_windows = []\<rparr>, us_inFlight = 1, us_cache = [],
     us_metrics = new_metrics, us_trace = []\<rparr>"

lemma sample_header: "decodeUdpHeader sample_datagram =
    Inr \<lparr>packetId = 1, avlPacketId = 2, udp_imei = ''12345678'', avlData = []\<rparr>"
  by (simp add: decodeUdpHeader_def sample_datagram_def readUIntBE_def subarray_def be_nat_def Let_def ascii_string_def
      is_imei_def is_digit_def char_of_def bit_Suc_0_iff)

lemma sample_udp_handled: "\<exists>s'. udp_handle sample_deps sample_replies ''ip'' sample_datagram sample_udp = Inr s' \<and>
    us_trace s' = [USend (encodeUdpAck 1 2 0)]"
  by (simp add: udp_handle_def udp_admit_def allow_global_def allow_handshake_def admit_def estimate_def sample_udp_def
      sample_replies_def sample_header sample_lookup udp_body_def parseUdpAvl_def Let_def umetered_def uact_def)

theorem udp_acks_what_it_stores_witness:
  "\<exists>s'. udp_handle sample_deps sample_replies ''ip'' sample_datagram sample_udp = Inr s' \<and>
     udp_segment sample_replies sample_datagram [USend (encodeUdpAck 1 2 0)]"
proof -
  from sample_udp_handled obtain s' where s: "udp_handle sample_deps sample_replies ''ip'' sample_datagram sample_udp = Inr s'"
    "us_trace s' = [USend (encodeUdpAck 1 2 0)]" by blast
  have "pipeline_ok (rp_exec sample_replies)" by (simp add: sample_replies_def pipeline_ok_def)
  from udp_acks_what_it_stores [OF this s(1)] s show ?thesis by (auto simp: sample_udp_def)
qed

end
