(* ===== verification/Server.thy ===== *)
theory Server
  imports SessionProtocol Admission
begin

text \<open>
  apps/ingest/src/server.ts: the TCP server that admits connections and knows the live session of each
  IMEI. A session is named by a number; what the close handlers of a socket captured (its address, the
  IMEI it authenticated as) is kept beside it until its close event. \<open>sv_destroyed\<close> are the sessions
  torn down whose close event has not come yet.
\<close>

record ingest_config =
  ig_maxConn :: int
  ig_maxConnPerIp :: int
  ig_maxHandshakesPerIpPerMin :: int

record server =
  sv_connections :: int
  sv_limiter :: ip_limiter
  sv_handshakes :: handshake_limiter
  sv_live :: "(string \<times> nat) list"
  sv_socks :: "(nat \<times> (string \<times> string option)) list"
  sv_destroyed :: "nat set"

definition new_server :: "ingest_config \<Rightarrow> server" where
  "new_server config =
     \<lparr>sv_connections = 0, sv_limiter = \<lparr>il_max = ig_maxConnPerIp config, il_counts = []\<rparr>,
      sv_handshakes = \<lparr>hl_maxPerMinute = ig_maxHandshakesPerIpPerMin config, hl_maxTrackedIps = 200000, hl_windows = []\<rparr>,
      sv_live = [], sv_socks = [], sv_destroyed = {}\<rparr>"

text \<open>The connection handler: the three guards in order; a refused connection leaves only the handshake
  counted.\<close>

definition on_connection :: "ingest_config \<Rightarrow> int \<Rightarrow> string \<Rightarrow> nat \<Rightarrow> server \<Rightarrow> server \<times> bool" where
  "on_connection config t ip sid s =
     (if ig_maxConn config \<le> sv_connections s then (s, False)
      else let (hs, ok) = allow_handshake t ip (sv_handshakes s); s1 = s\<lparr>sv_handshakes := hs\<rparr> in
        if \<not> ok then (s1, False)
        else let (l, ok2) = tryAcquire ip (sv_limiter s1) in
          if \<not> ok2 then (s1, False)
          else (s1\<lparr>sv_limiter := l, sv_connections := sv_connections s1 + 1,
                   sv_socks := (sid, (ip, None)) # sv_socks s1\<rparr>, True))"

definition onAuthenticated :: "string \<Rightarrow> nat \<Rightarrow> server \<Rightarrow> server" where
  "onAuthenticated imei sid s =
     (let s1 = (case map_of (sv_live s) imei of
          Some prior \<Rightarrow> (if prior \<noteq> sid then s\<lparr>sv_destroyed := insert prior (sv_destroyed s)\<rparr> else s)
        | None \<Rightarrow> s) in
      s1\<lparr>sv_live := AList.update imei sid (sv_live s1),
         sv_socks := map (\<lambda>(k, ip, im). if k = sid then (k, ip, Some imei) else (k, ip, im)) (sv_socks s1)\<rparr>)"

text \<open>The close event: the accounting handler, and the handler that forgets the live session if it is
  still this one.\<close>

definition on_close :: "nat \<Rightarrow> server \<Rightarrow> server" where
  "on_close sid s =
     (case map_of (sv_socks s) sid of
        None \<Rightarrow> s
      | Some (ip, im) \<Rightarrow>
          let s1 = s\<lparr>sv_connections := sv_connections s - 1, sv_limiter := release_ip ip (sv_limiter s),
                     sv_socks := AList.delete sid (sv_socks s), sv_destroyed := sv_destroyed s - {sid}\<rparr> in
          (case im of
             None \<Rightarrow> s1
           | Some imei \<Rightarrow> (if map_of (sv_live s1) imei = Some sid then s1\<lparr>sv_live := AList.delete imei (sv_live s1)\<rparr> else s1)))"

section \<open>Steps\<close>

inductive server_step :: "ingest_config \<Rightarrow> server \<Rightarrow> server \<Rightarrow> bool" for config :: ingest_config where
  Connect: "sid \<notin> fst ` set (sv_socks s) \<Longrightarrow> server_step config s (fst (on_connection config t ip sid s))"
| Authenticate: "map_of (sv_socks s) sid = Some (ip, None) \<Longrightarrow> sid \<notin> sv_destroyed s \<Longrightarrow>
    server_step config s (onAuthenticated imei sid s)"
| Teardown: "sid \<in> fst ` set (sv_socks s) \<Longrightarrow> server_step config s (s\<lparr>sv_destroyed := insert sid (sv_destroyed s)\<rparr>)"
| Close: "server_step config s (on_close sid s)"
| Sweep: "server_step config s (s\<lparr>sv_handshakes := sweep_handshakes t (sv_handshakes s)\<rparr>)"

inductive server_reach :: "ingest_config \<Rightarrow> server \<Rightarrow> bool" for config :: ingest_config where
  init: "server_reach config (new_server config)"
| step: "server_reach config s \<Longrightarrow> server_step config s s' \<Longrightarrow> server_reach config s'"

inductive_cases server_stepE: "server_step config s s'"

section \<open>The invariant\<close>

definition socks_from :: "string \<Rightarrow> server \<Rightarrow> int" where
  "socks_from ip s = int (length (filter (\<lambda>(k, ip', im). ip' = ip) (sv_socks s)))"

definition counts_ok :: "ingest_config \<Rightarrow> server \<Rightarrow> bool" where
  "counts_ok config s \<longleftrightarrow>
     distinct (map fst (sv_socks s)) \<and> sv_connections s = int (length (sv_socks s)) \<and>
     il_max (sv_limiter s) = ig_maxConnPerIp config \<and> (\<forall>ip. activeFor (sv_limiter s) ip = socks_from ip s)"

definition limits_ok :: "ingest_config \<Rightarrow> server \<Rightarrow> bool" where
  "limits_ok config s \<longleftrightarrow>
     sv_connections s \<le> max 0 (ig_maxConn config) \<and> (\<forall>ip. socks_from ip s \<le> max 0 (ig_maxConnPerIp config))"

definition live_ok :: "server \<Rightarrow> bool" where
  "live_ok s \<longleftrightarrow>
     (\<forall>sid ip imei. map_of (sv_socks s) sid = Some (ip, Some imei) \<longrightarrow> sid \<notin> sv_destroyed s \<longrightarrow>
        map_of (sv_live s) imei = Some sid) \<and>
     (\<forall>imei sid. map_of (sv_live s) imei = Some sid \<longrightarrow> (\<exists>ip. map_of (sv_socks s) sid = Some (ip, Some imei)))"

lemma live_okI:
  assumes "\<And>sid ip imei. map_of (sv_socks s) sid = Some (ip, Some imei) \<Longrightarrow> sid \<notin> sv_destroyed s \<Longrightarrow> map_of (sv_live s) imei = Some sid"
    and "\<And>imei sid. map_of (sv_live s) imei = Some sid \<Longrightarrow> \<exists>ip. map_of (sv_socks s) sid = Some (ip, Some imei)"
  shows "live_ok s"
  using assms unfolding live_ok_def by blast

lemma live_okD1: "live_ok s \<Longrightarrow> map_of (sv_socks s) sid = Some (ip, Some imei) \<Longrightarrow> sid \<notin> sv_destroyed s \<Longrightarrow>
    map_of (sv_live s) imei = Some sid"
  unfolding live_ok_def by blast

lemma live_okD2: "live_ok s \<Longrightarrow> map_of (sv_live s) imei = Some sid \<Longrightarrow> \<exists>ip. map_of (sv_socks s) sid = Some (ip, Some imei)"
  unfolding live_ok_def by blast

lemma filter_delete_length:
  "distinct (map fst xs) \<Longrightarrow> map_of xs k = Some v \<Longrightarrow>
     int (length (filter P (AList.delete k xs))) = int (length (filter P xs)) - (if P (k, v) then 1 else 0)"
proof (induction xs)
  case Nil
  then show ?case by simp
next
  case (Cons x xs)
  obtain k' v' where x: "x = (k', v')" by (cases x)
  show ?case
  proof (cases "k' = k")
    case True
    with Cons.prems x have "AList.delete k xs = xs" by (intro delete_id) (auto simp: image_iff)
    with True Cons.prems x show ?thesis by simp
  next
    case False
    with Cons x show ?thesis by auto
  qed
qed

lemma counts_connect:
  assumes "counts_ok config s" and "sid \<notin> fst ` set (sv_socks s)"
  shows "counts_ok config (fst (on_connection config t ip sid s))"
proof -
  obtain hs ok where hs: "allow_handshake t ip (sv_handshakes s) = (hs, ok)" by (cases "allow_handshake t ip (sv_handshakes s)")
  obtain l ok2 where l: "tryAcquire ip (sv_limiter s) = (l, ok2)" by (cases "tryAcquire ip (sv_limiter s)")
  have "ok2 \<Longrightarrow> activeFor l k = activeFor (sv_limiter s) k + (if k = ip then 1 else 0)" for k
    using activeFor_acquire [of ip "sv_limiter s" k] l by simp
  moreover have "il_max l = il_max (sv_limiter s)" using il_max_const(1) [of ip "sv_limiter s"] l by simp
  ultimately show ?thesis
    using assms hs l by (auto simp: on_connection_def Let_def counts_ok_def socks_from_def)
qed

lemma length_delete: "distinct (map fst xs) \<Longrightarrow> map_of xs k = Some v \<Longrightarrow> int (length (AList.delete k xs)) = int (length xs) - 1"
  using filter_delete_length [of xs k v "\<lambda>_. True"] by simp

lemma socks_from_pos: "map_of (sv_socks s) sid = Some (ip, im) \<Longrightarrow> 0 < socks_from ip s"
  by (auto simp: socks_from_def filter_empty_conv dest!: map_of_SomeD)

lemma on_close_eq:
  assumes "map_of (sv_socks s) sid = Some (ip, im)"
  shows "sv_connections (on_close sid s) = sv_connections s - 1" "sv_limiter (on_close sid s) = release_ip ip (sv_limiter s)"
    "sv_socks (on_close sid s) = AList.delete sid (sv_socks s)" "sv_destroyed (on_close sid s) = sv_destroyed s - {sid}"
    "sv_live (on_close sid s) = (case im of None \<Rightarrow> sv_live s
       | Some imei \<Rightarrow> if map_of (sv_live s) imei = Some sid then AList.delete imei (sv_live s) else sv_live s)"
  using assms by (simp_all add: on_close_def Let_def split: option.split)

lemma counts_close: "counts_ok config s \<Longrightarrow> counts_ok config (on_close sid s)"
proof (cases "map_of (sv_socks s) sid")
  case None
  then show "counts_ok config s \<Longrightarrow> counts_ok config (on_close sid s)" by (simp add: on_close_def)
next
  case (Some v)
  assume c: "counts_ok config s"
  obtain ip im where v: "v = (ip, im)" by (cases v)
  note sid = Some [unfolded v]
  from c socks_from_pos [OF sid] have pos: "0 < activeFor (sv_limiter s) ip" by (simp add: counts_ok_def)
  have "socks_from k (on_close sid s) = socks_from k s - (if k = ip then 1 else 0)" for k
    using c filter_delete_length [of "sv_socks s" sid "(ip, im)" "\<lambda>(k', ip', im). ip' = k"] sid
    by (simp add: socks_from_def counts_ok_def on_close_eq [OF sid])
  with c pos sid show ?thesis
    by (simp add: counts_ok_def on_close_eq [OF sid] activeFor_release length_delete distinct_delete)
qed

lemma socks_auth: "length (sv_socks (onAuthenticated imei sid s)) = length (sv_socks s) \<and>
    map fst (sv_socks (onAuthenticated imei sid s)) = map fst (sv_socks s) \<and>
    socks_from ip (onAuthenticated imei sid s) = socks_from ip s \<and>
    sv_connections (onAuthenticated imei sid s) = sv_connections s \<and> sv_limiter (onAuthenticated imei sid s) = sv_limiter s"
proof -
  have "length (filter (\<lambda>(k, ip', im). ip' = ip) (map (\<lambda>(k, ip, im). if k = sid then (k, ip, Some imei) else (k, ip, im)) xs)) =
      length (filter (\<lambda>(k, ip', im). ip' = ip) xs)" for xs :: "(nat \<times> string \<times> string option) list"
    by (induction xs) (auto split: if_splits)
  moreover have "map fst (map (\<lambda>(k, ip, im). if k = sid then (k, ip, Some imei) else (k, ip, im)) xs) = map fst xs"
    for xs :: "(nat \<times> string \<times> string option) list"
    by (induction xs) auto
  ultimately show ?thesis
    by (simp add: onAuthenticated_def Let_def socks_from_def split: option.split)
qed

lemma counts_step: "server_step config s s' \<Longrightarrow> counts_ok config s \<Longrightarrow> counts_ok config s'"
proof (cases rule: server_step.cases, assumption, goal_cases)
  case (1 sid t ip)
  then show ?case by (simp add: counts_connect)
next
  case (2 sid ip imei)
  then show ?case using socks_auth [of imei sid s] by (simp add: counts_ok_def)
next
  case (3 sid)
  then show ?case by (simp add: counts_ok_def socks_from_def)
next
  case (4 sid)
  then show ?case by (simp add: counts_close)
next
  case (5 t)
  then show ?case by (simp add: counts_ok_def socks_from_def)
qed

lemma limits_connect:
  assumes "counts_ok config s" and "limits_ok config s"
  shows "limits_ok config (fst (on_connection config t ip sid s))"
proof -
  obtain hs ok where hs: "allow_handshake t ip (sv_handshakes s) = (hs, ok)" by (cases "allow_handshake t ip (sv_handshakes s)")
  obtain l ok2 where l: "tryAcquire ip (sv_limiter s) = (l, ok2)" by (cases "tryAcquire ip (sv_limiter s)")
  have "ok2 \<longleftrightarrow> socks_from ip s < ig_maxConnPerIp config"
    using acquire_below [of ip "sv_limiter s"] l assms(1) by (simp add: counts_ok_def)
  then show ?thesis
    using assms(2) hs l by (auto simp: on_connection_def Let_def limits_ok_def socks_from_def)
qed

lemma limits_close: "counts_ok config s \<Longrightarrow> limits_ok config s \<Longrightarrow> limits_ok config (on_close sid s)"
proof (cases "map_of (sv_socks s) sid")
  case None
  then show "limits_ok config s \<Longrightarrow> limits_ok config (on_close sid s)" by (simp add: on_close_def)
next
  case (Some v)
  assume c: "counts_ok config s" and l: "limits_ok config s"
  obtain ip im where v: "v = (ip, im)" by (cases v)
  note sid = Some [unfolded v]
  have "socks_from k (on_close sid s) \<le> socks_from k s" for k
    using c filter_delete_length [of "sv_socks s" sid "(ip, im)" "\<lambda>(k', ip', im). ip' = k"] sid
    by (simp add: socks_from_def counts_ok_def on_close_eq [OF sid])
  then have "socks_from k (on_close sid s) \<le> max 0 (ig_maxConnPerIp config)" for k
    by (rule order_trans) (use l in \<open>simp add: limits_ok_def\<close>)
  moreover have "sv_connections (on_close sid s) \<le> max 0 (ig_maxConn config)"
    using l by (simp add: limits_ok_def on_close_eq(1) [OF sid])
  ultimately show ?thesis by (simp add: limits_ok_def)
qed

lemma limits_step: "server_step config s s' \<Longrightarrow> counts_ok config s \<Longrightarrow> limits_ok config s \<Longrightarrow> limits_ok config s'"
proof (cases rule: server_step.cases, assumption, goal_cases)
  case (1 sid t ip)
  then show ?case by (simp add: limits_connect)
next
  case (2 sid ip imei)
  then show ?case using socks_auth [of imei sid s] by (simp add: limits_ok_def)
next
  case (3 sid)
  then show ?case by (simp add: limits_ok_def socks_from_def)
next
  case (4 sid)
  then show ?case by (simp add: limits_close)
next
  case (5 t)
  then show ?case by (simp add: limits_ok_def socks_from_def)
qed

lemma on_connection_cases:
  "fst (on_connection config t ip sid s) = s \<or>
   (\<exists>hs. fst (on_connection config t ip sid s) = s\<lparr>sv_handshakes := hs\<rparr>) \<or>
   (\<exists>hs l. fst (on_connection config t ip sid s) = s\<lparr>sv_handshakes := hs, sv_limiter := l,
      sv_connections := sv_connections s + 1, sv_socks := (sid, (ip, None)) # sv_socks s\<rparr>)"
  by (auto simp: on_connection_def Let_def case_prod_beta)

lemma live_connect:
  assumes "live_ok s" and "sid \<notin> fst ` set (sv_socks s)"
  shows "live_ok (fst (on_connection config t ip sid s))"
proof -
  have none: "map_of (sv_socks s) sid = None" using assms(2) by (simp add: map_of_eq_None_iff)
  have "live_ok (s\<lparr>sv_handshakes := hs, sv_limiter := l, sv_connections := n, sv_socks := (sid, (ip, None)) # sv_socks s\<rparr>)"
    for hs l n
  proof (rule live_okI, goal_cases)
    case (1 k ip' imei)
    then have "k \<noteq> sid" "map_of (sv_socks s) k = Some (ip', Some imei)" by (auto split: if_splits)
    with 1 live_okD1 [OF assms(1)] show ?case by simp
  next
    case (2 imei k)
    then obtain ip' where "map_of (sv_socks s) k = Some (ip', Some imei)" using live_okD2 [OF assms(1)] by auto
    with none show ?case by (cases "k = sid") auto
  qed
  moreover have "live_ok (s\<lparr>sv_handshakes := hs\<rparr>)" for hs using assms(1) by (simp add: live_ok_def)
  ultimately show ?thesis using on_connection_cases [of config t ip sid s] assms(1) by metis
qed

lemma map_of_auth: "map_of (map (\<lambda>(k, ip, im). if k = sid then (k, ip, Some imei) else (k, ip, im)) xs) k =
    (case map_of xs k of None \<Rightarrow> None | Some (ip, im) \<Rightarrow> Some (ip, if k = sid then Some imei else im))"
  by (induction xs) auto

lemma onAuthenticated_maps:
  "map_of (sv_socks (onAuthenticated imei sid s)) k =
     (case map_of (sv_socks s) k of None \<Rightarrow> None | Some (ip, im) \<Rightarrow> Some (ip, if k = sid then Some imei else im))"
  "map_of (sv_live (onAuthenticated imei sid s)) = (map_of (sv_live s))(imei \<mapsto> sid)"
  "sv_destroyed (onAuthenticated imei sid s) = sv_destroyed s \<union>
     (case map_of (sv_live s) imei of Some prior \<Rightarrow> if prior \<noteq> sid then {prior} else {} | None \<Rightarrow> {})"
  by (auto simp: onAuthenticated_def Let_def map_of_auth update_conv' split: option.splits)

lemma live_auth:
  assumes "live_ok s" and "map_of (sv_socks s) sid = Some (ip, None)"
  shows "live_ok (onAuthenticated imei sid s)"
  unfolding live_ok_def onAuthenticated_maps
proof (intro conjI allI impI)
  fix k ip' im
  assume k: "(case map_of (sv_socks s) k of None \<Rightarrow> None | Some (ip, im) \<Rightarrow> Some (ip, if k = sid then Some imei else im)) = Some (ip', Some im)"
    and nd: "k \<notin> sv_destroyed s \<union> (case map_of (sv_live s) imei of Some prior \<Rightarrow> if prior \<noteq> sid then {prior} else {} | None \<Rightarrow> {})"
  show "((map_of (sv_live s))(imei \<mapsto> sid)) im = Some k"
  proof (cases "k = sid")
    case True
    with k assms(2) show ?thesis by simp
  next
    case False
    with k have "map_of (sv_socks s) k = Some (ip', Some im)" by (auto split: option.splits)
    with assms(1) nd have l: "map_of (sv_live s) im = Some k" unfolding live_ok_def by blast
    with nd False have "im \<noteq> imei" by auto
    with l show ?thesis by simp
  qed
next
  fix im k
  assume "((map_of (sv_live s))(imei \<mapsto> sid)) im = Some k"
  then consider "im = imei" "k = sid" | "im \<noteq> imei" "map_of (sv_live s) im = Some k" by (auto split: if_splits)
  then show "\<exists>ip. (case map_of (sv_socks s) k of None \<Rightarrow> None | Some (ip, im) \<Rightarrow> Some (ip, if k = sid then Some imei else im)) = Some (ip, Some im)"
  proof cases
    case 1
    with assms(2) show ?thesis by simp
  next
    case 2
    with assms(1) obtain ip' where "map_of (sv_socks s) k = Some (ip', Some im)" unfolding live_ok_def by blast
    with assms(2) show ?thesis by auto
  qed
qed

lemma live_close:
  assumes "live_ok s"
  shows "live_ok (on_close sid s)"
proof (cases "map_of (sv_socks s) sid")
  case None
  with assms show ?thesis by (simp add: on_close_def)
next
  case (Some v)
  obtain ip im where v: "v = (ip, im)" by (cases v)
  note sid = Some [unfolded v]
  have gone: "im = Some i" if "map_of (sv_live s) i = Some sid" for i
    using live_okD2 [OF assms that] sid by auto
  have live: "map_of (sv_live (on_close sid s)) i = (if map_of (sv_live s) i = Some sid then None else map_of (sv_live s) i)" for i
  proof (cases "map_of (sv_live s) i = Some sid")
    case True
    with gone show ?thesis by (simp add: on_close_eq(5) [OF sid] delete_conv')
  next
    case False
    then have "i \<noteq> j" if "map_of (sv_live s) j = Some sid" for j using that by auto
    with False show ?thesis by (simp add: on_close_eq(5) [OF sid] delete_conv' split: option.split)
  qed
  show ?thesis
  proof (rule live_okI, goal_cases)
    case (1 k ip' imei)
    then have k: "k \<noteq> sid" "map_of (sv_socks s) k = Some (ip', Some imei)"
      by (auto simp: on_close_eq [OF sid] delete_conv' split: if_splits)
    with 1 have "k \<notin> sv_destroyed s" by (simp add: on_close_eq [OF sid])
    with k live_okD1 [OF assms] have "map_of (sv_live s) imei = Some k" by blast
    with k show ?case by (simp add: live)
  next
    case (2 imei k)
    then have k: "k \<noteq> sid" "map_of (sv_live s) imei = Some k" by (auto simp: live split: if_splits)
    with live_okD2 [OF assms] show ?case by (simp add: on_close_eq [OF sid] delete_conv')
  qed
qed

lemma live_step: "server_step config s s' \<Longrightarrow> live_ok s \<Longrightarrow> live_ok s'"
proof (cases rule: server_step.cases, assumption, goal_cases)
  case (1 sid t ip)
  then show ?case by (simp add: live_connect)
next
  case (2 sid ip imei)
  then show ?case by (simp add: live_auth)
next
  case (3 sid)
  then show ?case by (simp add: live_ok_def)
next
  case (4 sid)
  then show ?case by (simp add: live_close)
next
  case (5 t)
  then show ?case by (simp add: live_ok_def)
qed

lemma server_invariant: "server_reach config s \<Longrightarrow> counts_ok config s \<and> limits_ok config s \<and> live_ok s"
proof (induction rule: server_reach.induct)
  case init
  show ?case by (simp add: new_server_def counts_ok_def limits_ok_def live_ok_def socks_from_def activeFor_def)
next
  case (step s s')
  then show ?case using counts_step limits_step live_step by blast
qed

text \<open>The ingest server keeps its books. In every reachable state the connection counter is the
  number of open sockets and the limiter's count of an address is the number of its open sockets, so
  both caps hold at any time and nothing leaks when sockets close; and of the sessions authenticated
  as one IMEI at most one is not torn down, the newest, which is the one the server knows.\<close>

theorem server_keeps_books:
  assumes "server_reach config s"
  shows "sv_connections s = int (length (sv_socks s)) \<and> sv_connections s \<le> max 0 (ig_maxConn config) \<and>
    activeFor (sv_limiter s) ip = socks_from ip s \<and> socks_from ip s \<le> max 0 (ig_maxConnPerIp config) \<and>
    (map_of (sv_socks s) sid1 = Some (ip1, Some imei) \<longrightarrow> map_of (sv_socks s) sid2 = Some (ip2, Some imei) \<longrightarrow>
       sid1 \<notin> sv_destroyed s \<longrightarrow> sid2 \<notin> sv_destroyed s \<longrightarrow> sid1 = sid2 \<and> map_of (sv_live s) imei = Some sid1)"
proof -
  from server_invariant [OF assms] have inv: "counts_ok config s" "limits_ok config s" and live: "live_ok s" by simp_all
  have "sid1 = sid2 \<and> map_of (sv_live s) imei = Some sid1"
    if "map_of (sv_socks s) sid1 = Some (ip1, Some imei)" "map_of (sv_socks s) sid2 = Some (ip2, Some imei)"
      "sid1 \<notin> sv_destroyed s" "sid2 \<notin> sv_destroyed s"
    using live_okD1 [OF live that(1,3)] live_okD1 [OF live that(2,4)] by simp
  with inv show ?thesis by (simp add: counts_ok_def limits_ok_def)
qed

definition sample_server :: server where
  "sample_server = fst (on_connection \<lparr>ig_maxConn = 1, ig_maxConnPerIp = 1, ig_maxHandshakesPerIpPerMin = 5\<rparr> 0 ''a'' 7
     (new_server \<lparr>ig_maxConn = 1, ig_maxConnPerIp = 1, ig_maxHandshakesPerIpPerMin = 5\<rparr>))"

lemma sample_server_reach: "server_reach \<lparr>ig_maxConn = 1, ig_maxConnPerIp = 1, ig_maxHandshakesPerIpPerMin = 5\<rparr> sample_server"
  unfolding sample_server_def
  by (rule server_reach.step [OF server_reach.init]) (rule server_step.Connect, simp add: new_server_def)

theorem server_keeps_books_witness:
  "sv_connections sample_server = int (length (sv_socks sample_server)) \<and> sv_connections sample_server \<le> 1 \<and>
   length (sv_socks sample_server) = 1"
  using server_keeps_books [OF sample_server_reach]
  by (simp add: sample_server_def on_connection_def new_server_def allow_handshake_def admit_def estimate_def tryAcquire_def activeFor_def)

end
