(* ===== verification/Normalize.thy ===== *)
theory Normalize
  imports Records Dictionary Persist
begin

text \<open>
  apps/worker/src/normalize.ts: from the payload of a stream entry to the pipeline's record. A payload is
  what the schema of packages/shared/src/records.ts lets through; a JavaScript number in it may be any
  number. The dictionary is the table the loader returns (an association list in insertion order), the
  hash is a parameter. \<open>Inl ()\<close> is the exception of \<open>BigInt\<close> on a fraction. The memoisation of the two
  per-table lookups is left out.
\<close>

section \<open>Text of numbers\<close>

function nat_string :: "nat \<Rightarrow> string" where
  "nat_string n = (if n < 10 then [char_of (48 + n)] else nat_string (n div 10) @ [char_of (48 + n mod 10)])"
  by auto
termination by (relation "measure id") auto

declare nat_string.simps [simp del]

definition int_string :: "int \<Rightarrow> string" where
  "int_string n = (if n < 0 then CHR ''-'' # nat_string (nat (- n)) else nat_string (nat n))"

definition hex_digit :: "nat \<Rightarrow> char" where
  "hex_digit n = (if n < 10 then char_of (48 + n) else char_of (87 + n))"

definition hex_string :: "bytes \<Rightarrow> string" where
  "hex_string bs = concat (map (\<lambda>b. [hex_digit (unat b div 16), hex_digit (unat b mod 16)]) bs)"

fun contains :: "string \<Rightarrow> string \<Rightarrow> bool" where
  "contains w [] = (w = [])"
| "contains w (c # cs) = (take (length w) (c # cs) = w \<or> contains w cs)"

section \<open>Per-table lookups\<close>

definition odometerIdFor :: "dictionary \<Rightarrow> int option" where
  "odometerIdFor dict = map_option fst (find (\<lambda>(i, e). d_name e = ''Total Odometer'') dict)"

definition FORCED_ID_KEYS :: "int list" where
  "FORCED_ID_KEYS = [48, 84, 89]"

definition forcedFuelKey :: "int \<Rightarrow> dict_entry option \<Rightarrow> bool" where
  "forcedFuelKey i entry \<longleftrightarrow> i \<in> set FORCED_ID_KEYS \<and>
     (case entry of None \<Rightarrow> True | Some e \<Rightarrow> contains ''FUEL'' (toUpperCase (d_name e)))"

definition idsByName :: "dictionary \<Rightarrow> (string \<times> int list) list" where
  "idsByName dict =
     foldl (\<lambda>m (i, e). AList.update (d_name e) ((case map_of m (d_name e) of None \<Rightarrow> [] | Some ks \<Rightarrow> ks) @ [i]) m) [] dict"

definition ambiguousInTable :: "dictionary \<Rightarrow> int list" where
  "ambiguousInTable dict = concat (map snd (filter (\<lambda>(n, ks). 1 < length ks) (idsByName dict)))"

section \<open>The payload\<close>

datatype stream_io = InBig int | InNum rat | InBuf bytes

record stream_payload =
  s_deviceId :: int
  s_serverTimeMs :: int
  s_tsMs :: int
  s_priority :: int
  s_lat :: jsnum
  s_lon :: jsnum
  s_altitude :: jsnum
  s_angle :: jsnum
  s_satellites :: int
  s_speed :: jsnum
  s_io :: "(int \<times> stream_io) list"
  s_raw :: bytes

definition AVL_IGNITION :: int where "AVL_IGNITION = 239"
definition AVL_MOVEMENT :: int where "AVL_MOVEMENT = 240"
definition SMALLINT_MIN :: int where "SMALLINT_MIN = - 32768"
definition SMALLINT_MAX :: int where "SMALLINT_MAX = 32767"
definition BIGINT_MIN :: int where "BIGINT_MIN = - (2 ^ 63)"
definition BIGINT_MAX :: int where "BIGINT_MAX = 2 ^ 63 - 1"
definition MAX_SAFE_INTEGER :: int where "MAX_SAFE_INTEGER = 2 ^ 53 - 1"

text \<open>A nullable column: the value, and whether \<open>onFieldNulled\<close> is called.\<close>

definition inRangeOrNull :: "jsnum option \<Rightarrow> int \<Rightarrow> int \<Rightarrow> int option \<times> bool" where
  "inRangeOrNull v lo hi =
     (case v of
        None \<Rightarrow> (None, False)
      | Some (JNum q) \<Rightarrow> (if q < of_int lo \<or> of_int hi < q then (None, True) else (Some (js_round q), False))
      | Some _ \<Rightarrow> (None, True))"

definition smallintOrNull :: "jsnum option \<Rightarrow> int option \<times> bool" where
  "smallintOrNull v = inRangeOrNull v SMALLINT_MIN SMALLINT_MAX"

definition noted :: "string \<Rightarrow> 'a \<times> bool \<Rightarrow> string list" where
  "noted field r = (if snd r then [field] else [])"

section \<open>The elements\<close>

datatype wire_value = WBig int | WBuf bytes

definition to_wire :: "stream_io \<Rightarrow> unit + wire_value" where
  "to_wire v =
     (case v of
        InBig n \<Rightarrow> Inr (WBig n)
      | InNum q \<Rightarrow> (if of_int \<lfloor>q\<rfloor> = q then Inr (WBig \<lfloor>q\<rfloor>) else Inl ())
      | InBuf b \<Rightarrow> Inr (WBuf b))"

definition attr_value :: "dict_entry option \<Rightarrow> wire_value \<Rightarrow> jsval" where
  "attr_value entry v =
     (case v of
        WBuf b \<Rightarrow> JVString (hex_string b)
      | WBig n \<Rightarrow>
          (let signed = applySign entry n in
           if - MAX_SAFE_INTEGER \<le> signed \<and> signed \<le> MAX_SAFE_INTEGER then JVNumber (JNum (of_int signed))
           else JVString (int_string signed)))"

definition io_key :: "int \<Rightarrow> string" where
  "io_key i = ''io_'' @ int_string i"

definition attr_name :: "dictionary \<Rightarrow> int \<Rightarrow> string" where
  "attr_name dict i =
     (let entry = map_of dict i in
      if forcedFuelKey i entry \<or> i \<in> set (ambiguousInTable dict) then io_key i
      else case entry of None \<Rightarrow> io_key i | Some e \<Rightarrow> d_name e)"

definition set_attr :: "dictionary \<Rightarrow> int \<Rightarrow> wire_value \<Rightarrow> (string \<times> jsval) list \<Rightarrow> (string \<times> jsval) list" where
  "set_attr dict i v attrs =
     (let key0 = attr_name dict i;
          key = (if key0 \<in> fst ` set attrs then io_key i else key0) in
      AList.update key (attr_value (map_of dict i) v) attrs)"

record columns =
  c_ignition :: "bool option"
  c_movement :: "bool option"
  c_odometerM :: "int option"
  c_attrs :: "(string \<times> jsval) list"
  c_nulled :: "string list"

definition io_element :: "dictionary \<Rightarrow> int option \<Rightarrow> int \<Rightarrow> wire_value \<Rightarrow> columns \<Rightarrow> columns" where
  "io_element dict odoId i v c =
     (case v of
        WBig n \<Rightarrow>
          (if i = AVL_IGNITION then c\<lparr>c_ignition := Some (n = 1)\<rparr>
           else if i = AVL_MOVEMENT then c\<lparr>c_movement := Some (n = 1)\<rparr>
           else if Some i = odoId then
             (if n < BIGINT_MIN \<or> BIGINT_MAX < n then c\<lparr>c_nulled := c_nulled c @ [''odometerM'']\<rparr>
              else c\<lparr>c_odometerM := Some n\<rparr>)
           else c\<lparr>c_attrs := set_attr dict i v (c_attrs c)\<rparr>)
      | WBuf b \<Rightarrow> c\<lparr>c_attrs := set_attr dict i v (c_attrs c)\<rparr>)"

fun io_loop :: "dictionary \<Rightarrow> int option \<Rightarrow> (int \<times> stream_io) list \<Rightarrow> columns \<Rightarrow> unit + columns" where
  "io_loop dict odoId [] c = Inr c"
| "io_loop dict odoId ((i, x) # rest) c =
     bindE (to_wire x) (\<lambda>v. io_loop dict odoId rest (io_element dict odoId i v c))"

section \<open>normalize\<close>

definition on_sphere :: "jsnum \<Rightarrow> jsnum \<Rightarrow> bool" where
  "on_sphere la lo =
     (case (la, lo) of (JNum a, JNum b) \<Rightarrow> \<bar>a\<bar> \<le> 90 \<and> \<bar>b\<bar> \<le> 180 | _ \<Rightarrow> False)"

definition degrees :: "jsnum \<Rightarrow> real" where
  "degrees x = (case x of JNum q \<Rightarrow> of_rat q | _ \<Rightarrow> 0)"

definition normalize_rec :: "(bytes \<Rightarrow> nat) \<Rightarrow> dictionary \<Rightarrow> stream_payload \<Rightarrow> unit + (nrec \<times> string list)" where
  "normalize_rec hash dict p =
     bindE (io_loop dict (odometerIdFor dict) (s_io p)
       \<lparr>c_ignition = None, c_movement = None, c_odometerM = None, c_attrs = [], c_nulled = []\<rparr>) (\<lambda>c.
     let sats0 = smallintOrNull (Some (JNum (of_int (s_satellites p))));
         sats = (case fst sats0 of None \<Rightarrow> 0 | Some n \<Rightarrow> n);
         onSphere = on_sphere (s_lat p) (s_lon p);
         attrs = (if onSphere then c_attrs c
                  else AList.update ''offSphereLon'' (JVNumber (s_lon p))
                         (AList.update ''offSphereLat'' (JVNumber (s_lat p)) (c_attrs c)));
         la = (if onSphere then degrees (s_lat p) else 0);
         lo = (if onSphere then degrees (s_lon p) else 0);
         alt = smallintOrNull (Some (s_altitude p));
         spd = inRangeOrNull (Some (s_speed p)) 0 SMALLINT_MAX;
         crs = inRangeOrNull (Some (s_angle p)) 0 360 in
     Inr (\<lparr>r_deviceId = s_deviceId p, r_fixTime = s_tsMs p, r_serverTime = s_serverTimeMs p, r_lat = la, r_lon = lo,
            r_altitude = fst alt, r_speed = fst spd, r_course = fst crs, r_satellites = sats,
            r_fixValid = (onSphere \<and> 0 < sats \<and> \<not> isNullIsland la lo),
            r_ignition = c_ignition c, r_movement = c_movement c, r_odometerM = c_odometerM c,
            r_priority = s_priority p, r_recHash = asIntN 64 (int (hash (s_raw p))), r_attrs = attrs\<rparr>,
          c_nulled c @ noted ''satellites'' sats0 @ (if onSphere then [] else [''lat'', ''lon'']) @
          noted ''altitude'' alt @ noted ''speed'' spd @ noted ''course'' crs))"

section \<open>Every row fits its columns\<close>

lemma js_round_range: "of_int lo \<le> q \<Longrightarrow> q \<le> of_int hi \<Longrightarrow> lo \<le> js_round q \<and> js_round q \<le> hi"
proof
  assume lo: "of_int lo \<le> q" and hi: "q \<le> of_int hi"
  then show "lo \<le> js_round q" by (simp add: js_round_def le_floor_iff)
  have "q + 1 / 2 < of_int (hi + 1)" using hi by simp
  then have "js_round q < hi + 1" by (simp only: js_round_def floor_less_iff)
  then show "js_round q \<le> hi" by simp
qed

lemma inRangeOrNull_range: "fst (inRangeOrNull v lo hi) = Some n \<Longrightarrow> lo \<le> n \<and> n \<le> hi"
  using js_round_range [of lo _ hi] by (auto simp: inRangeOrNull_def not_less split: option.splits jsnum.splits if_splits)

lemma asIntN_range:
  assumes "0 < b"
  shows "- (2 ^ (b - 1)) \<le> asIntN b v \<and> asIntN b v < 2 ^ (b - 1)"
proof -
  have m: "asIntN b v = asIntN b (v mod 2 ^ b)" by (simp add: asIntN_def)
  have r: "0 \<le> v mod 2 ^ b" "v mod 2 ^ b < (2 :: int) ^ b" by simp_all
  from assms obtain k where "b = Suc k" by (cases b) auto
  then have p: "(2 :: int) ^ b = 2 * 2 ^ (b - 1)" by simp
  define h where "h = (2 :: int) ^ (b - 1)"
  define w where "w = v mod 2 ^ b"
  have w: "0 \<le> w" "w < 2 * h" using r p by (simp_all add: w_def h_def)
  have "asIntN b w = (if w < h then w else w - 2 * h)"
    using asIntN_value [OF r assms] p by (simp add: w_def h_def)
  with w have "- h \<le> asIntN b w \<and> asIntN b w < h" by (simp split: if_splits)
  then show ?thesis unfolding m by (simp add: w_def h_def)
qed

text \<open>What the \<open>positions\<close> table can hold.\<close>

definition fits_columns :: "nrec \<Rightarrow> bool" where
  "fits_columns r \<longleftrightarrow>
     (\<forall>a. r_altitude r = Some a \<longrightarrow> - 32768 \<le> a \<and> a \<le> 32767) \<and>
     (\<forall>v. r_speed r = Some v \<longrightarrow> 0 \<le> v \<and> v \<le> 32767) \<and>
     (\<forall>v. r_course r = Some v \<longrightarrow> 0 \<le> v \<and> v \<le> 360) \<and>
     - 32768 \<le> r_satellites r \<and> r_satellites r \<le> 32767 \<and>
     (\<forall>m. r_odometerM r = Some m \<longrightarrow> - (2 ^ 63) \<le> m \<and> m < 2 ^ 63) \<and>
     - (2 ^ 63) \<le> r_recHash r \<and> r_recHash r < 2 ^ 63 \<and>
     \<bar>r_lat r\<bar> \<le> 90 \<and> \<bar>r_lon r\<bar> \<le> 180"

definition odo_ok :: "columns \<Rightarrow> bool" where
  "odo_ok c \<longleftrightarrow> (\<forall>m. c_odometerM c = Some m \<longrightarrow> - (2 ^ 63) \<le> m \<and> m < 2 ^ 63)"

lemma io_loop_odo: "io_loop dict odo els c = Inr c' \<Longrightarrow> odo_ok c \<Longrightarrow> odo_ok c'"
proof (induction els arbitrary: c)
  case Nil
  then show ?case by simp
next
  case (Cons e els)
  obtain i x where e: "e = (i, x)" by (cases e)
  with Cons.prems obtain v where v: "to_wire x = Inr v" "io_loop dict odo els (io_element dict odo i v c) = Inr c'"
    by (auto simp: bindE_eq_Inr)
  have "odo_ok (io_element dict odo i v c)"
    using Cons.prems(2) by (auto simp: odo_ok_def io_element_def BIGINT_MIN_def BIGINT_MAX_def split: wire_value.split)
  with Cons.IH v show ?case by blast
qed

lemma degrees_bound: "on_sphere la lo \<Longrightarrow> \<bar>degrees la\<bar> \<le> 90 \<and> \<bar>degrees lo\<bar> \<le> 180"
proof -
  assume "on_sphere la lo"
  then obtain a b where ab: "la = JNum a" "lo = JNum b" "\<bar>a\<bar> \<le> 90" "\<bar>b\<bar> \<le> 180"
    by (auto simp: on_sphere_def split: jsnum.splits)
  have "\<bar>of_rat q :: real\<bar> \<le> of_int n" if "\<bar>q\<bar> \<le> of_int n" for q n
  proof -
    from that have "of_rat \<bar>q\<bar> \<le> (of_rat (of_int n) :: real)" by (simp only: of_rat_less_eq)
    then show ?thesis by (simp add: of_rat_of_int_eq)
  qed
  from this [of a 90] this [of b 180] ab show ?thesis by (simp add: degrees_def)
qed

lemma normalize_fits: "normalize_rec hash dict p = Inr (r, nulled) \<Longrightarrow> fits_columns r"
proof -
  assume n: "normalize_rec hash dict p = Inr (r, nulled)"
  then obtain c where c: "io_loop dict (odometerIdFor dict) (s_io p)
       \<lparr>c_ignition = None, c_movement = None, c_odometerM = None, c_attrs = [], c_nulled = []\<rparr> = Inr c"
    by (auto simp: normalize_rec_def bindE_eq_Inr)
  have "odo_ok c" using io_loop_odo [OF c] by (simp add: odo_ok_def)
  then have odo: "c_odometerM c = Some m \<Longrightarrow> - (2 ^ 63) \<le> m \<and> m < 2 ^ 63" for m by (simp add: odo_ok_def)
  have r: "r_altitude r = fst (smallintOrNull (Some (s_altitude p)))"
    "r_speed r = fst (inRangeOrNull (Some (s_speed p)) 0 SMALLINT_MAX)"
    "r_course r = fst (inRangeOrNull (Some (s_angle p)) 0 360)"
    "r_satellites r = (case fst (smallintOrNull (Some (JNum (of_int (s_satellites p))))) of None \<Rightarrow> 0 | Some n \<Rightarrow> n)"
    "r_odometerM r = c_odometerM c" "r_recHash r = asIntN 64 (int (hash (s_raw p)))"
    "r_lat r = (if on_sphere (s_lat p) (s_lon p) then degrees (s_lat p) else 0)"
    "r_lon r = (if on_sphere (s_lat p) (s_lon p) then degrees (s_lon p) else 0)"
    using n c by (auto simp: normalize_rec_def Let_def)
  show ?thesis
    unfolding fits_columns_def r
    using inRangeOrNull_range [of _ "- 32768" 32767] inRangeOrNull_range [of _ 0 32767] inRangeOrNull_range [of _ 0 360]
      odo asIntN_range [of 64 "int (hash (s_raw p))"] degrees_bound [of "s_lat p" "s_lon p"]
    by (fastforce simp: smallintOrNull_def SMALLINT_MIN_def SMALLINT_MAX_def split: option.split)
qed

lemma normalize_valid: "normalize_rec hash dict p = Inr (r, nulled) \<Longrightarrow>
    r_fixValid r \<longleftrightarrow> on_sphere (s_lat p) (s_lon p) \<and> 0 < r_satellites r \<and> \<not> (r_lat r = 0 \<and> r_lon r = 0)"
  by (auto simp: normalize_rec_def bindE_eq_Inr Let_def isNullIsland_def)

text \<open>\<open>BigInt\<close> raises on a number that is not an integer.\<close>

definition integral :: "stream_io \<Rightarrow> bool" where
  "integral x = (case x of InNum q \<Rightarrow> of_int \<lfloor>q\<rfloor> = q | _ \<Rightarrow> True)"

lemma to_wire_Inr: "(\<exists>v. to_wire x = Inr v) \<longleftrightarrow> integral x"
  by (simp add: to_wire_def integral_def split: stream_io.split)

lemma io_loop_Inr: "(\<exists>c'. io_loop dict odo els c = Inr c') \<longleftrightarrow> (\<forall>e\<in>set els. integral (snd e))"
proof (induction els arbitrary: c)
  case Nil
  then show ?case by simp
next
  case (Cons e els)
  obtain i x where e: "e = (i, x)" by (cases e)
  show ?case
  proof (cases "to_wire x")
    case (Inl u)
    then have "\<not> integral x" using to_wire_Inr [of x] by auto
    with Inl e show ?thesis by simp
  next
    case (Inr v)
    then have "integral x" using to_wire_Inr [of x] by auto
    with Inr e Cons.IH show ?thesis by simp
  qed
qed

lemma normalize_Inr: "(\<exists>out. normalize_rec hash dict p = Inr out) \<longleftrightarrow> (\<forall>e\<in>set (s_io p). integral (snd e))"
proof -
  let ?loop = "io_loop dict (odometerIdFor dict) (s_io p)
    \<lparr>c_ignition = None, c_movement = None, c_odometerM = None, c_attrs = [], c_nulled = []\<rparr>"
  have "(\<exists>out. normalize_rec hash dict p = Inr out) \<longleftrightarrow> (\<exists>c. ?loop = Inr c)"
    by (simp add: normalize_rec_def bindE_eq_Inr Let_def)
  then show ?thesis using io_loop_Inr by blast
qed


definition fmb_dict :: dictionary where
  "fmb_dict =
     [(16, \<lparr>d_name = ''Total Odometer'', d_bytes = Some ''4'', d_type = ''Unsigned'', d_min = None, d_max = None\<rparr>),
      (21, \<lparr>d_name = ''GSM Signal'', d_bytes = Some ''1'', d_type = ''Unsigned'', d_min = None, d_max = None\<rparr>),
      (67, \<lparr>d_name = ''Battery Voltage'', d_bytes = Some ''2'', d_type = ''Unsigned'', d_min = None, d_max = None\<rparr>),
      (168, \<lparr>d_name = ''Battery Voltage'', d_bytes = Some ''2'', d_type = ''Unsigned'', d_min = None, d_max = None\<rparr>)]"

definition sample_payload :: "jsnum \<Rightarrow> stream_payload" where
  "sample_payload la = \<lparr>s_deviceId = 7, s_serverTimeMs = 1700000000500, s_tsMs = 1700000000000, s_priority = 0,
     s_lat = la, s_lon = JNum 25, s_altitude = JNum 120, s_angle = JNum 400, s_satellites = 9, s_speed = JNum 51,
     s_io = [(239, InBig 1), (67, InBig 3900), (168, InBig 12400), (16, InBig (2 ^ 63)), (21, InNum 4), (999, InBuf [255])],
     s_raw = [1, 2]\<rparr>"


section \<open>No element is lost\<close>

definition promoted :: "int option \<Rightarrow> int \<times> stream_io \<Rightarrow> bool" where
  "promoted odoId e \<longleftrightarrow>
     (case snd e of InBuf b \<Rightarrow> False | _ \<Rightarrow> fst e = AVL_IGNITION \<or> fst e = AVL_MOVEMENT \<or> Some (fst e) = odoId)"

definition named_attr :: "dictionary \<Rightarrow> int \<times> stream_io \<Rightarrow> string \<times> jsval" where
  "named_attr dict e =
     (attr_name dict (fst e),
      case to_wire (snd e) of Inl u \<Rightarrow> JVUndefined | Inr v \<Rightarrow> attr_value (map_of dict (fst e)) v)"

definition read_decimal :: "string \<Rightarrow> nat" where
  "read_decimal s = foldl (\<lambda>a c. a * 10 + (of_char c - 48)) 0 s"

lemma read_decimal_string: "read_decimal (nat_string n) = n"
proof (induction n rule: nat_string.induct)
  case (1 n)
  show ?case
  proof (cases "n < 10")
    case True
    then show ?thesis by (simp add: nat_string.simps [of n] read_decimal_def)
  next
    case False
    with 1 show ?thesis by (simp add: nat_string.simps [of n] read_decimal_def)
  qed
qed

lemma nat_string_inj: "nat_string m = nat_string n \<longleftrightarrow> m = n"
  by (metis read_decimal_string)

lemma nat_string_digits: "c \<in> set (nat_string n) \<Longrightarrow> c \<noteq> CHR ''-''"
proof (induction n rule: nat_string.induct)
  case (1 n)
  have digit: "char_of (48 + d) \<noteq> CHR ''-''" if "d < 10" for d :: nat
  proof
    assume "char_of (48 + d) = CHR ''-''"
    then have "of_char (char_of (48 + d) :: char) = (of_char (CHR ''-'') :: nat)" by simp
    with that show False by simp
  qed
  show ?case using 1 digit [of n] digit [of "n mod 10"] by (auto simp: nat_string.simps [of n] split: if_splits)
qed

lemma nat_string_minus: "nat_string n \<noteq> CHR ''-'' # s"
  using nat_string_digits [of "CHR ''-''" n] by auto

lemma io_key_inj: "io_key i = io_key j \<longleftrightarrow> i = j"
  using nat_string_minus [symmetric] nat_string_minus
  by (auto simp: io_key_def int_string_def nat_string_inj)

lemma update_fresh: "k \<notin> fst ` set xs \<Longrightarrow> AList.update k v xs = xs @ [(k, v)]"
  by (induction xs) auto

lemma idsByName_from:
  "map_of (foldl (\<lambda>m (i, e). AList.update (d_name e) ((case map_of m (d_name e) of None \<Rightarrow> [] | Some ks \<Rightarrow> ks) @ [i]) m) m dict) n =
     (let ks = map fst (filter (\<lambda>(i, e). d_name e = n) dict) in
      if ks = [] then map_of m n else Some ((case map_of m n of None \<Rightarrow> [] | Some k0 \<Rightarrow> k0) @ ks))"
proof (induction dict arbitrary: m)
  case Nil
  then show ?case by simp
next
  case (Cons x dict)
  obtain i e where x: "x = (i, e)" by (cases x)
  show ?case by (auto simp: x Cons.IH update_conv' Let_def split: option.split)
qed

lemma shared_name_ambiguous:
  assumes "(i, e) \<in> set dict" and "(j, e') \<in> set dict" and "i \<noteq> j" and "d_name e' = d_name e"
  shows "i \<in> set (ambiguousInTable dict)"
proof -
  define ks where "ks = map fst (filter (\<lambda>(i, x). d_name x = d_name e) dict)"
  have i: "i \<in> set ks" and j: "j \<in> set ks" using assms by (force simp: ks_def)+
  have len: "1 < length ks"
  proof (rule ccontr)
    assume "\<not> 1 < length ks"
    then have "ks = [] \<or> (\<exists>k. ks = [k])" by (cases ks) auto
    with i j assms(3) show False by auto
  qed
  have "map_of (idsByName dict) (d_name e) = Some ks"
    using i unfolding idsByName_def idsByName_from by (auto simp: ks_def Let_def filter_empty_conv)
  then have "(d_name e, ks) \<in> set (idsByName dict)" by (rule map_of_SomeD)
  with len i show ?thesis unfolding ambiguousInTable_def by force
qed

lemma attr_name_inj:
  assumes names: "\<forall>(i, e) \<in> set dict. \<forall>j. d_name e \<noteq> io_key j"
    and eq: "attr_name dict i = attr_name dict j"
  shows "i = j"
proof (rule ccontr)
  assume "i \<noteq> j"
  have cases: "attr_name dict k = io_key k \<or>
    (\<exists>e. (k, e) \<in> set dict \<and> attr_name dict k = d_name e \<and> k \<notin> set (ambiguousInTable dict))" for k
    using map_of_SomeD [of dict k] by (auto simp: attr_name_def Let_def split: option.splits)
  from cases [of i] show False
  proof
    assume i: "attr_name dict i = io_key i"
    from cases [of j] show False using names \<open>i \<noteq> j\<close> i eq by (fastforce simp: io_key_inj)
  next
    assume "\<exists>e. (i, e) \<in> set dict \<and> attr_name dict i = d_name e \<and> i \<notin> set (ambiguousInTable dict)"
    then obtain e where e: "(i, e) \<in> set dict" "attr_name dict i = d_name e" "i \<notin> set (ambiguousInTable dict)" by blast
    from cases [of j] show False
    proof
      assume "attr_name dict j = io_key j"
      with e(2) eq have "d_name e = io_key j" by simp
      with names e(1) show False by blast
    next
      assume "\<exists>e'. (j, e') \<in> set dict \<and> attr_name dict j = d_name e' \<and> j \<notin> set (ambiguousInTable dict)"
      then obtain e' where "(j, e') \<in> set dict" "attr_name dict j = d_name e'" by blast
      with shared_name_ambiguous [OF e(1) _ \<open>i \<noteq> j\<close>] e eq show False by auto
    qed
  qed
qed

lemma io_element_attrs:
  assumes "to_wire x = Inr v" and "attr_name dict i \<notin> fst ` set (c_attrs c)"
  shows "c_attrs (io_element dict odo i v c) =
    c_attrs c @ (if promoted odo (i, x) then [] else [named_attr dict (i, x)])"
  using assms
  by (cases x) (auto simp: io_element_def to_wire_def promoted_def named_attr_def set_attr_def update_fresh split: if_splits)

lemma io_loop_attrs:
  assumes "io_loop dict odo els c = Inr c'" and "distinct (map fst els)"
    and names: "\<forall>(i, e) \<in> set dict. \<forall>j. d_name e \<noteq> io_key j"
    and "\<And>e. e \<in> set els \<Longrightarrow> attr_name dict (fst e) \<notin> fst ` set (c_attrs c)"
  shows "c_attrs c' = c_attrs c @ map (named_attr dict) (filter (\<lambda>e. \<not> promoted odo e) els)"
  using assms(1,2,4)
proof (induction els arbitrary: c)
  case Nil
  then show ?case by simp
next
  case (Cons e els)
  obtain i x where e: "e = (i, x)" by (cases e)
  with Cons.prems obtain v where v: "to_wire x = Inr v" "io_loop dict odo els (io_element dict odo i v c) = Inr c'"
    by (auto simp: bindE_eq_Inr)
  have here: "c_attrs (io_element dict odo i v c) = c_attrs c @ (if promoted odo e then [] else [named_attr dict e])"
    using io_element_attrs [OF v(1)] Cons.prems(3) e by force
  have "attr_name dict (fst f) \<notin> fst ` set (c_attrs (io_element dict odo i v c))" if "f \<in> set els" for f
  proof -
    have "fst f \<noteq> i" using Cons.prems(2) that e by auto
    then have "attr_name dict (fst f) \<noteq> attr_name dict i" using attr_name_inj [OF names] by blast
    then show ?thesis using Cons.prems(3) [of f] that e unfolding here by (auto simp: named_attr_def)
  qed
  from Cons.IH [OF v(2) _ this] Cons.prems(2) here show ?case by auto
qed

text \<open>No element of a record is lost, and where it is stored does not depend on the order of arrival. For a
  record whose coordinates are on the sphere, with distinct element ids, decoded with a dictionary that has
  no parameter named like an unknown element, the attributes of the row are exactly the elements that are
  not promoted to a column, each under a name that its id alone determines (different ids have different
  names, although dictionaries do share a name between parameters) with its value read as the
  dictionary says.\<close>

theorem normalize_never_drops:
  assumes "normalize_rec hash dict p = Inr (r, nulled)" and "on_sphere (s_lat p) (s_lon p)"
    and "distinct (map fst (s_io p))" and "\<forall>(i, e) \<in> set dict. \<forall>j. d_name e \<noteq> io_key j"
  shows "r_attrs r = map (named_attr dict) (filter (\<lambda>e. \<not> promoted (odometerIdFor dict) e) (s_io p)) \<and>
    inj (attr_name dict)"
proof
  obtain c where c: "io_loop dict (odometerIdFor dict) (s_io p)
       \<lparr>c_ignition = None, c_movement = None, c_odometerM = None, c_attrs = [], c_nulled = []\<rparr> = Inr c"
    and r: "r_attrs r = c_attrs c"
    using assms(1,2) by (auto simp: normalize_rec_def bindE_eq_Inr Let_def)
  show "r_attrs r = map (named_attr dict) (filter (\<lambda>e. \<not> promoted (odometerIdFor dict) e) (s_io p))"
    using io_loop_attrs [OF c assms(3,4)] r by simp
  show "inj (attr_name dict)" using attr_name_inj [OF assms(4)] by (auto intro: injI)
qed

lemma fmb_names: "(i, e) \<in> set fmb_dict \<Longrightarrow> d_name e \<noteq> io_key j"
  by (auto simp: fmb_dict_def io_key_def)

lemma fmb_odometer: "odometerIdFor fmb_dict = Some 16"
  by (simp add: odometerIdFor_def fmb_dict_def)

lemma normalize_never_drops_witness:
  "\<exists>r nulled. normalize_rec (\<lambda>_. 5) fmb_dict (sample_payload (JNum 54)) = Inr (r, nulled) \<and>
     map fst (r_attrs r) = map (attr_name fmb_dict) [67, 168, 21, 999] \<and> inj (attr_name fmb_dict)"
proof -
  have "\<exists>out. normalize_rec (\<lambda>_. 5) fmb_dict (sample_payload (JNum 54)) = Inr out"
    by (simp only: normalize_Inr) (simp add: sample_payload_def integral_def)
  then obtain r nulled where r: "normalize_rec (\<lambda>_. 5) fmb_dict (sample_payload (JNum 54)) = Inr (r, nulled)"
    by (metis surj_pair)
  from normalize_never_drops [OF r] fmb_names show ?thesis
    using r by (force simp: sample_payload_def on_sphere_def fmb_odometer promoted_def named_attr_def
      AVL_IGNITION_def AVL_MOVEMENT_def)
qed

lemma ambiguous_fmb: "attr_name fmb_dict 67 = ''io_67''" "attr_name fmb_dict 21 = ''GSM Signal''"
  by code_simp+

end
