(* ===== verification/Commands.thy ===== *)
theory Commands
  imports Session JsText Multisets
begin

text \<open>
  apps/worker/src/commands/reconcile.ts and dispatcher.ts, with \<open>isRetryableCommand\<close> of
  packages/shared/src/entities.ts: the queue, time-out and retry policy of device commands. An entry of
  a Redis list is the object it serialises, or text that does not parse. A run of the dispatcher is three reads
  followed by effects that depend on what was read; ingest (the drain of \<open>Session\<close>) and the API
  work on the same lists between any two of them.
\<close>

section \<open>Reconciliation\<close>

record cmd_response =
  rs_text :: string
  rs_nack :: bool

record reconcile_result =
  rr_acked :: "(string \<times> string) list"
  rr_failed :: "(string \<times> string) list"
  rr_resend :: "inflight_cmd list"
  rr_remaining :: "inflight_cmd list"
  rr_consumed :: nat

definition TIMEOUT_MS :: int where "TIMEOUT_MS = 30000"
definition MAX_ATTEMPTS :: int where "MAX_ATTEMPTS = 3"

text \<open>The pairing of responses with the head of the queue: acknowledged, rejected, the unanswered tail and the
  responses used.\<close>

fun pair_heads ::
  "inflight_cmd list \<Rightarrow> cmd_response list \<Rightarrow> (string \<times> string) list \<times> (string \<times> string) list \<times> inflight_cmd list \<times> nat" where
  "pair_heads (c # cs) (r # rs) =
     (let (a, f, tail, n) = pair_heads cs rs in
      if rs_nack r then (a, (ic_id c, ''device rejected (nack)'') # f, tail, Suc n)
      else ((ic_id c, rs_text r) # a, f, tail, Suc n))"
| "pair_heads cs rs = ([], [], cs, 0)"

fun time_out ::
  "int \<Rightarrow> int \<Rightarrow> int \<Rightarrow> (string \<Rightarrow> bool) \<Rightarrow> inflight_cmd list \<Rightarrow>
   inflight_cmd list \<times> inflight_cmd list \<times> (string \<times> string) list" where
  "time_out nowMs timeoutMs maxAttempts isRetryable [] = ([], [], [])"
| "time_out nowMs timeoutMs maxAttempts isRetryable (c # cs) =
     (let (rem, res, f) = time_out nowMs timeoutMs maxAttempts isRetryable cs in
      if nowMs - ic_sentAtMs c < timeoutMs then (c # rem, res, f)
      else if isRetryable (ic_text c) \<and> ic_attempt c + 1 < maxAttempts
      then (rem, c\<lparr>ic_attempt := ic_attempt c + 1\<rparr> # res, f)
      else (rem, res, (ic_id c, if isRetryable (ic_text c) then ''timeout (max retries)''
                                else ''timeout (non-retryable command)'') # f))"

definition reconcile ::
  "inflight_cmd list \<Rightarrow> cmd_response list \<Rightarrow> int \<Rightarrow> int \<Rightarrow> int \<Rightarrow> (string \<Rightarrow> bool) \<Rightarrow> reconcile_result" where
  "reconcile inflight responses nowMs timeoutMs maxAttempts isRetryable =
     (let (a, f, tail, n) = pair_heads inflight responses;
          (rem, res, f2) = time_out nowMs timeoutMs maxAttempts isRetryable tail in
      \<lparr>rr_acked = a, rr_failed = f @ f2, rr_resend = res, rr_remaining = rem, rr_consumed = n\<rparr>)"

definition lower_char :: "char \<Rightarrow> char" where
  "lower_char c = (let n = of_char c :: nat in if 65 \<le> n \<and> n \<le> 90 then char_of (n + 32) else c)"

definition isRetryableCommand :: "string \<Rightarrow> bool" where
  "isRetryableCommand t =
     (let verb = takeWhile (\<lambda>c. \<not> is_space c) (map lower_char (trim t)) in
      verb \<noteq> ''cpureset'' \<and> verb \<noteq> ''deleterecords'')"

section \<open>The dispatcher\<close>

datatype 'a raw = Bad string | Good 'a

fun good :: "'a raw list \<Rightarrow> 'a list" where
  "good [] = []"
| "good (Bad t # xs) = good xs"
| "good (Good x # xs) = x # good xs"

datatype status = Queued | Sent | Acked | FailedS | Expired

datatype effect =
    DbExpire string
  | LremPending queued_cmd
  | DbSent "string list"
  | DbAck string string
  | DbFail string string
  | DbQueued string
  | RpushPending queued_cmd
  | LremInflight inflight_cmd
  | LtrimResp nat
  | SremIfIdle

definition requeue :: "inflight_cmd \<Rightarrow> queued_cmd" where
  "requeue s = \<lparr>qc_id = ic_id s, qc_text = ic_text s, qc_attempt = Some (ic_attempt s), qc_expiresAtMs = ic_expiresAtMs s\<rparr>"

definition dispatch_result :: "int \<Rightarrow> inflight_cmd raw list \<Rightarrow> cmd_response raw list \<Rightarrow> reconcile_result" where
  "dispatch_result nowMs inflightRaw respRaw =
     reconcile (good inflightRaw) (good respRaw) nowMs TIMEOUT_MS MAX_ATTEMPTS isRetryableCommand"

text \<open>Everything \<open>processDevice\<close> does after its three reads, in order.\<close>

definition processDevice ::
  "int \<Rightarrow> inflight_cmd raw list \<Rightarrow> cmd_response raw list \<Rightarrow> queued_cmd raw list \<Rightarrow> effect list" where
  "processDevice nowMs inflightRaw respRaw pendingRaw =
     (let inflight = good inflightRaw; r = dispatch_result nowMs inflightRaw respRaw;
          keepIds = map ic_id (rr_remaining r);
          dropCount = (if rr_remaining r = [] then length respRaw else rr_consumed r) in
      concat (map (\<lambda>p. if expired p nowMs then [DbExpire (qc_id p), LremPending p] else []) (good pendingRaw)) @
      (if inflight = [] then [] else [DbSent (map ic_id inflight)]) @
      map (\<lambda>(i, t). DbAck i t) (rr_acked r) @
      map (\<lambda>(i, t). DbFail i t) (rr_failed r) @
      concat (map (\<lambda>s. [DbQueued (ic_id s), RpushPending (requeue s)]) (rr_resend r)) @
      map LremInflight (filter (\<lambda>c. ic_id c \<notin> set keepIds) inflight) @
      (if dropCount = 0 then [] else [LtrimResp dropCount]) @
      (if rr_remaining r = [] then [SremIfIdle] else []))"

record cmd_store =
  cs_pending :: "queued_cmd raw list"
  cs_inflight :: "inflight_cmd raw list"
  cs_resp :: "cmd_response raw list"
  cs_active :: bool
  cs_db :: "string \<Rightarrow> (status \<times> string) option"

definition open_row :: "string \<Rightarrow> cmd_store \<Rightarrow> bool" where
  "open_row i st = (case cs_db st i of None \<Rightarrow> False | Some (s, t) \<Rightarrow> s = Queued \<or> s = Sent)"

definition set_row :: "string \<Rightarrow> status \<Rightarrow> string \<Rightarrow> cmd_store \<Rightarrow> cmd_store" where
  "set_row i s t st = (if open_row i st then st\<lparr>cs_db := (cs_db st)(i := Some (s, t))\<rparr> else st)"

definition mark_sent :: "string \<Rightarrow> cmd_store \<Rightarrow> cmd_store" where
  "mark_sent i st =
     (case cs_db st i of Some (Queued, t) \<Rightarrow> st\<lparr>cs_db := (cs_db st)(i := Some (Sent, t))\<rparr> | _ \<Rightarrow> st)"

definition row_text :: "string \<Rightarrow> cmd_store \<Rightarrow> string" where
  "row_text i st = (case cs_db st i of None \<Rightarrow> [] | Some (s, t) \<Rightarrow> t)"

text \<open>The sweep of a dispatch tick expires any open row past its time.\<close>

definition expire_row :: "string \<Rightarrow> cmd_store \<Rightarrow> cmd_store" where
  "expire_row i st = set_row i Expired (row_text i st) st"

fun apply_effect :: "effect \<Rightarrow> cmd_store \<Rightarrow> cmd_store" where
  "apply_effect (DbExpire i) st = expire_row i st"
| "apply_effect (LremPending p) st = st\<lparr>cs_pending := remove1 (Good p) (cs_pending st)\<rparr>"
| "apply_effect (DbSent is) st = fold mark_sent is st"
| "apply_effect (DbAck i t) st = set_row i Acked t st"
| "apply_effect (DbFail i t) st = set_row i FailedS t st"
| "apply_effect (DbQueued i) st = set_row i Queued (row_text i st) st"
| "apply_effect (RpushPending p) st = st\<lparr>cs_pending := cs_pending st @ [Good p]\<rparr>"
| "apply_effect (LremInflight c) st = st\<lparr>cs_inflight := remove1 (Good c) (cs_inflight st)\<rparr>"
| "apply_effect (LtrimResp n) st = st\<lparr>cs_resp := drop n (cs_resp st)\<rparr>"
| "apply_effect SremIfIdle st =
     (if cs_pending st = [] \<and> cs_inflight st = [] then st\<lparr>cs_active := False\<rparr> else st)"

section \<open>Reconciliation is exact\<close>

lemma pair_heads_spec:
  "pair_heads cs rs = (a, f, tail, n) \<Longrightarrow>
     n = min (length cs) (length rs) \<and> tail = drop n cs \<and>
     a = map (\<lambda>(c, r). (ic_id c, rs_text r)) (filter (\<lambda>(c, r). \<not> rs_nack r) (zip cs rs)) \<and>
     f = map (\<lambda>(c, r). (ic_id c, ''device rejected (nack)'')) (filter (\<lambda>(c, r). rs_nack r) (zip cs rs))"
  by (induction cs rs arbitrary: a f tail n rule: pair_heads.induct) (auto split: prod.splits if_splits)

definition pending_window :: "int \<Rightarrow> int \<Rightarrow> inflight_cmd \<Rightarrow> bool" where
  "pending_window nowMs timeoutMs c \<longleftrightarrow> nowMs - ic_sentAtMs c < timeoutMs"

definition may_retry :: "int \<Rightarrow> (string \<Rightarrow> bool) \<Rightarrow> inflight_cmd \<Rightarrow> bool" where
  "may_retry maxAttempts isRetryable c \<longleftrightarrow> isRetryable (ic_text c) \<and> ic_attempt c + 1 < maxAttempts"

lemma time_out_spec:
  "time_out now tmo mx rt cs =
     (filter (pending_window now tmo) cs,
      map (\<lambda>c. c\<lparr>ic_attempt := ic_attempt c + 1\<rparr>) (filter (\<lambda>c. \<not> pending_window now tmo c \<and> may_retry mx rt c) cs),
      map (\<lambda>c. (ic_id c, if rt (ic_text c) then ''timeout (max retries)'' else ''timeout (non-retryable command)''))
        (filter (\<lambda>c. \<not> pending_window now tmo c \<and> \<not> may_retry mx rt c) cs))"
  by (induction cs) (auto simp: pending_window_def may_retry_def Let_def)

text \<open>Reconciliation is exact. The n-th response answers the n-th command in flight, acknowledging or
  rejecting it; of the others, those inside their response window wait, those past it are sent again with the
  attempt counted exactly if they may be repeated and attempts are left, and the rest fail. Every command in
  flight has exactly one of the four outcomes, and every response is used or kept.\<close>

theorem reconcile_exact:
  "let r = reconcile cs rs now tmo mx rt; n = min (length cs) (length rs); late = filter (\<lambda>c. \<not> pending_window now tmo c) (drop n cs) in
   rr_consumed r = n \<and>
   rr_acked r = map (\<lambda>(c, x). (ic_id c, rs_text x)) (filter (\<lambda>(c, x). \<not> rs_nack x) (zip cs rs)) \<and>
   rr_remaining r = filter (pending_window now tmo) (drop n cs) \<and>
   rr_resend r = map (\<lambda>c. c\<lparr>ic_attempt := ic_attempt c + 1\<rparr>) (filter (may_retry mx rt) late) \<and>
   map fst (rr_failed r) = map (ic_id \<circ> fst) (filter (\<lambda>(c, x). rs_nack x) (zip cs rs)) @
     map ic_id (filter (\<lambda>c. \<not> may_retry mx rt c) late) \<and>
   mset (map fst (rr_acked r) @ map fst (rr_failed r) @ map ic_id (rr_resend r) @ map ic_id (rr_remaining r)) = mset (map ic_id cs)"
proof -
  obtain a f tail n where h: "pair_heads cs rs = (a, f, tail, n)" by (cases "pair_heads cs rs")
  note p = pair_heads_spec [OF h]
  define late where "late = filter (\<lambda>c. \<not> pending_window now tmo c) (drop n cs)"
  have r: "reconcile cs rs now tmo mx rt = \<lparr>rr_acked = a,
      rr_failed = f @ map (\<lambda>c. (ic_id c, if rt (ic_text c) then ''timeout (max retries)'' else ''timeout (non-retryable command)''))
        (filter (\<lambda>c. \<not> may_retry mx rt c) late),
      rr_resend = map (\<lambda>c. c\<lparr>ic_attempt := ic_attempt c + 1\<rparr>) (filter (may_retry mx rt) late),
      rr_remaining = filter (pending_window now tmo) (drop n cs), rr_consumed = n\<rparr>"
    unfolding reconcile_def h late_def using p by (simp add: time_out_spec conj_commute)
  have "mset (map fst a) + mset (map fst f) = mset (map (ic_id \<circ> fst) (zip cs rs))"
    using p mset_filter_split [of "ic_id \<circ> fst" "\<lambda>(c, x). \<not> rs_nack x" "zip cs rs"]
    by (simp add: comp_def case_prod_unfold)
  also have "map (ic_id \<circ> fst) (zip cs rs) = map ic_id (take n cs)"
    using p by (simp add: map_fst_zip_take flip: map_map)
  finally have heads: "mset (map fst a) + mset (map fst f) = mset (map ic_id (take n cs))" .
  have tails: "mset (map ic_id (filter (may_retry mx rt) late)) + mset (map ic_id (filter (\<lambda>c. \<not> may_retry mx rt c) late)) +
      mset (map ic_id (filter (pending_window now tmo) (drop n cs))) = mset (map ic_id (drop n cs))"
    unfolding mset_filter_split late_def
    using mset_filter_split [of ic_id "pending_window now tmo" "drop n cs"] by (simp add: add.commute)
  have whole: "mset (map ic_id (take n cs)) + mset (map ic_id (drop n cs)) = mset (map ic_id cs)"
    by (metis append_take_drop_id map_append mset_append)
  define fates where "fates = map (\<lambda>c. (ic_id c, if rt (ic_text c) then ''timeout (max retries)'' else ''timeout (non-retryable command)''))
        (filter (\<lambda>c. \<not> may_retry mx rt c) late)"
  define again where "again = map (\<lambda>c. c\<lparr>ic_attempt := ic_attempt c + 1\<rparr>) (filter (may_retry mx rt) late)"
  have fate: "map fst fates = map ic_id (filter (\<lambda>c. \<not> may_retry mx rt c) late)" by (simp add: fates_def comp_def)
  have ag: "map ic_id again = map ic_id (filter (may_retry mx rt) late)" by (simp add: again_def comp_def)
  have part: "mset (map fst a @ map fst (f @ fates) @ map ic_id again @ map ic_id (filter (pending_window now tmo) (drop n cs)))
      = mset (map ic_id cs)"
    unfolding whole [symmetric] heads [symmetric] tails [symmetric] map_append mset_append fate ag
    by (simp only: ac_simps)
  have ff: "map fst f = map (ic_id \<circ> fst) (filter (\<lambda>(c, x). rs_nack x) (zip cs rs))"
    using p by (simp add: comp_def case_prod_unfold)
  show ?thesis
    unfolding r Let_def reconcile_result.simps
    using p part ff fate by (simp add: late_def fates_def again_def del: mset_map)
qed

end
