(* ===== verification/CommandFlow.thy ===== *)
theory CommandFlow
  imports Commands
begin

text \<open>
  The life of device commands across the three programs that share the lists of one device: the API queues a
  command, ingest delivers it (\<open>inflight_of\<close> and \<open>expired\<close> of \<open>Session\<close>), the dispatcher
  reconciles. The steps interleave freely: the dispatcher's reads and effects are single steps. A dispatcher run
  that has started completes; a worker killed in the middle of one is not covered.
\<close>

section \<open>The system\<close>

datatype dispatcher =
    Idle
  | ReadOne "inflight_cmd raw list"
  | ReadTwo "inflight_cmd raw list" "cmd_response raw list"
  | Run "effect list"

record flow =
  fl_st :: cmd_store
  fl_pc :: dispatcher
  fl_now :: int
  fl_rows :: "string \<Rightarrow> (string \<times> int option) option"
  fl_sends :: "(string \<times> int) list"

definition empty_flow :: "int \<Rightarrow> flow" where
  "empty_flow t = \<lparr>fl_st = \<lparr>cs_pending = [], cs_inflight = [], cs_resp = [], cs_active = False, cs_db = (\<lambda>i. None)\<rparr>,
     fl_pc = Idle, fl_now = t, fl_rows = (\<lambda>i. None), fl_sends = []\<rparr>"

definition enqueue_cmd :: "string \<Rightarrow> string \<Rightarrow> int option \<Rightarrow> flow \<Rightarrow> flow" where
  "enqueue_cmd i t e x =
     x\<lparr>fl_rows := (fl_rows x)(i := Some (t, e)),
       fl_st := (fl_st x)\<lparr>cs_db := (cs_db (fl_st x))(i := Some (Queued, [])), cs_active := True,
         cs_pending := cs_pending (fl_st x) @ [Good \<lparr>qc_id = i, qc_text = t, qc_attempt = Some 0, qc_expiresAtMs = e\<rparr>]\<rparr>\<rparr>"

definition deliver_cmd :: "queued_cmd \<Rightarrow> queued_cmd raw list \<Rightarrow> flow \<Rightarrow> flow" where
  "deliver_cmd p rest x =
     x\<lparr>fl_sends := fl_sends x @ [(qc_id p, fl_now x)],
       fl_st := (fl_st x)\<lparr>cs_pending := rest, cs_active := True,
         cs_inflight := cs_inflight (fl_st x) @ [Good (inflight_of p (fl_now x))]\<rparr>\<rparr>"

text \<open>\<open>Deliver\<close> is one turn of the drain loop that sends; \<open>Discard\<close> is one that does not (malformed, expired,
  not encodable) or that fails after the entry was taken.\<close>

inductive flow_step :: "flow \<Rightarrow> flow \<Rightarrow> bool" where
  Enqueue: "fl_rows x i = None \<Longrightarrow> flow_step x (enqueue_cmd i t e x)"
| Respond: "flow_step x (x\<lparr>fl_st := (fl_st x)\<lparr>cs_resp := cs_resp (fl_st x) @ [r], cs_active := True\<rparr>\<rparr>)"
| Deliver: "cs_pending (fl_st x) = Good p # rest \<Longrightarrow> \<not> expired p (fl_now x) \<Longrightarrow> flow_step x (deliver_cmd p rest x)"
| Discard: "cs_pending (fl_st x) = q # rest \<Longrightarrow> flow_step x (x\<lparr>fl_st := (fl_st x)\<lparr>cs_pending := rest\<rparr>\<rparr>)"
| Clock: "fl_now x \<le> t \<Longrightarrow> flow_step x (x\<lparr>fl_now := t\<rparr>)"
| ReadInflight: "fl_pc x = Idle \<Longrightarrow> flow_step x (x\<lparr>fl_pc := ReadOne (cs_inflight (fl_st x))\<rparr>)"
| ReadResponses: "fl_pc x = ReadOne inp \<Longrightarrow> flow_step x (x\<lparr>fl_pc := ReadTwo inp (cs_resp (fl_st x))\<rparr>)"
| ReadPending: "fl_pc x = ReadTwo inp rsp \<Longrightarrow> nowMs \<le> fl_now x \<Longrightarrow>
    flow_step x (x\<lparr>fl_pc := Run (processDevice nowMs inp rsp (cs_pending (fl_st x)))\<rparr>)"
| Effect: "fl_pc x = Run (e # es) \<Longrightarrow> flow_step x (x\<lparr>fl_st := apply_effect e (fl_st x), fl_pc := Run es\<rparr>)"
| Done: "fl_pc x = Run [] \<Longrightarrow> flow_step x (x\<lparr>fl_pc := Idle\<rparr>)"
| Sweep: "flow_step x (x\<lparr>fl_st := expire_row i (fl_st x)\<rparr>)"

inductive flow_reach :: "flow \<Rightarrow> bool" where
  Init: "flow_reach (empty_flow t)"
| More: "flow_reach x \<Longrightarrow> flow_step x y \<Longrightarrow> flow_reach y"

section \<open>Every command is one chain\<close>

fun pushes :: "effect list \<Rightarrow> queued_cmd list" where
  "pushes [] = []"
| "pushes (RpushPending p # es) = p # pushes es"
| "pushes (e # es) = pushes es"

fun kills :: "effect list \<Rightarrow> inflight_cmd list" where
  "kills [] = []"
| "kills (LremInflight c # es) = c # kills es"
| "kills (e # es) = kills es"

lemma pushes_append: "pushes (a @ b) = pushes a @ pushes b"
  by (induction a rule: pushes.induct) auto

lemma kills_append: "kills (a @ b) = kills a @ kills b"
  by (induction a rule: kills.induct) auto

lemma good_append: "good (xs @ ys) = good xs @ good ys"
  by (induction xs rule: good.induct) auto

lemma good_remove1: "good (remove1 (Good x) xs) = remove1 x (good xs)"
  by (induction xs rule: good.induct) auto

definition sends_of :: "string \<Rightarrow> (string \<times> int) list \<Rightarrow> int" where
  "sends_of i sent = int (length (filter (\<lambda>s. fst s = i) sent))"

lemma sends_of_append: "sends_of i (sent @ [(j, t)]) = sends_of i sent + (if j = i then 1 else 0)"
  by (simp add: sends_of_def)

text \<open>\<open>attempt_ok\<close>: a step of the chain of command \<open>i\<close> that stands for attempt number \<open>a\<close>.\<close>

definition attempt_ok :: "(string \<Rightarrow> (string \<times> int option) option) \<Rightarrow> string \<Rightarrow> string \<Rightarrow> int option \<Rightarrow> int \<Rightarrow> bool" where
  "attempt_ok rows i t e a \<longleftrightarrow> rows i = Some (t, e) \<and> a < 3 \<and> (\<not> isRetryableCommand t \<longrightarrow> a = 0)"

definition chains_ok ::
  "(string \<Rightarrow> (string \<times> int option) option) \<Rightarrow> (string \<times> int) list \<Rightarrow> queued_cmd list \<Rightarrow> queued_cmd list \<Rightarrow>
   inflight_cmd list \<Rightarrow> inflight_cmd list \<Rightarrow> bool" where
  "chains_ok rows sent pend redo kill infl \<longleftrightarrow>
     distinct (map qc_id pend @ map qc_id redo @ map ic_id (filter (\<lambda>c. c \<notin> set kill) infl)) \<and>
     (\<forall>p \<in> set pend \<union> set redo. qc_attempt p = Some (sends_of (qc_id p) sent) \<and>
        attempt_ok rows (qc_id p) (qc_text p) (qc_expiresAtMs p) (sends_of (qc_id p) sent)) \<and>
     (\<forall>c \<in> set infl - set kill. ic_attempt c + 1 = sends_of (ic_id c) sent \<and>
        attempt_ok rows (ic_id c) (ic_text c) (ic_expiresAtMs c) (ic_attempt c)) \<and>
     (\<forall>c \<in> set infl \<union> set kill. ic_attempt c + 1 \<le> sends_of (ic_id c) sent) \<and>
     distinct infl"

definition send_ok :: "(string \<Rightarrow> (string \<times> int option) option) \<Rightarrow> (string \<times> int) list \<Rightarrow> string \<times> int \<Rightarrow> bool" where
  "send_ok rows sent s \<longleftrightarrow>
     (\<exists>txt e. rows (fst s) = Some (txt, e) \<and> (\<forall>d. e = Some d \<longrightarrow> snd s < d) \<and>
        sends_of (fst s) sent \<le> 3 \<and> (\<not> isRetryableCommand txt \<longrightarrow> sends_of (fst s) sent \<le> 1))"

definition sends_ok :: "(string \<Rightarrow> (string \<times> int option) option) \<Rightarrow> (string \<times> int) list \<Rightarrow> bool" where
  "sends_ok rows sent \<longleftrightarrow> (\<forall>s \<in> set sent. send_ok rows sent s)"

lemma chains_push: "chains_ok rows sent pend (p # redo) kill infl \<Longrightarrow> chains_ok rows sent (pend @ [p]) redo kill infl"
  by (auto simp: chains_ok_def)

lemma chains_shrink:
  assumes c: "chains_ok rows sent pend redo kill infl" and sub: "set pend' \<subseteq> set pend" and d: "distinct (map qc_id pend')"
  shows "chains_ok rows sent pend' redo kill infl"
proof -
  have ids: "set (map qc_id pend') \<subseteq> set (map qc_id pend)" using sub by auto
  have "distinct (map qc_id pend' @ map qc_id redo @ map ic_id (filter (\<lambda>c. c \<notin> set kill) infl))"
    using c d ids unfolding chains_ok_def distinct_append by blast
  moreover have "\<forall>p \<in> set pend' \<union> set redo. qc_attempt p = Some (sends_of (qc_id p) sent) \<and>
        attempt_ok rows (qc_id p) (qc_text p) (qc_expiresAtMs p) (sends_of (qc_id p) sent)"
    using c sub unfolding chains_ok_def by blast
  ultimately show ?thesis using c unfolding chains_ok_def by blast
qed

lemma chains_unpend:
  assumes c: "chains_ok rows sent pend redo kill infl"
  shows "chains_ok rows sent (remove1 p pend) redo kill infl"
proof (rule chains_shrink [OF c set_remove1_subset])
  from c have "distinct (map qc_id pend)" by (simp add: chains_ok_def)
  then show "distinct (map qc_id (remove1 p pend))"
    by (metis distinct_map distinct_remove1 inj_on_subset set_remove1_subset)
qed

lemma chains_tail:
  assumes c: "chains_ok rows sent (p # pend) redo kill infl"
  shows "chains_ok rows sent pend redo kill infl"
  by (rule chains_shrink [OF c]) (use c in \<open>auto simp: chains_ok_def\<close>)

lemma chains_kill: "chains_ok rows sent pend redo (c # kill) infl \<Longrightarrow> chains_ok rows sent pend redo kill (remove1 c infl)"
proof -
  assume c: "chains_ok rows sent pend redo (c # kill) infl"
  then have d: "distinct infl" by (simp add: chains_ok_def)
  have "filter (\<lambda>x. x \<notin> set kill) (remove1 c infl) = filter (\<lambda>x. x \<notin> set (c # kill)) infl"
    using d by (auto simp: distinct_remove1_removeAll removeAll_filter_not_eq conj_commute intro: filter_cong)
  moreover have "set (remove1 c infl) = set infl - {c}" using d by simp
  ultimately show ?thesis using c d by (simp add: chains_ok_def) blast
qed

lemma chains_enqueue:
  assumes c: "chains_ok rows sent pend redo kill infl" and new: "rows i = None" and unsent: "sends_of i sent = 0"
  shows "chains_ok (rows(i := Some (t, e))) sent
    (pend @ [\<lparr>qc_id = i, qc_text = t, qc_attempt = Some 0, qc_expiresAtMs = e\<rparr>]) redo kill infl"
proof -
  have known: "\<forall>p \<in> set pend \<union> set redo. qc_id p \<noteq> i" "\<forall>f \<in> set infl - set kill. ic_id f \<noteq> i"
    using c new by (auto simp: chains_ok_def attempt_ok_def)
  have d: "distinct (map qc_id pend @ map qc_id redo @ map ic_id (filter (\<lambda>c. c \<notin> set kill) infl))"
    using c by (simp add: chains_ok_def)
  have d': "distinct (map qc_id (pend @ [\<lparr>qc_id = i, qc_text = t, qc_attempt = Some 0, qc_expiresAtMs = e\<rparr>]) @
      map qc_id redo @ map ic_id (filter (\<lambda>c. c \<notin> set kill) infl))"
    using d known by auto
  have keep: "attempt_ok (rows(i := Some (t, e))) j t' e' a \<longleftrightarrow> attempt_ok rows j t' e' a" if "j \<noteq> i" for j t' e' a
    using that by (simp add: attempt_ok_def)
  have fresh: "attempt_ok (rows(i := Some (t, e))) i t e 0" by (simp add: attempt_ok_def)
  show ?thesis
    unfolding chains_ok_def
    using c known d' keep fresh unsent by (auto simp: chains_ok_def)
qed

lemma chains_deliver:
  assumes c: "chains_ok rows sent (p # pend) redo kill infl"
  shows "chains_ok rows (sent @ [(qc_id p, now)]) pend redo kill (infl @ [inflight_of p now])"
proof -
  have c2: "\<forall>q \<in> set pend \<union> set redo. qc_attempt q = Some (sends_of (qc_id q) sent) \<and>
        attempt_ok rows (qc_id q) (qc_text q) (qc_expiresAtMs q) (sends_of (qc_id q) sent)"
    and c3: "\<forall>g \<in> set infl - set kill. ic_attempt g + 1 = sends_of (ic_id g) sent \<and>
        attempt_ok rows (ic_id g) (ic_text g) (ic_expiresAtMs g) (ic_attempt g)"
    and c4: "\<forall>g \<in> set infl \<union> set kill. ic_attempt g + 1 \<le> sends_of (ic_id g) sent"
    using c by (simp_all add: chains_ok_def)
  define f where "f = inflight_of p now"
  from c have p: "qc_attempt p = Some (sends_of (qc_id p) sent)"
    "attempt_ok rows (qc_id p) (qc_text p) (qc_expiresAtMs p) (sends_of (qc_id p) sent)"
    by (auto simp: chains_ok_def)
  have f: "ic_id f = qc_id p" "ic_text f = qc_text p" "ic_expiresAtMs f = qc_expiresAtMs p" "ic_attempt f = sends_of (qc_id p) sent"
    using p(1) by (simp_all add: f_def inflight_of_def)
  have new: "f \<notin> set infl \<union> set kill"
  proof
    assume "f \<in> set infl \<union> set kill"
    with c have "ic_attempt f + 1 \<le> sends_of (ic_id f) sent" unfolding chains_ok_def by blast
    with f show False by simp
  qed
  have nm: "qc_id p \<notin> qc_id ` (set pend \<union> set redo)" "qc_id p \<notin> ic_id ` (set infl - set kill)"
    using c by (auto simp: chains_ok_def)
  have others: "\<forall>q \<in> set pend \<union> set redo. qc_id q \<noteq> qc_id p" "\<forall>g \<in> set infl - set kill. ic_id g \<noteq> qc_id p"
    using nm by (metis imageI)+
  have d: "distinct (map qc_id pend @ map qc_id redo @ map ic_id (filter (\<lambda>c. c \<notin> set kill) (infl @ [f])))"
    using c new f(1) by (auto simp: chains_ok_def)
  have mono: "sends_of j sent \<le> sends_of j (sent @ [(qc_id p, now)])" for j by (simp add: sends_of_append)
  have same: "sends_of j (sent @ [(qc_id p, now)]) = sends_of j sent" if "j \<noteq> qc_id p" for j
    using that by (simp add: sends_of_append)
  have queued: "\<forall>q \<in> set pend \<union> set redo. qc_attempt q = Some (sends_of (qc_id q) (sent @ [(qc_id p, now)])) \<and>
        attempt_ok rows (qc_id q) (qc_text q) (qc_expiresAtMs q) (sends_of (qc_id q) (sent @ [(qc_id p, now)]))"
    using c2 others(1) same by simp
  have flying: "\<forall>g \<in> set (infl @ [f]) - set kill. ic_attempt g + 1 = sends_of (ic_id g) (sent @ [(qc_id p, now)]) \<and>
        attempt_ok rows (ic_id g) (ic_text g) (ic_expiresAtMs g) (ic_attempt g)"
  proof
    fix g
    assume g: "g \<in> set (infl @ [f]) - set kill"
    show "ic_attempt g + 1 = sends_of (ic_id g) (sent @ [(qc_id p, now)]) \<and>
        attempt_ok rows (ic_id g) (ic_text g) (ic_expiresAtMs g) (ic_attempt g)"
    proof (cases "g = f")
      case True
      with f p(2) show ?thesis by (simp add: sends_of_append)
    next
      case False
      with g have "g \<in> set infl - set kill" by simp
      with c3 others(2) same show ?thesis by simp
    qed
  qed
  have past: "\<forall>g \<in> set (infl @ [f]) \<union> set kill. ic_attempt g + 1 \<le> sends_of (ic_id g) (sent @ [(qc_id p, now)])"
  proof
    fix g
    assume g: "g \<in> set (infl @ [f]) \<union> set kill"
    show "ic_attempt g + 1 \<le> sends_of (ic_id g) (sent @ [(qc_id p, now)])"
    proof (cases "g = f")
      case True
      with f show ?thesis by (simp add: sends_of_append)
    next
      case False
      with g have "g \<in> set infl \<union> set kill" by auto
      with c4 have "ic_attempt g + 1 \<le> sends_of (ic_id g) sent" by blast
      with mono [of "ic_id g"] show ?thesis by linarith
    qed
  qed
  have "distinct (infl @ [f])" using c new by (simp add: chains_ok_def)
  with d queued flying past show ?thesis unfolding chains_ok_def f_def by blast
qed

lemma reconcile_tail:
  obtains n where "rr_remaining (reconcile cs rs now tmo mx rt) = filter (pending_window now tmo) (drop n cs)"
    and "rr_resend (reconcile cs rs now tmo mx rt) =
      map (\<lambda>c. c\<lparr>ic_attempt := ic_attempt c + 1\<rparr>) (filter (\<lambda>c. \<not> pending_window now tmo c \<and> may_retry mx rt c) (drop n cs))"
proof -
  obtain a f tail n where h: "pair_heads cs rs = (a, f, tail, n)" by (cases "pair_heads cs rs")
  then have "tail = drop n cs" by (simp add: pair_heads_spec)
  with h that show ?thesis by (simp add: reconcile_def time_out_spec)
qed

lemma pushes_none: "(\<And>p. RpushPending p \<notin> set es) \<Longrightarrow> pushes es = []"
  by (induction es rule: pushes.induct) auto

lemma kills_none: "(\<And>c. LremInflight c \<notin> set es) \<Longrightarrow> kills es = []"
  by (induction es rule: kills.induct) auto

lemma pushes_requeue: "pushes (concat (map (\<lambda>s. [DbQueued (ic_id s), RpushPending (requeue s)]) ss)) = map requeue ss"
  by (induction ss) simp_all

lemma kills_lrem: "kills (map LremInflight cs) = cs"
  by (induction cs) simp_all

lemma pushes_processDevice:
  "pushes (processDevice now inp rsp pend) = map requeue (rr_resend (dispatch_result now inp rsp))"
proof -
  have purge: "pushes (concat (map (\<lambda>p. if expired p now then [DbExpire (qc_id p), LremPending p] else []) ps)) = []" for ps
    by (rule pushes_none) auto
  have ack: "pushes (map (\<lambda>(i, t). DbAck i t) l) = []" "pushes (map (\<lambda>(i, t). DbFail i t) l) = []" for l
    by (rule pushes_none; auto)+
  have lrem: "pushes (map LremInflight cs) = []" for cs by (rule pushes_none) auto
  show ?thesis by (simp add: processDevice_def Let_def pushes_append purge ack lrem pushes_requeue)
qed

lemma kills_processDevice:
  "kills (processDevice now inp rsp pend) =
     filter (\<lambda>c. ic_id c \<notin> ic_id ` set (rr_remaining (dispatch_result now inp rsp))) (good inp)"
proof -
  have purge: "kills (concat (map (\<lambda>p. if expired p now then [DbExpire (qc_id p), LremPending p] else []) ps)) = []" for ps
    by (rule kills_none) auto
  have ack: "kills (map (\<lambda>(i, t). DbAck i t) l) = []" "kills (map (\<lambda>(i, t). DbFail i t) l) = []" for l
    by (rule kills_none; auto)+
  have requeue: "kills (concat (map (\<lambda>s. [DbQueued (ic_id s), RpushPending (requeue s)]) ss)) = []" for ss
    by (rule kills_none) auto
  show ?thesis by (simp add: processDevice_def Let_def kills_append purge ack requeue kills_lrem)
qed

lemma chains_plan:
  assumes c: "chains_ok rows sent pend [] [] (good inp @ later)"
  shows "chains_ok rows sent pend (pushes (processDevice now inp rsp pn)) (kills (processDevice now inp rsp pn)) (good inp @ later)"
proof -
  define cs where "cs = good inp"
  define r where "r = dispatch_result now inp rsp"
  obtain n where rem: "rr_remaining r = filter (pending_window now TIMEOUT_MS) (drop n cs)"
    and res: "rr_resend r = map (\<lambda>c. c\<lparr>ic_attempt := ic_attempt c + 1\<rparr>)
      (filter (\<lambda>c. \<not> pending_window now TIMEOUT_MS c \<and> may_retry MAX_ATTEMPTS isRetryableCommand c) (drop n cs))"
    unfolding r_def dispatch_result_def cs_def by (rule reconcile_tail)
  define late where "late = filter (\<lambda>c. \<not> pending_window now TIMEOUT_MS c \<and> may_retry MAX_ATTEMPTS isRetryableCommand c) (drop n cs)"
  define kill where "kill = filter (\<lambda>c. ic_id c \<notin> ic_id ` set (rr_remaining r)) cs"
  define redo where "redo = map requeue (rr_resend r)"
  have d: "distinct (map qc_id pend @ map ic_id (cs @ later))"
    and queued: "\<forall>p \<in> set pend. qc_attempt p = Some (sends_of (qc_id p) sent) \<and>
        attempt_ok rows (qc_id p) (qc_text p) (qc_expiresAtMs p) (sends_of (qc_id p) sent)"
    and flying: "\<forall>g \<in> set (cs @ later). ic_attempt g + 1 = sends_of (ic_id g) sent \<and>
        attempt_ok rows (ic_id g) (ic_text g) (ic_expiresAtMs g) (ic_attempt g)"
    and once: "distinct (cs @ later)"
    using c by (auto simp: chains_ok_def cs_def)
  have inj: "g = h" if "g \<in> set (cs @ later)" "h \<in> set (cs @ later)" "ic_id g = ic_id h" for g h
    using d that unfolding distinct_append distinct_map by (meson inj_onD)
  have late_cs: "set late \<subseteq> set cs" "set (rr_remaining r) \<subseteq> set cs" using rem by (auto simp: late_def dest: in_set_dropD)
  have redo_ids: "map qc_id redo = map ic_id late" unfolding redo_def res late_def by (simp add: requeue_def)
  have "distinct (map ic_id (drop n cs))" using d by (simp add: drop_map [symmetric])
  then have redo_distinct: "distinct (map qc_id redo)" unfolding redo_ids late_def by (rule distinct_map_filter)
  have live_distinct: "distinct (map ic_id (filter (\<lambda>g. g \<notin> set kill) (cs @ later)))"
    using d by (intro distinct_map_filter) simp
  have apart: "ic_id g \<noteq> ic_id l" if g: "g \<in> set (cs @ later)" "g \<notin> set kill" and l: "l \<in> set late" for g l
  proof
    assume eq: "ic_id g = ic_id l"
    with inj g(1) l late_cs have "g = l" by auto
    with g(2) l late_cs have "ic_id l \<in> ic_id ` set (rr_remaining r)" by (auto simp: kill_def)
    then obtain m where m: "m \<in> set (rr_remaining r)" "ic_id l = ic_id m" by auto
    with inj [of l m] l late_cs have "m = l" by auto
    with m(1) l show False by (simp add: rem late_def)
  qed
  have chain: "distinct (map qc_id pend @ map qc_id redo @ map ic_id (filter (\<lambda>g. g \<notin> set kill) (cs @ later)))"
  proof -
    have sep1: "ic_id ` set late \<inter> ic_id ` set (filter (\<lambda>g. g \<notin> set kill) (cs @ later)) = {}"
    proof (intro equals0I, elim IntE imageE)
      fix i l g
      assume "i = ic_id l" "l \<in> set late" "i = ic_id g" "g \<in> set (filter (\<lambda>g. g \<notin> set kill) (cs @ later))"
      with apart [of g l] show False by auto
    qed
    have all: "qc_id ` set pend \<inter> ic_id ` set (cs @ later) = {}" "distinct (map qc_id pend)"
      using d by (simp_all only: distinct_append set_map)
    have sub: "set late \<subseteq> set (cs @ later)" "set (filter (\<lambda>g. g \<notin> set kill) (cs @ later)) \<subseteq> set (cs @ later)"
      using late_cs(1) by auto
    with all(1) have sep2: "qc_id ` set pend \<inter> ic_id ` set late = {}"
      "qc_id ` set pend \<inter> ic_id ` set (filter (\<lambda>g. g \<notin> set kill) (cs @ later)) = {}" by blast+
    show ?thesis
      unfolding distinct_append set_append redo_ids set_map Int_Un_distrib
      using all(2) redo_distinct [unfolded redo_ids] live_distinct sep1 sep2 by blast
  qed
  have again: "qc_attempt p = Some (sends_of (qc_id p) sent) \<and>
      attempt_ok rows (qc_id p) (qc_text p) (qc_expiresAtMs p) (sends_of (qc_id p) sent)" if "p \<in> set redo" for p
  proof -
    from that obtain l where l: "l \<in> set late" "p = requeue (l\<lparr>ic_attempt := ic_attempt l + 1\<rparr>)"
      unfolding redo_def res late_def by auto
    with late_cs flying have "ic_attempt l + 1 = sends_of (ic_id l) sent"
      "attempt_ok rows (ic_id l) (ic_text l) (ic_expiresAtMs l) (ic_attempt l)" by auto
    with l show ?thesis
      by (auto simp: requeue_def attempt_ok_def late_def may_retry_def MAX_ATTEMPTS_def)
  qed
  have past: "\<forall>g \<in> set (cs @ later) \<union> set kill. ic_attempt g + 1 \<le> sends_of (ic_id g) sent"
    using flying by (auto simp: kill_def)
  have "chains_ok rows sent pend redo kill (cs @ later)"
    unfolding chains_ok_def using chain queued again flying past once by auto
  then show ?thesis
    unfolding pushes_processDevice kills_processDevice cs_def [symmetric] r_def [symmetric] redo_def kill_def .
qed

section \<open>The invariant of the system\<close>

definition effects_left :: "flow \<Rightarrow> effect list" where
  "effects_left x = (case fl_pc x of Run es \<Rightarrow> es | _ \<Rightarrow> [])"

definition snapshot :: "flow \<Rightarrow> inflight_cmd raw list" where
  "snapshot x = (case fl_pc x of ReadOne inp \<Rightarrow> inp | ReadTwo inp rsp \<Rightarrow> inp | _ \<Rightarrow> [])"

definition flow_ok :: "flow \<Rightarrow> bool" where
  "flow_ok x \<longleftrightarrow>
     chains_ok (fl_rows x) (fl_sends x) (good (cs_pending (fl_st x))) (pushes (effects_left x)) (kills (effects_left x))
       (good (cs_inflight (fl_st x))) \<and>
     sends_ok (fl_rows x) (fl_sends x) \<and>
     (\<exists>later. cs_inflight (fl_st x) = snapshot x @ later)"

lemma sends_of_unknown: "sends_ok rows sent \<Longrightarrow> rows i = None \<Longrightarrow> sends_of i sent = 0"
  by (auto simp: sends_ok_def send_ok_def sends_of_def filter_empty_conv)

lemma sends_ok_enqueue: "sends_ok rows sent \<Longrightarrow> rows i = None \<Longrightarrow> sends_ok (rows(i := r)) sent"
  by (auto simp: sends_ok_def send_ok_def)

lemma sends_ok_deliver:
  assumes ok: "sends_ok rows sent" and a: "attempt_ok rows (qc_id p) (qc_text p) (qc_expiresAtMs p) (sends_of (qc_id p) sent)"
    and live: "\<not> expired p now"
  shows "sends_ok rows (sent @ [(qc_id p, now)])"
proof -
  let ?log = "sent @ [(qc_id p, now)]"
  have rows: "rows (qc_id p) = Some (qc_text p, qc_expiresAtMs p)" using a by (simp add: attempt_ok_def)
  have count: "sends_of (qc_id p) ?log \<le> 3 \<and> (\<not> isRetryableCommand (qc_text p) \<longrightarrow> sends_of (qc_id p) ?log \<le> 1)"
    using a by (auto simp: attempt_ok_def sends_of_append)
  have new: "send_ok rows ?log (qc_id p, now)"
    using live rows count by (auto simp: send_ok_def expired_def)
  have old: "send_ok rows ?log s" if s: "send_ok rows sent s" for s
  proof (cases "fst s = qc_id p")
    case True
    with s rows count show ?thesis by (auto simp: send_ok_def)
  next
    case False
    with s show ?thesis by (auto simp: send_ok_def sends_of_append)
  qed
  from ok old new show ?thesis by (auto simp: sends_ok_def)
qed

lemma expire_row_lists [simp]:
  "cs_pending (expire_row i st) = cs_pending st" "cs_inflight (expire_row i st) = cs_inflight st"
  by (simp_all add: expire_row_def set_row_def)

lemma set_row_lists [simp]:
  "cs_pending (set_row i s t st) = cs_pending st" "cs_inflight (set_row i s t st) = cs_inflight st"
  by (simp_all add: set_row_def)

lemma mark_sent_lists [simp]:
  "cs_pending (fold mark_sent ids st) = cs_pending st" "cs_inflight (fold mark_sent ids st) = cs_inflight st"
  by (induction ids arbitrary: st) (simp_all add: mark_sent_def split: option.split prod.split status.split)

lemma chains_effect:
  assumes "chains_ok rows sent (good (cs_pending st)) (pushes (e # es)) (kills (e # es)) (good (cs_inflight st))"
  shows "chains_ok rows sent (good (cs_pending (apply_effect e st))) (pushes es) (kills es) (good (cs_inflight (apply_effect e st)))"
  using assms chains_push [of rows sent "good (cs_pending st)" _ "pushes es" "kills es" "good (cs_inflight st)"]
    chains_unpend [of rows sent "good (cs_pending st)" "pushes es" "kills es" "good (cs_inflight st)"]
    chains_kill [of rows sent "good (cs_pending st)" "pushes es" _ "kills es" "good (cs_inflight st)"]
  by (cases e) (auto simp: good_append good_remove1)

lemma flow_ok_step: "flow_step x y \<Longrightarrow> flow_ok x \<Longrightarrow> flow_ok y"
proof (induction rule: flow_step.induct)
  case (Enqueue x i t e)
  then have "sends_of i (fl_sends x) = 0" by (auto simp: flow_ok_def intro: sends_of_unknown)
  with Enqueue show ?case
    by (simp add: flow_ok_def enqueue_cmd_def effects_left_def snapshot_def good_append chains_enqueue sends_ok_enqueue)
next
  case (Respond x r)
  then show ?case by (simp add: flow_ok_def effects_left_def snapshot_def)
next
  case (Deliver x p rest)
  then have c: "chains_ok (fl_rows x) (fl_sends x) (p # good rest) (pushes (effects_left x)) (kills (effects_left x))
       (good (cs_inflight (fl_st x)))" and s: "sends_ok (fl_rows x) (fl_sends x)"
    and l: "\<exists>later. cs_inflight (fl_st x) = snapshot x @ later"
    by (simp_all add: flow_ok_def)
  from c have "attempt_ok (fl_rows x) (qc_id p) (qc_text p) (qc_expiresAtMs p) (sends_of (qc_id p) (fl_sends x))"
    by (simp add: chains_ok_def)
  from sends_ok_deliver [OF s this Deliver.hyps(2)] chains_deliver [OF c] l show ?case
    by (auto simp: flow_ok_def deliver_cmd_def effects_left_def snapshot_def good_append)
next
  case (Discard x q rest)
  then show ?case
    by (cases q) (auto simp: flow_ok_def effects_left_def snapshot_def intro: chains_tail)
next
  case (Clock x t)
  then show ?case by (simp add: flow_ok_def effects_left_def snapshot_def)
next
  case (ReadInflight x)
  then show ?case by (simp add: flow_ok_def effects_left_def snapshot_def)
next
  case (ReadResponses x inp)
  then show ?case by (simp add: flow_ok_def effects_left_def snapshot_def)
next
  case (ReadPending x inp rsp nowMs)
  then obtain later where l: "cs_inflight (fl_st x) = inp @ later" by (auto simp: flow_ok_def snapshot_def)
  with ReadPending have "chains_ok (fl_rows x) (fl_sends x) (good (cs_pending (fl_st x))) [] [] (good inp @ good later)"
    by (simp add: flow_ok_def effects_left_def good_append)
  from chains_plan [OF this] ReadPending l show ?case
    by (simp add: flow_ok_def effects_left_def snapshot_def good_append)
next
  case (Effect x e es)
  then show ?case using chains_effect [of "fl_rows x" "fl_sends x" "fl_st x" e es]
    by (simp add: flow_ok_def effects_left_def snapshot_def)
next
  case (Done x)
  then show ?case by (simp add: flow_ok_def effects_left_def snapshot_def)
next
  case (Sweep x i)
  then show ?case by (simp add: flow_ok_def effects_left_def snapshot_def)
qed

lemma flow_reach_ok: "flow_reach x \<Longrightarrow> flow_ok x"
proof (induction rule: flow_reach.induct)
  case (Init t)
  then show ?case
    by (simp add: flow_ok_def empty_flow_def chains_ok_def sends_ok_def effects_left_def snapshot_def)
next
  case (More x y)
  then show ?case by (blast intro: flow_ok_step)
qed


definition reset_queued :: flow where
  "reset_queued = enqueue_cmd ''c1'' ''cpureset'' (Some 1000) (empty_flow 0)"

definition reset_sent :: flow where
  "reset_sent = deliver_cmd \<lparr>qc_id = ''c1'', qc_text = ''cpureset'', qc_attempt = Some 0, qc_expiresAtMs = Some 1000\<rparr> [] reset_queued"

lemma reset_sent_reach: "flow_reach reset_sent"
proof -
  have queued: "flow_reach reset_queued"
    unfolding reset_queued_def
    by (rule flow_reach.More [OF flow_reach.Init]) (rule flow_step.Enqueue, simp add: empty_flow_def)
  show ?thesis
    unfolding reset_sent_def
    by (rule flow_reach.More [OF queued])
      (rule flow_step.Deliver, simp_all add: reset_queued_def enqueue_cmd_def empty_flow_def expired_def)
qed


text \<open>A status that ends a command is never overwritten, by any step of any of the three programs.\<close>

lemma set_row_final: "\<not> open_row i st \<Longrightarrow> cs_db (set_row j s t st) i = cs_db st i"
  by (auto simp: set_row_def)

lemma mark_sent_one: "\<not> open_row i st \<Longrightarrow> cs_db (mark_sent j st) i = cs_db st i \<and> \<not> open_row i (mark_sent j st)"
  by (auto simp: mark_sent_def open_row_def split: option.splits prod.splits status.splits)

lemma mark_sent_final: "\<not> open_row i st \<Longrightarrow> cs_db (fold mark_sent ids st) i = cs_db st i"
  by (induction ids arbitrary: st) (simp_all add: mark_sent_one)

lemma effect_final: "\<not> open_row i st \<Longrightarrow> cs_db (apply_effect e st) i = cs_db st i"
  by (cases e) (simp_all add: expire_row_def set_row_final mark_sent_final)

lemma final_status_kept:
  assumes "flow_step x y" and "cs_db (fl_st x) i = Some (s, t)" and "s \<noteq> Queued" and "s \<noteq> Sent" and "fl_rows x i \<noteq> None"
  shows "cs_db (fl_st y) i = Some (s, t)"
proof -
  have "\<not> open_row i (fl_st x)" using assms(2-4) by (simp add: open_row_def)
  then show ?thesis
    using assms(2,5)
    by (cases rule: flow_step.cases [OF assms(1)])
      (auto simp: enqueue_cmd_def deliver_cmd_def expire_row_def set_row_final effect_final)
qed

end
