(* ===== verification/Shards.thy ===== *)
theory Shards
  imports Calls
begin

text \<open>
  apps/worker/src/shards.ts: exclusive ownership of the shards of the pipeline by leases with a time to live.
  Redis is its keys \<open>shards:lease:{n}\<close> with their expiry; a command may fail, and then may or may not have been
  executed. The passes of a worker are interleaved with the others' commands at every round trip.
\<close>

section \<open>Redis\<close>

definition LEASE_SHARDS :: nat where
  "LEASE_SHARDS = 16"

record lease =
  le_holder :: string
  le_expires :: int

type_synonym leases = "nat \<Rightarrow> lease option"

definition lease_get :: "int \<Rightarrow> leases \<Rightarrow> nat \<Rightarrow> string option" where
  "lease_get now ls s = (case ls s of None \<Rightarrow> None | Some l \<Rightarrow> if now < le_expires l then Some (le_holder l) else None)"

definition set_nx :: "int \<Rightarrow> int \<Rightarrow> string \<Rightarrow> nat \<Rightarrow> leases \<Rightarrow> leases \<times> bool" where
  "set_nx now ttl w s ls =
     (if lease_get now ls s = None then (ls(s := Some \<lparr>le_holder = w, le_expires = now + ttl\<rparr>), True) else (ls, False))"

definition RENEW_LUA :: "int \<Rightarrow> int \<Rightarrow> string \<Rightarrow> nat \<Rightarrow> leases \<Rightarrow> leases \<times> bool" where
  "RENEW_LUA now ttl w s ls =
     (if lease_get now ls s = Some w then (ls(s := Some \<lparr>le_holder = w, le_expires = now + ttl\<rparr>), True) else (ls, False))"

section \<open>The leaser\<close>

record leaser =
  lr_id :: string
  lr_ttl :: int
  lr_owned :: "nat set"

datatype lease_event = OnLost nat | OnGained nat

definition ownsShardLease :: "int \<Rightarrow> leases \<Rightarrow> nat \<Rightarrow> string \<Rightarrow> bool" where
  "ownsShardLease now ls s w = (lease_get now ls s = Some w)"

definition tryClaim :: "call \<Rightarrow> int \<Rightarrow> nat \<Rightarrow> leases \<Rightarrow> leaser \<Rightarrow> leases \<times> (unit + leaser \<times> bool)" where
  "tryClaim c now s ls w =
     (let (ls', r) = issue c (set_nx now (lr_ttl w) (lr_id w) s) ls in
      (ls', bindE r (\<lambda>got. Inr (if got then w\<lparr>lr_owned := insert s (lr_owned w)\<rparr> else w, got))))"

text \<open>One shard of a renew-and-reacquire pass; a failed command leaves the belief as it is.\<close>

definition tick_shard :: "call \<Rightarrow> int \<Rightarrow> nat \<Rightarrow> leases \<Rightarrow> leaser \<Rightarrow> leases \<times> leaser \<times> lease_event list" where
  "tick_shard c now s ls w =
     (if s \<in> lr_owned w then
        let (ls', r) = issue c (RENEW_LUA now (lr_ttl w) (lr_id w) s) ls in
        (ls', case r of
                Inl u \<Rightarrow> (w, [])
              | Inr renewed \<Rightarrow> (if renewed then (w, []) else (w\<lparr>lr_owned := lr_owned w - {s}\<rparr>, [OnLost s])))
      else
        let (ls', r) = tryClaim c now s ls w in
        (ls', case r of
                Inl u \<Rightarrow> (w, [])
              | Inr (w', claimed) \<Rightarrow> (w', if claimed then [OnGained s] else [])))"

text \<open>A pass over the shards: \<open>env s\<close> is what the others did to the keys before the command for shard
  \<open>s\<close>, which is executed at \<open>at s\<close>.\<close>

fun tick_from ::
  "(nat \<Rightarrow> call) \<Rightarrow> (nat \<Rightarrow> int) \<Rightarrow> (nat \<Rightarrow> leases \<Rightarrow> leases) \<Rightarrow> nat list \<Rightarrow> leases \<Rightarrow> leaser \<Rightarrow>
   leases \<times> leaser \<times> lease_event list" where
  "tick_from calls clock env [] ls w = (ls, w, [])"
| "tick_from calls clock env (s # ss) ls w =
     (let (ls1, w1, ev1) = tick_shard (calls s) (clock s) s (env s ls) w;
          (ls2, w2, ev2) = tick_from calls clock env ss ls1 w1 in
      (ls2, w2, ev1 @ ev2))"

definition tick ::
  "(nat \<Rightarrow> call) \<Rightarrow> (nat \<Rightarrow> int) \<Rightarrow> (nat \<Rightarrow> leases \<Rightarrow> leases) \<Rightarrow> leases \<Rightarrow> leaser \<Rightarrow> leases \<times> leaser \<times> lease_event list" where
  "tick calls clock env ls w = tick_from calls clock env [0..<LEASE_SHARDS] ls w"

fun claim_from ::
  "(nat \<Rightarrow> call) \<Rightarrow> (nat \<Rightarrow> int) \<Rightarrow> (nat \<Rightarrow> leases \<Rightarrow> leases) \<Rightarrow> nat list \<Rightarrow> leases \<Rightarrow> leaser \<Rightarrow> leases \<times> (unit + leaser)" where
  "claim_from calls clock env [] ls w = (ls, Inr w)"
| "claim_from calls clock env (s # ss) ls w =
     (let (ls1, r) = tryClaim (calls s) (clock s) s (env s ls) w in
      case r of Inl u \<Rightarrow> (ls1, Inl u) | Inr (w1, got) \<Rightarrow> claim_from calls clock env ss ls1 w1)"

definition claimAll ::
  "(nat \<Rightarrow> call) \<Rightarrow> (nat \<Rightarrow> int) \<Rightarrow> (nat \<Rightarrow> leases \<Rightarrow> leases) \<Rightarrow> leases \<Rightarrow> leaser \<Rightarrow> leases \<times> (unit + leaser)" where
  "claimAll calls clock env ls w = claim_from calls clock env [0..<LEASE_SHARDS] ls w"

text \<open>\<open>giveUp\<close> and \<open>releaseLeases\<close> read the holder and, in a second round trip, delete the key if the answer was
  this worker.\<close>

definition giveUp_start :: "nat \<Rightarrow> leaser \<Rightarrow> leaser" where
  "giveUp_start s w = w\<lparr>lr_owned := lr_owned w - {s}\<rparr>"

definition release_check :: "int \<Rightarrow> nat \<Rightarrow> leases \<Rightarrow> leaser \<Rightarrow> bool" where
  "release_check now s ls w = (lease_get now ls s = Some (lr_id w))"

definition release_del :: "nat \<Rightarrow> leases \<Rightarrow> leases" where
  "release_del s ls = ls(s := None)"

definition release_clear :: "leaser \<Rightarrow> leaser" where
  "release_clear w = w\<lparr>lr_owned := {}\<rparr>"

section \<open>A pass makes belief agree with Redis\<close>

lemma lease_get_upd: "lease_get now (ls(s := Some \<lparr>le_holder = w, le_expires = e\<rparr>)) s' =
    (if s' = s then if now < e then Some w else None else lease_get now ls s')"
  by (simp add: lease_get_def)

lemma lease_get_del: "lease_get now (release_del s ls) s' = (if s' = s then None else lease_get now ls s')"
  by (simp add: lease_get_def release_del_def)

text \<open>What the key is, for one answered step.\<close>

lemma tick_shard_answered:
  assumes "tick_shard Answered now s ls w = (ls', w', ev)" and "0 < lr_ttl w"
  shows "s \<in> lr_owned w' \<longleftrightarrow> (if s \<in> lr_owned w then lease_get now ls s = Some (lr_id w) else lease_get now ls s = None)"
    and "s \<in> lr_owned w' \<Longrightarrow> ls' s = Some \<lparr>le_holder = lr_id w, le_expires = now + lr_ttl w\<rparr>"
    and "s \<notin> lr_owned w' \<Longrightarrow> ls' s = ls s"
    and "s' \<noteq> s \<Longrightarrow> (s' \<in> lr_owned w' \<longleftrightarrow> s' \<in> lr_owned w) \<and> ls' s' = ls s'"
    and "lr_id w' = lr_id w" and "lr_ttl w' = lr_ttl w"
    and "ev = (if s \<in> lr_owned w \<and> s \<notin> lr_owned w' then [OnLost s]
               else if s \<notin> lr_owned w \<and> s \<in> lr_owned w' then [OnGained s] else [])"
  using assms
  by (auto simp: tick_shard_def tryClaim_def issue_def RENEW_LUA_def set_nx_def split: if_splits)

text \<open>The keys as shard \<open>s\<close> of a pass finds them.\<close>

definition seen ::
  "(nat \<Rightarrow> call) \<Rightarrow> (nat \<Rightarrow> int) \<Rightarrow> (nat \<Rightarrow> leases \<Rightarrow> leases) \<Rightarrow> leases \<Rightarrow> leaser \<Rightarrow> nat \<Rightarrow> leases" where
  "seen calls clock env ls w s = env s (fst (tick_from calls clock env [0..<s] ls w))"

lemma tick_from_append:
  "tick_from calls clock env (xs @ ys) ls w =
     (let (ls1, w1, ev1) = tick_from calls clock env xs ls w; (ls2, w2, ev2) = tick_from calls clock env ys ls1 w1 in
      (ls2, w2, ev1 @ ev2))"
  by (induction xs arbitrary: ls w) (auto simp: Let_def split: prod.splits)

lemma tick_from_other:
  assumes "tick_from calls clock env ss ls w = (ls', w', ev)" and "s \<notin> set ss" and "0 < lr_ttl w"
    and "\<forall>x\<in>set ss. calls x = Answered"
  shows "(s \<in> lr_owned w' \<longleftrightarrow> s \<in> lr_owned w) \<and> lr_id w' = lr_id w \<and> lr_ttl w' = lr_ttl w \<and>
    OnLost s \<notin> set ev \<and> OnGained s \<notin> set ev"
  using assms
proof (induction ss arbitrary: ls w ev)
  case Nil
  then show ?case by simp
next
  case (Cons x ss)
  obtain ls1 w1 ev1 where one: "tick_shard Answered (clock x) x (env x ls) w = (ls1, w1, ev1)" by (cases "tick_shard Answered (clock x) x (env x ls) w")
  from Cons.prems(1,4) one obtain ev2 where rest: "tick_from calls clock env ss ls1 w1 = (ls', w', ev2)" and eq: "ev = ev1 @ ev2"
    by (auto split: prod.splits)
  note here = tick_shard_answered [OF one Cons.prems(3)]
  have "s \<noteq> x" using Cons.prems(2) by simp
  with Cons.IH [OF rest] Cons.prems here(4) [of s] here(5,6,7) show ?case unfolding eq by auto
qed

text \<open>A renew pass makes the belief of a worker agree with Redis. If every command of a pass is answered, then
  for each shard, whatever the other workers do meanwhile: the worker owns it after the pass exactly if its
  own lease was alive or nobody's was; it is told to stop precisely the shards it lost and to start
  precisely those it gained (so an orphaned shard is taken up within one pass). A failed command changes
  no belief and reports nothing.\<close>

theorem tick_agrees:
  assumes "tick calls clock env ls w = (ls', w', ev)" and "0 < lr_ttl w" and "\<forall>x<LEASE_SHARDS. calls x = Answered"
    and "s < LEASE_SHARDS"
  shows "(s \<in> lr_owned w' \<longleftrightarrow>
      lease_get (clock s) (seen calls clock env ls w s) s = (if s \<in> lr_owned w then Some (lr_id w) else None)) \<and>
    (OnLost s \<in> set ev \<longleftrightarrow> s \<in> lr_owned w \<and> s \<notin> lr_owned w') \<and>
    (OnGained s \<in> set ev \<longleftrightarrow> s \<notin> lr_owned w \<and> s \<in> lr_owned w') \<and>
    (\<forall>executed now. let (l, v, e) = tick_shard (Failed executed) now s ls w in v = w \<and> e = [])"
proof -
  have split: "[0..<LEASE_SHARDS] = [0..<s] @ s # [Suc s..<LEASE_SHARDS]"
    using assms(4) by (metis less_imp_le_nat plus_nat.add_0 upt_add_eq_append upt_conv_Cons le_add_diff_inverse zero_le)
  obtain ls1 w1 ev1 where first: "tick_from calls clock env [0..<s] ls w = (ls1, w1, ev1)"
    by (cases "tick_from calls clock env [0..<s] ls w")
  obtain ls2 w2 ev2 where here: "tick_shard Answered (clock s) s (env s ls1) w1 = (ls2, w2, ev2)"
    by (cases "tick_shard Answered (clock s) s (env s ls1) w1")
  obtain ls3 w3 ev3 where last: "tick_from calls clock env [Suc s..<LEASE_SHARDS] ls2 w2 = (ls3, w3, ev3)"
    by (cases "tick_from calls clock env [Suc s..<LEASE_SHARDS] ls2 w2")
  from assms(1) first here last assms(3,4) have eq: "w' = w3" "ev = ev1 @ ev2 @ ev3"
    unfolding tick_def split tick_from_append by simp_all
  have before: "(s \<in> lr_owned w1 \<longleftrightarrow> s \<in> lr_owned w) \<and> lr_id w1 = lr_id w \<and> lr_ttl w1 = lr_ttl w \<and>
      OnLost s \<notin> set ev1 \<and> OnGained s \<notin> set ev1"
    by (rule tick_from_other [OF first]) (use assms in auto)
  have ttl: "0 < lr_ttl w1" using before assms(2) by simp
  note step = tick_shard_answered [OF here ttl]
  have after: "(s \<in> lr_owned w3 \<longleftrightarrow> s \<in> lr_owned w2) \<and> OnLost s \<notin> set ev3 \<and> OnGained s \<notin> set ev3"
    using tick_from_other [OF last, of s] assms(3) ttl step(6) by auto
  have seen: "seen calls clock env ls w s = env s ls1" by (simp add: seen_def first)
  have blip: "\<forall>executed now. let (l, v, e) = tick_shard (Failed executed) now s ls w in v = w \<and> e = []"
    by (simp add: tick_shard_def tryClaim_def issue_def)
  show ?thesis using before after step(1,7) blip unfolding eq seen by auto
qed

definition idle_worker :: "string \<Rightarrow> leaser" where
  "idle_worker w = \<lparr>lr_id = w, lr_ttl = 30000, lr_owned = {}\<rparr>"

theorem tick_agrees_witness:
  "15 \<in> lr_owned (fst (snd (tick (\<lambda>_. Answered) (\<lambda>_. 5) (\<lambda>_ ls. ls) (\<lambda>s. None) (idle_worker ''a''))))"
proof -
  obtain ls' w' ev where t: "tick (\<lambda>_. Answered) (\<lambda>_. 5) (\<lambda>_ ls. ls) (\<lambda>s. None) (idle_worker ''a'') = (ls', w', ev)"
    by (cases "tick (\<lambda>_. Answered) (\<lambda>_. 5) (\<lambda>_ ls. ls) (\<lambda>s. None) (idle_worker ''a'')")
  have "seen (\<lambda>_. Answered) (\<lambda>_. 5) (\<lambda>_ ls. ls) (\<lambda>s. None) (idle_worker ''a'') 15 15 = None"
    by code_simp
  with tick_agrees [OF t, of 15] have "15 \<in> lr_owned w'"
    by (simp add: idle_worker_def LEASE_SHARDS_def lease_get_def)
  then show ?thesis by (simp add: t)
qed

section \<open>Several workers\<close>

text \<open>\<open>sy_until w s\<close> is how long the last successful command of worker \<open>w\<close> for shard \<open>s\<close> entitles it (for the
  proofs); a deletion by the worker itself ends that. \<open>sy_dels\<close> are the deletions whose check has passed.\<close>

record sys =
  sy_now :: int
  sy_leases :: leases
  sy_workers :: "string \<Rightarrow> leaser"
  sy_until :: "string \<Rightarrow> nat \<Rightarrow> int option"
  sy_dels :: "(string \<times> nat) set"

definition grants :: "call \<Rightarrow> int \<Rightarrow> nat \<Rightarrow> leases \<Rightarrow> leaser \<Rightarrow> bool" where
  "grants c now s ls w \<longleftrightarrow>
     c = Answered \<and> lease_get now ls s = (if s \<in> lr_owned w then Some (lr_id w) else None)"

definition sys_tick :: "call \<Rightarrow> string \<Rightarrow> nat \<Rightarrow> sys \<Rightarrow> sys" where
  "sys_tick c w s x =
     (let (ls, v, ev) = tick_shard c (sy_now x) s (sy_leases x) (sy_workers x w) in
      x\<lparr>sy_leases := ls, sy_workers := (sy_workers x)(w := v),
        sy_until := (if grants c (sy_now x) s (sy_leases x) (sy_workers x w)
                     then (sy_until x)(w := (sy_until x w)(s := Some (sy_now x + lr_ttl v))) else sy_until x)\<rparr>)"

definition sys_check :: "string \<Rightarrow> nat \<Rightarrow> sys \<Rightarrow> sys" where
  "sys_check w s x =
     (if release_check (sy_now x) s (sy_leases x) (sy_workers x w) then x\<lparr>sy_dels := insert (w, s) (sy_dels x)\<rparr> else x)"

definition sys_del :: "string \<Rightarrow> nat \<Rightarrow> sys \<Rightarrow> sys" where
  "sys_del w s x =
     x\<lparr>sy_leases := release_del s (sy_leases x), sy_dels := sy_dels x - {(w, s)},
       sy_until := (sy_until x)(w := (sy_until x w)(s := None))\<rparr>"

text \<open>The runs of a set of workers; with \<open>prompt\<close>, only those where a worker's deletion arrives while the lease is
  still its own.\<close>

inductive lease_run :: "bool \<Rightarrow> sys \<Rightarrow> bool" for prompt :: bool where
  Start: "lease_run prompt \<lparr>sy_now = t0, sy_leases = (\<lambda>s. None), sy_workers = idle_worker, sy_until = (\<lambda>w s. None), sy_dels = {}\<rparr>"
| Wait: "lease_run prompt x \<Longrightarrow> sy_now x \<le> t \<Longrightarrow> lease_run prompt (x\<lparr>sy_now := t\<rparr>)"
| Tick: "lease_run prompt x \<Longrightarrow> lease_run prompt (sys_tick c w s x)"
| GiveUp: "lease_run prompt x \<Longrightarrow>
    lease_run prompt (sys_check w s (x\<lparr>sy_workers := (sy_workers x)(w := giveUp_start s (sy_workers x w))\<rparr>))"
| Release: "lease_run prompt x \<Longrightarrow> s \<in> lr_owned (sy_workers x w) \<Longrightarrow> lease_run prompt (sys_check w s x)"
| Del: "lease_run prompt x \<Longrightarrow> (w, s) \<in> sy_dels x \<Longrightarrow>
    (prompt \<longrightarrow> release_check (sy_now x) s (sy_leases x) (sy_workers x w)) \<Longrightarrow> lease_run prompt (sys_del w s x)"
| Clear: "lease_run prompt x \<Longrightarrow>
    lease_run prompt (x\<lparr>sy_workers := (sy_workers x)(w := release_clear (sy_workers x w))\<rparr>)"

definition entitled :: "sys \<Rightarrow> string \<Rightarrow> nat \<Rightarrow> bool" where
  "entitled x w s \<longleftrightarrow> (case sy_until x w s of None \<Rightarrow> False | Some t \<Rightarrow> sy_now x < t)"

definition leases_true :: "sys \<Rightarrow> bool" where
  "leases_true x \<longleftrightarrow>
     (\<forall>w. lr_id (sy_workers x w) = w \<and> lr_ttl (sy_workers x w) = 30000) \<and>
     (\<forall>w s t. sy_until x w s = Some t \<longrightarrow> t \<le> sy_now x + 30000 \<and>
        (sy_now x < t \<longrightarrow> (\<exists>e. sy_leases x s = Some \<lparr>le_holder = w, le_expires = e\<rparr> \<and> t \<le> e)))"

lemma entitled_holds:
  assumes "leases_true x" and "entitled x w s"
  shows "lease_get (sy_now x) (sy_leases x) s = Some w"
proof -
  from assms(2) obtain t where t: "sy_until x w s = Some t" "sy_now x < t" by (auto simp: entitled_def split: option.splits)
  with assms(1) obtain e where "sy_leases x s = Some \<lparr>le_holder = w, le_expires = e\<rparr>" "t \<le> e"
    unfolding leases_true_def by blast
  with t show ?thesis by (simp add: lease_get_def)
qed

lemma leases_true_tick:
  assumes "leases_true x"
  shows "leases_true (sys_tick c w s x)"
proof -
  obtain ls v ev where t: "tick_shard c (sy_now x) s (sy_leases x) (sy_workers x w) = (ls, v, ev)"
    by (cases "tick_shard c (sy_now x) s (sy_leases x) (sy_workers x w)")
  have id: "lr_id (sy_workers x w) = w" "lr_ttl (sy_workers x w) = 30000" using assms by (simp_all add: leases_true_def)
  have v: "lr_id v = w" "lr_ttl v = 30000"
    using t id by (auto simp: tick_shard_def tryClaim_def issue_def split: if_splits call.splits prod.splits)
  have other: "ls s' = sy_leases x s'" if "s' \<noteq> s" for s'
    using t that by (auto simp: tick_shard_def tryClaim_def issue_def RENEW_LUA_def set_nx_def split: if_splits call.splits)
  have grant: "ls s = Some \<lparr>le_holder = w, le_expires = sy_now x + 30000\<rparr>"
    if "grants c (sy_now x) s (sy_leases x) (sy_workers x w)"
    using that t id by (auto simp: grants_def tick_shard_def tryClaim_def issue_def RENEW_LUA_def set_nx_def split: if_splits)
  have nogrant: "ls s = sy_leases x s \<or>
      ls s = Some \<lparr>le_holder = w, le_expires = sy_now x + 30000\<rparr> \<and> lease_get (sy_now x) (sy_leases x) s \<in> {None, Some w}"
    using t id by (auto simp: tick_shard_def tryClaim_def issue_def RENEW_LUA_def set_nx_def split: if_splits call.splits)
  have held: "\<exists>e. ls s' = Some \<lparr>le_holder = w', le_expires = e\<rparr> \<and> t' \<le> e"
    if u: "sy_until (sys_tick c w s x) w' s' = Some t'" and now: "sy_now x < t'" for w' s' t'
  proof (cases "grants c (sy_now x) s (sy_leases x) (sy_workers x w) \<and> w' = w \<and> s' = s")
    case True
    with u t v have "t' = sy_now x + 30000" by (simp add: sys_tick_def)
    with True grant show ?thesis by simp
  next
    case False
    with u t have old: "sy_until x w' s' = Some t'" by (auto simp: sys_tick_def split: if_splits)
    with assms now obtain e where e: "sy_leases x s' = Some \<lparr>le_holder = w', le_expires = e\<rparr>" "t' \<le> e"
        and cap: "t' \<le> sy_now x + 30000"
      unfolding leases_true_def by blast
    show ?thesis
    proof (cases "s' = s")
      case True
      have "lease_get (sy_now x) (sy_leases x) s = Some w'" using e now True by (simp add: lease_get_def)
      with nogrant e True cap show ?thesis by auto
    next
      case False
      with other e show ?thesis by simp
    qed
  qed
  have cap: "t' \<le> sy_now x + 30000" if u: "sy_until (sys_tick c w s x) w' s' = Some t'" for w' s' t'
    using u t v assms by (auto simp: sys_tick_def leases_true_def split: if_splits)
  have now: "sy_now (sys_tick c w s x) = sy_now x" and ls: "sy_leases (sys_tick c w s x) = ls"
    and ws: "sy_workers (sys_tick c w s x) = (sy_workers x)(w := v)"
    using t by (simp_all add: sys_tick_def)
  show ?thesis unfolding leases_true_def now ls ws using held cap v assms by (auto simp: leases_true_def)
qed

lemma lease_run_true: "lease_run True x \<Longrightarrow> leases_true x"
proof (induction rule: lease_run.induct)
  case Start
  then show ?case by (simp add: leases_true_def idle_worker_def)
next
  case (Wait x t)
  then show ?case unfolding leases_true_def by (auto 0 4)
next
  case (Tick x c w s)
  show ?case by (rule leases_true_tick [OF Tick.IH])
next
  case (GiveUp x w s)
  then show ?case by (auto simp: leases_true_def sys_check_def giveUp_start_def)
next
  case (Release x s w)
  then show ?case by (auto simp: leases_true_def sys_check_def)
next
  case (Del x w s)
  have held: "lease_get (sy_now x) (sy_leases x) s = Some w"
    using Del by (auto simp: release_check_def leases_true_def)
  have "\<exists>e. release_del s (sy_leases x) s' = Some \<lparr>le_holder = w', le_expires = e\<rparr> \<and> t \<le> e"
    if u: "sy_until (sys_del w s x) w' s' = Some t" "sy_now x < t" for w' s' t
  proof -
    from u have old: "sy_until x w' s' = Some t" and ne: "\<not> (w' = w \<and> s' = s)" by (auto simp: sys_del_def split: if_splits)
    with u Del.IH obtain e where e: "sy_leases x s' = Some \<lparr>le_holder = w', le_expires = e\<rparr>" "t \<le> e"
      unfolding leases_true_def by blast
    with held ne u(2) have "s' \<noteq> s" by (auto simp: lease_get_def)
    with e show ?thesis by (simp add: release_del_def)
  qed
  then show ?case using Del.IH by (auto simp: leases_true_def sys_del_def)
next
  case (Clear x w)
  then show ?case by (auto simp: leases_true_def release_clear_def)
qed


definition idle_sys :: sys where
  "idle_sys = \<lparr>sy_now = 0, sy_leases = (\<lambda>s. None), sy_workers = idle_worker, sy_until = (\<lambda>w s. None), sy_dels = {}\<rparr>"

lemma idle_run: "lease_run prompt idle_sys"
  unfolding idle_sys_def by (rule lease_run.Start)


text \<open>Reading the holder and deleting the key are two commands. If the lease expires between them, the deletion
  frees the lease of the peer that claimed the shard meanwhile, and a third worker claims it: two workers
  own one shard, each for a full time to live.\<close>

definition race :: sys where
  "race =
     (let x1 = sys_tick Answered ''a'' 0 idle_sys;
          x2 = sys_check ''a'' 0 (x1\<lparr>sy_workers := (sy_workers x1)(''a'' := giveUp_start 0 (sy_workers x1 ''a''))\<rparr>);
          x3 = sys_tick Answered ''b'' 0 (x2\<lparr>sy_now := 30000\<rparr>);
          x4 = sys_del ''a'' 0 x3 in
      sys_tick Answered ''c'' 0 x4)"

lemma release_race:
  "lease_run False race \<and> entitled race ''b'' 0 \<and> entitled race ''c'' 0 \<and>
   0 \<in> lr_owned (sy_workers race ''b'') \<and> 0 \<in> lr_owned (sy_workers race ''c'') \<and>
   \<not> ownsShardLease (sy_now race) (sy_leases race) 0 ''b''"
proof -
  let ?x1 = "sys_tick Answered ''a'' 0 idle_sys"
  let ?x2 = "sys_check ''a'' 0 (?x1\<lparr>sy_workers := (sy_workers ?x1)(''a'' := giveUp_start 0 (sy_workers ?x1 ''a''))\<rparr>)"
  let ?x3 = "sys_tick Answered ''b'' 0 (?x2\<lparr>sy_now := 30000\<rparr>)"
  have x1: "lease_run False ?x1" by (rule lease_run.Tick [OF idle_run])
  have x2: "lease_run False ?x2" by (rule lease_run.GiveUp [OF x1])
  have "sy_now ?x2 \<le> 30000" by code_simp
  then have x3: "lease_run False ?x3" by (rule lease_run.Tick [OF lease_run.Wait [OF x2]])
  have "(''a'', 0) \<in> sy_dels ?x3" by code_simp
  then have "lease_run False race"
    unfolding race_def Let_def by (intro lease_run.Tick lease_run.Del [OF x3]) simp_all
  moreover have "entitled race ''b'' 0" "entitled race ''c'' 0" "0 \<in> lr_owned (sy_workers race ''b'')"
    "0 \<in> lr_owned (sy_workers race ''c'')" "\<not> ownsShardLease (sy_now race) (sy_leases race) 0 ''b''"
    by code_simp+
  ultimately show ?thesis by simp
qed

end
