(* ===== verification/LiveState.thy ===== *)
theory LiveState
  imports Records Shards
begin

text \<open>
  apps/worker/src/liveState.ts: the live marker of a device, a Redis hash that keeps the newest fix, and
  the messages published for the map. Each of the round trips of one update may fail, before or after Redis executed it. The
  updates of one device are chained on one promise, so they are sequential; those of different devices
  touch different keys. The JSON of the stored message is the message.
\<close>

section \<open>State\<close>

record last_fix =
  lf_lat :: real
  lf_lon :: real
  lf_fixTimeMs :: int

record compact =
  cp_deviceId :: int
  cp_accountId :: "string option"
  cp_fixTimeMs :: int
  cp_lat :: real
  cp_lon :: real
  cp_speed :: "int option"
  cp_course :: "int option"
  cp_satellites :: int
  cp_fixValid :: bool
  cp_ignition :: "bool option"
  cp_priority :: int
  cp_lastFix :: "last_fix option"

record last_hash =
  lh_serverTimeMs :: "int option"
  lh_clockSkewedAt :: "int option"
  lh_fixTimeMs :: "int option"
  lh_json :: "compact option"

record live =
  li_last :: "int \<Rightarrow> last_hash"
  li_published :: "(string \<times> compact) list"

definition hset :: "int \<Rightarrow> (last_hash \<Rightarrow> last_hash) \<Rightarrow> live \<Rightarrow> live" where
  "hset d f st = st\<lparr>li_last := (li_last st)(d := f (li_last st d))\<rparr>"

section \<open>One update\<close>

definition placeable :: "nrec \<Rightarrow> bool" where
  "placeable r \<longleftrightarrow> r_fixValid r \<and> \<not> (r_lat r = 0 \<and> r_lon r = 0)"

definition carried :: "nrec \<Rightarrow> compact option \<Rightarrow> last_fix option" where
  "carried r prior =
     (if placeable r then Some \<lparr>lf_lat = r_lat r, lf_lon = r_lon r, lf_fixTimeMs = r_fixTime r\<rparr>
      else case prior of None \<Rightarrow> None | Some c \<Rightarrow> cp_lastFix c)"

definition compact_of :: "string option \<Rightarrow> nrec \<Rightarrow> compact option \<Rightarrow> compact" where
  "compact_of account r prior =
     \<lparr>cp_deviceId = r_deviceId r, cp_accountId = account, cp_fixTimeMs = r_fixTime r, cp_lat = r_lat r, cp_lon = r_lon r,
      cp_speed = r_speed r, cp_course = r_course r, cp_satellites = r_satellites r, cp_fixValid = r_fixValid r,
      cp_ignition = r_ignition r, cp_priority = r_priority r, cp_lastFix = carried r prior\<rparr>"

text \<open>A write that may fail: the state, and whether the update goes on.\<close>

definition write_call :: "call \<Rightarrow> (live \<Rightarrow> live) \<Rightarrow> live \<Rightarrow> live \<times> bool" where
  "write_call c f st = (case c of Answered \<Rightarrow> (f st, True) | Failed executed \<Rightarrow> (if executed then f st else st, False))"

definition publish_live :: "string option \<Rightarrow> compact \<Rightarrow> call \<Rightarrow> live \<Rightarrow> live \<times> bool" where
  "publish_live tenant c k st =
     (case tenant of
        None \<Rightarrow> (st, True)
      | Some t \<Rightarrow> write_call k (\<lambda>st. st\<lparr>li_published := li_published st @ [(t, c)]\<rparr>) st)"

text \<open>\<open>calls k\<close> is the outcome of the k-th round trip; the reads fail as a whole.\<close>

definition applyOne ::
  "(int \<Rightarrow> string option) \<Rightarrow> (int \<Rightarrow> string option) \<Rightarrow> (nat \<Rightarrow> call) \<Rightarrow> nrec \<Rightarrow> live \<Rightarrow> live \<times> bool" where
  "applyOne tenantOf accountOf calls r st =
     (let d = r_deviceId r;
          (st1, ok) = write_call (calls 0) (hset d (\<lambda>h. h\<lparr>lh_serverTimeMs := Some (r_serverTime r)\<rparr>)) st in
      if \<not> ok then (st1, False)
      else if isClockSkewed r then write_call (calls 1) (hset d (\<lambda>h. h\<lparr>lh_clockSkewedAt := Some (r_serverTime r)\<rparr>)) st1
      else if calls 1 \<noteq> Answered then (st1, False)
      else if (case lh_fixTimeMs (li_last st1 d) of None \<Rightarrow> False | Some stored \<Rightarrow> r_fixTime r \<le> stored) then (st1, True)
      else if calls 2 \<noteq> Answered \<or> calls 3 \<noteq> Answered \<or> calls 4 \<noteq> Answered then (st1, False)
      else let c = compact_of (accountOf d) r (lh_json (li_last st1 d));
               (st2, ok2) = write_call (calls 5) (hset d (\<lambda>h. h\<lparr>lh_fixTimeMs := Some (r_fixTime r), lh_json := Some c\<rparr>)) st1 in
           if \<not> ok2 then (st2, False) else publish_live (tenantOf d) c (calls 6) st2)"

section \<open>A batch\<close>

definition keep_newest :: "(int \<times> nrec) list \<Rightarrow> nrec \<Rightarrow> (int \<times> nrec) list" where
  "keep_newest m r =
     (case map_of m (r_deviceId r) of
        None \<Rightarrow> AList.update (r_deviceId r) r m
      | Some current \<Rightarrow> (if r_fixTime current < r_fixTime r then AList.update (r_deviceId r) r m else m))"

definition newestPerDevice :: "nrec list \<Rightarrow> (int \<times> nrec) list" where
  "newestPerDevice records = foldl keep_newest [] records"

text \<open>Every device is updated, whatever fails for another; the batch fails if one of them did.\<close>

fun apply_each ::
  "(int \<Rightarrow> string option) \<Rightarrow> (int \<Rightarrow> string option) \<Rightarrow> (int \<Rightarrow> nat \<Rightarrow> call) \<Rightarrow> (int \<times> nrec) list \<Rightarrow> live \<Rightarrow> live \<times> bool" where
  "apply_each tenantOf accountOf calls [] st = (st, True)"
| "apply_each tenantOf accountOf calls ((d, r) # rest) st =
     (let (st1, ok1) = applyOne tenantOf accountOf (calls d) r st;
          (st2, ok2) = apply_each tenantOf accountOf calls rest st1 in (st2, ok1 \<and> ok2))"

definition apply_live ::
  "(int \<Rightarrow> string option) \<Rightarrow> (int \<Rightarrow> string option) \<Rightarrow> (int \<Rightarrow> nat \<Rightarrow> call) \<Rightarrow> nrec list \<Rightarrow> live \<Rightarrow> live \<times> bool" where
  "apply_live tenantOf accountOf calls records st = apply_each tenantOf accountOf calls (newestPerDevice records) st"

section \<open>The newest record of a device\<close>

definition newest_for :: "nrec list \<Rightarrow> int \<Rightarrow> nrec option \<Rightarrow> bool" where
  "newest_for rs d found =
     (case found of
        None \<Rightarrow> \<forall>x\<in>set rs. r_deviceId x \<noteq> d
      | Some r \<Rightarrow> r \<in> set rs \<and> r_deviceId r = d \<and> (\<forall>x\<in>set rs. r_deviceId x = d \<longrightarrow> r_fixTime x \<le> r_fixTime r))"

definition newest_ok :: "nrec list \<Rightarrow> (int \<times> nrec) list \<Rightarrow> bool" where
  "newest_ok rs m \<longleftrightarrow> distinct (map fst m) \<and> (\<forall>d. newest_for rs d (map_of m d))"

lemma map_of_keep_newest:
  "map_of (keep_newest m r) d =
     (if d \<noteq> r_deviceId r then map_of m d
      else case map_of m d of None \<Rightarrow> Some r | Some c \<Rightarrow> Some (if r_fixTime c < r_fixTime r then r else c))"
  by (simp add: keep_newest_def update_conv' split: option.split)

lemma newest_ok_snoc: "newest_ok rs m \<Longrightarrow> newest_ok (rs @ [r]) (keep_newest m r)"
proof -
  assume ok: "newest_ok rs m"
  have "newest_for (rs @ [r]) d (map_of (keep_newest m r) d)" for d
  proof -
    from ok have old: "newest_for rs d (map_of m d)" by (simp add: newest_ok_def)
    show ?thesis
    proof (cases "map_of m d")
      case None
      with old show ?thesis by (cases "d = r_deviceId r") (auto simp: newest_for_def map_of_keep_newest)
    next
      case (Some c)
      with old show ?thesis
        by (cases "d = r_deviceId r"; cases "r_fixTime c < r_fixTime r") (auto simp: newest_for_def map_of_keep_newest)
    qed
  qed
  moreover have "distinct (map fst (keep_newest m r))"
    using ok by (simp add: newest_ok_def keep_newest_def distinct_update split: option.split)
  ultimately show ?thesis by (simp add: newest_ok_def)
qed

lemma newestPerDevice_ok: "newest_ok rs (newestPerDevice rs)"
proof (induction rs rule: rev_induct)
  case Nil
  then show ?case by (simp add: newestPerDevice_def newest_ok_def newest_for_def)
next
  case (snoc r rs)
  from newest_ok_snoc [OF this] show ?case by (simp add: newestPerDevice_def)
qed

section \<open>The marker never goes back\<close>

definition of_device :: "int \<Rightarrow> (string \<times> compact) list \<Rightarrow> int list" where
  "of_device d ms = map (\<lambda>m. cp_fixTimeMs (snd m)) (filter (\<lambda>m. cp_deviceId (snd m) = d) ms)"

text \<open>What holds of a device between updates: the stored message is the marker's; a message that can place the
  vehicle carries its own position, any other one the last that could; what was published is in strict
  time order and not ahead of the marker.\<close>

definition device_ok :: "int \<Rightarrow> live \<Rightarrow> bool" where
  "device_ok d st \<longleftrightarrow>
     (let h = li_last st d in
      lh_fixTimeMs h = map_option cp_fixTimeMs (lh_json h) \<and>
      (\<forall>c. lh_json h = Some c \<longrightarrow> cp_deviceId c = d \<and>
         (\<forall>l. cp_lastFix c = Some l \<longrightarrow> lf_fixTimeMs l \<le> cp_fixTimeMs c \<and> \<not> (lf_lat l = 0 \<and> lf_lon l = 0)) \<and>
         (cp_fixValid c \<and> \<not> (cp_lat c = 0 \<and> cp_lon c = 0) \<longrightarrow>
            cp_lastFix c = Some \<lparr>lf_lat = cp_lat c, lf_lon = cp_lon c, lf_fixTimeMs = cp_fixTimeMs c\<rparr>)) \<and>
      sorted_wrt (<) (of_device d (li_published st)) \<and>
      (\<forall>t\<in>set (of_device d (li_published st)). \<exists>c. lh_json h = Some c \<and> t \<le> cp_fixTimeMs c))"

lemma applyOne_other:
  "d \<noteq> r_deviceId r \<Longrightarrow> applyOne tn ac calls r st = (st', ok) \<Longrightarrow>
     li_last st' d = li_last st d \<and> of_device d (li_published st') = of_device d (li_published st)"
  by (auto simp: applyOne_def write_call_def publish_live_def hset_def Let_def of_device_def compact_of_def
      split: call.splits if_splits option.splits prod.splits)

definition same_marker :: "int \<Rightarrow> live \<Rightarrow> live \<Rightarrow> bool" where
  "same_marker d st st' \<longleftrightarrow>
     lh_fixTimeMs (li_last st' d) = lh_fixTimeMs (li_last st d) \<and> lh_json (li_last st' d) = lh_json (li_last st d) \<and>
     li_published st' = li_published st"

definition ahead :: "nrec \<Rightarrow> live \<Rightarrow> bool" where
  "ahead r st \<longleftrightarrow>
     \<not> isClockSkewed r \<and> (case lh_fixTimeMs (li_last st (r_deviceId r)) of None \<Rightarrow> True | Some stored \<Rightarrow> stored < r_fixTime r)"

lemma applyOne_cases:
  assumes "applyOne tn ac calls r st = (st', ok)"
  defines "c \<equiv> compact_of (ac (r_deviceId r)) r (lh_json (li_last st (r_deviceId r)))"
  shows "same_marker (r_deviceId r) st st' \<or>
    ahead r st \<and> lh_fixTimeMs (li_last st' (r_deviceId r)) = Some (r_fixTime r) \<and> lh_json (li_last st' (r_deviceId r)) = Some c \<and>
    (li_published st' = li_published st \<or> (\<exists>t. li_published st' = li_published st @ [(t, c)]))"
  using assms(1)
  by (auto simp: applyOne_def write_call_def publish_live_def hset_def Let_def same_marker_def ahead_def c_def
      split: call.splits if_splits option.splits prod.splits)

lemma carried_ok:
  assumes "device_ok d st" and "d = r_deviceId r" and "ahead r st" and "carried r (lh_json (li_last st d)) = Some l"
  shows "lf_fixTimeMs l \<le> r_fixTime r \<and> \<not> (lf_lat l = 0 \<and> lf_lon l = 0)"
proof (cases "placeable r")
  case True
  with assms(4) show ?thesis by (auto simp: carried_def placeable_def)
next
  case False
  with assms(4) obtain c where c: "lh_json (li_last st d) = Some c" "cp_lastFix c = Some l"
    by (auto simp: carried_def split: option.splits)
  with assms(1) have "lh_fixTimeMs (li_last st d) = Some (cp_fixTimeMs c)" "lf_fixTimeMs l \<le> cp_fixTimeMs c"
    "\<not> (lf_lat l = 0 \<and> lf_lon l = 0)" by (auto simp: device_ok_def Let_def)
  with assms(2,3) show ?thesis by (auto simp: ahead_def)
qed

lemma device_ok_applyOne:
  assumes "applyOne tn ac calls r st = (st', ok)" and "device_ok d st"
  shows "device_ok d st'"
proof (cases "d = r_deviceId r")
  case False
  from applyOne_other [OF False assms(1)] assms(2) show ?thesis by (simp add: device_ok_def)
next
  case True
  define c where "c = compact_of (ac d) r (lh_json (li_last st d))"
  from applyOne_cases [OF assms(1)] True consider
      (same) "same_marker d st st'"
    | (new) "ahead r st" "lh_fixTimeMs (li_last st' d) = Some (r_fixTime r)" "lh_json (li_last st' d) = Some c"
        "li_published st' = li_published st \<or> (\<exists>t. li_published st' = li_published st @ [(t, c)])"
    by (auto simp: c_def)
  then show ?thesis
  proof cases
    case same
    with assms(2) show ?thesis by (simp add: device_ok_def same_marker_def Let_def)
  next
    case new
    have c: "cp_deviceId c = d" "cp_fixTimeMs c = r_fixTime r" "cp_lastFix c = carried r (lh_json (li_last st d))"
      "cp_lat c = r_lat r" "cp_lon c = r_lon r" "cp_fixValid c = r_fixValid r"
      using True by (simp_all add: c_def compact_of_def)
    have before: "t < r_fixTime r" if "t \<in> set (of_device d (li_published st))" for t
    proof -
      from assms(2) that obtain p where p: "lh_json (li_last st d) = Some p" "t \<le> cp_fixTimeMs p"
        by (auto simp: device_ok_def Let_def)
      with assms(2) have "lh_fixTimeMs (li_last st d) = Some (cp_fixTimeMs p)" by (simp add: device_ok_def Let_def)
      with new(1) True p show ?thesis by (auto simp: ahead_def)
    qed
    have pub: "of_device d (li_published st') = of_device d (li_published st) \<or>
        of_device d (li_published st') = of_device d (li_published st) @ [r_fixTime r]"
      using new(4) c by (auto simp: of_device_def)
    have sorted: "sorted_wrt (<) (of_device d (li_published st))" using assms(2) by (simp add: device_ok_def Let_def)
    have pubs: "sorted_wrt (<) (of_device d (li_published st')) \<and> (\<forall>t\<in>set (of_device d (li_published st')). t \<le> r_fixTime r)"
      using pub sorted before by (fastforce simp: sorted_wrt_append)
    have lastf: "\<forall>l. cp_lastFix c = Some l \<longrightarrow> lf_fixTimeMs l \<le> cp_fixTimeMs c \<and> \<not> (lf_lat l = 0 \<and> lf_lon l = 0)"
      using carried_ok [OF assms(2) True new(1)] c by simp
    have place: "cp_fixValid c \<and> \<not> (cp_lat c = 0 \<and> cp_lon c = 0) \<longrightarrow>
        cp_lastFix c = Some \<lparr>lf_lat = cp_lat c, lf_lon = cp_lon c, lf_fixTimeMs = cp_fixTimeMs c\<rparr>"
      using c by (auto simp: carried_def placeable_def)
    show ?thesis
      unfolding device_ok_def Let_def new(2,3) using pubs lastf place c(1,2) by simp
  qed
qed

lemma apply_each_ok: "apply_each tn ac calls m st = (st', ok) \<Longrightarrow> device_ok d st \<Longrightarrow> device_ok d st'"
proof (induction m arbitrary: st ok)
  case Nil
  then show ?case by simp
next
  case (Cons e m)
  obtain k r where e: "e = (k, r)" by (cases e)
  obtain st1 ok1 where one: "applyOne tn ac (calls k) r st = (st1, ok1)" by (cases "applyOne tn ac (calls k) r st")
  with Cons.prems(1) e obtain ok2 where "apply_each tn ac calls m st1 = (st', ok2)" by (auto split: prod.splits)
  with Cons.IH device_ok_applyOne [OF one Cons.prems(2)] show ?case by blast
qed

text \<open>What one undisturbed batch does to the marker of a device.\<close>

lemma applyOne_answered:
  assumes "\<forall>k. calls k = Answered"
  shows "snd (applyOne tn ac calls r st)" and
    "lh_serverTimeMs (li_last (fst (applyOne tn ac calls r st)) (r_deviceId r)) = Some (r_serverTime r)" and
    "lh_fixTimeMs (li_last (fst (applyOne tn ac calls r st)) (r_deviceId r)) =
      (if ahead r st then Some (r_fixTime r) else lh_fixTimeMs (li_last st (r_deviceId r)))"
  using assms
  by (auto simp: applyOne_def write_call_def publish_live_def hset_def Let_def ahead_def split: option.splits)

lemma apply_each_fst:
  "fst (apply_each tn ac calls ((k, r) # m) st) = fst (apply_each tn ac calls m (fst (applyOne tn ac (calls k) r st)))"
  by (simp add: case_prod_beta Let_def)

lemma applyOne_elsewhere:
  "d \<noteq> r_deviceId r \<Longrightarrow> li_last (fst (applyOne tn ac calls r st)) d = li_last st d"
  using applyOne_other [of d r tn ac calls st "fst (applyOne tn ac calls r st)" "snd (applyOne tn ac calls r st)"] by simp

lemma apply_each_other:
  "d \<notin> fst ` set m \<Longrightarrow> (\<forall>e\<in>set m. r_deviceId (snd e) = fst e) \<Longrightarrow>
     li_last (fst (apply_each tn ac calls m st)) d = li_last st d"
proof (induction m arbitrary: st)
  case Nil
  then show ?case by simp
next
  case (Cons e m)
  obtain k r where e: "e = (k, r)" by (cases e)
  from Cons.prems e have "d \<noteq> r_deviceId r" by simp
  with Cons.IH [of "fst (applyOne tn ac (calls k) r st)"] Cons.prems show ?case
    unfolding e apply_each_fst by (simp add: applyOne_elsewhere)
qed

lemma apply_each_exact:
  assumes "\<forall>k d. calls d k = Answered" and "distinct (map fst m)" and "\<forall>e\<in>set m. r_deviceId (snd e) = fst e" and "(d, r) \<in> set m"
  shows "lh_serverTimeMs (li_last (fst (apply_each tn ac calls m st)) d) = Some (r_serverTime r) \<and>
    lh_fixTimeMs (li_last (fst (apply_each tn ac calls m st)) d) =
      (if ahead r st then Some (r_fixTime r) else lh_fixTimeMs (li_last st d))"
  using assms(2-4)
proof (induction m arbitrary: st)
  case Nil
  then show ?case by simp
next
  case (Cons e m)
  obtain k x where e: "e = (k, x)" by (cases e)
  define st1 where "st1 = fst (applyOne tn ac (calls k) x st)"
  have x: "r_deviceId x = k" using Cons.prems(2) e by simp
  have step: "fst (apply_each tn ac calls (e # m) st) = fst (apply_each tn ac calls m st1)"
    unfolding e apply_each_fst st1_def ..
  show ?case
  proof (cases "k = d")
    case True
    with Cons.prems e have r: "x = r" "d \<notin> fst ` set m" by (auto simp: image_iff dest: bspec)
    have "li_last (fst (apply_each tn ac calls m st1)) d = li_last st1 d"
      using Cons.prems(2) by (intro apply_each_other [OF r(2)]) simp
    moreover have "\<forall>j. calls k j = Answered" using assms(1) by blast
    ultimately show ?thesis
      unfolding step using applyOne_answered [of "calls k" tn ac x st] r x True by (simp add: st1_def)
  next
    case False
    with x have same: "li_last st1 d = li_last st d" by (simp add: st1_def applyOne_elsewhere)
    have dr: "r_deviceId r = d" using Cons.prems(2,3) by auto
    with same have "ahead r st1 = ahead r st" by (simp add: ahead_def)
    with Cons.IH [of st1] Cons.prems False e same show ?thesis unfolding step by simp
  qed
qed

definition no_live :: live where
  "no_live = \<lparr>li_last = (\<lambda>d. \<lparr>lh_serverTimeMs = None, lh_clockSkewedAt = None, lh_fixTimeMs = None, lh_json = None\<rparr>), li_published = []\<rparr>"

definition live_after ::
  "((int \<Rightarrow> string option) \<times> (int \<Rightarrow> string option) \<times> (int \<Rightarrow> nat \<Rightarrow> call) \<times> nrec list) list \<Rightarrow> live" where
  "live_after batches = foldl (\<lambda>st (tn, ac, calls, rs). fst (apply_live tn ac calls rs st)) no_live batches"

lemma live_after_ok: "device_ok d (live_after batches)"
proof (induction batches rule: rev_induct)
  case Nil
  then show ?case by (simp add: live_after_def no_live_def device_ok_def of_device_def)
next
  case (snoc b batches)
  obtain tn ac calls rs where b: "b = (tn, ac, calls, rs)" by (cases b)
  have step: "live_after (batches @ [b]) = fst (apply_each tn ac calls (newestPerDevice rs) (live_after batches))"
    by (simp add: live_after_def b apply_live_def)
  show ?case
    unfolding step by (rule apply_each_ok [OF prod.collapse [symmetric] snoc.IH])
qed

text \<open>The live marker never goes back. After any batches, in any order, with any round trip failing: the stored
  message is the one of the marker's time, the last position it carries is one that can place the
  vehicle and not newer, and the messages published for a device are strictly ordered in time. And a batch
  whose round trips are answered moves a device's marker exactly if the newest record of the
  device is newer than the marker and not from a clock running ahead, while the contact time is
  recorded in any case.\<close>

theorem live_marker_advances:
  "device_ok d (live_after batches) \<and>
   ((\<forall>k d. calls d k = Answered) \<longrightarrow> map_of (newestPerDevice rs) d = Some r \<longrightarrow>
     lh_serverTimeMs (li_last (fst (apply_live tn ac calls rs st)) d) = Some (r_serverTime r) \<and>
     lh_fixTimeMs (li_last (fst (apply_live tn ac calls rs st)) d) =
       (if ahead r st then Some (r_fixTime r) else lh_fixTimeMs (li_last st d)) \<and>
     r \<in> set rs \<and> r_deviceId r = d \<and> (\<forall>x\<in>set rs. r_deviceId x = d \<longrightarrow> r_fixTime x \<le> r_fixTime r))"
proof (intro conjI [OF live_after_ok] impI)
  assume answered: "\<forall>k d. calls d k = Answered" and r: "map_of (newestPerDevice rs) d = Some r"
  from newestPerDevice_ok [of rs] have ok: "distinct (map fst (newestPerDevice rs))" "\<forall>e. newest_for rs e (map_of (newestPerDevice rs) e)"
    by (simp_all add: newest_ok_def)
  have ids: "\<forall>e\<in>set (newestPerDevice rs). r_deviceId (snd e) = fst e"
  proof
    fix e
    assume "e \<in> set (newestPerDevice rs)"
    then have "map_of (newestPerDevice rs) (fst e) = Some (snd e)" using ok(1) by simp
    with ok(2) have "newest_for rs (fst e) (Some (snd e))" by metis
    then show "r_deviceId (snd e) = fst e" by (simp add: newest_for_def)
  qed
  from r have "(d, r) \<in> set (newestPerDevice rs)" by (rule map_of_SomeD)
  note exact = apply_each_exact [OF answered ok(1) ids this, of tn ac st]
  from ok(2) have "newest_for rs d (Some r)" unfolding r [symmetric] by blast
  then have "r \<in> set rs \<and> r_deviceId r = d \<and> (\<forall>x\<in>set rs. r_deviceId x = d \<longrightarrow> r_fixTime x \<le> r_fixTime r)"
    by (simp add: newest_for_def)
  with exact show "lh_serverTimeMs (li_last (fst (apply_live tn ac calls rs st)) d) = Some (r_serverTime r) \<and>
     lh_fixTimeMs (li_last (fst (apply_live tn ac calls rs st)) d) =
       (if ahead r st then Some (r_fixTime r) else lh_fixTimeMs (li_last st d)) \<and>
     r \<in> set rs \<and> r_deviceId r = d \<and> (\<forall>x\<in>set rs. r_deviceId x = d \<longrightarrow> r_fixTime x \<le> r_fixTime r)"
    unfolding apply_live_def by blast
qed

definition live_rec :: "int \<Rightarrow> nrec" where
  "live_rec fix = \<lparr>r_deviceId = 7, r_fixTime = fix, r_serverTime = 1000, r_lat = 54, r_lon = 25, r_altitude = None, r_speed = None,
     r_course = None, r_satellites = 9, r_fixValid = True, r_ignition = None, r_movement = None, r_odometerM = None,
     r_priority = 0, r_recHash = 0, r_attrs = []\<rparr>"

definition quiet :: "int \<Rightarrow> nat \<Rightarrow> call" where
  "quiet d k = Answered"

lemma live_two: "newestPerDevice [live_rec 900, live_rec 800] = [(7, live_rec 900)]"
  by (simp add: newestPerDevice_def keep_newest_def live_rec_def)

theorem live_marker_advances_witness:
  "lh_fixTimeMs (li_last (fst (apply_live (\<lambda>_. None) (\<lambda>_. None) quiet [live_rec 900, live_rec 800] no_live)) 7) = Some 900"
  using live_marker_advances [of 7 "[]" quiet "[live_rec 900, live_rec 800]" "live_rec 900" "\<lambda>_. None" "\<lambda>_. None" no_live]
  by (simp add: live_two quiet_def) (simp add: ahead_def no_live_def live_rec_def isClockSkewed_def MAX_CLOCK_SKEW_MS_def)

text \<open>One record of a clock running ahead hides the good records of its batch from the marker, because the newest
  of the batch is chosen before the clock is looked at.\<close>

lemma skewed_record_hides_batch:
  "lh_fixTimeMs (li_last (fst (apply_live tn ac quiet [live_rec 900, live_rec 999999] no_live)) 7) = None \<and>
   isClockSkewed (live_rec 999999) \<and> \<not> isClockSkewed (live_rec 900)"
  by (simp add: apply_live_def newestPerDevice_def keep_newest_def applyOne_def write_call_def hset_def quiet_def no_live_def
      live_rec_def isClockSkewed_def MAX_CLOCK_SKEW_MS_def Let_def)

end
