(* ===== verification/Writer.thy ===== *)
theory Writer
  imports Normalize
begin

text \<open>
  apps/worker/src/writer.ts and the isolation of bad rows in consumer.ts. The table \<open>positions\<close> is its rows; an
  INSERT is one statement, it skips the rows whose key is present (ON CONFLICT DO NOTHING) and inserts all others or fails as a
  whole. Which rows Postgres rejects, with which SQLSTATE, and which statements fail for other reasons
  are parameters.
\<close>

section \<open>The table\<close>

definition MAX_BATCH_ROWS :: nat where
  "MAX_BATCH_ROWS = 500"

definition row_key :: "nrec \<Rightarrow> int \<times> int \<times> int" where
  "row_key r = (r_deviceId r, r_fixTime r, r_recHash r)"

definition insert_row :: "nrec \<Rightarrow> nrec list \<Rightarrow> nrec list" where
  "insert_row r table = (if row_key r \<in> row_key ` set table then table else table @ [r])"

record postgres =
  pg_rejects :: "nrec \<Rightarrow> string option"
  pg_fails :: "nat \<Rightarrow> string option option"

record pg_state =
  ps_rows :: "nrec list"
  ps_statements :: nat

text \<open>The failure of a statement: the SQLSTATE of the error, if it has one.\<close>

definition run_insert :: "postgres \<Rightarrow> nrec list \<Rightarrow> pg_state \<Rightarrow> pg_state \<times> (string option + nat)" where
  "run_insert pg batch s =
     (let s1 = s\<lparr>ps_statements := Suc (ps_statements s)\<rparr>; rows = fold insert_row batch (ps_rows s) in
      case pg_fails pg (ps_statements s) of
        Some code \<Rightarrow> (s1, Inl code)
      | None \<Rightarrow>
          (case find (\<lambda>r. pg_rejects pg r \<noteq> None) batch of
             Some r \<Rightarrow> (s1, Inl (pg_rejects pg r))
           | None \<Rightarrow> (s1\<lparr>ps_rows := rows\<rparr>, Inr (length rows - length (ps_rows s)))))"

text \<open>One statement per 500 rows; the statements before a failing one stay.\<close>

function writePositions :: "postgres \<Rightarrow> nrec list \<Rightarrow> pg_state \<Rightarrow> pg_state \<times> (string option + nat)" where
  "writePositions pg [] s = (s, Inr 0)"
| "writePositions pg (r # rs) s =
     (case run_insert pg (take MAX_BATCH_ROWS (r # rs)) s of
        (s1, Inl e) \<Rightarrow> (s1, Inl e)
      | (s1, Inr n) \<Rightarrow>
          (case writePositions pg (drop MAX_BATCH_ROWS (r # rs)) s1 of
             (s2, Inl e) \<Rightarrow> (s2, Inl e)
           | (s2, Inr m) \<Rightarrow> (s2, Inr (n + m))))"
  by pat_completeness auto
termination
  by (relation "measure (\<lambda>(pg, rs, s). length rs)") (auto simp: MAX_BATCH_ROWS_def)

section \<open>Isolation of bad rows\<close>

definition isRowRejection :: "string option \<Rightarrow> bool" where
  "isRowRejection code = (case code of None \<Rightarrow> False | Some c \<Rightarrow> take 2 c = ''22'' \<or> take 2 c = ''23'')"

text \<open>A normalised record with the stream entry it came from (the code's map \<open>entryOf\<close>); the id tells
  records apart.\<close>

record item =
  it_id :: string
  it_payload :: bytes
  it_rec :: nrec

text \<open>The rows found bad are returned in order; a failure that is not a rejection ends the search.\<close>

function write_isolating :: "postgres \<Rightarrow> item list \<Rightarrow> pg_state \<Rightarrow> pg_state \<times> (string option + nat \<times> item list)" where
  "write_isolating pg recs s =
     (if recs = [] then (s, Inr (0, []))
      else case writePositions pg (map it_rec recs) s of
        (s1, Inr n) \<Rightarrow> (s1, Inr (n, []))
      | (s1, Inl e) \<Rightarrow>
          (if \<not> isRowRejection e then (s1, Inl e)
           else if length recs = 1 then (s1, Inr (0, recs))
           else case write_isolating pg (take (length recs div 2) recs) s1 of
               (s2, Inl e) \<Rightarrow> (s2, Inl e)
             | (s2, Inr (n1, bad1)) \<Rightarrow>
                 (case write_isolating pg (drop (length recs div 2) recs) s2 of
                    (s3, Inl e) \<Rightarrow> (s3, Inl e)
                  | (s3, Inr (n2, bad2)) \<Rightarrow> (s3, Inr (n1 + n2, bad1 @ bad2)))))"
  by pat_completeness auto
termination
proof (relation "measure (\<lambda>(pg, recs, s). length recs)", goal_cases)
  case 1
  then show ?case by simp
next
  case (2 pg recs s)
  then have "2 \<le> length recs" by (cases recs) (auto simp: Suc_le_eq)
  then show ?case by simp
next
  case (3 pg recs s)
  then have "2 \<le> length recs" by (cases recs) (auto simp: Suc_le_eq)
  then show ?case by simp
qed

declare write_isolating.simps [simp del]

definition writeIsolatingBadRows ::
  "postgres \<Rightarrow> item list \<Rightarrow> pg_state \<Rightarrow> pg_state \<times> (string option + nat \<times> item list \<times> (string \<times> bytes) list)" where
  "writeIsolatingBadRows pg recs s =
     (case write_isolating pg recs s of
        (s1, Inl e) \<Rightarrow> (s1, Inl e)
      | (s1, Inr (n, bad)) \<Rightarrow>
          (s1, Inr (n, filter (\<lambda>r. r \<notin> set bad) recs, map (\<lambda>r. (it_id r, it_payload r)) bad)))"

section \<open>Insertion\<close>

lemma insert_row_keys: "row_key ` set (insert_row r t) = insert (row_key r) (row_key ` set t)"
  by (auto simp: insert_row_def)

lemma insert_rows_keys: "row_key ` set (fold insert_row rs t) = row_key ` set rs \<union> row_key ` set t"
  by (induction rs arbitrary: t) (auto simp: insert_row_keys)

lemma insert_rows_present: "row_key ` set rs \<subseteq> row_key ` set t \<Longrightarrow> fold insert_row rs t = t"
  by (induction rs arbitrary: t) (auto simp: insert_row_def)

lemma insert_rows_prefix: "\<exists>new. fold insert_row rs t = t @ new"
proof (induction rs arbitrary: t)
  case Nil
  then show ?case by simp
next
  case (Cons r rs)
  obtain new where new: "fold insert_row rs (insert_row r t) = insert_row r t @ new" using Cons by blast
  have "\<exists>here. insert_row r t = t @ here" by (auto simp: insert_row_def)
  with new show ?case by auto
qed

lemma insert_rows_length: "length t \<le> length (fold insert_row rs t)"
  using insert_rows_prefix [of rs t] by auto

text \<open>Inserting rows again, after more were inserted, changes nothing.\<close>

lemma insert_rows_again: "fold insert_row (xs @ ys) (fold insert_row xs t) = fold insert_row (xs @ ys) t"
proof -
  have "fold insert_row xs (fold insert_row xs t) = fold insert_row xs t"
    by (rule insert_rows_present) (simp add: insert_rows_keys)
  then show ?thesis by simp
qed

lemma run_insert_Inr: "run_insert pg batch s = (s', Inr n) \<Longrightarrow>
    ps_rows s' = fold insert_row batch (ps_rows s) \<and> n = length (ps_rows s') - length (ps_rows s) \<and>
    (\<forall>r\<in>set batch. pg_rejects pg r = None)"
  by (auto simp: run_insert_def Let_def find_None_iff split: option.splits)

lemma run_insert_Inl: "run_insert pg batch s = (s', Inl e) \<Longrightarrow> ps_rows s' = ps_rows s"
  by (auto simp: run_insert_def Let_def split: option.splits)

lemma writePositions_Inr: "writePositions pg rs s = (s', Inr n) \<Longrightarrow>
    ps_rows s' = fold insert_row rs (ps_rows s) \<and> n = length (ps_rows s') - length (ps_rows s) \<and>
    (\<forall>r\<in>set rs. pg_rejects pg r = None)"
proof (induction pg rs s arbitrary: s' n rule: writePositions.induct)
  case (1 pg s)
  then show ?case by simp
next
  case (2 pg r rs s)
  let ?a = "take MAX_BATCH_ROWS (r # rs)" and ?b = "drop MAX_BATCH_ROWS (r # rs)"
  from 2(2) obtain s1 n1 where one: "run_insert pg ?a s = (s1, Inr n1)"
    by (auto split: prod.splits sum.splits)
  from 2(2) one obtain n2 where two: "writePositions pg ?b s1 = (s', Inr n2)" and n: "n = n1 + n2"
    by (auto split: prod.splits sum.splits)
  note head = run_insert_Inr [OF one] and tail = 2(1) [OF one [symmetric] refl two]
  have cut: "fold insert_row (r # rs) t = fold insert_row ?b (fold insert_row ?a t)" for t
    by (metis append_take_drop_id fold_append comp_apply)
  have both: "set (r # rs) = set ?a \<union> set ?b" by (metis append_take_drop_id set_append)
  have rows: "ps_rows s' = fold insert_row (r # rs) (ps_rows s)"
    unfolding cut using head tail by simp
  have "length (ps_rows s) \<le> length (ps_rows s1)" "length (ps_rows s1) \<le> length (ps_rows s')"
    using head tail insert_rows_length by metis+
  with n head tail have "n = length (ps_rows s') - length (ps_rows s)" by simp
  moreover have "\<forall>x\<in>set (r # rs). pg_rejects pg x = None"
    unfolding both using head tail by blast
  ultimately show ?case using rows by simp
qed

text \<open>A failing write leaves a prefix inserted, without bad rows; and unless a statement failed for another
  reason, some row is to blame.\<close>

lemma writePositions_Inl: "writePositions pg rs s = (s', Inl e) \<Longrightarrow>
    (\<exists>k. ps_rows s' = fold insert_row (take k rs) (ps_rows s) \<and> (\<forall>r\<in>set (take k rs). pg_rejects pg r = None) \<and>
      (length rs \<le> MAX_BATCH_ROWS \<longrightarrow> k = 0)) \<and>
    ((\<exists>n. pg_fails pg n = Some e) \<or> (\<exists>r\<in>set rs. pg_rejects pg r = e \<and> e \<noteq> None))"
proof (induction pg rs s arbitrary: s' e rule: writePositions.induct)
  case (1 pg s)
  then show ?case by simp
next
  case (2 pg r rs s)
  let ?a = "take MAX_BATCH_ROWS (r # rs)" and ?b = "drop MAX_BATCH_ROWS (r # rs)"
  obtain s1 x where one: "run_insert pg ?a s = (s1, x)" by (cases "run_insert pg ?a s")
  show ?case
  proof (cases x)
    case (Inl e1)
    with 2(2) one have eq: "s' = s1" "e = e1" by auto
    from one Inl have blame: "(\<exists>n. pg_fails pg n = Some e) \<or> (\<exists>r\<in>set ?a. pg_rejects pg r = e \<and> e \<noteq> None)"
      unfolding eq by (auto simp: run_insert_def Let_def split: option.splits dest: find_SomeD)
    have "\<exists>k. ps_rows s' = fold insert_row (take k (r # rs)) (ps_rows s) \<and>
        (\<forall>r\<in>set (take k (r # rs)). pg_rejects pg r = None) \<and> (length (r # rs) \<le> MAX_BATCH_ROWS \<longrightarrow> k = 0)"
      using run_insert_Inl one Inl eq by (intro exI [of _ 0]) simp
    with blame show ?thesis using set_take_subset by fastforce
  next
    case (Inr n1)
    from 2(2) one Inr have two: "writePositions pg ?b s1 = (s', Inl e)" by (auto split: prod.splits sum.splits)
    note head = run_insert_Inr [OF one [unfolded Inr]]
    from 2(1) [OF one [unfolded Inr, symmetric] refl two] obtain k where
      k: "ps_rows s' = fold insert_row (take k ?b) (ps_rows s1)" "\<forall>r\<in>set (take k ?b). pg_rejects pg r = None"
      and blame: "(\<exists>n. pg_fails pg n = Some e) \<or> (\<exists>r\<in>set ?b. pg_rejects pg r = e \<and> e \<noteq> None)" by blast
    have long: "\<not> length (r # rs) \<le> MAX_BATCH_ROWS"
    proof
      assume "length (r # rs) \<le> MAX_BATCH_ROWS"
      then have "?b = []" by simp
      with two show False by simp
    qed
    then have cut: "take (MAX_BATCH_ROWS + k) (r # rs) = ?a @ take k ?b" by (simp only: take_add)
    have "ps_rows s' = fold insert_row (take (MAX_BATCH_ROWS + k) (r # rs)) (ps_rows s) \<and>
        (\<forall>x\<in>set (take (MAX_BATCH_ROWS + k) (r # rs)). pg_rejects pg x = None)"
      using head k unfolding cut by auto
    with blame long show ?thesis by (blast dest: in_set_dropD)
  qed
qed

text \<open>Postgres with no failure but the rejection of rows, and the weaker fact that other failures do not look
  like one.\<close>

definition rejects_rows :: "postgres \<Rightarrow> bool" where
  "rejects_rows pg \<longleftrightarrow> (\<forall>r code. pg_rejects pg r = Some code \<longrightarrow> isRowRejection (Some code))"

definition steady_pg :: "postgres \<Rightarrow> bool" where
  "steady_pg pg \<longleftrightarrow> rejects_rows pg \<and> (\<forall>n. pg_fails pg n = None)"

definition transient_pg :: "postgres \<Rightarrow> bool" where
  "transient_pg pg \<longleftrightarrow> rejects_rows pg \<and> (\<forall>n code. pg_fails pg n = Some code \<longrightarrow> \<not> isRowRejection code)"

definition fine :: "postgres \<Rightarrow> item \<Rightarrow> bool" where
  "fine pg i \<longleftrightarrow> pg_rejects pg (it_rec i) = None"

lemma steady_transient: "steady_pg pg \<Longrightarrow> transient_pg pg"
  by (simp add: steady_pg_def transient_pg_def)

lemma keys_kept: "row_key ` set (ps_rows s) \<subseteq> row_key ` set (fold insert_row rs (ps_rows s))"
  by (simp add: insert_rows_keys)

text \<open>The outcomes of one call, for induction on the number of rows.\<close>

lemma write_isolating_split:
  assumes "write_isolating pg recs s = (s', res)"
  obtains (Empty) "recs = []" "s' = s" "res = Inr (0, [])"
  | (Written) n where "writePositions pg (map it_rec recs) s = (s', Inr n)" "res = Inr (n, [])"
  | (Failed) e where "writePositions pg (map it_rec recs) s = (s', Inl e)" "\<not> isRowRejection e" "res = Inl e"
  | (Single) e where "writePositions pg (map it_rec recs) s = (s', Inl e)" "isRowRejection e" "length recs = 1" "res = Inr (0, recs)"
  | (LeftFails) e s1 e' where "writePositions pg (map it_rec recs) s = (s1, Inl e)" "isRowRejection e" "2 \<le> length recs"
      "write_isolating pg (take (length recs div 2) recs) s1 = (s', Inl e')" "res = Inl e'"
  | (RightFails) e s1 s2 n1 bad1 e' where "writePositions pg (map it_rec recs) s = (s1, Inl e)" "isRowRejection e"
      "2 \<le> length recs" "write_isolating pg (take (length recs div 2) recs) s1 = (s2, Inr (n1, bad1))"
      "write_isolating pg (drop (length recs div 2) recs) s2 = (s', Inl e')" "res = Inl e'"
  | (Both) e s1 s2 n1 bad1 n2 bad2 where "writePositions pg (map it_rec recs) s = (s1, Inl e)" "isRowRejection e"
      "2 \<le> length recs" "write_isolating pg (take (length recs div 2) recs) s1 = (s2, Inr (n1, bad1))"
      "write_isolating pg (drop (length recs div 2) recs) s2 = (s', Inr (n2, bad2))" "res = Inr (n1 + n2, bad1 @ bad2)"
proof -
  consider "recs = []" | "length recs = 1" | "2 \<le> length recs" by (cases recs) (auto simp: Suc_le_eq)
  then show ?thesis
    using assms by (subst (asm) write_isolating.simps, cases) (auto split: prod.splits sum.splits if_splits intro: that)
qed

lemma writePositions_keys:
  assumes "writePositions pg rs s = (s', res)"
  shows "row_key ` set (ps_rows s) \<subseteq> row_key ` set (ps_rows s') \<and>
    row_key ` set (ps_rows s') \<subseteq> row_key ` set (ps_rows s) \<union> row_key ` set rs"
proof (cases res)
  case (Inl e)
  with writePositions_Inl [of pg rs s s' e] assms obtain k where "ps_rows s' = fold insert_row (take k rs) (ps_rows s)" by blast
  then show ?thesis using set_take_subset [of k rs] by (auto simp: insert_rows_keys)
next
  case (Inr n)
  with writePositions_Inr [of pg rs s s' n] assms show ?thesis by (auto simp: insert_rows_keys)
qed

lemma halves: "set (take n xs) \<union> set (drop n xs) = set xs"
  by (metis append_take_drop_id set_append)

text \<open>However statements fail, the table only gains rows of the batch; and if the search ends without an
  error, every row not found bad is in the table, and a row found bad is one that Postgres rejects.\<close>

definition keys_of :: "pg_state \<Rightarrow> (int \<times> int \<times> int) set" where
  "keys_of s = row_key ` set (ps_rows s)"

definition item_keys :: "item list \<Rightarrow> (int \<times> int \<times> int) set" where
  "item_keys recs = (\<lambda>i. row_key (it_rec i)) ` set recs"

lemma writePositions_items:
  "writePositions pg (map it_rec recs) s = (s', res) \<Longrightarrow> keys_of s \<subseteq> keys_of s' \<and> keys_of s' \<subseteq> keys_of s \<union> item_keys recs"
  using writePositions_keys [of pg "map it_rec recs" s s' res] by (simp add: keys_of_def item_keys_def image_image)

lemma grow3: "K \<subseteq> K1 \<Longrightarrow> K1 \<subseteq> K \<union> I \<Longrightarrow> K1 \<subseteq> K2 \<Longrightarrow> K2 \<subseteq> K1 \<union> A \<Longrightarrow> K2 \<subseteq> K3 \<Longrightarrow> K3 \<subseteq> K2 \<union> B \<Longrightarrow>
    A \<subseteq> I \<Longrightarrow> B \<subseteq> I \<Longrightarrow> K \<subseteq> K3 \<and> K3 \<subseteq> K \<union> I"
  by blast

lemma write_isolating_sound:
  assumes pg: "transient_pg pg"
  shows "write_isolating pg recs s = (s', res) \<Longrightarrow>
    keys_of s \<subseteq> keys_of s' \<and> keys_of s' \<subseteq> keys_of s \<union> item_keys recs \<and>
    (\<forall>n bad. res = Inr (n, bad) \<longrightarrow> set bad \<subseteq> set recs \<and> (\<forall>i\<in>set bad. \<not> fine pg i) \<and>
       (\<forall>i\<in>set recs - set bad. row_key (it_rec i) \<in> keys_of s'))"
proof (induction "length recs" arbitrary: recs s s' res rule: less_induct)
  case less
  let ?l = "take (length recs div 2) recs" and ?r = "drop (length recs div 2) recs"
  have half: "2 \<le> length recs \<Longrightarrow> length ?l < length recs" "2 \<le> length recs \<Longrightarrow> length ?r < length recs" by auto
  have sub: "set ?l \<subseteq> set recs" "set ?r \<subseteq> set recs" by (rule set_take_subset, rule set_drop_subset)
  then have isub: "item_keys ?l \<subseteq> item_keys recs" "item_keys ?r \<subseteq> item_keys recs" unfolding item_keys_def by blast+
  have whole: "set recs \<subseteq> set ?l \<union> set ?r" by (simp only: halves order_refl)
  from less.prems show ?case
  proof (cases rule: write_isolating_split)
    case Empty
    then show ?thesis by simp
  next
    case (Written n)
    from writePositions_Inr [OF Written(1)] have "\<forall>i\<in>set recs. row_key (it_rec i) \<in> keys_of s'"
      by (simp add: keys_of_def insert_rows_keys)
    with writePositions_items [OF Written(1)] Written(2) show ?thesis by simp
  next
    case (Failed e)
    with writePositions_items [OF Failed(1)] show ?thesis by simp
  next
    case (Single e)
    then obtain i where i: "recs = [i]" by (auto simp: length_Suc_conv)
    from writePositions_Inl [OF Single(1)] Single(2) pg i have "\<not> fine pg i"
      by (auto simp: transient_pg_def fine_def)
    with writePositions_items [OF Single(1)] Single(4) i show ?thesis by simp
  next
    case (LeftFails e s1 e')
    note l = less.hyps [OF half(1) [OF LeftFails(3)] LeftFails(4)]
    from writePositions_items [OF LeftFails(1)] l LeftFails(5) isub show ?thesis by blast
  next
    case (RightFails e s1 s2 n1 bad1 e')
    note l = less.hyps [OF half(1) [OF RightFails(3)] RightFails(4)]
    note r = less.hyps [OF half(2) [OF RightFails(3)] RightFails(5)]
    from l r have k: "keys_of s1 \<subseteq> keys_of s2" "keys_of s2 \<subseteq> keys_of s1 \<union> item_keys ?l"
      "keys_of s2 \<subseteq> keys_of s'" "keys_of s' \<subseteq> keys_of s2 \<union> item_keys ?r" by simp_all
    from writePositions_items [OF RightFails(1)] have "keys_of s \<subseteq> keys_of s' \<and> keys_of s' \<subseteq> keys_of s \<union> item_keys recs"
      by (elim conjE) (rule grow3 [OF _ _ k isub])
    with RightFails(6) show ?thesis by simp
  next
    case (Both e s1 s2 n1 bad1 n2 bad2)
    note l = less.hyps [OF half(1) [OF Both(3)] Both(4)]
    note r = less.hyps [OF half(2) [OF Both(3)] Both(5)]
    have keys: "keys_of s \<subseteq> keys_of s' \<and> keys_of s' \<subseteq> keys_of s \<union> item_keys recs"
    proof -
      from l r have k: "keys_of s1 \<subseteq> keys_of s2" "keys_of s2 \<subseteq> keys_of s1 \<union> item_keys ?l"
        "keys_of s2 \<subseteq> keys_of s'" "keys_of s' \<subseteq> keys_of s2 \<union> item_keys ?r" by simp_all
      from writePositions_items [OF Both(1)] show ?thesis by (elim conjE) (rule grow3 [OF _ _ k isub])
    qed
    have bads: "set bad1 \<subseteq> set ?l" "set bad2 \<subseteq> set ?r" "\<forall>i\<in>set bad1. \<not> fine pg i" "\<forall>i\<in>set bad2. \<not> fine pg i"
      and saved: "\<forall>i\<in>set ?l - set bad1. row_key (it_rec i) \<in> keys_of s2" "\<forall>i\<in>set ?r - set bad2. row_key (it_rec i) \<in> keys_of s'"
      using l r by simp_all
    have "keys_of s2 \<subseteq> keys_of s'" using r by simp
    then have "\<forall>i\<in>set recs - set (bad1 @ bad2). row_key (it_rec i) \<in> keys_of s'"
      using whole saved by (auto dest!: subsetD)
    moreover have "set (bad1 @ bad2) \<subseteq> set recs" "\<forall>i\<in>set (bad1 @ bad2). \<not> fine pg i"
      using bads sub by auto
    ultimately show ?thesis using keys Both(6) by blast
  qed
qed

text \<open>With no other failure the search is exact.\<close>

lemma steady_Inl: "steady_pg pg \<Longrightarrow> writePositions pg (map it_rec recs) s = (s', Inl e) \<Longrightarrow>
    isRowRejection e \<and> (\<exists>i\<in>set recs. \<not> fine pg i)"
  using writePositions_Inl [of pg "map it_rec recs" s s' e]
  by (auto simp: steady_pg_def rejects_rows_def fine_def)

lemma good_prefix:
  assumes "\<forall>r\<in>set (take k (map it_rec recs)). pg_rejects pg r = None"
  shows "\<exists>rest. filter (fine pg) recs = take k recs @ rest"
proof -
  have "filter (fine pg) (take k recs) = take k recs"
    using assms by (simp add: take_map fine_def filter_id_conv)
  then show ?thesis by (metis append_take_drop_id filter_append)
qed

lemma write_isolating_exact:
  assumes pg: "steady_pg pg"
  shows "write_isolating pg recs s = (s', res) \<Longrightarrow>
    \<exists>n. res = Inr (n, filter (\<lambda>i. \<not> fine pg i) recs) \<and>
      ps_rows s' = fold insert_row (map it_rec (filter (fine pg) recs)) (ps_rows s) \<and>
      (length recs \<le> MAX_BATCH_ROWS \<longrightarrow> n = length (ps_rows s') - length (ps_rows s))"
proof (induction "length recs" arbitrary: recs s s' res rule: less_induct)
  case less
  let ?l = "take (length recs div 2) recs" and ?r = "drop (length recs div 2) recs"
  have half: "2 \<le> length recs \<Longrightarrow> length ?l < length recs" "2 \<le> length recs \<Longrightarrow> length ?r < length recs" by auto
  have cut: "filter P recs = filter P ?l @ filter P ?r" for P by (metis append_take_drop_id filter_append)
  have again: "fold insert_row (map it_rec (filter (fine pg) recs)) (ps_rows s1) =
      fold insert_row (map it_rec (filter (fine pg) recs)) (ps_rows s) \<and>
      (length recs \<le> MAX_BATCH_ROWS \<longrightarrow> ps_rows s1 = ps_rows s)"
    if w: "writePositions pg (map it_rec recs) s = (s1, Inl e)" for s1 e
  proof -
    from writePositions_Inl [OF w] obtain k where
      k: "ps_rows s1 = fold insert_row (take k (map it_rec recs)) (ps_rows s)"
        "\<forall>r\<in>set (take k (map it_rec recs)). pg_rejects pg r = None"
        "length (map it_rec recs) \<le> MAX_BATCH_ROWS \<longrightarrow> k = 0" by blast
    from good_prefix [OF k(2)] obtain rest where "filter (fine pg) recs = take k recs @ rest" by blast
    then have "map it_rec (filter (fine pg) recs) = take k (map it_rec recs) @ map it_rec rest" by (simp add: take_map)
    with k insert_rows_again [of "take k (map it_rec recs)" "map it_rec rest" "ps_rows s"] show ?thesis by simp
  qed
  from less.prems show ?case
  proof (cases rule: write_isolating_split)
    case Empty
    then show ?thesis by simp
  next
    case (Written n)
    from writePositions_Inr [OF Written(1)] have all: "\<forall>i\<in>set recs. fine pg i" by (simp add: fine_def)
    then have "filter (fine pg) recs = recs" "filter (\<lambda>i. \<not> fine pg i) recs = []"
      by (simp_all add: filter_id_conv filter_empty_conv)
    with writePositions_Inr [OF Written(1)] Written(2) show ?thesis by simp
  next
    case (Failed e)
    with steady_Inl [OF pg Failed(1)] show ?thesis by simp
  next
    case (Single e)
    then obtain i where i: "recs = [i]" by (auto simp: length_Suc_conv)
    with steady_Inl [OF pg Single(1)] have "\<not> fine pg i" by simp
    with again [OF Single(1)] Single(4) i show ?thesis by (simp add: MAX_BATCH_ROWS_def)
  next
    case (LeftFails e s1 e')
    from less.hyps [OF half(1) [OF LeftFails(3)] LeftFails(4)] show ?thesis by simp
  next
    case (RightFails e s1 s2 n1 bad1 e')
    from less.hyps [OF half(2) [OF RightFails(3)] RightFails(5)] show ?thesis by simp
  next
    case (Both e s1 s2 n1 bad1 n2 bad2)
    from less.hyps [OF half(1) [OF Both(3)] Both(4)] have l: "bad1 = filter (\<lambda>i. \<not> fine pg i) ?l"
      "ps_rows s2 = fold insert_row (map it_rec (filter (fine pg) ?l)) (ps_rows s1)"
      "length ?l \<le> MAX_BATCH_ROWS \<longrightarrow> n1 = length (ps_rows s2) - length (ps_rows s1)" by auto
    from less.hyps [OF half(2) [OF Both(3)] Both(5)] have r: "bad2 = filter (\<lambda>i. \<not> fine pg i) ?r"
      "ps_rows s' = fold insert_row (map it_rec (filter (fine pg) ?r)) (ps_rows s2)"
      "length ?r \<le> MAX_BATCH_ROWS \<longrightarrow> n2 = length (ps_rows s') - length (ps_rows s2)" by auto
    have "ps_rows s' = fold insert_row (map it_rec (filter (fine pg) recs)) (ps_rows s1)"
      using l(2) r(2) by (simp add: cut [of "fine pg"])
    with again [OF Both(1)] have rows: "ps_rows s' = fold insert_row (map it_rec (filter (fine pg) recs)) (ps_rows s)" by simp
    have "n1 + n2 = length (ps_rows s') - length (ps_rows s)" if "length recs \<le> MAX_BATCH_ROWS"
    proof -
      have "length (ps_rows s1) \<le> length (ps_rows s2)" "length (ps_rows s2) \<le> length (ps_rows s')"
        unfolding l(2) r(2) by (rule insert_rows_length)+
      with that again [OF Both(1)] l(3) r(3) show ?thesis by simp
    qed
    with rows l(1) r(1) Both(6) show ?thesis by (simp add: cut [of "\<lambda>i. \<not> fine pg i"])
  qed
qed

text \<open>The number of statements.\<close>

lemma writePositions_once:
  "rs \<noteq> [] \<Longrightarrow> length rs \<le> MAX_BATCH_ROWS \<Longrightarrow> writePositions pg rs s = (s', res) \<Longrightarrow>
     ps_statements s' = Suc (ps_statements s)"
  by (cases rs) (auto simp: run_insert_def Let_def split: prod.splits sum.splits option.splits)

lemma write_isolating_statements:
  "length recs \<le> MAX_BATCH_ROWS \<Longrightarrow> write_isolating pg recs s = (s', res) \<Longrightarrow>
     ps_statements s' \<le> ps_statements s + (2 * length recs - 1)"
proof (induction "length recs" arbitrary: recs s s' res rule: less_induct)
  case less
  let ?l = "take (length recs div 2) recs" and ?r = "drop (length recs div 2) recs"
  have half: "2 \<le> length recs \<Longrightarrow> length ?l < length recs" "2 \<le> length recs \<Longrightarrow> length ?r < length recs"
    "length ?l + length ?r = length recs" "2 \<le> length recs \<Longrightarrow> 0 < length ?l" "2 \<le> length recs \<Longrightarrow> 0 < length ?r" by auto
  have small: "length ?l \<le> MAX_BATCH_ROWS" "length ?r \<le> MAX_BATCH_ROWS" using less.prems(1) by auto
  have once: "ps_statements s1 = Suc (ps_statements s)" if "writePositions pg (map it_rec recs) s = (s1, x)" "recs \<noteq> []" for s1 x
    using writePositions_once [OF _ _ that(1)] that(2) less.prems(1) by simp
  from less.prems(2) show ?case
  proof (cases rule: write_isolating_split)
    case Empty
    then show ?thesis by simp
  next
    case (Written n)
    then show ?thesis using once by (cases recs) auto
  next
    case (Failed e)
    then show ?thesis using once by (cases recs) auto
  next
    case (Single e)
    then show ?thesis using once by (cases recs) auto
  next
    case (LeftFails e s1 e')
    have "recs \<noteq> []" using LeftFails(3) by auto
    from once [OF LeftFails(1) this] less.hyps [OF half(1) [OF LeftFails(3)] small(1) LeftFails(4)] half(3)
      half(4,5) [OF LeftFails(3)] show ?thesis by linarith
  next
    case (RightFails e s1 s2 n1 bad1 e')
    have "recs \<noteq> []" using RightFails(3) by auto
    from once [OF RightFails(1) this] less.hyps [OF half(1) [OF RightFails(3)] small(1) RightFails(4)]
      less.hyps [OF half(2) [OF RightFails(3)] small(2) RightFails(5)] half(3) half(4,5) [OF RightFails(3)]
    show ?thesis by linarith
  next
    case (Both e s1 s2 n1 bad1 n2 bad2)
    have "recs \<noteq> []" using Both(3) by auto
    from once [OF Both(1) this] less.hyps [OF half(1) [OF Both(3)] small(1) Both(4)]
      less.hyps [OF half(2) [OF Both(3)] small(2) Both(5)] half(3) half(4,5) [OF Both(3)]
    show ?thesis by linarith
  qed
qed

text \<open>C35. One bad row never costs the batch. If Postgres rejects some rows and fails in no other way, the search
  ends, the table is the one that inserting the other rows in their order would give, the rows
  handed on are exactly those, and the rows quarantined with their bytes are exactly the rejected ones; for a
  batch of one statement the count is the number of new rows, and n rows cost at most 2n - 1
  statements.\<close>

theorem isolation_exact:
  assumes "steady_pg pg" and "writeIsolatingBadRows pg recs s = (s', res)"
  shows "ps_rows s' = fold insert_row (map it_rec (filter (fine pg) recs)) (ps_rows s) \<and>
    (\<exists>n. res = Inr (n, filter (fine pg) recs, map (\<lambda>i. (it_id i, it_payload i)) (filter (\<lambda>i. \<not> fine pg i) recs)) \<and>
      (length recs \<le> MAX_BATCH_ROWS \<longrightarrow> n = length (ps_rows s') - length (ps_rows s) \<and>
         ps_statements s' \<le> ps_statements s + (2 * length recs - 1)))"
proof -
  obtain s1 x where w: "write_isolating pg recs s = (s1, x)" by (cases "write_isolating pg recs s")
  from write_isolating_exact [OF assms(1) w] obtain n where n: "x = Inr (n, filter (\<lambda>i. \<not> fine pg i) recs)"
    "ps_rows s1 = fold insert_row (map it_rec (filter (fine pg) recs)) (ps_rows s)"
    "length recs \<le> MAX_BATCH_ROWS \<longrightarrow> n = length (ps_rows s1) - length (ps_rows s)" by blast
  have kept: "filter (\<lambda>r. r \<in> set recs \<longrightarrow> fine pg r) recs = filter (fine pg) recs"
    by (rule filter_cong) auto
  from assms(2) w n have "s' = s1" "res = Inr (n, filter (fine pg) recs, map (\<lambda>i. (it_id i, it_payload i)) (filter (\<lambda>i. \<not> fine pg i) recs))"
    by (simp_all add: writeIsolatingBadRows_def kept)
  with n write_isolating_statements [OF _ w] show ?thesis by auto
qed

definition sample_item :: "string \<Rightarrow> int \<Rightarrow> item" where
  "sample_item i v = \<lparr>it_id = i, it_payload = [1], it_rec = \<lparr>r_deviceId = 7, r_fixTime = v, r_serverTime = 0, r_lat = 54, r_lon = 25,
     r_altitude = None, r_speed = Some v, r_course = None, r_satellites = 9, r_fixValid = True, r_ignition = None,
     r_movement = None, r_odometerM = None, r_priority = 0, r_recHash = 0, r_attrs = []\<rparr>\<rparr>"

definition sample_pg :: postgres where
  "sample_pg = \<lparr>pg_rejects = (\<lambda>r. if r_speed r = Some 40000 then Some ''22003'' else None), pg_fails = (\<lambda>n. None)\<rparr>"

theorem isolation_exact_witness:
  "\<exists>s' n. writeIsolatingBadRows sample_pg [sample_item ''1-0'' 50, sample_item ''2-0'' 40000, sample_item ''3-0'' 60] \<lparr>ps_rows = [], ps_statements = 0\<rparr>
     = (s', Inr (n, [sample_item ''1-0'' 50, sample_item ''3-0'' 60], [(''2-0'', [1])])) \<and> length (ps_rows s') = 2"
proof -
  let ?recs = "[sample_item ''1-0'' 50, sample_item ''2-0'' 40000, sample_item ''3-0'' 60]"
  obtain s' res where w: "writeIsolatingBadRows sample_pg ?recs \<lparr>ps_rows = [], ps_statements = 0\<rparr> = (s', res)"
    by (cases "writeIsolatingBadRows sample_pg ?recs \<lparr>ps_rows = [], ps_statements = 0\<rparr>")
  have pg: "steady_pg sample_pg"
    by (simp add: steady_pg_def rejects_rows_def sample_pg_def isRowRejection_def)
  have f: "filter (fine sample_pg) ?recs = [sample_item ''1-0'' 50, sample_item ''3-0'' 60]"
    "filter (\<lambda>i. \<not> fine sample_pg i) ?recs = [sample_item ''2-0'' 40000]"
    by (simp_all add: fine_def sample_pg_def sample_item_def)
  have "length (fold insert_row (map it_rec [sample_item ''1-0'' 50, sample_item ''3-0'' 60]) []) = 2"
    by (simp add: insert_row_def row_key_def sample_item_def)
  with isolation_exact [OF pg w] w show ?thesis unfolding f by (auto simp: sample_item_def)
qed

end
