(* ===== verification/AvlTables.thy ===== *)
theory AvlTables
  imports Normalize
begin

text \<open>
  apps/worker/src/avlTableCache.ts: which AVL dictionary decodes a device, cached with a time to live. The
  configuration of a device is JSON text in Redis; its parser is a parameter that tells whether the
  value is an object and whether its field \<open>avlTable\<close> is a string. The catalogue and the list of
  shipped tables are parameters, as in \<open>Dictionary\<close>.
\<close>

definition FALLBACK_AVL_TABLE :: string where
  "FALLBACK_AVL_TABLE = ''fmb120''"

datatype fallback_reason = NoConfig | NoField | Malformed | UnknownTable | RedisError

record avl_entry =
  av_table :: string
  av_at :: int
  av_reason :: "fallback_reason option"
  av_reportedAt :: "int option"

datatype config_value = NotObject | ConfigObject "string option"

record avl_env =
  ae_json :: "string \<Rightarrow> config_value option"
  ae_catalogue :: "(string \<times> string) list"
  ae_tables :: "string list"
  ae_ttlMs :: int

definition toLowerCase :: "string \<Rightarrow> string" where
  "toLowerCase s = map (\<lambda>c. let n = of_char c :: nat in if 65 \<le> n \<and> n \<le> 90 then char_of (n + 32) else c) s"

definition knownTable :: "avl_env \<Rightarrow> string \<Rightarrow> string option" where
  "knownTable env name = (let n = toLowerCase (trim name) in if n \<in> set (ae_tables env) then Some n else None)"

definition parseTable :: "avl_env \<Rightarrow> string option \<Rightarrow> string \<times> fallback_reason option" where
  "parseTable env rawValue =
     (case rawValue of
        None \<Rightarrow> (FALLBACK_AVL_TABLE, Some NoConfig)
      | Some s \<Rightarrow>
          (case ae_json env s of
             None \<Rightarrow> (FALLBACK_AVL_TABLE, Some Malformed)
           | Some NotObject \<Rightarrow> (FALLBACK_AVL_TABLE, Some Malformed)
           | Some (ConfigObject None) \<Rightarrow> (FALLBACK_AVL_TABLE, Some NoField)
           | Some (ConfigObject (Some t)) \<Rightarrow>
               (case tableForModel (ae_catalogue env) t of
                  Some table \<Rightarrow> (table, None)
                | None \<Rightarrow>
                    (case knownTable env t of
                       Some table \<Rightarrow> (table, None)
                     | None \<Rightarrow> (FALLBACK_AVL_TABLE, Some UnknownTable)))))"

type_synonym avl_cache = "(string \<times> avl_entry) list"

definition is_stale :: "avl_env \<Rightarrow> int \<Rightarrow> avl_entry option \<Rightarrow> bool" where
  "is_stale env now e = (case e of None \<Rightarrow> True | Some x \<Rightarrow> ae_ttlMs env \<le> now - av_at x)"

text \<open>The reason to report for a stale device, if one is due.\<close>

definition report_due :: "avl_env \<Rightarrow> int \<Rightarrow> fallback_reason option \<Rightarrow> avl_entry option \<Rightarrow> bool" where
  "report_due env now reason cached \<longleftrightarrow>
     reason \<noteq> None \<and>
     (case cached of
        None \<Rightarrow> True
      | Some x \<Rightarrow> (case av_reportedAt x of None \<Rightarrow> True | Some t \<Rightarrow> ae_ttlMs env \<le> now - t))"

text \<open>The body of the loop over the stale devices; \<open>reply\<close> is the value of the device, or the failure of the
  read. The result is the new entry and the reason to report.\<close>

definition refresh ::
  "avl_env \<Rightarrow> int \<Rightarrow> string option reply \<Rightarrow> avl_entry option \<Rightarrow> avl_entry option \<times> fallback_reason option" where
  "refresh env now reply cached =
     (case reply of
        Inl u \<Rightarrow>
          (let reason = (case cached of None \<Rightarrow> Some RedisError | Some x \<Rightarrow> av_reason x) in
           if report_due env now reason cached
           then (map_option (\<lambda>x. x\<lparr>av_reportedAt := Some now\<rparr>) cached, reason)
           else (cached, None))
      | Inr rawValue \<Rightarrow>
          (let (table, reason) = parseTable env rawValue; due = report_due env now reason cached in
           (Some \<lparr>av_table = table, av_at = now, av_reason = reason,
                  av_reportedAt = (if due then Some now else case cached of None \<Rightarrow> None | Some x \<Rightarrow> av_reportedAt x)\<rparr>,
            if due then reason else None)))"

definition put_entry :: "string \<Rightarrow> avl_entry option \<Rightarrow> avl_cache \<Rightarrow> avl_cache" where
  "put_entry i e m = (case e of None \<Rightarrow> m | Some x \<Rightarrow> AList.update i x m)"

definition reply_for :: "(string \<Rightarrow> string option) reply \<Rightarrow> string \<Rightarrow> string option reply" where
  "reply_for raw i = bindE raw (\<lambda>f. Inr (f i))"

fun refresh_all ::
  "avl_env \<Rightarrow> int \<Rightarrow> (string \<Rightarrow> string option) reply \<Rightarrow> string list \<Rightarrow> avl_cache \<Rightarrow> avl_cache \<times> (string \<times> fallback_reason) list" where
  "refresh_all env now raw [] m = (m, [])"
| "refresh_all env now raw (i # rest) m =
     (let (e, why) = refresh env now (reply_for raw i) (map_of m i);
          (m', whys) = refresh_all env now raw rest (put_entry i e m) in
      (m', (case why of None \<Rightarrow> [] | Some w \<Rightarrow> [(i, w)]) @ whys))"

definition unique_ids :: "int list \<Rightarrow> string list" where
  "unique_ids deviceIds = rev (remdups (rev (map int_string deviceIds)))"

definition table_of :: "avl_entry option \<Rightarrow> string" where
  "table_of e = (case e of None \<Rightarrow> FALLBACK_AVL_TABLE | Some x \<Rightarrow> av_table x)"

text \<open>The new cache, the table of each device, and the reports (each with its device, which the callback does
  not get).\<close>

definition resolveBatch ::
  "avl_env \<Rightarrow> avl_cache \<Rightarrow> int list \<Rightarrow> int \<Rightarrow> (string \<Rightarrow> string option) reply \<Rightarrow>
   avl_cache \<times> (string \<times> string) list \<times> (string \<times> fallback_reason) list" where
  "resolveBatch env m deviceIds now raw =
     (let ids = unique_ids deviceIds;
          stale = filter (\<lambda>i. is_stale env now (map_of m i)) ids;
          (m', whys) = (if stale = [] then (m, []) else refresh_all env now raw stale m) in
      (m', map (\<lambda>i. (i, table_of (map_of m' i))) ids,
       concat (map (\<lambda>i. case map_of whys i of None \<Rightarrow> [] | Some w \<Rightarrow> [(i, w)]) ids)))"

section \<open>A batch, device by device\<close>

lemma refresh_all_other:
  "refresh_all env now raw ids m = (m', whys) \<Longrightarrow> i \<notin> set ids \<Longrightarrow> map_of m' i = map_of m i \<and> map_of whys i = None"
  by (induction ids arbitrary: m m' whys)
    (auto simp: put_entry_def update_conv' map_add_def Let_def split: prod.splits option.splits)

lemma refresh_all_at:
  "refresh_all env now raw ids m = (m', whys) \<Longrightarrow> distinct ids \<Longrightarrow> i \<in> set ids \<Longrightarrow>
     (map_of m' i, map_of whys i) = refresh env now (reply_for raw i) (map_of m i)"
proof (induction ids arbitrary: m whys)
  case Nil
  then show ?case by simp
next
  case (Cons j ids)
  obtain e why where r: "refresh env now (reply_for raw j) (map_of m j) = (e, why)"
    by (cases "refresh env now (reply_for raw j) (map_of m j)")
  from Cons.prems(1) r obtain ws where rest: "refresh_all env now raw ids (put_entry j e m) = (m', ws)"
    and whys: "whys = (case why of None \<Rightarrow> [] | Some w \<Rightarrow> [(j, w)]) @ ws"
    by (auto simp: Let_def split: prod.splits)
  have keep: "map_of (put_entry j e m) k = (if k = j then map_of (put_entry j e m) j else map_of m k)" for k
    by (simp add: put_entry_def update_conv' split: option.split)
  have none: "e = None \<Longrightarrow> map_of m j = None"
    using r by (auto simp: refresh_def Let_def split: sum.splits prod.splits if_splits)
  show ?case
  proof (cases "i = j")
    case True
    have at: "map_of (put_entry j e m) j = e" using none by (simp add: put_entry_def update_conv' split: option.split)
    from refresh_all_other [OF rest, of j] Cons.prems(2) True r at whys show ?thesis
      by (auto simp: map_add_def split: option.split)
  next
    case False
    with Cons.IH [OF rest] Cons.prems(2,3) keep [of i] whys show ?thesis
      by (auto simp: map_add_def split: option.split)
  qed
qed

lemma unique_ids: "set (unique_ids ds) = int_string ` set ds" "distinct (unique_ids ds)"
  by (simp_all add: unique_ids_def)

text \<open>What a batch does for one device.\<close>

definition device_step ::
  "avl_env \<Rightarrow> int \<Rightarrow> string option reply \<Rightarrow> avl_entry option \<Rightarrow> avl_entry option \<times> fallback_reason option" where
  "device_step env now reply cached = (if is_stale env now cached then refresh env now reply cached else (cached, None))"

lemma resolveBatch_at:
  assumes "resolveBatch env m ds now raw = (m', out, reports)"
  shows "i \<in> int_string ` set ds \<Longrightarrow>
      map_of m' i = fst (device_step env now (reply_for raw i) (map_of m i)) \<and>
      map_of out i = Some (table_of (map_of m' i)) \<and>
      ((i, w) \<in> set reports \<longleftrightarrow> snd (device_step env now (reply_for raw i) (map_of m i)) = Some w)"
    and "i \<notin> int_string ` set ds \<Longrightarrow> map_of m' i = map_of m i \<and> (i, w) \<notin> set reports"
proof -
  define stale where "stale = filter (\<lambda>i. is_stale env now (map_of m i)) (unique_ids ds)"
  obtain m1 whys where r: "refresh_all env now raw stale m = (m1, whys)" by (cases "refresh_all env now raw stale m")
  then have r': "(if stale = [] then (m, []) else refresh_all env now raw stale m) = (m1, whys)" by auto
  have eq: "m' = m1" "out = map (\<lambda>i. (i, table_of (map_of m1 i))) (unique_ids ds)"
    "reports = concat (map (\<lambda>i. case map_of whys i of None \<Rightarrow> [] | Some w \<Rightarrow> [(i, w)]) (unique_ids ds))"
    using assms unfolding resolveBatch_def Let_def stale_def [symmetric] r' by auto
  have rep: "(i, w) \<in> set reports \<longleftrightarrow> i \<in> set (unique_ids ds) \<and> map_of whys i = Some w"
    unfolding eq(3) by (auto split: option.splits)
  have d: "distinct stale" by (simp add: stale_def unique_ids)
  have out: "map_of out i = Some (table_of (map_of m1 i))" if "i \<in> set (unique_ids ds)"
    using that unfolding eq(2) by (simp add: map_of_map_restrict)
  show "i \<in> int_string ` set ds \<Longrightarrow>
      map_of m' i = fst (device_step env now (reply_for raw i) (map_of m i)) \<and>
      map_of out i = Some (table_of (map_of m' i)) \<and>
      ((i, w) \<in> set reports \<longleftrightarrow> snd (device_step env now (reply_for raw i) (map_of m i)) = Some w)"
  proof -
    assume "i \<in> int_string ` set ds"
    then have i: "i \<in> set (unique_ids ds)" by (simp add: unique_ids)
    show ?thesis
    proof (cases "i \<in> set stale")
      case True
      then have "is_stale env now (map_of m i)" by (simp add: stale_def)
      then have step: "device_step env now (reply_for raw i) (map_of m i) = refresh env now (reply_for raw i) (map_of m i)"
        by (simp add: device_step_def)
      have pair: "map_of m1 i = fst (refresh env now (reply_for raw i) (map_of m i))"
        "map_of whys i = snd (refresh env now (reply_for raw i) (map_of m i))"
        using refresh_all_at [OF r d True] by (simp_all add: prod_eq_iff)
      show ?thesis using out [OF i] rep i pair unfolding eq(1) step by simp
    next
      case False
      with i have "\<not> is_stale env now (map_of m i)" by (simp add: stale_def)
      with refresh_all_other [OF r False] out [OF i] rep show ?thesis
        unfolding eq(1) device_step_def by simp
    qed
  qed
  assume i: "i \<notin> int_string ` set ds"
  then have "i \<notin> set stale" by (simp add: stale_def unique_ids)
  with refresh_all_other [OF r] rep i show "map_of m' i = map_of m i \<and> (i, w) \<notin> set reports"
    unfolding eq(1) by (simp add: unique_ids)
qed

section \<open>Which table, and which reports\<close>

definition shipped :: "avl_env \<Rightarrow> string \<Rightarrow> bool" where
  "shipped env t \<longleftrightarrow> t = FALLBACK_AVL_TABLE \<or> t \<in> set (ae_tables env) \<or> (\<exists>mo. tableForModel (ae_catalogue env) mo = Some t)"

lemma parseTable_shipped: "shipped env (fst (parseTable env v))"
  by (auto simp: parseTable_def shipped_def knownTable_def Let_def
      split: option.splits config_value.splits if_splits)

lemma refresh_table:
  "table_of (fst (refresh env now reply cached)) =
     (case reply of Inl u \<Rightarrow> table_of cached | Inr v \<Rightarrow> fst (parseTable env v))"
  by (auto simp: refresh_def table_of_def Let_def split: sum.split prod.split option.split)

text \<open>A batch is always decoded, each device with the right table. Resolving a batch gives every device of it a
  table: the cached one while it is fresh; otherwise the one its configuration names, the fallback if that is
  missing, malformed or unknown; and if Redis cannot be read, the table it had, or the fallback. No table
  that is not shipped is ever chosen, whatever the configuration says.\<close>

theorem avl_table_resolution:
  assumes "resolveBatch env m ds now raw = (m', out, reports)" and "d \<in> set ds"
  defines "cached \<equiv> map_of m (int_string d)"
  shows "map_of out (int_string d) = Some
      (if \<not> is_stale env now cached then table_of cached
       else case raw of Inl u \<Rightarrow> table_of cached | Inr f \<Rightarrow> fst (parseTable env (f (int_string d)))) \<and>
    (\<forall>f. shipped env (fst (parseTable env f)))"
proof -
  from assms(2) have "int_string d \<in> int_string ` set ds" by simp
  from resolveBatch_at(1) [OF assms(1) this] parseTable_shipped show ?thesis
    unfolding cached_def device_step_def
    by (cases raw) (auto simp: refresh_table reply_for_def split: if_splits)
qed

definition sample_env :: avl_env where
  "sample_env = \<lparr>ae_json = (\<lambda>s. Some (ConfigObject (Some s))), ae_catalogue = [(''FMC650'', ''fmc650'')],
     ae_tables = [''fmb120'', ''fmc650''], ae_ttlMs = 60000\<rparr>"

theorem avl_table_resolution_witness:
  "map_of (fst (snd (resolveBatch sample_env [] [7] 0 (Inr (\<lambda>_. Some ''fmc650''))))) (int_string 7) = Some ''fmc650''"
proof -
  obtain m' out reports where r: "resolveBatch sample_env [] [7] 0 (Inr (\<lambda>_. Some ''fmc650'')) = (m', out, reports)"
    by (cases "resolveBatch sample_env [] [7] 0 (Inr (\<lambda>_. Some ''fmc650''))")
  have "fst (parseTable sample_env (Some ''fmc650'')) = ''fmc650''" by code_simp
  with avl_table_resolution [OF r, of 7] show ?thesis by (simp add: r is_stale_def)
qed

text \<open>The reports of a device over a run of batches.\<close>

fun report_times ::
  "avl_env \<Rightarrow> string \<Rightarrow> avl_cache \<Rightarrow> (int list \<times> int \<times> (string \<Rightarrow> string option) reply) list \<Rightarrow> int list" where
  "report_times env i m [] = []"
| "report_times env i m ((ds, now, raw) # rest) =
     (let (m', out, reports) = resolveBatch env m ds now raw in
      (if i \<in> fst ` set reports then [now] else []) @ report_times env i m' rest)"

lemma device_step_some: "device_step env now reply (Some e) = (e', w) \<Longrightarrow> \<exists>x. e' = Some x \<and>
    (case w of None \<Rightarrow> av_reportedAt x = av_reportedAt e
     | Some r \<Rightarrow> av_reportedAt x = Some now \<and> (case av_reportedAt e of None \<Rightarrow> True | Some t \<Rightarrow> ae_ttlMs env \<le> now - t))"
  by (auto simp: device_step_def refresh_def report_due_def Let_def split: if_splits sum.splits prod.splits option.splits)

lemma report_times_spaced:
  assumes "0 \<le> ae_ttlMs env"
  shows "map_of m i = Some e \<Longrightarrow>
     sorted_wrt (\<lambda>a b. a + ae_ttlMs env \<le> b) (report_times env i m batches) \<and>
     (\<forall>t0. av_reportedAt e = Some t0 \<longrightarrow> (\<forall>t \<in> set (report_times env i m batches). t0 + ae_ttlMs env \<le> t))"
proof (induction batches arbitrary: m e)
  case Nil
  then show ?case by simp
next
  case (Cons b batches)
  obtain ds now raw where b: "b = (ds, now, raw)" by (cases b)
  obtain m' out reports where r: "resolveBatch env m ds now raw = (m', out, reports)"
    by (cases "resolveBatch env m ds now raw")
  have times: "report_times env i m (b # batches) = (if i \<in> fst ` set reports then [now] else []) @ report_times env i m' batches"
    by (simp add: b r)
  show ?case
  proof (cases "i \<in> int_string ` set ds")
    case False
    with resolveBatch_at(2) [OF r False] Cons.prems have "map_of m' i = Some e" "i \<notin> fst ` set reports" by auto
    with Cons.IH times show ?thesis by simp
  next
    case True
    obtain e' w where step: "device_step env now (reply_for raw i) (Some e) = (e', w)"
      by (cases "device_step env now (reply_for raw i) (Some e)")
    from device_step_some [OF step] obtain x where x: "e' = Some x"
      "case w of None \<Rightarrow> av_reportedAt x = av_reportedAt e
       | Some r \<Rightarrow> av_reportedAt x = Some now \<and> (case av_reportedAt e of None \<Rightarrow> True | Some t \<Rightarrow> ae_ttlMs env \<le> now - t)"
      by blast
    have at: "map_of m' i = Some x" "\<And>v. (i, v) \<in> set reports \<longleftrightarrow> w = Some v"
      using resolveBatch_at(1) [OF r True] Cons.prems step x(1) by simp_all
    note later = Cons.IH [OF at(1)]
    show ?thesis
    proof (cases w)
      case None
      with at(2) have "i \<notin> fst ` set reports" by auto
      with times later x(2) None show ?thesis by simp
    next
      case (Some v)
      with at(2) have "i \<in> fst ` set reports" by force
      with times have t: "report_times env i m (b # batches) = now # report_times env i m' batches" by simp
      have next_one: "\<forall>t \<in> set (report_times env i m' batches). now + ae_ttlMs env \<le> t" using later x(2) Some by simp
      have due: "t0 + ae_ttlMs env \<le> now" if "av_reportedAt e = Some t0" for t0 using x(2) Some that by simp
      with next_one due later assms show ?thesis unfolding t by fastforce
    qed
  qed
qed

text \<open>The fallback counter counts devices, not batches. For a device the cache knows, two reports are never closer
  than the time to live, however long Redis fails and however many batches there are.\<close>

theorem avl_reports_spaced:
  assumes "map_of m i = Some e" and "0 \<le> ae_ttlMs env"
  shows "sorted_wrt (\<lambda>a b. a + ae_ttlMs env \<le> b) (report_times env i m batches)"
  using report_times_spaced [OF assms(2,1)] by blast

definition unconfigured :: avl_entry where
  "unconfigured = \<lparr>av_table = ''fmb120'', av_at = 0, av_reason = Some NoConfig, av_reportedAt = Some 0\<rparr>"

theorem avl_reports_spaced_witness:
  "sorted_wrt (\<lambda>a b. a + 60000 \<le> b)
     (report_times sample_env (int_string 7) [(int_string 7, unconfigured)] [([7], 60000, Inl ()), ([7], 60001, Inl ())])"
proof -
  have ttl: "ae_ttlMs sample_env = 60000" by (simp add: sample_env_def)
  have "map_of [(int_string 7, unconfigured)] (int_string 7) = Some unconfigured" by simp
  from avl_reports_spaced [OF this, of sample_env] ttl show ?thesis by (simp del: report_times.simps)
qed

text \<open>A device the cache does not know yet is reported on every batch of an outage: nothing remembers the report.\<close>

lemma uncached_outage_reports_every_batch:
  "report_times env (int_string 7) [] (replicate n ([7], 60000, Inl ())) = replicate n 60000"
proof (induction n)
  case 0
  then show ?case by simp
next
  case (Suc n)
  have "resolveBatch env [] [7] 60000 (Inl ()) =
      ([], [(int_string 7, FALLBACK_AVL_TABLE)], [(int_string 7, RedisError)])"
    by (simp add: resolveBatch_def unique_ids_def is_stale_def reply_for_def refresh_def report_due_def put_entry_def table_of_def Let_def)
  with Suc show ?case by simp
qed

end
