(* ===== verification/Consumer.thy ===== *)
theory Consumer
  imports Writer AvlTables
begin

text \<open>
  apps/worker/src/consumer.ts: the serial consumer of one shard. Its store is the list of its pending entries, the
  dead-letter stream, the table and the batches handed on. The CBOR decoder is a parameter: what it yields is seen through the
  device id the code reads and through the schema of the payload. Every round trip may fail; a Redis pipeline is
  executed in full, or up to a command after which the connection is gone, or with errors of
  single commands, which the code does not look at.
\<close>

section \<open>Environment and store\<close>

record decoded =
  dc_device :: "int option"
  dc_payload :: "stream_payload option"

record consumer_env =
  ce_decode :: "bytes \<Rightarrow> decoded option"
  ce_hash :: "bytes \<Rightarrow> nat"
  ce_load :: "string \<Rightarrow> dictionary"
  ce_avl :: avl_env
  ce_pg :: postgres

type_synonym entry = "string \<times> bytes"

record shard_store =
  ss_pel :: "string list"
  ss_dead :: "entry list"
  ss_pg :: pg_state
  ss_cache :: avl_cache
  ss_handed :: "nrec list list"

datatype pipe_cmd = DeadAdd string bytes | Ack string

datatype pipe_outcome = Full | Broken nat | WithErrors "bool list"

fun run_cmd :: "pipe_cmd \<Rightarrow> shard_store \<Rightarrow> shard_store" where
  "run_cmd (DeadAdd i p) st = st\<lparr>ss_dead := ss_dead st @ [(i, p)]\<rparr>"
| "run_cmd (Ack i) st = st\<lparr>ss_pel := remove1 i (ss_pel st)\<rparr>"

definition exec_pipe :: "pipe_outcome \<Rightarrow> pipe_cmd list \<Rightarrow> shard_store \<Rightarrow> shard_store \<times> bool" where
  "exec_pipe oc cmds st =
     (case oc of
        Full \<Rightarrow> (fold run_cmd cmds st, True)
      | Broken k \<Rightarrow> (fold run_cmd (take k cmds) st, False)
      | WithErrors oks \<Rightarrow> (fold run_cmd (map fst (filter snd (zip cmds oks))) st, True))"

section \<open>process\<close>

record proc_in =
  pi_now :: int
  pi_hmget :: "(string \<Rightarrow> string option) reply"
  pi_dead :: pipe_outcome
  pi_rejected :: pipe_outcome
  pi_onBatch :: bool
  pi_ack :: pipe_outcome

fun decode_all :: "consumer_env \<Rightarrow> entry list \<Rightarrow> (entry \<times> decoded) list \<times> entry list" where
  "decode_all env [] = ([], [])"
| "decode_all env (e # es) =
     (let (good, dead) = decode_all env es in
      case ce_decode env (snd e) of None \<Rightarrow> (good, e # dead) | Some d \<Rightarrow> ((e, d) # good, dead))"

definition normalize_entry :: "consumer_env \<Rightarrow> (string \<times> string) list \<Rightarrow> decoded \<Rightarrow> nrec option" where
  "normalize_entry env tables d =
     (let table = (case dc_device d of None \<Rightarrow> FALLBACK_AVL_TABLE
                   | Some i \<Rightarrow> (case map_of tables (int_string i) of None \<Rightarrow> FALLBACK_AVL_TABLE | Some t \<Rightarrow> t)) in
      case dc_payload d of
        None \<Rightarrow> None
      | Some p \<Rightarrow> (case normalize_rec (ce_hash env) (ce_load env table) p of Inl u \<Rightarrow> None | Inr (r, nulled) \<Rightarrow> Some r))"

fun normalize_all :: "consumer_env \<Rightarrow> (string \<times> string) list \<Rightarrow> (entry \<times> decoded) list \<Rightarrow> item list \<times> entry list" where
  "normalize_all env tables [] = ([], [])"
| "normalize_all env tables ((e, d) # ds) =
     (let (items, dead) = normalize_all env tables ds in
      case normalize_entry env tables d of
        None \<Rightarrow> (items, e # dead)
      | Some r \<Rightarrow> (\<lparr>it_id = fst e, it_payload = snd e, it_rec = r\<rparr> # items, dead))"

definition dead_cmds :: "entry list \<Rightarrow> pipe_cmd list" where
  "dead_cmds dead = concat (map (\<lambda>(i, p). [DeadAdd i p, Ack i]) dead)"

definition store_batch :: "consumer_env \<Rightarrow> proc_in \<Rightarrow> item list \<Rightarrow> shard_store \<Rightarrow> shard_store \<times> bool" where
  "store_batch env pin items st =
     (let (pg, res) = writeIsolatingBadRows (ce_pg env) (sort_key (\<lambda>i. r_fixTime (it_rec i)) items) (ss_pg st);
          st1 = st\<lparr>ss_pg := pg\<rparr> in
      case res of
        Inl e \<Rightarrow> (st1, False)
      | Inr (n, kept, rejected) \<Rightarrow>
          (let (st2, ok) = (if rejected = [] then (st1, True)
                            else exec_pipe (pi_rejected pin) (map (\<lambda>(i, p). DeadAdd i p) rejected) st1);
               st3 = (if kept = [] then st2 else st2\<lparr>ss_handed := ss_handed st2 @ [map it_rec kept]\<rparr>) in
           if \<not> ok then (st2, False)
           else if kept \<noteq> [] \<and> \<not> pi_onBatch pin then (st3, False)
           else exec_pipe (pi_ack pin) (map (\<lambda>i. Ack (it_id i)) items) st3))"

definition process_entries :: "consumer_env \<Rightarrow> proc_in \<Rightarrow> entry list \<Rightarrow> shard_store \<Rightarrow> shard_store \<times> bool" where
  "process_entries env pin entries st =
     (let (good, dead1) = decode_all env entries;
          (cache, tables, reports) = resolveBatch (ce_avl env) (ss_cache st) (List.map_filter (\<lambda>x. dc_device (snd x)) good) (pi_now pin) (pi_hmget pin);
          (items, dead2) = normalize_all env tables good;
          dead = dead1 @ dead2;
          (st1, ok) = (if dead = [] then (st\<lparr>ss_cache := cache\<rparr>, True) else exec_pipe (pi_dead pin) (dead_cmds dead) (st\<lparr>ss_cache := cache\<rparr>)) in
      if \<not> ok then (st1, False)
      else if items = [] then (st1, True)
      else store_batch env pin items st1)"

section \<open>The loop\<close>

type_synonym stream_rows = "(string \<times> bytes option) option list"

text \<open>The rows of a read: entries with their payload, and ids whose data is gone.\<close>

fun live_rows :: "stream_rows \<Rightarrow> entry list" where
  "live_rows [] = []"
| "live_rows (Some (i, Some p) # rows) = (i, p) # live_rows rows"
| "live_rows (r # rows) = live_rows rows"

fun trimmed_rows :: "stream_rows \<Rightarrow> string list" where
  "trimmed_rows [] = []"
| "trimmed_rows (Some (i, None) # rows) = i # trimmed_rows rows"
| "trimmed_rows (r # rows) = trimmed_rows rows"

record consumer =
  co_running :: bool
  co_ownPending :: bool
  co_lastAutoclaim :: int
  co_evicted :: nat
  co_store :: shard_store

record turn_in =
  ti_now :: int
  ti_own :: "stream_rows reply"
  ti_claim :: "(entry list \<times> nat) reply"
  ti_new :: "stream_rows reply"
  ti_trimAck :: "nat \<Rightarrow> unit reply"
  ti_owns :: "nat \<Rightarrow> bool reply"
  ti_proc :: "nat \<Rightarrow> proc_in"

datatype turn_end = Next | Fenced | Threw

definition read_rows :: "unit reply \<Rightarrow> stream_rows reply \<Rightarrow> consumer \<Rightarrow> consumer \<times> entry list reply" where
  "read_rows ack rows c =
     (case rows of
        Inl u \<Rightarrow> (c, Inl u)
      | Inr rs \<Rightarrow>
          (if trimmed_rows rs = [] then (c, Inr (live_rows rs))
           else case ack of
               Inl u \<Rightarrow> (c, Inl u)
             | Inr u \<Rightarrow>
                 (c\<lparr>co_evicted := co_evicted c + length (trimmed_rows rs),
                    co_store := fold (\<lambda>i. run_cmd (Ack i)) (trimmed_rows rs) (co_store c)\<rparr>, Inr (live_rows rs))))"

text \<open>The fence, then the batch.\<close>

definition guarded :: "consumer_env \<Rightarrow> bool reply \<Rightarrow> proc_in \<Rightarrow> entry list \<Rightarrow> consumer \<Rightarrow> consumer \<times> turn_end" where
  "guarded env owns pin entries c =
     (case owns of
        Inl u \<Rightarrow> (c, Threw)
      | Inr False \<Rightarrow> (c\<lparr>co_running := False\<rparr>, Fenced)
      | Inr True \<Rightarrow>
          (let (st, ok) = process_entries env pin entries (co_store c) in
           (c\<lparr>co_store := st\<rparr>, if ok then Next else Threw)))"

definition caught :: "consumer \<times> turn_end \<Rightarrow> consumer \<times> turn_end" where
  "caught r = (case r of (c, Threw) \<Rightarrow> (c\<lparr>co_ownPending := True\<rparr>, Threw) | _ \<Rightarrow> r)"

definition take_delivered :: "stream_rows \<Rightarrow> consumer \<Rightarrow> consumer" where
  "take_delivered rs c =
     c\<lparr>co_store := (co_store c)\<lparr>ss_pel := ss_pel (co_store c) @ List.map_filter (map_option fst) rs\<rparr>\<rparr>"

definition read_new_turn :: "consumer_env \<Rightarrow> turn_in \<Rightarrow> consumer \<Rightarrow> consumer \<times> turn_end" where
  "read_new_turn env ti c =
     (let c0 = (case ti_new ti of Inl u \<Rightarrow> c | Inr rs \<Rightarrow> take_delivered rs c);
          (c1, got) = read_rows (ti_trimAck ti 2) (ti_new ti) c0 in
      case got of
        Inl u \<Rightarrow> (c1, Threw)
      | Inr entries \<Rightarrow> (if entries = [] then (c1, Next) else guarded env (ti_owns ti 2) (ti_proc ti 2) entries c1))"

definition claim_turn :: "consumer_env \<Rightarrow> turn_in \<Rightarrow> consumer \<Rightarrow> consumer \<times> turn_end" where
  "claim_turn env ti c =
     (case ti_claim ti of
        Inl u \<Rightarrow> (c, Threw)
      | Inr (entries, evicted) \<Rightarrow>
          (let c1 = c\<lparr>co_evicted := co_evicted c + evicted,
                      co_store := (co_store c)\<lparr>ss_pel := ss_pel (co_store c) @ map fst entries\<rparr>\<rparr>;
               (c2, fin) = (if entries = [] then (c1, Next) else guarded env (ti_owns ti 1) (ti_proc ti 1) entries c1) in
           case fin of
             Next \<Rightarrow> read_new_turn env ti (c2\<lparr>co_lastAutoclaim := ti_now ti\<rparr>)
           | _ \<Rightarrow> (c2, fin)))"

text \<open>The rest of a turn, once no own entry is left.\<close>

definition later_turn :: "consumer_env \<Rightarrow> turn_in \<Rightarrow> consumer \<Rightarrow> consumer \<times> turn_end" where
  "later_turn env ti c = (if 30000 < ti_now ti - co_lastAutoclaim c then claim_turn env ti c else read_new_turn env ti c)"

definition loop_turn :: "consumer_env \<Rightarrow> turn_in \<Rightarrow> consumer \<Rightarrow> consumer \<times> turn_end" where
  "loop_turn env ti c =
     caught
      (if co_ownPending c then
         let (c1, got) = read_rows (ti_trimAck ti 0) (ti_own ti) c in
         (case got of
            Inl u \<Rightarrow> (c1, Threw)
          | Inr mine \<Rightarrow> (if mine = [] then later_turn env ti (c1\<lparr>co_ownPending := False\<rparr>)
                         else guarded env (ti_owns ti 0) (ti_proc ti 0) mine c1))
       else later_turn env ti c)"

section \<open>Nothing is acknowledged that is not kept\<close>

definition payload_key :: "consumer_env \<Rightarrow> stream_payload \<Rightarrow> int \<times> int \<times> int" where
  "payload_key env p = (s_deviceId p, s_tsMs p, asIntN 64 (int (ce_hash env (s_raw p))))"

definition accounted :: "consumer_env \<Rightarrow> shard_store \<Rightarrow> entry \<Rightarrow> bool" where
  "accounted env st e \<longleftrightarrow> e \<in> set (ss_dead st) \<or>
     (\<exists>d p. ce_decode env (snd e) = Some d \<and> dc_payload d = Some p \<and> payload_key env p \<in> keys_of (ss_pg st))"

text \<open>What a stage of a batch may do to the store: keep all that was kept, acknowledge only what is accounted for,
  leave the other entries pending.\<close>

definition faithful :: "consumer_env \<Rightarrow> entry list \<Rightarrow> shard_store \<Rightarrow> shard_store \<Rightarrow> bool" where
  "faithful env es st st' \<longleftrightarrow>
     set (ss_dead st) \<subseteq> set (ss_dead st') \<and> keys_of (ss_pg st) \<subseteq> keys_of (ss_pg st') \<and>
     set (ss_pel st') \<subseteq> set (ss_pel st) \<and>
     (\<forall>x \<in> set (ss_pel st) - set (ss_pel st'). \<exists>e \<in> set es. fst e = x \<and> accounted env st' e) \<and>
     (distinct (ss_pel st) \<longrightarrow> distinct (ss_pel st'))"

lemma accounted_mono: "accounted env st e \<Longrightarrow> set (ss_dead st) \<subseteq> set (ss_dead st') \<Longrightarrow>
    keys_of (ss_pg st) \<subseteq> keys_of (ss_pg st') \<Longrightarrow> accounted env st' e"
  by (auto simp: accounted_def)

lemma faithful_refl: "faithful env es st st"
  by (simp add: faithful_def)

lemma faithfulD:
  assumes "faithful env es st st'"
  shows "set (ss_dead st) \<subseteq> set (ss_dead st')" "keys_of (ss_pg st) \<subseteq> keys_of (ss_pg st')"
    "set (ss_pel st') \<subseteq> set (ss_pel st)" "distinct (ss_pel st) \<Longrightarrow> distinct (ss_pel st')"
    "x \<in> set (ss_pel st) \<Longrightarrow> x \<notin> set (ss_pel st') \<Longrightarrow> \<exists>e \<in> set es. fst e = x \<and> accounted env st' e"
  using assms by (simp_all add: faithful_def)

lemma faithful_trans:
  assumes a: "faithful env es st1 st2" and b: "faithful env es st2 st3"
  shows "faithful env es st1 st3"
  unfolding faithful_def
proof (intro conjI ballI impI)
  show "set (ss_dead st1) \<subseteq> set (ss_dead st3)" using faithfulD(1) [OF a] faithfulD(1) [OF b] by (rule subset_trans)
  show "keys_of (ss_pg st1) \<subseteq> keys_of (ss_pg st3)" using faithfulD(2) [OF a] faithfulD(2) [OF b] by (rule subset_trans)
  show "set (ss_pel st3) \<subseteq> set (ss_pel st1)" using faithfulD(3) [OF b] faithfulD(3) [OF a] by (rule subset_trans)
  show "distinct (ss_pel st1) \<Longrightarrow> distinct (ss_pel st3)" using faithfulD(4) [OF a] faithfulD(4) [OF b] by blast
  fix x
  assume x: "x \<in> set (ss_pel st1) - set (ss_pel st3)"
  show "\<exists>e\<in>set es. fst e = x \<and> accounted env st3 e"
  proof (cases "x \<in> set (ss_pel st2)")
    case True
    with x show ?thesis using faithfulD(5) [OF b] by blast
  next
    case False
    with x obtain e where e: "e \<in> set es" "fst e = x" "accounted env st2 e" using faithfulD(5) [OF a] by blast
    have "accounted env st3 e" by (rule accounted_mono [OF e(3) faithfulD(1,2) [OF b]])
    with e show ?thesis by blast
  qed
qed

lemma faithful_mono: "faithful env es st st' \<Longrightarrow> set es \<subseteq> set es' \<Longrightarrow> faithful env es' st st'"
  unfolding faithful_def by (elim conjE, intro conjI) (assumption+, blast, assumption)

lemma run_adds: "fold run_cmd (map (\<lambda>(i, p). DeadAdd i p) es) st = st\<lparr>ss_dead := ss_dead st @ es\<rparr>"
  by (induction es arbitrary: st) auto

lemma run_acks: "fold run_cmd (map Ack ids) st = st\<lparr>ss_pel := fold remove1 ids (ss_pel st)\<rparr>"
  by (induction ids arbitrary: st) auto

lemma removed: "set (fold remove1 ids pel) \<subseteq> set pel"
  "x \<in> set pel \<Longrightarrow> x \<notin> set (fold remove1 ids pel) \<Longrightarrow> x \<in> set ids"
  "distinct pel \<Longrightarrow> distinct (fold remove1 ids pel) \<and> set (fold remove1 ids pel) = set pel - set ids"
proof (induction ids arbitrary: pel)
  case Nil
  { case 1 show ?case by simp
  next case 2 then show ?case by simp
  next case 3 then show ?case by simp }
next
  case (Cons i ids)
  { case 1 show ?case using subset_trans [OF Cons.IH(1) [of "remove1 i pel"] set_remove1_subset [of i pel]] by simp
  next
    case 2
    then show ?case using Cons.IH(2) [of "remove1 i pel"] by (cases "x = i") (auto simp: in_set_remove1)
  next case 3 then show ?case using Cons.IH(3) [of "remove1 i pel"] by auto }
qed

lemma faithful_acks:
  assumes "\<forall>x \<in> set ids. \<exists>e \<in> set es. fst e = x \<and> accounted env st e"
  shows "faithful env es st (fold run_cmd (map Ack ids) st)"
proof -
  have same: "accounted env (st\<lparr>ss_pel := pel\<rparr>) e = accounted env st e" for pel e by (simp add: accounted_def)
  show ?thesis
    unfolding run_acks faithful_def
  proof (intro conjI ballI impI)
    fix x
    assume "x \<in> set (ss_pel st) - set (ss_pel (st\<lparr>ss_pel := fold remove1 ids (ss_pel st)\<rparr>))"
    then have "x \<in> set ids" using removed(2) [of x "ss_pel st" ids] by simp
    with assms show "\<exists>e\<in>set es. fst e = x \<and> accounted env (st\<lparr>ss_pel := fold remove1 ids (ss_pel st)\<rparr>) e"
      by (simp add: same)
  qed (use removed(1) [of ids "ss_pel st"] removed(3) [of "ss_pel st" ids] in simp_all)
qed

lemma faithful_adds: "faithful env es st (fold run_cmd (map (\<lambda>(i, p). DeadAdd i p) rej) st)"
  by (simp add: run_adds faithful_def)

lemma faithful_one: "faithful env [e] st (fold run_cmd [DeadAdd (fst e) (snd e), Ack (fst e)] st)"
proof -
  define st1 where "st1 = run_cmd (DeadAdd (fst e) (snd e)) st"
  have "e \<in> set (ss_dead st1)" by (simp add: st1_def)
  then have acked: "faithful env [e] st1 (fold run_cmd (map Ack [fst e]) st1)" by (intro faithful_acks) (simp add: accounted_def)
  have added: "faithful env [e] st st1" by (auto simp: st1_def faithful_def)
  have "fold run_cmd [DeadAdd (fst e) (snd e), Ack (fst e)] st = fold run_cmd (map Ack [fst e]) st1" by (simp add: st1_def)
  with faithful_trans [OF added acked] show ?thesis by argo
qed

lemma faithful_dead: "faithful env dead st (fold run_cmd (take k (dead_cmds dead)) st)"
proof (induction dead arbitrary: st k)
  case Nil
  then show ?case by (simp add: dead_cmds_def faithful_refl)
next
  case (Cons e dead)
  have cmds: "dead_cmds (e # dead) = [DeadAdd (fst e) (snd e), Ack (fst e)] @ dead_cmds dead"
    by (cases e) (simp add: dead_cmds_def)
  consider "k = 0" | "k = 1" | j where "k = Suc (Suc j)" by (metis One_nat_def not0_implies_Suc)
  then show ?case
  proof cases
    case 1
    then show ?thesis by (simp add: faithful_refl)
  next
    case 2
    then show ?thesis by (auto simp: cmds faithful_def)
  next
    case 3
    define st1 where "st1 = fold run_cmd [DeadAdd (fst e) (snd e), Ack (fst e)] st"
    have step: "fold run_cmd (take k (dead_cmds (e # dead))) st = fold run_cmd (take j (dead_cmds dead)) st1"
      by (simp add: cmds 3 st1_def)
    have "faithful env (e # dead) st st1" unfolding st1_def by (rule faithful_mono [OF faithful_one]) simp
    moreover have "faithful env (e # dead) st1 (fold run_cmd (take j (dead_cmds dead)) st1)"
      by (rule faithful_mono [OF Cons.IH]) auto
    ultimately show ?thesis unfolding step by (rule faithful_trans)
  qed
qed

text \<open>The entries of a batch, decoded and normalised.\<close>

lemma decode_all_spec: "decode_all env es = (good, dead) \<Longrightarrow>
    set es = fst ` set good \<union> set dead \<and> (\<forall>(e, d) \<in> set good. ce_decode env (snd e) = Some d)"
  by (induction es arbitrary: good dead) (auto split: prod.splits option.splits)

lemma normalize_rec_key: "normalize_rec hash dict p = Inr (r, nulled) \<Longrightarrow>
    row_key r = (s_deviceId p, s_tsMs p, asIntN 64 (int (hash (s_raw p))))"
  by (auto simp: normalize_rec_def bindE_eq_Inr Let_def row_key_def)

definition item_of :: "consumer_env \<Rightarrow> (entry \<times> decoded) list \<Rightarrow> item \<Rightarrow> bool" where
  "item_of env good i \<longleftrightarrow> (\<exists>d p. ((it_id i, it_payload i), d) \<in> set good \<and> dc_payload d = Some p \<and>
     row_key (it_rec i) = payload_key env p)"

lemma normalize_entry_key: "normalize_entry env tables d = Some r \<Longrightarrow> \<exists>p. dc_payload d = Some p \<and> row_key r = payload_key env p"
  using normalize_rec_key by (fastforce simp: normalize_entry_def payload_key_def Let_def split: option.splits sum.splits)

lemma normalize_all_spec: "normalize_all env tables good = (items, dead) \<Longrightarrow>
    (\<forall>i \<in> set items. item_of env good i) \<and>
    fst ` set good = (\<lambda>i. (it_id i, it_payload i)) ` set items \<union> set dead"
proof (induction good arbitrary: items dead)
  case Nil
  then show ?case by simp
next
  case (Cons x good)
  obtain e d where x: "x = (e, d)" by (cases x)
  obtain items1 dead1 where rest: "normalize_all env tables good = (items1, dead1)" by (cases "normalize_all env tables good")
  note ih = Cons.IH [OF rest]
  have lift: "item_of env good i \<Longrightarrow> item_of env (x # good) i" for i by (auto simp: item_of_def)
  show ?case
  proof (cases "normalize_entry env tables d")
    case None
    with Cons.prems x rest have "items = items1" "dead = e # dead1" by simp_all
    with ih x lift show ?thesis by auto
  next
    case (Some r)
    with Cons.prems x rest have eq: "items = \<lparr>it_id = fst e, it_payload = snd e, it_rec = r\<rparr> # items1" "dead = dead1" by simp_all
    from normalize_entry_key [OF Some] have "item_of env (x # good) \<lparr>it_id = fst e, it_payload = snd e, it_rec = r\<rparr>"
      using x by (auto simp: item_of_def)
    with ih x lift eq show ?thesis by auto
  qed
qed

text \<open>The pipelines that are executed in full or cut short, without errors of single commands.\<close>

definition no_errors :: "pipe_outcome \<Rightarrow> bool" where
  "no_errors oc \<longleftrightarrow> (case oc of WithErrors oks \<Rightarrow> False | _ \<Rightarrow> True)"

definition sound_pipes :: "proc_in \<Rightarrow> bool" where
  "sound_pipes pin \<longleftrightarrow> no_errors (pi_dead pin) \<and> no_errors (pi_rejected pin) \<and> no_errors (pi_ack pin)"

lemma exec_pipe_cut:
  assumes "exec_pipe oc cmds st = (st', ok)" and "no_errors oc"
  obtains k where "st' = fold run_cmd (take k cmds) st" and "ok \<longrightarrow> take k cmds = cmds"
  using assms by (cases oc) (auto simp: exec_pipe_def no_errors_def)

definition entry_of :: "item \<Rightarrow> entry" where
  "entry_of i = (it_id i, it_payload i)"

lemma writeIsolating_sound:
  assumes "transient_pg pg" and "writeIsolatingBadRows pg recs s = (s', res)"
  shows "keys_of s \<subseteq> keys_of s'"
    and "res = Inr (n, kept, rejected) \<Longrightarrow> i \<in> set recs \<Longrightarrow> entry_of i \<in> set rejected \<or> row_key (it_rec i) \<in> keys_of s'"
proof -
  obtain s1 x where w: "write_isolating pg recs s = (s1, x)" by (cases "write_isolating pg recs s")
  note sound = write_isolating_sound [OF assms(1) w]
  from assms(2) w have s1: "s' = s1" by (auto simp: writeIsolatingBadRows_def split: sum.splits)
  with sound show "keys_of s \<subseteq> keys_of s'" by simp
  assume res: "res = Inr (n, kept, rejected)" and i: "i \<in> set recs"
  from assms(2) w res obtain bad where x: "x = Inr (n, bad)" "rejected = map (\<lambda>r. (it_id r, it_payload r)) bad"
    by (auto simp: writeIsolatingBadRows_def split: sum.splits)
  with sound i s1 show "entry_of i \<in> set rejected \<or> row_key (it_rec i) \<in> keys_of s'" by (auto simp: entry_of_def)
qed

lemma store_batch_faithful:
  assumes pg: "transient_pg (ce_pg env)" and pipes: "sound_pipes pin"
    and run: "store_batch env pin items st = (st', ok)"
    and items: "\<forall>i \<in> set items. item_of env good i" and dec: "\<forall>(e, d) \<in> set good. ce_decode env (snd e) = Some d"
  shows "faithful env (map entry_of items) st st' \<and>
    (ok \<longrightarrow> (\<forall>i \<in> set items. accounted env st' (entry_of i)) \<and>
      (distinct (ss_pel st) \<longrightarrow> (\<forall>i \<in> set items. it_id i \<notin> set (ss_pel st'))))"
proof -
  let ?es = "map entry_of items" and ?sorted = "sort_key (\<lambda>i. r_fixTime (it_rec i)) items"
  obtain p1 res where w: "writeIsolatingBadRows (ce_pg env) ?sorted (ss_pg st) = (p1, res)"
    by (cases "writeIsolatingBadRows (ce_pg env) ?sorted (ss_pg st)")
  define st1 where "st1 = st\<lparr>ss_pg := p1\<rparr>"
  have f1: "faithful env ?es st st1"
    using writeIsolating_sound(1) [OF pg w] by (simp add: faithful_def st1_def)
  show ?thesis
  proof (cases res)
    case (Inl e)
    with run w have "st' = st1" "\<not> ok" by (simp_all add: store_batch_def st1_def)
    with f1 show ?thesis by simp
  next
    case (Inr y)
    obtain n kept rejected where y: "y = (n, kept, rejected)" by (cases y)
    define two where "two = (if rejected = [] then (st1, True)
        else exec_pipe (pi_rejected pin) (map (\<lambda>(i, p). DeadAdd i p) rejected) st1)"
    obtain st2 ok2 where two2: "two = (st2, ok2)" by (cases two)
    have second: "faithful env ?es st1 st2 \<and> ss_pg st2 = p1 \<and> ss_pel st2 = ss_pel st \<and> (ok2 \<longrightarrow> set rejected \<subseteq> set (ss_dead st2))"
    proof (cases "rejected = []")
      case True
      with two2 two_def have "st2 = st1" by simp
      with True show ?thesis by (simp add: faithful_refl st1_def)
    next
      case False
      with two2 two_def have "exec_pipe (pi_rejected pin) (map (\<lambda>(i, p). DeadAdd i p) rejected) st1 = (st2, ok2)" by simp
      then obtain k where k: "st2 = fold run_cmd (map (\<lambda>(i, p). DeadAdd i p) (take k rejected)) st1"
        "ok2 \<longrightarrow> map (\<lambda>(i, p). DeadAdd i p) (take k rejected) = map (\<lambda>(i, p). DeadAdd i p) rejected"
        using pipes unfolding sound_pipes_def take_map [symmetric] by (metis exec_pipe_cut)
      have "take k rejected = rejected" if ok2
      proof -
        from k(2) that have "length (take k rejected) = length rejected" by (metis length_map)
        then show ?thesis by simp
      qed
      then have "ok2 \<longrightarrow> set rejected \<subseteq> set (ss_dead st2)" by (simp add: k(1) run_adds)
      moreover have "faithful env ?es st1 st2" unfolding k(1) by (rule faithful_adds)
      ultimately show ?thesis by (simp add: k(1) run_adds st1_def)
    qed
    define st3 where "st3 = (if kept = [] then st2 else st2\<lparr>ss_handed := ss_handed st2 @ [map it_rec kept]\<rparr>)"
    have f3: "faithful env ?es st2 st3" by (simp add: st3_def faithful_def)
    from f1 second have f2: "faithful env ?es st st2" using faithful_trans by blast
    have f23: "faithful env ?es st st3" by (rule faithful_trans [OF f2 f3])
    have body: "store_batch env pin items st = (if \<not> ok2 then (st2, False)
        else if kept \<noteq> [] \<and> \<not> pi_onBatch pin then (st3, False)
        else exec_pipe (pi_ack pin) (map (\<lambda>i. Ack (it_id i)) items) st3)"
      using two2 unfolding store_batch_def w Inr y Let_def two_def st1_def st3_def by simp
    show ?thesis
    proof (cases "ok2 \<and> (kept = [] \<or> pi_onBatch pin)")
      case False
      with run body f2 f23 show ?thesis by (auto split: if_splits)
    next
      case True
      with run body have ack: "exec_pipe (pi_ack pin) (map Ack (map it_id items)) st3 = (st', ok)" by (auto simp: comp_def)
      then obtain k where k: "st' = fold run_cmd (map Ack (take k (map it_id items))) st3"
        "ok \<longrightarrow> map Ack (take k (map it_id items)) = map Ack (map it_id items)"
        using pipes unfolding sound_pipes_def take_map [symmetric] by (metis exec_pipe_cut)
      have acc: "accounted env st3 (entry_of i)" if i: "i \<in> set items" for i
      proof -
        have dead: "set (ss_dead st3) = set (ss_dead st2)" "ss_pg st3 = p1" using second by (simp_all add: st3_def)
        from writeIsolating_sound(2) [OF pg w Inr [unfolded y], of i] i
        have "entry_of i \<in> set rejected \<or> row_key (it_rec i) \<in> keys_of p1" by simp
        then show ?thesis
        proof
          assume "entry_of i \<in> set rejected"
          with second True dead show ?thesis by (auto simp: accounted_def)
        next
          assume key: "row_key (it_rec i) \<in> keys_of p1"
          from items i obtain d p where "((it_id i, it_payload i), d) \<in> set good" "dc_payload d = Some p"
            "row_key (it_rec i) = payload_key env p" unfolding item_of_def by blast
          with dec key dead show ?thesis by (fastforce simp: accounted_def entry_of_def)
        qed
      qed
      have "faithful env ?es st3 st'"
        unfolding k(1)
      proof (rule faithful_acks, rule ballI)
        fix x
        assume "x \<in> set (take k (map it_id items))"
        then have "x \<in> it_id ` set items" by (auto dest: in_set_takeD)
        then obtain i where "i \<in> set items" "x = it_id i" by blast
        with acc show "\<exists>e\<in>set ?es. fst e = x \<and> accounted env st3 e" by (auto simp: entry_of_def)
      qed
      note all = faithful_trans [OF f23 this]
      have late: "accounted env st' (entry_of i)" if "i \<in> set items" for i
        using accounted_mono [OF acc [OF that] faithfulD(1,2) [OF \<open>faithful env ?es st3 st'\<close>]] .
      have gone: "it_id i \<notin> set (ss_pel st')" if "ok" "distinct (ss_pel st)" "i \<in> set items" for i
      proof -
        from k(2) that(1) have "length (take k (map it_id items)) = length (map it_id items)" by (metis length_map)
        then have "take k (map it_id items) = map it_id items" by simp
        with k(1) have "st' = fold run_cmd (map Ack (map it_id items)) st3" by argo
        then have "ss_pel st' = fold remove1 (map it_id items) (ss_pel st3)" unfolding run_acks by simp
        moreover have "distinct (ss_pel st3)" using faithfulD(4) [OF f23] that(2) by simp
        ultimately show ?thesis using removed(3) [of "ss_pel st3" "map it_id items"] that(3) by auto
      qed
      from all late gone show ?thesis by blast
    qed
  qed
qed

text \<open>A whole batch.\<close>

lemma process_faithful:
  assumes pg: "transient_pg (ce_pg env)" and pipes: "sound_pipes pin"
    and run: "process_entries env pin entries st = (st', ok)"
  shows "faithful env entries st st' \<and>
    (ok \<longrightarrow> (\<forall>e \<in> set entries. accounted env st' e) \<and>
      (distinct (ss_pel st) \<longrightarrow> (\<forall>e \<in> set entries. fst e \<notin> set (ss_pel st'))))"
proof -
  obtain good dead1 where d: "decode_all env entries = (good, dead1)" by (cases "decode_all env entries")
  obtain cache tables reports where t: "resolveBatch (ce_avl env) (ss_cache st) (List.map_filter (\<lambda>x. dc_device (snd x)) good) (pi_now pin) (pi_hmget pin) = (cache, tables, reports)"
    by (cases "resolveBatch (ce_avl env) (ss_cache st) (List.map_filter (\<lambda>x. dc_device (snd x)) good) (pi_now pin) (pi_hmget pin)")
  obtain items dead2 where n: "normalize_all env tables good = (items, dead2)" by (cases "normalize_all env tables good")
  define dead where "dead = dead1 @ dead2"
  define st0 where "st0 = st\<lparr>ss_cache := cache\<rparr>"
  obtain st1 ok1 where one: "(if dead = [] then (st0, True) else exec_pipe (pi_dead pin) (dead_cmds dead) st0) = (st1, ok1)"
    by (cases "if dead = [] then (st0, True) else exec_pipe (pi_dead pin) (dead_cmds dead) st0")
  have body: "process_entries env pin entries st =
      (if \<not> ok1 then (st1, False) else if items = [] then (st1, True) else store_batch env pin items st1)"
    using one d t n unfolding dead_def st0_def by (simp add: process_entries_def Let_def split: if_splits)
  note ds = decode_all_spec [OF d] and ns = normalize_all_spec [OF n]
  have parts: "set entries = set (map entry_of items) \<union> set dead"
    using ds ns by (auto simp: entry_of_def dead_def)
  have f0: "faithful env entries st st0" by (simp add: st0_def faithful_def)
  obtain k where k: "st1 = fold run_cmd (take k (dead_cmds dead)) st0" "ok1 \<longrightarrow> take k (dead_cmds dead) = dead_cmds dead"
  proof (cases "dead = []")
    case True
    with one that [of 0] show ?thesis by (simp add: dead_cmds_def)
  next
    case False
    with one have "exec_pipe (pi_dead pin) (dead_cmds dead) st0 = (st1, ok1)" by simp
    then show ?thesis using pipes that unfolding sound_pipes_def by (metis exec_pipe_cut)
  qed
  have f1: "faithful env entries st0 st1"
    unfolding k(1) by (rule faithful_mono [OF faithful_dead]) (use parts in auto)
  have f01: "faithful env entries st st1" by (rule faithful_trans [OF f0 f1])
  have all_dead: "fold run_cmd (dead_cmds ds) x = x\<lparr>ss_dead := ss_dead x @ ds, ss_pel := fold remove1 (map fst ds) (ss_pel x)\<rparr>" for ds x
    by (induction ds arbitrary: x) (auto simp: dead_cmds_def)
  have dead_done: "set dead \<subseteq> set (ss_dead st1)" if ok1
    using k that by (simp add: all_dead)
  have dead_gone: "\<forall>e \<in> set dead. fst e \<notin> set (ss_pel st1)" if ok1 "distinct (ss_pel st)"
    using k that removed(3) [of "ss_pel st0" "map fst dead"] by (auto simp: all_dead st0_def)
  show ?thesis
  proof (cases "\<not> ok1 \<or> items = []")
    case True
    with run body f01 parts dead_done dead_gone show ?thesis by (auto simp: accounted_def split: if_splits)
  next
    case False
    with run body have "store_batch env pin items st1 = (st', ok)" by simp
    from store_batch_faithful [OF pg pipes this _ _] ns ds
    have f2: "faithful env (map entry_of items) st1 st'" and later: "ok \<Longrightarrow> \<forall>i \<in> set items. accounted env st' (entry_of i)"
      "ok \<Longrightarrow> distinct (ss_pel st1) \<Longrightarrow> \<forall>i \<in> set items. it_id i \<notin> set (ss_pel st')" by auto
    have f2': "faithful env entries st1 st'" by (rule faithful_mono [OF f2]) (use parts in simp)
    have "accounted env st' e" if "ok" "e \<in> set entries" for e
    proof (cases "e \<in> set dead")
      case True
      with dead_done False faithfulD(1) [OF f2] show ?thesis by (auto simp: accounted_def)
    next
      case False
      with that parts later(1) show ?thesis by auto
    qed
    moreover have "fst e \<notin> set (ss_pel st')" if "ok" "distinct (ss_pel st)" "e \<in> set entries" for e
    proof (cases "e \<in> set dead")
      case True
      with dead_gone that False faithfulD(3) [OF f2] show ?thesis by auto
    next
      case False
      with that parts later(2) faithfulD(4) [OF f01] show ?thesis by (auto simp: entry_of_def)
    qed
    ultimately show ?thesis using faithful_trans [OF f01 f2'] by blast
  qed
qed


definition sample_shard :: consumer_env where
  "sample_shard = \<lparr>ce_decode = (\<lambda>b. None), ce_hash = (\<lambda>b. 0), ce_load = (\<lambda>t. []), ce_avl = sample_env, ce_pg = sample_pg\<rparr>"

definition sample_pin :: proc_in where
  "sample_pin = \<lparr>pi_now = 0, pi_hmget = Inl (), pi_dead = Full, pi_rejected = Full, pi_onBatch = True, pi_ack = Full\<rparr>"

definition sample_store :: shard_store where
  "sample_store = \<lparr>ss_pel = [''1-0''], ss_dead = [], ss_pg = \<lparr>ps_rows = [], ps_statements = 0\<rparr>, ss_cache = [], ss_handed = []\<rparr>"

lemma sample_pg_transient: "transient_pg sample_pg"
  by (simp add: transient_pg_def rejects_rows_def sample_pg_def isRowRejection_def)


text \<open>An error of a single command in the dead-letter pipeline is not seen: the entry is acknowledged and is kept
  nowhere.\<close>

lemma dead_letter_error_loses_entry:
  "process_entries sample_shard (sample_pin\<lparr>pi_dead := WithErrors [False, True]\<rparr>) [(''1-0'', [255])] sample_store =
     (sample_store\<lparr>ss_pel := []\<rparr>, True)"
  by (simp add: process_entries_def sample_shard_def sample_pin_def sample_store_def exec_pipe_def dead_cmds_def Let_def
      resolveBatch_def unique_ids_def map_filter_simps)

section \<open>A turn of the loop\<close>

text \<open>What only a batch that is processed may touch.\<close>

definition effects_of :: "consumer \<Rightarrow> entry list \<times> pg_state \<times> nrec list list" where
  "effects_of c = (ss_dead (co_store c), ss_pg (co_store c), ss_handed (co_store c))"

lemma read_rows_effects: "read_rows ack rows c = (c', got) \<Longrightarrow> effects_of c' = effects_of c"
  by (auto simp: read_rows_def effects_of_def run_acks [unfolded fold_map comp_def] split: sum.splits if_splits)

lemma guarded_effects: "owns \<noteq> Inr True \<Longrightarrow> guarded env owns pin entries c = (c', fin) \<Longrightarrow>
    effects_of c' = effects_of c \<and> fin \<noteq> Next \<and> (fin = Fenced \<longrightarrow> \<not> co_running c')"
  by (auto simp: guarded_def effects_of_def split: sum.splits bool.splits)

lemma read_new_effects:
  assumes "\<forall>k. ti_owns ti k \<noteq> Inr True" and "read_new_turn env ti c = (c', fin)"
  shows "effects_of c' = effects_of c"
proof -
  define c0 where "c0 = (case ti_new ti of Inl u \<Rightarrow> c | Inr rs \<Rightarrow> take_delivered rs c)"
  obtain c1 got where r: "read_rows (ti_trimAck ti 2) (ti_new ti) c0 = (c1, got)"
    by (cases "read_rows (ti_trimAck ti 2) (ti_new ti) c0")
  have same: "effects_of c1 = effects_of c"
    using read_rows_effects [OF r] by (simp add: c0_def take_delivered_def effects_of_def split: sum.splits)
  from assms(2) have body: "(c', fin) = (case got of Inl u \<Rightarrow> (c1, Threw)
      | Inr entries \<Rightarrow> (if entries = [] then (c1, Next) else guarded env (ti_owns ti 2) (ti_proc ti 2) entries c1))"
    unfolding read_new_turn_def Let_def c0_def [symmetric] r by simp
  show ?thesis
  proof (cases got)
    case (Inl u)
    with body same show ?thesis by simp
  next
    case (Inr entries)
    with body same guarded_effects [of "ti_owns ti 2" env "ti_proc ti 2" entries c1 c' fin] assms(1) show ?thesis
      by (cases "entries = []") auto
  qed
qed

lemma claim_effects:
  assumes "\<forall>k. ti_owns ti k \<noteq> Inr True" and "claim_turn env ti c = (c', fin)"
  shows "effects_of c' = effects_of c"
proof (cases "ti_claim ti")
  case (Inl u)
  with assms(2) show ?thesis by (simp add: claim_turn_def)
next
  case (Inr x)
  obtain entries evicted where x: "x = (entries, evicted)" by (cases x)
  define c1 where "c1 = c\<lparr>co_evicted := co_evicted c + evicted,
      co_store := (co_store c)\<lparr>ss_pel := ss_pel (co_store c) @ map fst entries\<rparr>\<rparr>"
  obtain c2 f2 where two: "(if entries = [] then (c1, Next) else guarded env (ti_owns ti 1) (ti_proc ti 1) entries c1) = (c2, f2)"
    by (cases "if entries = [] then (c1, Next) else guarded env (ti_owns ti 1) (ti_proc ti 1) entries c1")
  have c1: "effects_of c1 = effects_of c" by (simp add: c1_def effects_of_def)
  have c2: "effects_of c2 = effects_of c"
    using two c1 guarded_effects [of "ti_owns ti 1" env "ti_proc ti 1" entries c1 c2 f2] assms(1) by (cases "entries = []") auto
  have body: "(c', fin) = (case f2 of Next \<Rightarrow> read_new_turn env ti (c2\<lparr>co_lastAutoclaim := ti_now ti\<rparr>) | _ \<Rightarrow> (c2, f2))"
    using assms(2) two unfolding claim_turn_def Inr x sum.case prod.case Let_def c1_def [symmetric] by simp
  show ?thesis
  proof (cases f2)
    case Next
    with body read_new_effects [OF assms(1), of env "c2\<lparr>co_lastAutoclaim := ti_now ti\<rparr>" c' fin] c2 show ?thesis
      by (simp add: effects_of_def)
  qed (use body c2 in simp_all)
qed

lemma later_effects: "(\<forall>k. ti_owns ti k \<noteq> Inr True) \<Longrightarrow> later_turn env ti c = (c', fin) \<Longrightarrow> effects_of c' = effects_of c"
  using claim_effects read_new_effects by (simp add: later_turn_def split: if_splits)

lemma caught_effects: "caught (c, fin) = (c', fin') \<Longrightarrow> effects_of c' = effects_of c \<and> fin' = fin \<and> (fin = Threw \<longrightarrow> co_ownPending c')"
  by (auto simp: caught_def effects_of_def split: turn_end.splits)

lemma unowned_turn:
  assumes "\<forall>k. ti_owns ti k \<noteq> Inr True" and "loop_turn env ti c = (c', fin)"
  shows "effects_of c' = effects_of c"
proof -
  obtain c1 got where r: "read_rows (ti_trimAck ti 0) (ti_own ti) c = (c1, got)" by (cases "read_rows (ti_trimAck ti 0) (ti_own ti) c")
  note same = read_rows_effects [OF r]
  define body where "body = (if co_ownPending c then
      case got of Inl u \<Rightarrow> (c1, Threw)
      | Inr mine \<Rightarrow> (if mine = [] then later_turn env ti (c1\<lparr>co_ownPending := False\<rparr>) else guarded env (ti_owns ti 0) (ti_proc ti 0) mine c1)
    else later_turn env ti c)"
  obtain c2 f2 where two: "body = (c2, f2)" by (cases body)
  have "effects_of c2 = effects_of c"
  proof (cases "co_ownPending c")
    case False
    with two later_effects [OF assms(1)] show ?thesis by (simp add: body_def)
  next
    case True
    show ?thesis
    proof (cases got)
      case (Inl u)
      with True two same show ?thesis by (simp add: body_def)
    next
      case (Inr mine)
      show ?thesis
      proof (cases "mine = []")
        case True
        with Inr \<open>co_ownPending c\<close> two have "later_turn env ti (c1\<lparr>co_ownPending := False\<rparr>) = (c2, f2)" by (simp add: body_def)
        from later_effects [OF assms(1) this] same show ?thesis by (simp add: effects_of_def)
      next
        case False
        with Inr True two have "guarded env (ti_owns ti 0) (ti_proc ti 0) mine c1 = (c2, f2)" by (simp add: body_def)
        from guarded_effects [OF _ this] assms(1) same show ?thesis by simp
      qed
    qed
  qed
  moreover have "caught (c2, f2) = (c', fin)"
    using assms(2) two unfolding loop_turn_def r body_def Let_def by (simp split: if_splits)
  ultimately show ?thesis using caught_effects by metis
qed

lemma caught_throws: "caught r = (c', Threw) \<Longrightarrow> co_ownPending c'"
  by (auto simp: caught_def split: prod.splits turn_end.splits)

lemma read_rows_pel: "read_rows ack rows c = (c', got) \<Longrightarrow> set (ss_pel (co_store c')) \<subseteq> set (ss_pel (co_store c)) \<and>
    (distinct (ss_pel (co_store c)) \<longrightarrow> distinct (ss_pel (co_store c')))"
proof -
  assume r: "read_rows ack rows c = (c', got)"
  have acks: "ss_pel (fold (\<lambda>i. run_cmd (Ack i)) ids st) = fold remove1 ids (ss_pel st)" for ids st
    by (induction ids arbitrary: st) simp_all
  from r show ?thesis
    using removed(1) removed(3) [of "ss_pel (co_store c)"]
    by (auto simp: read_rows_def acks split: sum.splits if_splits dest!: subsetD [OF removed(1)])
qed


definition sample_turn :: "stream_rows \<Rightarrow> turn_in" where
  "sample_turn own = \<lparr>ti_now = 0, ti_own = Inr own, ti_claim = Inl (), ti_new = Inr [], ti_trimAck = (\<lambda>k. Inr ()),
     ti_owns = (\<lambda>k. Inr True), ti_proc = (\<lambda>k. sample_pin)\<rparr>"

definition sample_consumer :: consumer where
  "sample_consumer = \<lparr>co_running = True, co_ownPending = True, co_lastAutoclaim = 0, co_evicted = 0, co_store = sample_store\<rparr>"


text \<open>A page of nothing but tombstones ends the drain although own entries behind it are still pending.\<close>

lemma tombstones_end_the_drain:
  "let c = sample_consumer\<lparr>co_store := sample_store\<lparr>ss_pel := [''1-0'', ''2-0'']\<rparr>\<rparr>;
       c' = fst (loop_turn sample_shard (sample_turn [Some (''1-0'', None)]) c) in
   co_ownPending c \<and> \<not> co_ownPending c' \<and> ss_pel (co_store c') = [''2-0'']"
  by (simp add: loop_turn_def later_turn_def read_new_turn_def read_rows_def sample_turn_def sample_consumer_def
      sample_store_def take_delivered_def caught_def map_filter_simps Let_def)

end
