(* ===== verification/TripRows.thy ===== *)
theory TripRows
  imports TripEngine Calls
begin

text \<open>
  apps/worker/src/trip/writer.ts and trip/persister.ts: the rows of the table \<open>trips\<close> that the events of the
  trip engine become, and the memory of which row is open for which device. The replies of Redis and Postgres
  are arguments; the length of a track is PostGIS's and a parameter.
\<close>

section \<open>The table\<close>

record trip_row =
  tr_id :: nat
  tr_tenant :: string
  tr_account :: string
  tr_device :: int
  tr_open :: bool
  tr_start :: int
  tr_startLat :: real
  tr_startLon :: real
  tr_end :: "(int \<times> real \<times> real) option"
  tr_distanceM :: int
  tr_source :: distance_source
  tr_maxSpeed :: int
  tr_idleS :: int
  tr_driver :: "string option"

record trip_db =
  td_rows :: "trip_row list"
  td_next :: nat

record trip_open =
  to_tenantId :: string
  to_accountId :: string
  to_deviceId :: int
  to_startTime :: int
  to_startLat :: real
  to_startLon :: real

record trip_close =
  tc_endTime :: int
  tc_endLat :: real
  tc_endLon :: real
  tc_distanceM :: int
  tc_source :: distance_source
  tc_maxSpeed :: int
  tc_idleS :: int
  tc_driver :: "string option"

definition INT4_MAX :: int where
  "INT4_MAX = 2147483647"

definition clampInt4 :: "int \<Rightarrow> int" where
  "clampInt4 n = min INT4_MAX (max 0 n)"

definition opened_row :: "nat \<Rightarrow> trip_open \<Rightarrow> trip_row" where
  "opened_row i t =
     \<lparr>tr_id = i, tr_tenant = to_tenantId t, tr_account = to_accountId t, tr_device = to_deviceId t, tr_open = True,
      tr_start = to_startTime t, tr_startLat = to_startLat t, tr_startLon = to_startLon t, tr_end = None,
      tr_distanceM = 0, tr_source = SrcGps, tr_maxSpeed = 0, tr_idleS = 0, tr_driver = None\<rparr>"

definition openTrip :: "trip_open \<Rightarrow> trip_db \<Rightarrow> trip_db \<times> nat" where
  "openTrip t db =
     (db\<lparr>td_rows := td_rows db @ [opened_row (td_next db) t], td_next := Suc (td_next db)\<rparr>, td_next db)"

definition closed_row :: "trip_close \<Rightarrow> trip_row \<Rightarrow> trip_row" where
  "closed_row t r =
     r\<lparr>tr_open := False, tr_end := Some (tc_endTime t, tc_endLat t, tc_endLon t),
       tr_distanceM := clampInt4 (tc_distanceM t), tr_source := tc_source t, tr_maxSpeed := clampInt4 (tc_maxSpeed t),
       tr_idleS := clampInt4 (tc_idleS t),
       tr_driver := (case tr_driver r of None \<Rightarrow> tc_driver t | Some d \<Rightarrow> Some d)\<rparr>"

definition is_open_row :: "nat \<Rightarrow> trip_row \<Rightarrow> bool" where
  "is_open_row i r \<longleftrightarrow> tr_id r = i \<and> tr_open r"

definition closeTrip :: "nat \<Rightarrow> trip_close \<Rightarrow> trip_db \<Rightarrow> trip_db \<times> bool" where
  "closeTrip i t db =
     (db\<lparr>td_rows := map (\<lambda>r. if is_open_row i r then closed_row t r else r) (td_rows db)\<rparr>,
      list_ex (is_open_row i) (td_rows db))"

section \<open>Rebuilding the end of a trip from its positions\<close>

record trip_end =
  en_time :: int
  en_lat :: real
  en_lon :: real
  en_distanceM :: int
  en_maxSpeed :: int

definition track :: "(int \<Rightarrow> bool) \<Rightarrow> int \<Rightarrow> nrec list \<Rightarrow> nrec list" where
  "track window dev positions =
     sort_key r_fixTime (filter (\<lambda>p. r_deviceId p = dev \<and> window (r_fixTime p) \<and> r_fixValid p) positions)"

definition max_speed :: "nrec list \<Rightarrow> int option" where
  "max_speed rows = (case List.map_filter r_speed rows of [] \<Rightarrow> None | s # ss \<Rightarrow> Some (foldl max s ss))"

definition or_zero :: "int option \<Rightarrow> int" where
  "or_zero x = (case x of None \<Rightarrow> 0 | Some n \<Rightarrow> n)"

definition track_length :: "((real \<times> real) list \<Rightarrow> real option) \<Rightarrow> nrec list \<Rightarrow> int" where
  "track_length line rows =
     (case line (map (\<lambda>p. (r_lon p, r_lat p)) rows) of None \<Rightarrow> 0 | Some m \<Rightarrow> round_half_up m)"

definition reconstruct ::
  "((real \<times> real) list \<Rightarrow> real option) \<Rightarrow> nrec list \<Rightarrow> int \<Rightarrow> int \<Rightarrow> int \<Rightarrow> trip_end option" where
  "reconstruct line positions dev start before =
     (let rows = track (\<lambda>t. start \<le> t \<and> t < before) dev positions in
      if rows = [] then None
      else Some \<lparr>en_time = r_fixTime (last rows), en_lat = r_lat (last rows), en_lon = r_lon (last rows),
                 en_distanceM = track_length line rows, en_maxSpeed = or_zero (max_speed rows)\<rparr>)"

definition tripDistanceM :: "((real \<times> real) list \<Rightarrow> real option) \<Rightarrow> nrec list \<Rightarrow> int \<Rightarrow> int \<Rightarrow> int \<Rightarrow> int" where
  "tripDistanceM line positions dev from until = track_length line (track (\<lambda>t. from \<le> t \<and> t \<le> until) dev positions)"

section \<open>The persister\<close>

record open_id =
  oi_id :: nat
  oi_tenant :: string
  oi_account :: string
  oi_start :: int

record trip_store =
  ts_openIds :: "int \<Rightarrow> open_id option"
  ts_shardOf :: "int \<Rightarrow> nat option"
  ts_db :: trip_db

text \<open>The answers one event may need.\<close>

record trip_calls =
  tq_tenant :: "string option reply"
  tq_account :: "string option reply"
  tq_positions :: "nrec list reply"
  tq_driver :: "string \<Rightarrow> string \<Rightarrow> nat \<Rightarrow> string option reply"
  tq_stale :: call
  tq_insert :: call
  tq_update :: call

datatype trip_outcome = Opened | Closed | Missed | Skipped

definition resolveScope :: "trip_calls \<Rightarrow> (string \<times> string) option reply" where
  "resolveScope q =
     bindE (tq_tenant q) (\<lambda>t. bindE (tq_account q) (\<lambda>a.
       Inr (case (t, a) of (Some t', Some a') \<Rightarrow> Some (t', a') | _ \<Rightarrow> None)))"

definition resolveDriver :: "trip_calls \<Rightarrow> string \<Rightarrow> string \<Rightarrow> nat \<Rightarrow> string option" where
  "resolveDriver q tenant account key = (case tq_driver q tenant account key of Inl u \<Rightarrow> None | Inr d \<Rightarrow> d)"

definition forced_close :: "trip_end option \<Rightarrow> open_event \<Rightarrow> trip_close" where
  "forced_close e ev =
     (case e of
        None \<Rightarrow> \<lparr>tc_endTime = oe_startTime ev, tc_endLat = oe_startLat ev, tc_endLon = oe_startLon ev, tc_distanceM = 0,
                 tc_source = SrcGps, tc_maxSpeed = 0, tc_idleS = 0, tc_driver = None\<rparr>
      | Some n \<Rightarrow> \<lparr>tc_endTime = en_time n, tc_endLat = en_lat n, tc_endLon = en_lon n, tc_distanceM = en_distanceM n,
                   tc_source = SrcGps, tc_maxSpeed = en_maxSpeed n, tc_idleS = 0, tc_driver = None\<rparr>)"

definition close_stale ::
  "((real \<times> real) list \<Rightarrow> real option) \<Rightarrow> trip_calls \<Rightarrow> open_event \<Rightarrow> trip_store \<Rightarrow> trip_store \<times> unit reply" where
  "close_stale line q ev w =
     (case ts_openIds w (oe_deviceId ev) of
        None \<Rightarrow> (w, Inr ())
      | Some stale \<Rightarrow>
          (case tq_positions q of
             Inl u \<Rightarrow> (w, Inl u)
           | Inr ps \<Rightarrow>
               (let e = reconstruct line ps (oe_deviceId ev) (oi_start stale) (oe_startTime ev);
                    (db, r) = issue (tq_stale q) (closeTrip (oi_id stale) (forced_close e ev)) (ts_db w) in
                case r of
                  Inl u \<Rightarrow> (w\<lparr>ts_db := db\<rparr>, Inl u)
                | Inr wrote \<Rightarrow> (w\<lparr>ts_db := db, ts_openIds := (ts_openIds w)(oe_deviceId ev := None)\<rparr>, Inr ()))))"

definition trip_open_of :: "string \<Rightarrow> string \<Rightarrow> open_event \<Rightarrow> trip_open" where
  "trip_open_of tenant account ev =
     \<lparr>to_tenantId = tenant, to_accountId = account, to_deviceId = oe_deviceId ev, to_startTime = oe_startTime ev,
      to_startLat = oe_startLat ev, to_startLon = oe_startLon ev\<rparr>"

definition insert_open :: "trip_calls \<Rightarrow> nat \<Rightarrow> string \<Rightarrow> string \<Rightarrow> open_event \<Rightarrow> trip_store \<Rightarrow> trip_store \<times> trip_outcome reply" where
  "insert_open q shard tenant account ev w =
     (let (db, r) = issue (tq_insert q) (openTrip (trip_open_of tenant account ev)) (ts_db w) in
      case r of
        Inl u \<Rightarrow> (w\<lparr>ts_db := db\<rparr>, Inl u)
      | Inr i \<Rightarrow>
          (w\<lparr>ts_db := db,
             ts_openIds := (ts_openIds w)(oe_deviceId ev \<mapsto>
               \<lparr>oi_id = i, oi_tenant = tenant, oi_account = account, oi_start = oe_startTime ev\<rparr>),
             ts_shardOf := (ts_shardOf w)(oe_deviceId ev \<mapsto> shard)\<rparr>, Inr Opened))"

definition apply_open ::
  "((real \<times> real) list \<Rightarrow> real option) \<Rightarrow> trip_calls \<Rightarrow> nat \<Rightarrow> open_event \<Rightarrow> trip_store \<Rightarrow> trip_store \<times> trip_outcome reply" where
  "apply_open line q shard ev w =
     (case resolveScope q of
        Inl u \<Rightarrow> (w, Inl u)
      | Inr None \<Rightarrow> (w, Inr Skipped)
      | Inr (Some (tenant, account)) \<Rightarrow>
          (case close_stale line q ev w of
             (w1, Inl u) \<Rightarrow> (w1, Inl u)
           | (w1, Inr u) \<Rightarrow> insert_open q shard tenant account ev w1))"

definition trip_close_of :: "string option \<Rightarrow> close_event \<Rightarrow> trip_close" where
  "trip_close_of driver ev =
     \<lparr>tc_endTime = ce_endTime ev, tc_endLat = ce_endLat ev, tc_endLon = ce_endLon ev, tc_distanceM = ce_distanceM ev,
      tc_source = ce_distanceSource ev, tc_maxSpeed = ce_maxSpeed ev, tc_idleS = ce_idleS ev, tc_driver = driver\<rparr>"

definition apply_close :: "trip_calls \<Rightarrow> close_event \<Rightarrow> trip_store \<Rightarrow> trip_store \<times> trip_outcome reply" where
  "apply_close q ev w =
     (case ts_openIds w (ce_deviceId ev) of
        None \<Rightarrow> (w, Inr Missed)
      | Some op \<Rightarrow>
          (let driver = (case ce_ibutton ev of None \<Rightarrow> None | Some k \<Rightarrow> resolveDriver q (oi_tenant op) (oi_account op) k);
               (db, r) = issue (tq_update q) (closeTrip (oi_id op) (trip_close_of driver ev)) (ts_db w) in
           case r of
             Inl u \<Rightarrow> (w\<lparr>ts_db := db\<rparr>, Inl u)
           | Inr wrote \<Rightarrow>
               (w\<lparr>ts_db := db, ts_openIds := (ts_openIds w)(ce_deviceId ev := None),
                  ts_shardOf := (ts_shardOf w)(ce_deviceId ev := None)\<rparr>, Inr (if wrote then Closed else Missed))))"

definition apply_event ::
  "((real \<times> real) list \<Rightarrow> real option) \<Rightarrow> nat \<Rightarrow> trip_event \<Rightarrow> trip_calls \<Rightarrow> trip_store \<Rightarrow> trip_store \<times> trip_outcome reply" where
  "apply_event line shard ev q w =
     (case ev of TripOpen o1 \<Rightarrow> apply_open line q shard o1 w | TripClose c \<Rightarrow> apply_close q c w)"

record trip_counts =
  tn_opened :: nat
  tn_closed :: nat
  tn_missed :: nat

definition count_trip :: "trip_outcome \<Rightarrow> trip_counts \<Rightarrow> trip_counts" where
  "count_trip out n =
     (case out of Opened \<Rightarrow> n\<lparr>tn_opened := Suc (tn_opened n)\<rparr> | Closed \<Rightarrow> n\<lparr>tn_closed := Suc (tn_closed n)\<rparr>
      | Missed \<Rightarrow> n\<lparr>tn_missed := Suc (tn_missed n)\<rparr> | Skipped \<Rightarrow> n)"

fun apply_trips ::
  "((real \<times> real) list \<Rightarrow> real option) \<Rightarrow> nat \<Rightarrow> (trip_event \<times> trip_calls) list \<Rightarrow> trip_counts \<Rightarrow> trip_store \<Rightarrow>
   trip_store \<times> trip_counts reply" where
  "apply_trips line shard [] n w = (w, Inr n)"
| "apply_trips line shard ((ev, q) # es) n w =
     (case apply_event line shard ev q w of
        (w1, Inl u) \<Rightarrow> (w1, Inl u)
      | (w1, Inr out) \<Rightarrow> apply_trips line shard es (count_trip out n) w1)"

section \<open>Restart, handoff and orphans\<close>

text \<open>\<open>shard_of\<close> is the shard of a device whose IMEI is a decimal number, and None of any other.\<close>

definition warm_rows :: "(int \<Rightarrow> nat option) \<Rightarrow> nat set \<Rightarrow> trip_db \<Rightarrow> trip_row list" where
  "warm_rows shard_of shards db =
     filter (\<lambda>r. tr_open r \<and> (case shard_of (tr_device r) of None \<Rightarrow> False | Some s \<Rightarrow> s \<in> shards)) (td_rows db)"

definition remember :: "(int \<Rightarrow> nat option) \<Rightarrow> trip_row \<Rightarrow> trip_store \<Rightarrow> trip_store" where
  "remember shard_of r w =
     w\<lparr>ts_openIds := (ts_openIds w)(tr_device r \<mapsto>
         \<lparr>oi_id = tr_id r, oi_tenant = tr_tenant r, oi_account = tr_account r, oi_start = tr_start r\<rparr>),
       ts_shardOf := (ts_shardOf w)(tr_device r := shard_of (tr_device r))\<rparr>"

definition warmStart :: "(int \<Rightarrow> nat option) \<Rightarrow> nat set \<Rightarrow> trip_store \<Rightarrow> trip_store \<times> nat" where
  "warmStart shard_of shards w =
     (let rows = warm_rows shard_of shards (ts_db w) in (fold (remember shard_of) rows w, length rows))"

definition forgetShard :: "nat \<Rightarrow> trip_store \<Rightarrow> trip_store" where
  "forgetShard shard w =
     w\<lparr>ts_openIds := (\<lambda>d. if ts_shardOf w d = Some shard then None else ts_openIds w d),
       ts_shardOf := (\<lambda>d. if ts_shardOf w d = Some shard then None else ts_shardOf w d)\<rparr>"

definition last_fix :: "trip_row \<Rightarrow> nrec list \<Rightarrow> nrec option" where
  "last_fix r positions =
     (let rows = track (\<lambda>t. tr_start r \<le> t) (tr_device r) positions in if rows = [] then None else Some (last rows))"

definition orphaned :: "(int \<Rightarrow> nat option) \<Rightarrow> nat set \<Rightarrow> int \<Rightarrow> nrec list \<Rightarrow> trip_row \<Rightarrow> bool" where
  "orphaned shard_of shards cutoff positions r \<longleftrightarrow>
     tr_open r \<and> (case shard_of (tr_device r) of None \<Rightarrow> False | Some s \<Rightarrow> s \<in> shards) \<and>
     (case last_fix r positions of None \<Rightarrow> tr_start r | Some p \<Rightarrow> r_fixTime p) < cutoff"

definition orphan_close :: "((real \<times> real) list \<Rightarrow> real option) \<Rightarrow> nrec list \<Rightarrow> nrec list \<Rightarrow> trip_row \<Rightarrow> trip_close" where
  "orphan_close line positions later r =
     (let p = last_fix r positions; until = (case p of None \<Rightarrow> tr_start r | Some x \<Rightarrow> r_fixTime x) in
      \<lparr>tc_endTime = until, tc_endLat = (case p of None \<Rightarrow> tr_startLat r | Some x \<Rightarrow> r_lat x),
       tc_endLon = (case p of None \<Rightarrow> tr_startLon r | Some x \<Rightarrow> r_lon x),
       tc_distanceM = tripDistanceM line later (tr_device r) (tr_start r) until, tc_source = SrcGps,
       tc_maxSpeed = or_zero (max_speed (track (\<lambda>t. tr_start r \<le> t) (tr_device r) positions)), tc_idleS = 0, tc_driver = None\<rparr>)"

text \<open>One row of the sweep: \<open>r\<close> is what the sweep's query read, \<open>later\<close> what the distance query sees.\<close>

definition close_orphan ::
  "((real \<times> real) list \<Rightarrow> real option) \<Rightarrow> nrec list \<Rightarrow> nrec list reply \<Rightarrow> call \<Rightarrow> trip_row \<Rightarrow> trip_store \<Rightarrow> trip_store \<times> unit reply" where
  "close_orphan line positions later c r w =
     (case later of
        Inl u \<Rightarrow> (w, Inl u)
      | Inr ps \<Rightarrow>
          (let (db, res) = issue c (closeTrip (tr_id r) (orphan_close line positions ps r)) (ts_db w) in
           case res of
             Inl u \<Rightarrow> (w\<lparr>ts_db := db\<rparr>, Inl u)
           | Inr wrote \<Rightarrow>
               (w\<lparr>ts_db := db,
                  ts_openIds := (if map_option oi_id (ts_openIds w (tr_device r)) = Some (tr_id r)
                                 then (ts_openIds w)(tr_device r := None) else ts_openIds w)\<rparr>, Inr ())))"

definition orphan_rows ::
  "(int \<Rightarrow> nat option) \<Rightarrow> nat set \<Rightarrow> int \<Rightarrow> nat \<Rightarrow> nrec list \<Rightarrow> trip_db \<Rightarrow> trip_row list" where
  "orphan_rows shard_of shards cutoff limit positions db =
     take limit (filter (orphaned shard_of shards cutoff positions) (td_rows db))"

fun close_each ::
  "((real \<times> real) list \<Rightarrow> real option) \<Rightarrow> nrec list \<Rightarrow> (trip_row \<times> nrec list reply \<times> call) list \<Rightarrow> trip_store \<Rightarrow>
   trip_store \<times> unit reply" where
  "close_each line positions [] w = (w, Inr ())"
| "close_each line positions ((r, later, c) # rs) w =
     (case close_orphan line positions later c r w of
        (w1, Inl u) \<Rightarrow> (w1, Inl u)
      | (w1, Inr u) \<Rightarrow> close_each line positions rs w1)"

text \<open>The sweep without the events that may come between its rows; \<open>answers\<close> are those of its statements.\<close>

definition closeOrphans ::
  "((real \<times> real) list \<Rightarrow> real option) \<Rightarrow> (int \<Rightarrow> nat option) \<Rightarrow> int \<Rightarrow> nat set \<Rightarrow> int \<Rightarrow> nat \<Rightarrow> nrec list \<Rightarrow>
   (nat \<Rightarrow> nrec list reply \<times> call) \<Rightarrow> trip_store \<Rightarrow> trip_store \<times> nat reply" where
  "closeOrphans line shard_of maxIdleMs shards nowMs limit positions answers w =
     (let rows = orphan_rows shard_of shards (nowMs - maxIdleMs) limit positions (ts_db w);
          (w', r) = close_each line positions (map (\<lambda>(k, r). (r, answers k)) (zip [0..<length rows] rows)) w in
      (w', bindE r (\<lambda>u. Inr (length rows))))"

end
