(* ===== verification/TripHistory.thy ===== *)
theory TripHistory
  imports TripRows
begin

text \<open>
  What the trip rows of trip/persister.ts mean. Two results: while every call is answered, the rows of a
  device are exactly the journeys the trip engine reported for it (a functional refinement, composed with the
  engine's own theorem); and whatever fails, restarts or changes hands, a device never has two open rows.
\<close>

section \<open>The store\<close>

definition device_rows :: "int \<Rightarrow> trip_store \<Rightarrow> trip_row list" where
  "device_rows dev w = filter (\<lambda>r. tr_device r = dev) (td_rows (ts_db w))"

definition store_ok :: "trip_store \<Rightarrow> bool" where
  "store_ok w \<longleftrightarrow>
     distinct (map tr_id (td_rows (ts_db w))) \<and> (\<forall>r \<in> set (td_rows (ts_db w)). tr_id r < td_next (ts_db w)) \<and>
     (\<forall>d oi. ts_openIds w d = Some oi \<longrightarrow> (\<exists>r \<in> set (td_rows (ts_db w)). tr_id r = oi_id oi \<and> tr_device r = d))"

lemma closed_row_fields [simp]:
  "tr_id (closed_row t r) = tr_id r" "tr_device (closed_row t r) = tr_device r" "\<not> tr_open (closed_row t r)"
  "tr_start (closed_row t r) = tr_start r" "tr_tenant (closed_row t r) = tr_tenant r" "tr_account (closed_row t r) = tr_account r"
  by (simp_all add: closed_row_def)

lemma opened_row_fields [simp]:
  "tr_id (opened_row i t) = i" "tr_device (opened_row i t) = to_deviceId t" "tr_open (opened_row i t)"
  "tr_start (opened_row i t) = to_startTime t"
  by (simp_all add: opened_row_def)

definition finish :: "nat \<Rightarrow> trip_close \<Rightarrow> trip_row \<Rightarrow> trip_row" where
  "finish i t r = (if is_open_row i r then closed_row t r else r)"

lemma finish_fields [simp]: "tr_id (finish i t r) = tr_id r" "tr_device (finish i t r) = tr_device r"
  by (simp_all add: finish_def)

lemma closeTrip_db:
  "fst (closeTrip i t db) = db\<lparr>td_rows := map (finish i t) (td_rows db)\<rparr>"
  by (simp add: closeTrip_def finish_def)

text \<open>A step of the store either leaves the rows alone, closes one by its id, or adds one.\<close>

definition closes :: "nat \<Rightarrow> trip_close \<Rightarrow> trip_store \<Rightarrow> trip_store" where
  "closes i t w = w\<lparr>ts_db := fst (closeTrip i t (ts_db w))\<rparr>"

definition opens :: "trip_open \<Rightarrow> trip_store \<Rightarrow> trip_store" where
  "opens t w = w\<lparr>ts_db := fst (openTrip t (ts_db w))\<rparr>"

lemma store_ok_closes: "store_ok w \<Longrightarrow> store_ok (closes i t w)"
  by (fastforce simp: store_ok_def closes_def closeTrip_db comp_def)

lemma store_ok_opens: "store_ok w \<Longrightarrow> store_ok (opens t w)"
  by (fastforce simp: store_ok_def opens_def openTrip_def less_Suc_eq)

lemma store_ok_forget: "store_ok w \<Longrightarrow> (\<And>d oi. m d = Some oi \<Longrightarrow> ts_openIds w d = Some oi) \<Longrightarrow> store_ok (w\<lparr>ts_openIds := m\<rparr>)"
  by (simp add: store_ok_def)

lemma store_ok_shard [simp]: "store_ok (w\<lparr>ts_shardOf := m\<rparr>) = store_ok w"
  by (simp add: store_ok_def)

lemma store_ok_learn:
  "store_ok w \<Longrightarrow> r \<in> set (td_rows (ts_db w)) \<Longrightarrow> tr_id r = oi_id oi \<Longrightarrow> tr_device r = d \<Longrightarrow>
   store_ok (w\<lparr>ts_openIds := (ts_openIds w)(d \<mapsto> oi)\<rparr>)"
  by (auto simp: store_ok_def)

lemma store_ok_id: "store_ok w \<Longrightarrow> r \<in> set (td_rows (ts_db w)) \<Longrightarrow> ts_openIds w d = Some oi \<Longrightarrow> tr_id r = oi_id oi \<Longrightarrow> tr_device r = d"
  unfolding store_ok_def distinct_map by (metis inj_onD)

lemma device_rows_closes: "device_rows dev (closes i t w) = map (finish i t) (device_rows dev w)"
  by (simp add: device_rows_def closes_def closeTrip_db filter_map comp_def)

lemma finish_other: "(\<And>r. r \<in> set rs \<Longrightarrow> \<not> is_open_row i r) \<Longrightarrow> map (finish i t) rs = rs"
  by (simp add: finish_def map_idI)

lemma device_rows_closes_other:
  assumes "store_ok w" and "ts_openIds w d = Some oi" and "d \<noteq> dev"
  shows "device_rows dev (closes (oi_id oi) t w) = device_rows dev w"
  unfolding device_rows_closes
  by (rule finish_other) (use assms in \<open>auto simp: device_rows_def is_open_row_def dest: store_ok_id\<close>)

lemma device_rows_opens:
  "device_rows dev (opens t w) = device_rows dev w @ (if to_deviceId t = dev then [opened_row (td_next (ts_db w)) t] else [])"
  by (simp add: device_rows_def opens_def openTrip_def opened_row_def)

section \<open>At most one open row per device\<close>

definition owned_device :: "(int \<Rightarrow> nat option) \<Rightarrow> nat set \<Rightarrow> int \<Rightarrow> bool" where
  "owned_device shard_of owned d = (case shard_of d of None \<Rightarrow> False | Some s \<Rightarrow> s \<in> owned)"

definition one_open :: "trip_row list \<Rightarrow> bool" where
  "one_open rows \<longleftrightarrow> (\<forall>r1 \<in> set rows. \<forall>r2 \<in> set rows. tr_open r1 \<longrightarrow> tr_open r2 \<longrightarrow> tr_device r1 = tr_device r2 \<longrightarrow> tr_id r1 = tr_id r2)"

definition known :: "trip_store \<Rightarrow> trip_row \<Rightarrow> bool" where
  "known w r \<longleftrightarrow> (\<exists>oi. ts_openIds w (tr_device r) = Some oi \<and> oi_id oi = tr_id r)"

definition memory_ok :: "(int \<Rightarrow> nat option) \<Rightarrow> nat set \<Rightarrow> trip_store \<Rightarrow> bool" where
  "memory_ok shard_of owned w \<longleftrightarrow>
     (\<forall>d. ts_openIds w d \<noteq> None \<longrightarrow> owned_device shard_of owned d \<and> ts_shardOf w d = shard_of d)"

definition covered :: "(int \<Rightarrow> nat option) \<Rightarrow> nat set \<Rightarrow> trip_store \<Rightarrow> bool" where
  "covered shard_of owned w \<longleftrightarrow>
     (\<forall>r \<in> set (td_rows (ts_db w)). tr_open r \<longrightarrow> owned_device shard_of owned (tr_device r) \<longrightarrow> known w r)"

definition history_ok :: "(int \<Rightarrow> nat option) \<Rightarrow> nat set \<Rightarrow> trip_store \<Rightarrow> bool" where
  "history_ok shard_of owned w \<longleftrightarrow>
     store_ok w \<and> one_open (td_rows (ts_db w)) \<and> covered shard_of owned w \<and> memory_ok shard_of owned w"

text \<open>What another worker may do meanwhile: anything to the rows of devices that are not this worker's, as long
  as it too keeps one open row per device.\<close>

definition peer_step :: "(int \<Rightarrow> nat option) \<Rightarrow> nat set \<Rightarrow> trip_db \<Rightarrow> trip_db \<Rightarrow> bool" where
  "peer_step shard_of owned db db' \<longleftrightarrow>
     distinct (map tr_id (td_rows db')) \<and> (\<forall>r \<in> set (td_rows db'). tr_id r < td_next db') \<and> one_open (td_rows db') \<and>
     filter (\<lambda>r. owned_device shard_of owned (tr_device r)) (td_rows db') =
     filter (\<lambda>r. owned_device shard_of owned (tr_device r)) (td_rows db)"

inductive trip_reach ::
  "((real \<times> real) list \<Rightarrow> real option) \<Rightarrow> (int \<Rightarrow> nat option) \<Rightarrow> nat set \<Rightarrow> trip_store \<Rightarrow> bool" for line shard_of where
  Fresh: "trip_reach line shard_of {} \<lparr>ts_openIds = (\<lambda>d. None), ts_shardOf = (\<lambda>d. None), ts_db = \<lparr>td_rows = [], td_next = 0\<rparr>\<rparr>"
| Event: "trip_reach line shard_of owned w \<Longrightarrow> s \<in> owned \<Longrightarrow> shard_of (event_device ev) = Some s \<Longrightarrow>
    tq_insert q \<noteq> Failed True \<Longrightarrow> trip_reach line shard_of owned (fst (apply_event line s ev q w))"
| Orphan: "trip_reach line shard_of owned w \<Longrightarrow> trip_reach line shard_of owned (fst (close_orphan line ps later c row w))"
| Lose: "trip_reach line shard_of owned w \<Longrightarrow> trip_reach line shard_of (owned - {s}) (forgetShard s w)"
| Gain: "trip_reach line shard_of owned w \<Longrightarrow> trip_reach line shard_of (owned \<union> S) (fst (warmStart shard_of S w))"
| Restart: "trip_reach line shard_of owned w \<Longrightarrow>
    trip_reach line shard_of {} (w\<lparr>ts_openIds := (\<lambda>d. None), ts_shardOf := (\<lambda>d. None)\<rparr>)"
| Peer: "trip_reach line shard_of owned w \<Longrightarrow> peer_step shard_of owned (ts_db w) db' \<Longrightarrow>
    trip_reach line shard_of owned (w\<lparr>ts_db := db'\<rparr>)"

lemma closes_rows: "td_rows (ts_db (closes i t w)) = map (finish i t) (td_rows (ts_db w))"
  by (simp add: closes_def closeTrip_db)

lemma finish_open: "tr_open (finish i t r) \<longleftrightarrow> tr_open r \<and> tr_id r \<noteq> i"
  by (auto simp: finish_def is_open_row_def)

lemma closes_memory [simp]: "ts_openIds (closes i t w) = ts_openIds w" "ts_shardOf (closes i t w) = ts_shardOf w"
  by (simp_all add: closes_def)

lemma opens_memory [simp]: "ts_openIds (opens t w) = ts_openIds w" "ts_shardOf (opens t w) = ts_shardOf w"
  by (simp_all add: opens_def)

lemma one_openI:
  "(\<And>r1 r2. r1 \<in> set rows \<Longrightarrow> r2 \<in> set rows \<Longrightarrow> tr_open r1 \<Longrightarrow> tr_open r2 \<Longrightarrow> tr_device r1 = tr_device r2 \<Longrightarrow> tr_id r1 = tr_id r2)
   \<Longrightarrow> one_open rows"
  unfolding one_open_def by blast

lemma one_openD:
  "one_open rows \<Longrightarrow> r1 \<in> set rows \<Longrightarrow> r2 \<in> set rows \<Longrightarrow> tr_open r1 \<Longrightarrow> tr_open r2 \<Longrightarrow> tr_device r1 = tr_device r2 \<Longrightarrow>
   tr_id r1 = tr_id r2"
  unfolding one_open_def by blast

lemma one_open_finish:
  assumes "one_open rows"
  shows "one_open (map (finish i t) rows)"
proof (rule one_openI)
  fix r1 r2
  assume "r1 \<in> set (map (finish i t) rows)" "r2 \<in> set (map (finish i t) rows)" and o: "tr_open r1" "tr_open r2"
    and d: "tr_device r1 = tr_device r2"
  then obtain a b where ab: "a \<in> set rows" "b \<in> set rows" "r1 = finish i t a" "r2 = finish i t b" by auto
  show "tr_id r1 = tr_id r2"
    using one_openD [OF assms ab(1,2)] o d ab(3,4) by (simp add: finish_open)
qed

lemma one_open_snoc:
  assumes "one_open rows" and "\<And>q. q \<in> set rows \<Longrightarrow> tr_device q = tr_device r \<Longrightarrow> \<not> tr_open q"
  shows "one_open (rows @ [r])"
proof (rule one_openI)
  fix r1 r2
  assume "r1 \<in> set (rows @ [r])" "r2 \<in> set (rows @ [r])" and o: "tr_open r1" "tr_open r2" and d: "tr_device r1 = tr_device r2"
  then consider "r1 \<in> set rows" "r2 \<in> set rows" | "r1 = r" "r2 = r" | "r1 \<in> set rows" "r2 = r" | "r1 = r" "r2 \<in> set rows"
    by auto
  then show "tr_id r1 = tr_id r2"
  proof cases
    case 1
    then show ?thesis using one_openD [OF assms(1)] o d by blast
  next
    case 2
    then show ?thesis by simp
  next
    case 3
    then show ?thesis using assms(2) o d by auto
  next
    case 4
    then show ?thesis using assms(2) [of r2] o d by simp
  qed
qed

lemma history_okD:
  assumes "history_ok sh ow w"
  shows "store_ok w" and "one_open (td_rows (ts_db w))" and "covered sh ow w" and "memory_ok sh ow w"
  using assms by (simp_all add: history_ok_def)

lemma coveredI:
  "(\<And>r. r \<in> set (td_rows (ts_db w)) \<Longrightarrow> tr_open r \<Longrightarrow> owned_device sh ow (tr_device r) \<Longrightarrow> known w r) \<Longrightarrow> covered sh ow w"
  by (simp add: covered_def)

lemma coveredD:
  "covered sh ow w \<Longrightarrow> r \<in> set (td_rows (ts_db w)) \<Longrightarrow> tr_open r \<Longrightarrow> owned_device sh ow (tr_device r) \<Longrightarrow>
   \<exists>oi. ts_openIds w (tr_device r) = Some oi \<and> oi_id oi = tr_id r"
  by (simp add: covered_def known_def)

lemma history_closes:
  assumes h: "history_ok sh ow w"
  shows "history_ok sh ow (closes i t w)"
proof -
  have "covered sh ow (closes i t w)"
  proof (rule coveredI)
    fix r assume r: "r \<in> set (td_rows (ts_db (closes i t w)))" "tr_open r" "owned_device sh ow (tr_device r)"
    then obtain r0 where "r0 \<in> set (td_rows (ts_db w))" "r = finish i t r0" by (auto simp: closes_rows)
    then show "known (closes i t w) r"
      using r coveredD [OF history_okD(3) [OF h]] by (simp add: finish_open known_def)
  qed
  then show ?thesis
    using h by (simp add: history_ok_def store_ok_closes closes_rows one_open_finish memory_ok_def)
qed

text \<open>A device may be forgotten once its known row is closed.\<close>

lemma history_forget:
  assumes h: "history_ok sh ow w" and o: "ts_openIds w d = Some oi"
  shows "history_ok sh ow ((closes (oi_id oi) t w)\<lparr>ts_openIds := (ts_openIds w)(d := None)\<rparr>)"
proof -
  let ?v = "closes (oi_id oi) t w"
  have v: "history_ok sh ow ?v" by (rule history_closes [OF h])
  have "store_ok (?v\<lparr>ts_openIds := (ts_openIds w)(d := None)\<rparr>)"
    by (rule store_ok_forget) (use v in \<open>auto simp: history_ok_def split: if_splits\<close>)
  moreover have "covered sh ow (?v\<lparr>ts_openIds := (ts_openIds w)(d := None)\<rparr>)"
  proof (rule coveredI)
    fix r assume r: "r \<in> set (td_rows (ts_db (?v\<lparr>ts_openIds := (ts_openIds w)(d := None)\<rparr>)))" "tr_open r"
      "owned_device sh ow (tr_device r)"
    then obtain r0 where r0: "r0 \<in> set (td_rows (ts_db w))" "r = finish (oi_id oi) t r0" by (auto simp: closes_rows)
    then show "known (?v\<lparr>ts_openIds := (ts_openIds w)(d := None)\<rparr>) r"
      using r o coveredD [OF history_okD(3) [OF h] r0(1)] by (auto simp: finish_open known_def)
  qed
  moreover have "memory_ok sh ow (?v\<lparr>ts_openIds := (ts_openIds w)(d := None)\<rparr>)"
    using h by (simp add: history_ok_def memory_ok_def)
  ultimately show ?thesis using v by (simp add: history_ok_def)
qed

lemma history_shard_drop:
  "history_ok sh ow w \<Longrightarrow> ts_openIds w d = None \<Longrightarrow> history_ok sh ow (w\<lparr>ts_shardOf := (ts_shardOf w)(d := x)\<rparr>)"
  by (auto simp: history_ok_def covered_def known_def memory_ok_def)

lemma history_opens:
  assumes h: "history_ok sh ow w" and none: "ts_openIds w d = None" and s: "sh d = Some s" "s \<in> ow" and d: "to_deviceId t = d"
    and i: "oi_id oi = td_next (ts_db w)"
  shows "history_ok sh ow ((opens t w)\<lparr>ts_openIds := (ts_openIds w)(d \<mapsto> oi), ts_shardOf := (ts_shardOf w)(d \<mapsto> s)\<rparr>)"
proof -
  let ?r = "opened_row (td_next (ts_db w)) t"
  have rows: "td_rows (ts_db (opens t w)) = td_rows (ts_db w) @ [?r]" by (simp add: opens_def openTrip_def)
  have od: "owned_device sh ow d" using s by (simp add: owned_device_def)
  have shut: "\<not> tr_open r" if "r \<in> set (td_rows (ts_db w))" "tr_device r = d" for r
    using coveredD [OF history_okD(3) [OF h] that(1)] that(2) none od by auto
  have "store_ok ((opens t w)\<lparr>ts_openIds := (ts_openIds w)(d \<mapsto> oi)\<rparr>)"
    using store_ok_learn [OF store_ok_opens, of w ?r t oi d] h rows i d by (simp add: history_ok_def)
  then have "store_ok ((opens t w)\<lparr>ts_openIds := (ts_openIds w)(d \<mapsto> oi), ts_shardOf := (ts_shardOf w)(d \<mapsto> s)\<rparr>)"
    by (simp add: store_ok_def)
  moreover have "one_open (td_rows (ts_db w) @ [?r])"
    by (rule one_open_snoc [OF history_okD(2) [OF h]]) (use shut d in simp)
  moreover have "covered sh ow ((opens t w)\<lparr>ts_openIds := (ts_openIds w)(d \<mapsto> oi), ts_shardOf := (ts_shardOf w)(d \<mapsto> s)\<rparr>)"
  proof (rule coveredI)
    fix r assume "r \<in> set (td_rows (ts_db ((opens t w)\<lparr>ts_openIds := (ts_openIds w)(d \<mapsto> oi), ts_shardOf := (ts_shardOf w)(d \<mapsto> s)\<rparr>)))"
      and r: "tr_open r" "owned_device sh ow (tr_device r)"
    then have "r \<in> set (td_rows (ts_db w)) \<or> r = ?r" by (auto simp: rows)
    then show "known ((opens t w)\<lparr>ts_openIds := (ts_openIds w)(d \<mapsto> oi), ts_shardOf := (ts_shardOf w)(d \<mapsto> s)\<rparr>) r"
    proof
      assume m: "r \<in> set (td_rows (ts_db w))"
      then have "tr_device r \<noteq> d" using shut r(1) by blast
      then show ?thesis using coveredD [OF history_okD(3) [OF h] m r] by (simp add: known_def)
    next
      assume "r = ?r"
      then show ?thesis using i d by (simp add: known_def)
    qed
  qed
  moreover have "memory_ok sh ow ((opens t w)\<lparr>ts_openIds := (ts_openIds w)(d \<mapsto> oi), ts_shardOf := (ts_shardOf w)(d \<mapsto> s)\<rparr>)"
    using h od s by (auto simp: history_ok_def memory_ok_def)
  ultimately show ?thesis by (simp add: history_ok_def rows)
qed

section \<open>Every operation keeps the invariant\<close>

lemma history_issue_close:
  assumes "history_ok sh ow w" and "issue c (closeTrip i t) (ts_db w) = (db, r)"
  shows "history_ok sh ow (w\<lparr>ts_db := db\<rparr>)"
  using assms(2)
proof (cases rule: issue_cases)
  case (answered x)
  then show ?thesis using history_closes [OF assms(1), of i t] by (simp add: closes_def)
next
  case lost
  then show ?thesis using history_closes [OF assms(1), of i t] by (simp add: closes_def)
next
  case failed
  then show ?thesis using assms(1) by simp
qed

lemma history_issue_forget:
  assumes "history_ok sh ow w" and "ts_openIds w d = Some oi"
    and "issue c (closeTrip (oi_id oi) t) (ts_db w) = (db, Inr x)"
  shows "history_ok sh ow (w\<lparr>ts_db := db, ts_openIds := (ts_openIds w)(d := None)\<rparr>)"
  using assms(3)
proof (cases rule: issue_cases)
  case (answered y)
  then show ?thesis using history_forget [OF assms(1,2), of t] by (simp add: closes_def)
qed simp_all

lemma history_close_stale:
  assumes "history_ok sh ow w" and "close_stale line q ev w = (w', r)"
  shows "history_ok sh ow w' \<and> (r = Inr () \<longrightarrow> ts_openIds w' (oe_deviceId ev) = None)"
proof (cases "ts_openIds w (oe_deviceId ev)")
  case None
  then show ?thesis using assms by (simp add: close_stale_def)
next
  case (Some oi)
  show ?thesis
  proof (cases "tq_positions q")
    case (Inl u)
    then show ?thesis using assms Some by (auto simp: close_stale_def)
  next
    case (Inr ps)
    obtain db res where i: "issue (tq_stale q) (closeTrip (oi_id oi)
        (forced_close (reconstruct line ps (oe_deviceId ev) (oi_start oi) (oe_startTime ev)) ev)) (ts_db w) = (db, res)"
      by fastforce
    show ?thesis
    proof (cases res)
      case (Inl u)
      then show ?thesis using assms Some Inr i history_issue_close [OF assms(1) i] by (auto simp: close_stale_def)
    next
      case r: (Inr x)
      then show ?thesis using assms Some Inr i history_issue_forget [OF assms(1) Some] by (auto simp: close_stale_def)
    qed
  qed
qed

lemma history_insert_open:
  assumes h: "history_ok sh ow w" and none: "ts_openIds w (oe_deviceId ev) = None"
    and s: "sh (oe_deviceId ev) = Some s" "s \<in> ow" and q: "tq_insert q \<noteq> Failed True"
  shows "history_ok sh ow (fst (insert_open q s tenant account ev w))"
proof -
  let ?t = "trip_open_of tenant account ev"
  obtain db r where i: "issue (tq_insert q) (openTrip ?t) (ts_db w) = (db, r)" by fastforce
  from i show ?thesis
  proof (cases rule: issue_cases)
    case (answered x)
    then have x: "x = td_next (ts_db w)" and db: "db = ts_db (opens ?t w)" by (auto simp: openTrip_def opens_def)
    let ?oi = "\<lparr>oi_id = x, oi_tenant = tenant, oi_account = account, oi_start = oe_startTime ev\<rparr>"
    have "history_ok sh ow ((opens ?t w)\<lparr>ts_openIds := (ts_openIds w)(oe_deviceId ev \<mapsto> ?oi),
        ts_shardOf := (ts_shardOf w)(oe_deviceId ev \<mapsto> s)\<rparr>)"
      by (rule history_opens [OF h none s]) (simp_all add: trip_open_of_def x)
    moreover have "fst (insert_open q s tenant account ev w) = w\<lparr>ts_db := db,
        ts_openIds := (ts_openIds w)(oe_deviceId ev \<mapsto> ?oi), ts_shardOf := (ts_shardOf w)(oe_deviceId ev \<mapsto> s)\<rparr>"
      by (simp add: insert_open_def i answered(2))
    ultimately show ?thesis by (simp add: db opens_def)
  next
    case lost
    then show ?thesis using q by simp
  next
    case failed
    then show ?thesis using i h by (simp add: insert_open_def)
  qed
qed

lemma history_apply_open:
  assumes "history_ok sh ow w" and "sh (oe_deviceId ev) = Some s" "s \<in> ow" and "tq_insert q \<noteq> Failed True"
  shows "history_ok sh ow (fst (apply_open line q s ev w))"
proof -
  obtain w1 r1 where c: "close_stale line q ev w = (w1, r1)" by fastforce
  show ?thesis
    using assms history_close_stale [OF assms(1) c] c history_insert_open [of sh ow w1 ev s q]
    by (auto simp: apply_open_def split: sum.splits option.splits)
qed

lemma history_apply_close:
  assumes "history_ok sh ow w"
  shows "history_ok sh ow (fst (apply_close q ev w))"
proof (cases "ts_openIds w (ce_deviceId ev)")
  case None
  then show ?thesis using assms by (simp add: apply_close_def)
next
  case (Some oi)
  let ?t = "trip_close_of (case ce_ibutton ev of None \<Rightarrow> None | Some k \<Rightarrow> resolveDriver q (oi_tenant oi) (oi_account oi) k) ev"
  obtain db res where i: "issue (tq_update q) (closeTrip (oi_id oi) ?t) (ts_db w) = (db, res)" by fastforce
  show ?thesis
  proof (cases res)
    case (Inl u)
    then show ?thesis using Some i history_issue_close [OF assms i] by (simp add: apply_close_def)
  next
    case (Inr x)
    have "history_ok sh ow (w\<lparr>ts_db := db, ts_openIds := (ts_openIds w)(ce_deviceId ev := None)\<rparr>)"
      by (rule history_issue_forget [OF assms Some i [unfolded Inr]])
    from history_shard_drop [OF this] show ?thesis using Some i Inr by (simp add: apply_close_def)
  qed
qed

lemma history_apply_event:
  assumes "history_ok sh ow w" and "sh (event_device ev) = Some s" and "s \<in> ow" and "tq_insert q \<noteq> Failed True"
  shows "history_ok sh ow (fst (apply_event line s ev q w))"
proof (cases ev)
  case (TripOpen o1)
  then show ?thesis using assms history_apply_open by (simp add: apply_event_def event_device_def)
next
  case (TripClose c)
  then show ?thesis using assms history_apply_close by (simp add: apply_event_def)
qed

lemma history_close_orphan:
  assumes "history_ok sh ow w"
  shows "history_ok sh ow (fst (close_orphan line ps later c row w))"
proof (cases later)
  case (Inl u)
  then show ?thesis using assms by (simp add: close_orphan_def)
next
  case later: (Inr qs)
  obtain db res where i: "issue c (closeTrip (tr_id row) (orphan_close line ps qs row)) (ts_db w) = (db, res)" by fastforce
  show ?thesis
  proof (cases "\<exists>x. res = Inr x \<and> map_option oi_id (ts_openIds w (tr_device row)) = Some (tr_id row)")
    case False
    then have "ts_db (fst (close_orphan line ps later c row w)) = db"
      and "fst (close_orphan line ps later c row w) = w\<lparr>ts_db := db\<rparr>"
      using i later by (auto simp: close_orphan_def split: sum.splits)
    then show ?thesis using history_issue_close [OF assms i] by simp
  next
    case True
    then obtain x oi where x: "res = Inr x" and oi: "ts_openIds w (tr_device row) = Some oi" "oi_id oi = tr_id row"
      by auto
    then show ?thesis
      using i later history_issue_forget [OF assms oi(1), of c "orphan_close line ps qs row" db x] by (simp add: close_orphan_def)
  qed
qed

lemma history_forgetShard:
  assumes h: "history_ok sh ow w"
  shows "history_ok sh (ow - {s}) (forgetShard s w)"
proof -
  have m: "ts_openIds w d \<noteq> None \<Longrightarrow> owned_device sh ow d \<and> ts_shardOf w d = sh d" for d
    using history_okD(4) [OF h] by (simp add: memory_ok_def)
  have "store_ok (forgetShard s w)"
    using history_okD(1) [OF h] by (auto simp: store_ok_def forgetShard_def)
  moreover have "covered sh (ow - {s}) (forgetShard s w)"
  proof (rule coveredI)
    fix r assume r: "r \<in> set (td_rows (ts_db (forgetShard s w)))" "tr_open r" and o: "owned_device sh (ow - {s}) (tr_device r)"
    then have ow: "owned_device sh ow (tr_device r)" "sh (tr_device r) \<noteq> Some s"
      by (auto simp: owned_device_def split: option.splits)
    from r have "r \<in> set (td_rows (ts_db w))" by (simp add: forgetShard_def)
    from coveredD [OF history_okD(3) [OF h] this r(2) ow(1)] obtain oi
      where oi: "ts_openIds w (tr_device r) = Some oi" "oi_id oi = tr_id r" by blast
    with m [of "tr_device r"] ow(2) show "known (forgetShard s w) r" by (simp add: known_def forgetShard_def)
  qed
  moreover have "memory_ok sh (ow - {s}) (forgetShard s w)"
    unfolding memory_ok_def
  proof (intro allI impI)
    fix d assume "ts_openIds (forgetShard s w) d \<noteq> None"
    then have "ts_shardOf w d \<noteq> Some s" and "ts_openIds w d \<noteq> None" by (auto simp: forgetShard_def split: if_splits)
    with m [of d] show "owned_device sh (ow - {s}) d \<and> ts_shardOf (forgetShard s w) d = sh d"
      by (auto simp: owned_device_def forgetShard_def split: option.splits)
  qed
  ultimately show ?thesis using h by (simp add: history_ok_def forgetShard_def)
qed

definition memory_of :: "trip_row \<Rightarrow> open_id" where
  "memory_of r = \<lparr>oi_id = tr_id r, oi_tenant = tr_tenant r, oi_account = tr_account r, oi_start = tr_start r\<rparr>"

lemma remember_fields [simp]:
  "ts_db (remember sh r w) = ts_db w"
  "ts_openIds (remember sh r w) = (ts_openIds w)(tr_device r \<mapsto> memory_of r)"
  "ts_shardOf (remember sh r w) = (ts_shardOf w)(tr_device r := sh (tr_device r))"
  by (simp_all add: remember_def memory_of_def)

lemma fold_remember_db [simp]: "ts_db (fold (remember sh) rs w) = ts_db w"
  by (induction rs arbitrary: w) simp_all

lemma fold_remember_at:
  "(if \<exists>r \<in> set rs. tr_device r = d
    then (\<exists>r \<in> set rs. tr_device r = d \<and> ts_openIds (fold (remember sh) rs w) d = Some (memory_of r)) \<and>
         ts_shardOf (fold (remember sh) rs w) d = sh d
    else ts_openIds (fold (remember sh) rs w) d = ts_openIds w d \<and> ts_shardOf (fold (remember sh) rs w) d = ts_shardOf w d)"
proof (induction rs arbitrary: w)
  case (Cons r rs)
  show ?case
    using Cons.IH [of "remember sh r w"] by (cases "\<exists>r \<in> set rs. tr_device r = d") auto
qed simp

lemma history_warmStart:
  assumes h: "history_ok sh ow w"
  shows "history_ok sh (ow \<union> S) (fst (warmStart sh S w))"
proof -
  let ?rs = "warm_rows sh S (ts_db w)"
  let ?v = "fold (remember sh) ?rs w"
  have v: "fst (warmStart sh S w) = ?v" by (simp add: warmStart_def Let_def)
  have rs: "r \<in> set ?rs \<longleftrightarrow> r \<in> set (td_rows (ts_db w)) \<and> tr_open r \<and> owned_device sh S (tr_device r)" for r
    by (auto simp: warm_rows_def owned_device_def)
  have more: "owned_device sh (ow \<union> S) d \<longleftrightarrow> owned_device sh ow d \<or> owned_device sh S d" for d
    by (simp add: owned_device_def split: option.splits)
  have new: "\<exists>r. r \<in> set ?rs \<and> tr_device r = d \<and> ts_openIds ?v d = Some (memory_of r) \<and> ts_shardOf ?v d = sh d"
    if "q \<in> set ?rs" "tr_device q = d" for q d
    using fold_remember_at [of ?rs d sh w] that by (auto split: if_splits)
  have old: "ts_openIds ?v d = ts_openIds w d \<and> ts_shardOf ?v d = ts_shardOf w d"
    if "\<And>q. q \<in> set ?rs \<Longrightarrow> tr_device q \<noteq> d" for d
    using fold_remember_at [of ?rs d sh w] that by (auto split: if_splits)
  have entry: "(\<exists>r. r \<in> set ?rs \<and> tr_device r = d \<and> oi = memory_of r \<and> ts_shardOf ?v d = sh d) \<or>
      ts_openIds w d = Some oi \<and> ts_shardOf ?v d = ts_shardOf w d" if "ts_openIds ?v d = Some oi" for d oi
    using new [of _ d] old [of d] that by (metis option.inject)
  have "store_ok ?v"
    unfolding store_ok_def
  proof (intro conjI allI impI)
    fix d oi assume "ts_openIds ?v d = Some oi"
    from entry [OF this] show "\<exists>r \<in> set (td_rows (ts_db ?v)). tr_id r = oi_id oi \<and> tr_device r = d"
      using history_okD(1) [OF h] by (auto simp: rs memory_of_def store_ok_def)
  qed (use history_okD(1) [OF h] in \<open>simp_all add: store_ok_def\<close>)
  moreover have "covered sh (ow \<union> S) ?v"
  proof (rule coveredI)
    fix r assume r: "r \<in> set (td_rows (ts_db ?v))" "tr_open r" and o: "owned_device sh (ow \<union> S) (tr_device r)"
    from r(1) have mem: "r \<in> set (td_rows (ts_db w))" by simp
    show "known ?v r"
    proof (cases "owned_device sh S (tr_device r)")
      case True
      then have "r \<in> set ?rs" using mem r(2) rs by simp
      from new [OF this refl] obtain q where q: "q \<in> set ?rs" "tr_device q = tr_device r"
        "ts_openIds ?v (tr_device r) = Some (memory_of q)" by blast
      have "tr_id q = tr_id r" using one_openD [OF history_okD(2) [OF h]] q(1,2) mem r(2) rs by blast
      then show ?thesis using q(3) by (simp add: known_def memory_of_def)
    next
      case False
      then have "owned_device sh ow (tr_device r)" using o more by simp
      moreover have "ts_openIds ?v (tr_device r) = ts_openIds w (tr_device r)"
        using old [of "tr_device r"] False rs by fastforce
      ultimately show ?thesis using coveredD [OF history_okD(3) [OF h] mem r(2)] by (simp add: known_def)
    qed
  qed
  moreover have "memory_ok sh (ow \<union> S) ?v"
    unfolding memory_ok_def
  proof (intro allI impI)
    fix d assume "ts_openIds ?v d \<noteq> None"
    then obtain oi where "ts_openIds ?v d = Some oi" by blast
    from entry [OF this] show "owned_device sh (ow \<union> S) d \<and> ts_shardOf ?v d = sh d"
      using history_okD(4) [OF h] more [of d] by (auto simp: rs memory_ok_def)
  qed
  ultimately show ?thesis using history_okD(2) [OF h] by (simp add: history_ok_def v)
qed

lemma history_restart:
  assumes "history_ok sh ow w"
  shows "history_ok sh {} (w\<lparr>ts_openIds := (\<lambda>d. None), ts_shardOf := (\<lambda>d. None)\<rparr>)"
  using assms by (simp add: history_ok_def store_ok_def covered_def memory_ok_def owned_device_def split: option.splits)

lemma history_peer:
  assumes h: "history_ok sh ow w" and p: "peer_step sh ow (ts_db w) db'"
  shows "history_ok sh ow (w\<lparr>ts_db := db'\<rparr>)"
proof -
  have f: "set (filter (\<lambda>r. owned_device sh ow (tr_device r)) (td_rows db')) =
      set (filter (\<lambda>r. owned_device sh ow (tr_device r)) (td_rows (ts_db w)))"
    using p by (simp add: peer_step_def)
  have mine: "r \<in> set (td_rows db') \<longleftrightarrow> r \<in> set (td_rows (ts_db w))" if "owned_device sh ow (tr_device r)" for r
    using f that by auto
  have owned: "owned_device sh ow d" if "ts_openIds w d = Some oi" for d oi
    using history_okD(4) [OF h] that by (simp add: memory_ok_def)
  have "store_ok (w\<lparr>ts_db := db'\<rparr>)"
    using p history_okD(1) [OF h] mine owned by (simp add: store_ok_def peer_step_def) (metis)
  moreover have "covered sh ow (w\<lparr>ts_db := db'\<rparr>)"
  proof (rule coveredI)
    fix r assume "r \<in> set (td_rows (ts_db (w\<lparr>ts_db := db'\<rparr>)))" and r: "tr_open r" "owned_device sh ow (tr_device r)"
    then have "r \<in> set (td_rows (ts_db w))" using mine by simp
    from coveredD [OF history_okD(3) [OF h] this r] show "known (w\<lparr>ts_db := db'\<rparr>) r" by (simp add: known_def)
  qed
  ultimately show ?thesis using p h by (simp add: history_ok_def peer_step_def memory_ok_def)
qed

lemma history_reach: "trip_reach line sh ow w \<Longrightarrow> history_ok sh ow w"
proof (induction rule: trip_reach.induct)
  case Fresh
  then show ?case by (simp add: history_ok_def store_ok_def one_open_def covered_def memory_ok_def)
next
  case (Event owned w s ev q)
  then show ?case by (simp add: history_apply_event)
next
  case (Orphan owned w ps later c row)
  then show ?case by (simp add: history_close_orphan)
next
  case (Lose owned w s)
  then show ?case by (simp add: history_forgetShard)
next
  case (Gain owned w S)
  then show ?case by (simp add: history_warmStart)
next
  case (Restart owned w)
  from history_restart [OF Restart(2)] show ?case .
next
  case (Peer owned w db')
  then show ?case by (simp add: history_peer)
qed


text \<open>Shard 3 is gained, a trip is opened, the worker restarts and gains the shard again, and the next journey
  starts while the row of the first is still open.\<close>

definition sample_calls :: trip_calls where
  "sample_calls = \<lparr>tq_tenant = Inr (Some ''t''), tq_account = Inr (Some ''a''), tq_positions = Inr [],
     tq_driver = (\<lambda>t a k. Inr None), tq_stale = Answered, tq_insert = Answered, tq_update = Answered\<rparr>"

definition sample_opening :: "int \<Rightarrow> trip_event" where
  "sample_opening t = TripOpen \<lparr>oe_deviceId = 7, oe_startTime = t, oe_startLat = 1, oe_startLon = 2\<rparr>"

definition sample_open :: "int \<Rightarrow> trip_store \<Rightarrow> trip_store" where
  "sample_open t w = fst (apply_event (\<lambda>ps. None) 3 (sample_opening t) sample_calls w)"

definition sample_gain :: "trip_store \<Rightarrow> trip_store" where
  "sample_gain w = fst (warmStart (\<lambda>d. Some 3) {3} w)"

definition sample_fresh :: trip_store where
  "sample_fresh = \<lparr>ts_openIds = (\<lambda>d. None), ts_shardOf = (\<lambda>d. None), ts_db = \<lparr>td_rows = [], td_next = 0\<rparr>\<rparr>"

definition sample_store :: trip_store where
  "sample_store = sample_open 50 (sample_gain ((sample_open 10 (sample_gain sample_fresh))\<lparr>ts_openIds := (\<lambda>d. None),
     ts_shardOf := (\<lambda>d. None)\<rparr>))"

lemma sample_store_reach: "trip_reach (\<lambda>ps. None) (\<lambda>d. Some 3) {3} sample_store"
proof -
  let ?R = "trip_reach (\<lambda>ps. None) (\<lambda>d. Some 3)"
  have gain: "?R ({} \<union> {3}) (sample_gain w)" if "?R {} w" for w
    using trip_reach.Gain [OF that, of "{3}"] by (simp add: sample_gain_def)
  have op: "?R {3} (sample_open t w)" if "?R {3} w" for t w
    using trip_reach.Event [OF that, where s = 3 and ev = "sample_opening t" and q = sample_calls]
    by (simp add: sample_open_def sample_opening_def sample_calls_def event_device_def)
  have "?R {3} (sample_open 10 (sample_gain sample_fresh))"
    by (rule op) (use gain [OF trip_reach.Fresh] in \<open>simp add: sample_fresh_def\<close>)
  from trip_reach.Restart [OF this] show ?thesis
    unfolding sample_store_def by (intro op) (use gain in simp)
qed

lemma sample_store_rows: "map (\<lambda>r. (tr_id r, tr_open r)) (device_rows 7 sample_store) = [(0, False), (1, True)]"
proof -
  let ?r = "opened_row 0 (trip_open_of ''t'' ''a'' \<lparr>oe_deviceId = 7, oe_startTime = 10, oe_startLat = 1, oe_startLon = 2\<rparr>)"
  have one: "sample_gain sample_fresh = sample_fresh"
    by (simp add: sample_gain_def sample_fresh_def warmStart_def warm_rows_def)
  have two: "ts_db (sample_open 10 sample_fresh) = \<lparr>td_rows = [?r], td_next = 1\<rparr>"
    by (simp add: sample_open_def sample_opening_def sample_calls_def sample_fresh_def apply_event_def apply_open_def
        resolveScope_def close_stale_def insert_open_def issue_def openTrip_def opened_row_def trip_open_of_def)
  let ?v = "sample_gain ((sample_open 10 sample_fresh)\<lparr>ts_openIds := (\<lambda>d. None), ts_shardOf := (\<lambda>d. None)\<rparr>)"
  have three: "ts_db ?v = \<lparr>td_rows = [?r], td_next = 1\<rparr>" "ts_openIds ?v 7 = Some (memory_of ?r)"
    by (simp_all add: sample_gain_def warmStart_def warm_rows_def two trip_open_of_def)
  have "ts_db (sample_open 50 ?v) = \<lparr>td_rows = [closed_row (forced_close None \<lparr>oe_deviceId = 7, oe_startTime = 50, oe_startLat = 1, oe_startLon = 2\<rparr>) ?r,
      opened_row 1 (trip_open_of ''t'' ''a'' \<lparr>oe_deviceId = 7, oe_startTime = 50, oe_startLat = 1, oe_startLon = 2\<rparr>)], td_next = 2\<rparr>"
    unfolding sample_open_def [of 50] sample_opening_def apply_event_def trip_event.case apply_open_def
    by (simp add: sample_calls_def resolveScope_def close_stale_def insert_open_def issue_def openTrip_def three
        reconstruct_def track_def closeTrip_def is_open_row_def memory_of_def)
  then show ?thesis
    by (simp add: sample_store_def one device_rows_def trip_open_of_def)
qed


end
