(* ===== verification/TripStorage.thy ===== *)
theory TripStorage
  imports TripHistory
begin

text \<open>
  The trip engine and the persister together: while every call is answered, the rows of a device are the
  journeys the engine reported, in order. The specification is the journal of a device, a list to which an
  open appends and of which a close completes the last; \<open>journey\<close> forgets the id and the driver of a row.
\<close>

definition journey :: "trip_row \<Rightarrow> trip_row" where
  "journey r = r\<lparr>tr_id := 0, tr_driver := None\<rparr>"

definition journal_step :: "(int \<Rightarrow> string \<times> string) \<Rightarrow> trip_event \<Rightarrow> trip_row list \<Rightarrow> trip_row list" where
  "journal_step scope ev js =
     (case ev of
        TripOpen o1 \<Rightarrow> js @ [opened_row 0 (trip_open_of (fst (scope (oe_deviceId o1))) (snd (scope (oe_deviceId o1))) o1)]
      | TripClose c \<Rightarrow> butlast js @ [closed_row (trip_close_of None c) (last js)])"

definition opens_trip :: "trip_event \<Rightarrow> bool" where
  "opens_trip ev = (case ev of TripOpen o1 \<Rightarrow> True | TripClose c \<Rightarrow> False)"

definition answered :: "(int \<Rightarrow> string \<times> string) \<Rightarrow> trip_event \<times> trip_calls \<Rightarrow> bool" where
  "answered scope x \<longleftrightarrow>
     tq_tenant (snd x) = Inr (Some (fst (scope (event_device (fst x))))) \<and>
     tq_account (snd x) = Inr (Some (snd (scope (event_device (fst x))))) \<and>
     tq_insert (snd x) = Answered \<and> tq_update (snd x) = Answered"

text \<open>The persister and the table agree with the open trip \<open>cur\<close> of a device.\<close>

definition in_step :: "int \<Rightarrow> int option \<Rightarrow> trip_store \<Rightarrow> bool" where
  "in_step dev cur w \<longleftrightarrow>
     (case cur of
        None \<Rightarrow> ts_openIds w dev = None
      | Some s \<Rightarrow> \<exists>cs r oi. device_rows dev w = cs @ [r] \<and> (\<forall>c \<in> set cs. \<not> is_open_row (tr_id r) c) \<and> tr_open r \<and>
          tr_start r = s \<and> ts_openIds w dev = Some oi \<and> oi_id oi = tr_id r \<and> oi_start oi = s)"

section \<open>Events of other devices\<close>

lemma close_other:
  assumes "store_ok w" and "ts_openIds w d = Some oi" and "d \<noteq> dev" and "issue c (closeTrip (oi_id oi) t) (ts_db w) = (db, r)"
  shows "device_rows dev (w\<lparr>ts_db := db\<rparr>) = device_rows dev w"
  using assms(4)
proof (cases rule: issue_cases)
  case (answered x)
  then show ?thesis using device_rows_closes_other [OF assms(1-3), of t] by (simp add: closes_def)
next
  case lost
  then show ?thesis using device_rows_closes_other [OF assms(1-3), of t] by (simp add: closes_def)
qed simp

lemma device_rows_memory [simp]:
  "device_rows dev (w\<lparr>ts_openIds := m\<rparr>) = device_rows dev w" "device_rows dev (w\<lparr>ts_shardOf := k\<rparr>) = device_rows dev w"
  by (simp_all add: device_rows_def)

lemma close_stale_other:
  assumes "store_ok w" and "oe_deviceId ev \<noteq> dev" and "close_stale line q ev w = (w', r)"
  shows "device_rows dev w' = device_rows dev w \<and> ts_openIds w' dev = ts_openIds w dev"
proof (cases "ts_openIds w (oe_deviceId ev)")
  case None
  then show ?thesis using assms by (simp add: close_stale_def)
next
  case (Some oi)
  show ?thesis
  proof (cases "tq_positions q")
    case (Inl u)
    then show ?thesis using assms Some by (auto simp: close_stale_def)
  next
    case (Inr ps)
    obtain db res where i: "issue (tq_stale q) (closeTrip (oi_id oi)
        (forced_close (reconstruct line ps (oe_deviceId ev) (oi_start oi) (oe_startTime ev)) ev)) (ts_db w) = (db, res)"
      by fastforce
    have d: "device_rows dev (w\<lparr>ts_db := db\<rparr>) = device_rows dev w" by (rule close_other [OF assms(1) Some assms(2) i])
    then show ?thesis using assms Some Inr i by (cases res) (auto simp: close_stale_def device_rows_def)
  qed
qed

lemma apply_event_other:
  assumes ok: "store_ok w" and d: "event_device ev \<noteq> dev"
  shows "device_rows dev (fst (apply_event line s ev q w)) = device_rows dev w \<and>
    ts_openIds (fst (apply_event line s ev q w)) dev = ts_openIds w dev"
proof (cases ev)
  case (TripOpen o1)
  with d have o1: "oe_deviceId o1 \<noteq> dev" by (simp add: event_device_def)
  obtain w1 r1 where c: "close_stale line q o1 w = (w1, r1)" by fastforce
  note w1 = close_stale_other [OF ok o1 c]
  have ins: "device_rows dev (fst (insert_open q s t a o1 w1)) = device_rows dev w1 \<and>
      ts_openIds (fst (insert_open q s t a o1 w1)) dev = ts_openIds w1 dev" for t a
    using o1 by (auto simp: insert_open_def issue_def openTrip_def device_rows_def trip_open_of_def
        split: call.splits sum.splits prod.splits if_splits)
  show ?thesis
    using TripOpen w1 ins c by (auto simp: apply_event_def apply_open_def split: sum.splits option.splits)
next
  case (TripClose c)
  with d have c: "ce_deviceId c \<noteq> dev" by (simp add: event_device_def)
  show ?thesis
  proof (cases "ts_openIds w (ce_deviceId c)")
    case None
    then show ?thesis using TripClose by (simp add: apply_event_def apply_close_def)
  next
    case (Some oi)
    obtain db res where i: "issue (tq_update q) (closeTrip (oi_id oi) (trip_close_of
        (case ce_ibutton c of None \<Rightarrow> None | Some k \<Rightarrow> resolveDriver q (oi_tenant oi) (oi_account oi) k) c)) (ts_db w) = (db, res)"
      by fastforce
    have "device_rows dev (w\<lparr>ts_db := db\<rparr>) = device_rows dev w" by (rule close_other [OF ok Some c i])
    then show ?thesis
      using TripClose Some i c by (cases res) (auto simp: apply_event_def apply_close_def device_rows_def)
  qed
qed

section \<open>An event of the device\<close>

lemma journey_fields [simp]: "journey (opened_row i t) = opened_row 0 t"
  "journey (closed_row (trip_close_of drv c) r) = closed_row (trip_close_of None c) (journey r)"
  by (simp_all add: journey_def opened_row_def closed_row_def trip_close_of_def)

lemma apply_open_own:
  assumes "in_step dev None w" and "oe_deviceId o1 = dev" and "answered scope (TripOpen o1, q)" and ok: "store_ok w"
    and w': "apply_event line s (TripOpen o1) q w = (w', r)"
  shows "in_step dev (Some (oe_startTime o1)) w' \<and> r = Inr Opened \<and>
    map journey (device_rows dev w') = journal_step scope (TripOpen o1) (map journey (device_rows dev w))"
proof -
  let ?t = "trip_open_of (fst (scope dev)) (snd (scope dev)) o1"
  let ?r = "opened_row (td_next (ts_db w)) ?t"
  let ?oi = "\<lparr>oi_id = td_next (ts_db w), oi_tenant = fst (scope dev), oi_account = snd (scope dev), oi_start = oe_startTime o1\<rparr>"
  have none: "ts_openIds w dev = None" using assms(1) by (simp add: in_step_def)
  have ww: "w' = (opens ?t w)\<lparr>ts_openIds := (ts_openIds w)(dev \<mapsto> ?oi), ts_shardOf := (ts_shardOf w)(dev \<mapsto> s)\<rparr>" and r: "r = Inr Opened"
    using w' none assms(2,3) by (auto simp: apply_event_def apply_open_def resolveScope_def answered_def event_device_def
        close_stale_def insert_open_def issue_def openTrip_def opens_def case_prod_beta)
  have rows: "device_rows dev w' = device_rows dev w @ [?r]"
    unfolding ww using assms(2) by (simp add: device_rows_opens trip_open_of_def)
  have "\<not> is_open_row (tr_id ?r) c" if "c \<in> set (device_rows dev w)" for c
    using ok that by (auto simp: store_ok_def device_rows_def is_open_row_def)
  then have "in_step dev (Some (oe_startTime o1)) w'"
    unfolding in_step_def option.case
    by (intro exI [of _ "device_rows dev w"] exI [of _ ?r] exI [of _ ?oi]) (simp add: rows, simp add: ww trip_open_of_def)
  then show ?thesis using r assms(2) by (simp add: rows journal_step_def)
qed

lemma apply_close_own:
  assumes "in_step dev (Some st) w" and "ce_deviceId c = dev" and "answered scope (TripClose c, q)"
    and w': "apply_event line s (TripClose c) q w = (w', r)"
  shows "in_step dev None w' \<and> r = Inr Closed \<and>
    map journey (device_rows dev w') = journal_step scope (TripClose c) (map journey (device_rows dev w))"
proof -
  obtain cs x oi where rows: "device_rows dev w = cs @ [x]" and cs: "\<forall>c \<in> set cs. \<not> is_open_row (tr_id x) c"
    and x: "tr_open x" and oi: "ts_openIds w dev = Some oi" "oi_id oi = tr_id x"
    using assms(1) by (auto simp: in_step_def)
  let ?t = "trip_close_of (case ce_ibutton c of None \<Rightarrow> None | Some k \<Rightarrow> resolveDriver q (oi_tenant oi) (oi_account oi) k) c"
  have "x \<in> set (td_rows (ts_db w))"
    using arg_cong [OF rows, of set] by (auto simp: device_rows_def)
  then have there: "list_ex (is_open_row (oi_id oi)) (td_rows (ts_db w))"
    using x oi(2) by (auto simp: list_ex_iff is_open_row_def)
  have ww: "w' = (closes (oi_id oi) ?t w)\<lparr>ts_openIds := (ts_openIds w)(dev := None), ts_shardOf := (ts_shardOf w)(dev := None)\<rparr>"
    and r: "r = Inr Closed"
    using w' assms(2,3) oi(1) there
    by (auto simp: apply_event_def apply_close_def answered_def issue_def closes_def closeTrip_def Let_def)
  have "device_rows dev w' = map (finish (tr_id x) ?t) (cs @ [x])"
    unfolding ww by (simp add: device_rows_closes rows oi(2))
  also have "\<dots> = cs @ [closed_row ?t x]"
    using finish_other [of cs "tr_id x" ?t] cs x by (simp add: finish_def is_open_row_def)
  finally show ?thesis
    using r by (simp add: ww in_step_def rows journal_step_def)
qed

lemma apply_own:
  assumes "history_ok sh ow w" and "in_step dev cur w" and "event_device ev = dev" and "answered scope (ev, q)"
    and "replay cur [ev] = Some cur'" and "apply_event line s ev q w = (w', r)"
  shows "in_step dev cur' w' \<and> r = Inr (if opens_trip ev then Opened else Closed) \<and>
    map journey (device_rows dev w') = journal_step scope ev (map journey (device_rows dev w))"
proof (cases ev)
  case (TripOpen o1)
  moreover from this assms(5) have "cur = None" "cur' = Some (oe_startTime o1)" by (cases cur; simp)+
  ultimately show ?thesis
    using apply_open_own [of dev w o1 scope q] assms history_okD(1) [OF assms(1)] by (simp add: event_device_def opens_trip_def)
next
  case (TripClose c)
  with assms(5) obtain st where "cur = Some st" "cur' = None" by (cases cur) (auto split: if_splits)
  then show ?thesis
    using TripClose apply_close_own [of dev st w c scope q] assms by (simp add: event_device_def opens_trip_def)
qed

section \<open>A list of events\<close>

lemma apply_event_history:
  assumes "history_ok (\<lambda>d. Some s) {s} w" and "answered scope (ev, q)"
  shows "history_ok (\<lambda>d. Some s) {s} (fst (apply_event line s ev q w))"
  by (rule history_apply_event [OF assms(1)]) (use assms(2) in \<open>simp_all add: answered_def\<close>)

definition agrees :: "(int \<Rightarrow> string \<times> string) \<Rightarrow> int \<Rightarrow> trip_row list \<Rightarrow> int option \<Rightarrow> trip_store \<Rightarrow> bool" where
  "agrees scope dev js cur w \<longleftrightarrow> in_step dev cur w \<and> map journey (device_rows dev w) = js"

lemma agrees_step:
  assumes h: "history_ok (\<lambda>d. Some s) {s} w" and a: "answered scope (ev, q)"
    and i: "agrees scope dev js cur w"
    and r: "replay cur (filter (\<lambda>x. event_device x = dev) [ev]) = Some cur'"
  shows "agrees scope dev (if event_device ev = dev then journal_step scope ev js else js) cur'
    (fst (apply_event line s ev q w))"
proof (cases "event_device ev = dev")
  case True
  obtain w' r where w': "apply_event line s ev q w = (w', r)" by fastforce
  from apply_own [OF h _ True a _ w', of cur cur'] show ?thesis using i r True w' by (simp add: agrees_def)
next
  case False
  with r have "cur' = cur" by simp
  then show ?thesis
    using apply_event_other [OF history_okD(1) [OF h] False, of line s q] i False by (simp add: agrees_def in_step_def split: option.splits)
qed

lemma replay_Cons_Some: "replay cur (x # xs) = Some c \<Longrightarrow> \<exists>m. replay cur [x] = Some m \<and> replay m xs = Some c"
  using replay_append [of cur "[x]" xs] by (auto split: option.splits)

definition mine :: "int \<Rightarrow> trip_event list \<Rightarrow> trip_event list" where
  "mine dev evs = filter (\<lambda>x. event_device x = dev) evs"

lemma mine_Cons: "mine dev (e # es) = mine dev [e] @ mine dev es"
  by (simp add: mine_def)

lemma event_outcome:
  assumes "history_ok (\<lambda>d. Some s) {s} w" and "answered scope (ev, q)" and "in_step (event_device ev) cur w"
    and "replay cur [ev] = Some cur'"
  obtains w1 where "apply_event line s ev q w = (w1, Inr (if opens_trip ev then Opened else Closed))"
  using apply_own [OF assms(1,3) refl assms(2,4), of line s] by (metis surj_pair)

lemma apply_trips_agrees:
  assumes "history_ok (\<lambda>d. Some s) {s} w" and "list_all (answered scope) xs"
    and "\<And>dev. agrees scope dev (js dev) (cur dev) w"
    and "\<And>dev. replay (cur dev) (mine dev (map fst xs)) = Some (cur' dev)"
  shows "\<exists>w'. apply_trips line s xs n w =
      (w', Inr (n\<lparr>tn_opened := tn_opened n + length (filter opens_trip (map fst xs)),
                  tn_closed := tn_closed n + length (filter (\<lambda>e. \<not> opens_trip e) (map fst xs))\<rparr>)) \<and>
    (\<forall>dev. agrees scope dev (fold (journal_step scope) (mine dev (map fst xs)) (js dev)) (cur' dev) w')"
  using assms
proof (induction xs arbitrary: n w js cur)
  case Nil
  then show ?case by (simp add: mine_def)
next
  case (Cons x xs)
  obtain ev q where x: "x = (ev, q)" by fastforce
  let ?d = "event_device ev"
  have a: "answered scope (ev, q)" using Cons.prems(2) x by simp
  have "\<exists>m. replay (cur dev) (mine dev [ev]) = Some m \<and> replay m (mine dev (map fst xs)) = Some (cur' dev)" for dev
    using Cons.prems(4) [of dev] x replay_Cons_Some by (cases "?d = dev") (auto simp: mine_def)
  then obtain m where m: "\<And>dev. replay (cur dev) (mine dev [ev]) = Some (m dev)"
    "\<And>dev. replay (m dev) (mine dev (map fst xs)) = Some (cur' dev)" by metis
  have "in_step ?d (cur ?d) w" using Cons.prems(3) [of ?d] by (simp add: agrees_def)
  moreover have "replay (cur ?d) [ev] = Some (m ?d)" using m(1) [of ?d] by (simp add: mine_def)
  ultimately obtain w1 where w1: "apply_event line s ev q w = (w1, Inr (if opens_trip ev then Opened else Closed))"
    by (rule event_outcome [OF Cons.prems(1) a])
  let ?js = "\<lambda>dev. if ?d = dev then journal_step scope ev (js dev) else js dev"
  have ag: "agrees scope dev (?js dev) (m dev) w1" for dev
    using agrees_step [OF Cons.prems(1) a Cons.prems(3), of dev "m dev" line] m(1) [of dev] w1 by (simp add: mine_def)
  have h1: "history_ok (\<lambda>d. Some s) {s} w1"
    using apply_event_history [OF Cons.prems(1) a, of line] w1 by simp
  let ?n = "count_trip (if opens_trip ev then Opened else Closed) n"
  obtain w' where w': "apply_trips line s xs ?n w1 =
      (w', Inr (?n\<lparr>tn_opened := tn_opened ?n + length (filter opens_trip (map fst xs)),
                  tn_closed := tn_closed ?n + length (filter (\<lambda>e. \<not> opens_trip e) (map fst xs))\<rparr>))"
    and all: "\<forall>dev. agrees scope dev (fold (journal_step scope) (mine dev (map fst xs)) (?js dev)) (cur' dev) w'"
    using Cons.IH [OF h1 _ ag m(2), of ?n] Cons.prems(2) by auto
  have "fold (journal_step scope) (mine dev (map fst (x # xs))) (js dev) =
      fold (journal_step scope) (mine dev (map fst xs)) (?js dev)" for dev
    by (simp add: x mine_def)
  then show ?case using w' w1 all x by (auto simp: count_trip_def)
qed

definition fresh_store :: trip_store where
  "fresh_store = \<lparr>ts_openIds = (\<lambda>d. None), ts_shardOf = (\<lambda>d. None), ts_db = \<lparr>td_rows = [], td_next = 0\<rparr>\<rparr>"

definition no_counts :: trip_counts where
  "no_counts = \<lparr>tn_opened = 0, tn_closed = 0, tn_missed = 0\<rparr>"

lemma fresh_agrees: "agrees scope dev [] None fresh_store"
  by (simp add: agrees_def in_step_def fresh_store_def device_rows_def)

lemma fresh_history: "history_ok sh ow fresh_store"
  by (simp add: history_ok_def store_ok_def one_open_def covered_def memory_ok_def fresh_store_def)

lemma in_step_start: "in_step dev cur w \<Longrightarrow> map_option oi_start (ts_openIds w dev) = cur"
  by (auto simp: in_step_def split: option.splits)


text \<open>The drive of theory TripEngine: two events of device 7, and a table with one closed row.\<close>

definition drive_calls :: "(trip_event \<times> trip_calls) list" where
  "drive_calls = map (\<lambda>ev. (ev, sample_calls)) (snd (trip_feed (\<lambda>_. None) (new_trip_engine DEFAULT_THRESHOLDS) drive))"


section \<open>An open that is skipped\<close>

text \<open>An open for a device the registry does not know for the moment is skipped, but the row left open before a
  restart stays remembered, and the close of the skipped journey is written over it: a row that starts with
  the old journey and ends with the figures of the new one, counted as a success.\<close>

definition unregistered :: trip_calls where
  "unregistered = sample_calls\<lparr>tq_tenant := Inr None\<rparr>"

definition later_close :: close_event where
  "later_close = \<lparr>ce_deviceId = 7, ce_startTime = 900, ce_endTime = 1000, ce_startLat = 0, ce_startLon = 0, ce_endLat = 0,
     ce_endLon = 0, ce_distanceM = 77, ce_distanceSource = SrcGps, ce_maxSpeed = 9, ce_idleS = 0, ce_ibutton = None\<rparr>"

lemma skipped_open_misattributes_close:
  "let (w, r) = apply_trips (\<lambda>ps. None) 3 [(sample_opening 10, sample_calls), (sample_opening 900, unregistered), (TripClose later_close, sample_calls)]
                  no_counts fresh_store in
   map (\<lambda>x. (tr_start x, map_option fst (tr_end x), tr_distanceM x)) (td_rows (ts_db w)) = [(10, Some 1000, 77)] \<and>
   r = Inr \<lparr>tn_opened = 1, tn_closed = 1, tn_missed = 0\<rparr>"
  by (simp add: sample_opening_def sample_calls_def unregistered_def later_close_def fresh_store_def no_counts_def apply_event_def
      apply_open_def apply_close_def resolveScope_def close_stale_def insert_open_def issue_def openTrip_def opened_row_def
      trip_open_of_def trip_close_of_def closeTrip_def is_open_row_def closed_row_def clampInt4_def INT4_MAX_def count_trip_def)

end
