(* ===== verification/Claims.thy ===== *)
theory Claims
  imports Calls
begin

text \<open>
  Claims with a time to live (\<open>SET key value EX ttl NX\<close>), sent as one pipeline for a list of items: the contract
  the persisters of rule events and of geofence crossings rely on to write nothing twice.
\<close>

text \<open>An error reply to a claim lets the item through and claims nothing; only \<open>nil\<close> stops it.\<close>

definition passes :: "bool option \<Rightarrow> bool" where
  "passes a \<longleftrightarrow> a \<noteq> Some False"

fun pick :: "(bool option \<Rightarrow> bool) \<Rightarrow> 'k list \<Rightarrow> bool option list \<Rightarrow> 'k list" where
  "pick P (k # ks) (a # as) = (if P a then k # pick P ks as else pick P ks as)"
| "pick P ks as = []"

definition live_key :: "int \<Rightarrow> int option \<Rightarrow> bool" where
  "live_key now e \<longleftrightarrow> (case e of None \<Rightarrow> False | Some t \<Rightarrow> now < t)"

lemma passes_simps [simp]: "passes None" "passes (Some True)" "\<not> passes (Some False)"
  by (simp_all add: passes_def)

lemma set_pick: "set (pick P ks as) \<subseteq> set ks"
  by (induction P ks as rule: pick.induct) auto

lemma pick_map: "pick P (map f ks) as = map f (pick P ks as)"
  by (induction P ks as rule: pick.induct) auto

locale claims =
  fixes claim :: "int \<Rightarrow> 'k \<Rightarrow> 's \<Rightarrow> 's \<times> bool" and expiry :: "'s \<Rightarrow> 'k \<Rightarrow> int option" and ttl :: int
  assumes ttl_pos: "0 < ttl"
    and claim_live: "live_key now (expiry s k) \<Longrightarrow> claim now k s = (s, False)"
    and claim_dead: "\<not> live_key now (expiry s k) \<Longrightarrow>
      snd (claim now k s) \<and> expiry (fst (claim now k s)) = (expiry s)(k \<mapsto> now + ttl)"
begin

lemma claim_keeps: "live_key now (expiry s k) \<Longrightarrow> expiry (fst (claim now a s)) k = expiry s k"
  by (cases "live_key now (expiry s a)") (auto simp: claim_live claim_dead)

lemma cmds_live:
  "live_key now (expiry s k) \<Longrightarrow> expiry (fst (run_cmds err i (claim now) ks s)) k = expiry s k"
proof (induction ks arbitrary: i s)
  case (Cons a ks)
  let ?s = "if err i then s else fst (claim now a s)"
  have "expiry ?s k = expiry s k" using claim_keeps [OF Cons.prems] by simp
  then show ?case using Cons.IH [of ?s "Suc i"] Cons.prems by (cases "err i") (simp_all add: case_prod_beta Let_def)
qed simp

lemma claimed_dead:
  "live_key now (expiry s k) \<Longrightarrow> k \<notin> set (pick (\<lambda>a. a = Some True) ks (snd (run_cmds err i (claim now) ks s)))"
proof (induction ks arbitrary: i s)
  case (Cons a ks)
  let ?s = "if err i then s else fst (claim now a s)"
  have l: "live_key now (expiry ?s k)" using claim_keeps [OF Cons.prems, of a] Cons.prems by simp
  have "k \<noteq> a" if "snd (claim now a s)" using that Cons.prems claim_live by fastforce
  then show ?case using Cons.IH [OF l, of "Suc i"] by (cases "err i") (auto simp: case_prod_beta Let_def)
qed simp

lemma cmds_unclaimed:
  "k \<notin> set (pick (\<lambda>a. a = Some True) ks (snd (run_cmds err i (claim now) ks s))) \<Longrightarrow>
   expiry (fst (run_cmds err i (claim now) ks s)) k = expiry s k"
proof (induction ks arbitrary: i s)
  case (Cons a ks)
  show ?case
  proof (cases "err i")
    case True
    then show ?thesis using Cons.IH [of "Suc i" s] Cons.prems by (simp add: case_prod_beta Let_def)
  next
    case False
    obtain s1 b where b: "claim now a s = (s1, b)" by fastforce
    have "expiry (fst (run_cmds err (Suc i) (claim now) ks s1)) k = expiry s1 k" and ne: "b \<longrightarrow> k \<noteq> a"
      using Cons.IH [of "Suc i" s1] Cons.prems False b by (auto simp: case_prod_beta Let_def split: if_splits)
    moreover have "expiry s1 k = expiry s k"
      using b ne claim_live [of now s a] claim_dead [of now s a] by (cases "live_key now (expiry s a)") auto
    ultimately show ?thesis using False b by (simp add: case_prod_beta Let_def)
  qed
qed simp

text \<open>The items let through when every command is answered: no two with the same key, none whose key was live,
  and each with a claim of its own.\<close>

lemma fresh_items:
  assumes "run_cmds (\<lambda>i. False) i (claim now) (map kf es) s = (s', as)"
  shows "distinct (map kf (pick passes es as)) \<and>
    (\<forall>e \<in> set (pick passes es as). \<not> live_key now (expiry s (kf e)) \<and> expiry s' (kf e) = Some (now + ttl))"
  using assms
proof (induction es arbitrary: i s s' as)
  case (Cons e es)
  obtain s1 b where b: "claim now (kf e) s = (s1, b)" by fastforce
  obtain s2 bs where bs: "run_cmds (\<lambda>i. False) (Suc i) (claim now) (map kf es) s1 = (s2, bs)" by fastforce
  have eqs: "s' = s2" "as = Some b # bs" using Cons.prems b bs by (auto simp: Let_def)
  note ih = Cons.IH [OF bs]
  show ?case
  proof (cases "live_key now (expiry s (kf e))")
    case True
    then have "s1 = s" "\<not> b" using b by (simp_all add: claim_live)
    then show ?thesis using ih by (simp add: eqs)
  next
    case False
    then have b1: b and s1: "expiry s1 = (expiry s)(kf e \<mapsto> now + ttl)" using b claim_dead [of now s "kf e"] by simp_all
    then have l1: "live_key now (expiry s1 (kf e))" using ttl_pos by (simp add: live_key_def)
    from cmds_live [OF this, of "\<lambda>i. False" "Suc i" "map kf es"] have own: "expiry s2 (kf e) = Some (now + ttl)"
      using bs s1 by simp
    have rest: "kf x \<noteq> kf e \<and> \<not> live_key now (expiry s (kf x))" if "x \<in> set (pick passes es bs)" for x
    proof -
      have d: "\<not> live_key now (expiry s1 (kf x))" using ih that by blast
      then have "kf x \<noteq> kf e" using l1 by metis
      with d show ?thesis by (simp add: s1)
    qed
    then have "kf e \<notin> kf ` set (pick passes es bs)" by fastforce
    then show ?thesis using ih False own rest by (simp add: eqs b1)
  qed
qed simp

lemma first_delivery:
  assumes "run_cmds (\<lambda>i. False) i (claim now) (map kf es) s = (s', as)" and "distinct (map kf es)"
    and "\<forall>e \<in> set es. \<not> live_key now (expiry s (kf e))"
  shows "pick passes es as = es"
  using assms
proof (induction es arbitrary: i s as)
  case (Cons e es)
  obtain s1 b where b: "claim now (kf e) s = (s1, b)" by fastforce
  have b1: b and s1: "expiry s1 = (expiry s)(kf e \<mapsto> now + ttl)"
    using Cons.prems(3) b claim_dead [of now s "kf e"] by simp_all
  obtain bs where bs: "run_cmds (\<lambda>i. False) (Suc i) (claim now) (map kf es) s1 = (s', bs)" and as: "as = Some True # bs"
    using Cons.prems(1) b b1 by (auto simp: Let_def split: prod.splits)
  have "\<forall>x \<in> set es. \<not> live_key now (expiry s1 (kf x))"
  proof
    fix x assume x: "x \<in> set es"
    then have "kf x \<noteq> kf e" using Cons.prems(2) by (metis distinct.simps(2) image_eqI list.set_map list.simps(9))
    then show "\<not> live_key now (expiry s1 (kf x))" using Cons.prems(3) x by (simp add: s1)
  qed
  from Cons.IH [OF bs _ this] Cons.prems(2) show ?case by (simp add: as)
qed simp

text \<open>The items of interest (\<open>P\<close>), with keys of their own that are free, all pass, whatever happens to the others.\<close>

lemma fresh_pass:
  assumes "run_cmds err i (claim now) (map kf es) s = (s', as)" and "distinct (map kf (filter P es))"
    and "\<forall>e \<in> set es. P e \<longrightarrow> \<not> live_key now (expiry s (kf e))"
    and "\<forall>e \<in> set es. \<forall>x \<in> set es. P e \<and> \<not> P x \<longrightarrow> kf e \<noteq> kf x"
  shows "filter P (pick passes es as) = filter P es"
  using assms
proof (induction es arbitrary: i s as)
  case (Cons e es)
  let ?s = "if err i then s else fst (claim now (kf e) s)"
  obtain t bs where t: "run_cmds err (Suc i) (claim now) (map kf es) ?s = (t, bs)" by fastforce
  have bs: "run_cmds err (Suc i) (claim now) (map kf es) ?s = (s', bs)"
    and as: "as = (if err i then None else Some (snd (claim now (kf e) s))) # bs"
    using Cons.prems(1) t by (cases "err i"; simp add: Let_def case_prod_beta)+
  have "\<not> live_key now (expiry ?s (kf x))" if x: "x \<in> set es" "P x" for x
  proof -
    have d: "\<not> live_key now (expiry s (kf x))" using Cons.prems(3) x by simp
    have "kf e \<noteq> kf x"
    proof (cases "P e")
      case True
      then show ?thesis using Cons.prems(2) x by force
    next
      case False
      then show ?thesis using Cons.prems(4) x by fastforce
    qed
    then show ?thesis
      using d claim_live [of now s "kf e"] claim_dead [of now s "kf e"] by (cases "live_key now (expiry s (kf e))") auto
  qed
  then have f: "\<forall>x \<in> set es. P x \<longrightarrow> \<not> live_key now (expiry ?s (kf x))" by blast
  have d: "distinct (map kf (filter P es))" using Cons.prems(2) by (simp split: if_splits)
  have o: "\<forall>a \<in> set es. \<forall>x \<in> set es. P a \<and> \<not> P x \<longrightarrow> kf a \<noteq> kf x" using Cons.prems(4) by simp
  have "passes (hd as)" if "P e" using that Cons.prems(3) claim_dead [of now s "kf e"] by (simp add: as)
  then show ?case using Cons.IH [OF bs d f o] by (auto simp: as)
qed simp

lemma new_claims:
  "expiry (fst (run_cmds err i (claim now) ks s)) k \<noteq> expiry s k \<Longrightarrow> k \<in> set ks"
proof (induction ks arbitrary: i s)
  case (Cons a ks)
  let ?s = "if err i then s else fst (claim now a s)"
  have "expiry ?s k = expiry s k \<or> k = a"
    using claim_live [of now s a] claim_dead [of now s a] by (cases "live_key now (expiry s a)") auto
  then show ?case using Cons.IH [of "Suc i" ?s] Cons.prems by (auto simp: case_prod_beta Let_def split: if_splits)
qed simp

end

end
