(* ===== verification/Events.thy ===== *)
theory Events
  imports RuleEngine GeofenceEngine Claims
begin

text \<open>
  The table \<open>events\<close> of the worker and its writers: rules/writer.ts and geofence/writer.ts. A statement changes
  the table at once. Where SQL leaves the choice between equally new rows open, the model takes the first.
\<close>

datatype event_kind = KRule rule_kind | KGeofence

datatype event_payload = PRule payload | PFence string string crossing

record event_row =
  er_id :: nat
  er_tenant :: string
  er_account :: string
  er_device :: int
  er_rule :: "string option"
  er_kind :: event_kind
  er_at :: int
  er_lat :: real
  er_lon :: real
  er_payload :: event_payload
  er_maxSpeed :: "rat option"
  er_endedAt :: "int option"

record event_table =
  et_rows :: "event_row list"
  et_next :: nat

definition add_events :: "(nat \<Rightarrow> event_row) list \<Rightarrow> event_table \<Rightarrow> event_table \<times> nat" where
  "add_events rows t =
     (t\<lparr>et_rows := et_rows t @ map (\<lambda>(i, r). r i) (zip [et_next t..<et_next t + length rows] rows),
        et_next := et_next t + length rows\<rparr>, length rows)"

fun newest_row :: "event_row list \<Rightarrow> event_row option" where
  "newest_row [] = None"
| "newest_row (r # rs) = (case newest_row rs of None \<Rightarrow> Some r | Some q \<Rightarrow> if er_at r < er_at q then Some q else Some r)"

text \<open>\<open>UPDATE events SET ... WHERE id = (SELECT id ... ORDER BY at DESC LIMIT 1)\<close>.\<close>

definition update_newest :: "(event_row \<Rightarrow> bool) \<Rightarrow> (event_row \<Rightarrow> event_row) \<Rightarrow> event_table \<Rightarrow> event_table \<times> nat" where
  "update_newest P f t =
     (case newest_row (filter P (et_rows t)) of
        None \<Rightarrow> (t, 0)
      | Some q \<Rightarrow> (t\<lparr>et_rows := map (\<lambda>r. if er_id r = er_id q then f r else r) (et_rows t)\<rparr>, 1))"

section \<open>Rule events\<close>

definition rule_row :: "string \<times> string \<Rightarrow> rule_event \<Rightarrow> nat \<Rightarrow> event_row" where
  "rule_row scope e i =
     \<lparr>er_id = i, er_tenant = fst scope, er_account = snd scope, er_device = re_deviceId e, er_rule = Some (re_ruleId e),
      er_kind = KRule (re_kind e), er_at = re_at e, er_lat = re_lat e, er_lon = re_lon e, er_payload = PRule (re_payload e),
      er_maxSpeed = None, er_endedAt = None\<rparr>"

definition writeRuleEvents :: "(nat \<Rightarrow> event_row) list \<Rightarrow> event_table \<Rightarrow> event_table \<times> nat" where
  "writeRuleEvents rows t = (if rows = [] then (t, 0) else add_events rows t)"

definition EXTEND_WINDOW_S :: int where
  "EXTEND_WINDOW_S = 30 * 60"

definition peak_of :: "rule_event \<Rightarrow> rat option" where
  "peak_of e = (case (re_kind e, re_payload e) of (Overspeed, POverspeed v l) \<Rightarrow> Some (of_int v) | _ \<Rightarrow> None)"

definition stored_peak :: "event_row \<Rightarrow> rat" where
  "stored_peak r =
     (case er_maxSpeed r of Some v \<Rightarrow> v
      | None \<Rightarrow> (case er_payload r of PRule (POverspeed v l) \<Rightarrow> of_int v | _ \<Rightarrow> 0))"

definition extended :: "rule_event \<Rightarrow> event_row \<Rightarrow> event_row" where
  "extended e r =
     r\<lparr>er_endedAt := Some (max (case er_endedAt r of None \<Rightarrow> er_at r | Some t \<Rightarrow> t) (re_at e)),
       er_maxSpeed := (case peak_of e of None \<Rightarrow> er_maxSpeed r | Some p \<Rightarrow> Some (max (stored_peak r) p))\<rparr>"

definition extends_row :: "rule_event \<Rightarrow> event_row \<Rightarrow> bool" where
  "extends_row e r \<longleftrightarrow>
     er_device r = re_deviceId e \<and> er_kind r = KRule (re_kind e) \<and> er_rule r = Some (re_ruleId e) \<and>
     er_at r \<le> re_at e \<and> re_at e - EXTEND_WINDOW_S * 1000 \<le> er_at r"

fun extendRuleEvents :: "(rule_event \<times> call) list \<Rightarrow> event_table \<Rightarrow> event_table \<times> nat reply" where
  "extendRuleEvents [] t = (t, Inr 0)"
| "extendRuleEvents ((e, c) # es) t =
     (case issue c (update_newest (extends_row e) (extended e)) t of
        (t1, Inl u) \<Rightarrow> (t1, Inl u)
      | (t1, Inr n) \<Rightarrow> (let (t2, r) = extendRuleEvents es t1 in (t2, bindE r (\<lambda>m. Inr (n + m)))))"

section \<open>Geofence events\<close>

definition fence_row :: "string \<times> string \<Rightarrow> transition \<Rightarrow> nat \<Rightarrow> event_row" where
  "fence_row scope tr i =
     \<lparr>er_id = i, er_tenant = fst scope, er_account = snd scope, er_device = tr_deviceId tr, er_rule = None,
      er_kind = KGeofence, er_at = tr_at tr, er_lat = tr_lat tr, er_lon = tr_lon tr,
      er_payload = PFence (tr_geofenceId tr) (tr_geofenceName tr) (tr_type tr), er_maxSpeed = None, er_endedAt = None\<rparr>"

definition writeGeofenceEvents :: "(nat \<Rightarrow> event_row) list \<Rightarrow> event_table \<Rightarrow> event_table \<times> nat" where
  "writeGeofenceEvents rows t = (if rows = [] then (t, 0) else add_events rows t)"

definition PAIR_WINDOW_S :: int where
  "PAIR_WINDOW_S = 14 * 24 * 3600"

definition other_crossing :: "crossing \<Rightarrow> crossing" where
  "other_crossing c = (case c of Enter \<Rightarrow> Exit | Exit \<Rightarrow> Enter)"

definition ends_state :: "transition \<Rightarrow> event_row \<Rightarrow> bool" where
  "ends_state tr r \<longleftrightarrow>
     er_device r = tr_deviceId tr \<and> er_kind r = KGeofence \<and>
     (case er_payload r of PFence g n c \<Rightarrow> g = tr_geofenceId tr \<and> c = other_crossing (tr_type tr) | PRule p \<Rightarrow> False) \<and>
     er_endedAt r = None \<and> er_at r < tr_at tr \<and> tr_at tr - PAIR_WINDOW_S * 1000 \<le> er_at r"

fun closeGeofenceStates :: "(transition \<times> call) list \<Rightarrow> event_table \<Rightarrow> event_table \<times> nat reply" where
  "closeGeofenceStates [] t = (t, Inr 0)"
| "closeGeofenceStates ((tr, c) # trs) t =
     (case issue c (update_newest (ends_state tr) (\<lambda>r. r\<lparr>er_endedAt := Some (tr_at tr)\<rparr>)) t of
        (t1, Inl u) \<Rightarrow> (t1, Inl u)
      | (t1, Inr n) \<Rightarrow> (let (t2, r) = closeGeofenceStates trs t1 in (t2, bindE r (\<lambda>m. Inr (n + m)))))"

end
