(* ===== verification/RuleStore.thy ===== *)
theory RuleStore
  imports Events
begin

text \<open>
  apps/worker/src/rules/persister.ts: what becomes of the events of the rule engine. An event is first claimed
  by its identity, so that a redelivered batch writes nothing twice, and then passes the cooldown of its rule,
  measured in the events' own clock; the survivors are inserted, the others extend the row they continue.
  \<open>JSON.stringify\<close> of a payload is a parameter. A Redis key is the tuple of its parts.
\<close>

section \<open>Keys\<close>

definition REPLAY_TTL_S :: int where
  "REPLAY_TTL_S = 3600"

definition LATE_FLUSH_S :: int where
  "LATE_FLUSH_S = 48 * 3600"

text \<open>The tag of a payload from the UTF-16 codes of its JSON text: FNV-1a on 32 bits.\<close>

definition payloadTag :: "nat list \<Rightarrow> 32 word" where
  "payloadTag json = foldl (\<lambda>h c. xor h (of_nat c) * 0x01000193) 0x811c9dc5 json"

type_synonym seen_key = "string \<times> int \<times> rule_kind \<times> int \<times> 32 word"

type_synonym cd_key = "string \<times> int"

record rule_redis =
  rk_seen :: "seen_key \<Rightarrow> int option"
  rk_cd :: "cd_key \<Rightarrow> (int \<times> int) option"

text \<open>\<open>SET key 1 EX ttl NX\<close> at time \<open>now\<close>; a key holds until its expiry.\<close>

definition seen_nx :: "int \<Rightarrow> seen_key \<Rightarrow> rule_redis \<Rightarrow> rule_redis \<times> bool" where
  "seen_nx now k s =
     (case rk_seen s k of
        Some t \<Rightarrow> if now < t then (s, False) else (s\<lparr>rk_seen := (rk_seen s)(k \<mapsto> now + REPLAY_TTL_S * 1000)\<rparr>, True)
      | None \<Rightarrow> (s\<lparr>rk_seen := (rk_seen s)(k \<mapsto> now + REPLAY_TTL_S * 1000)\<rparr>, True))"

definition cd_get :: "int \<Rightarrow> cd_key \<Rightarrow> rule_redis \<Rightarrow> int option" where
  "cd_get now k s = (case rk_cd s k of None \<Rightarrow> None | Some (tm, t) \<Rightarrow> if now < t then Some tm else None)"

definition COOLDOWN_SCRIPT :: "int \<Rightarrow> cd_key \<times> int \<times> int \<times> int \<Rightarrow> rule_redis \<Rightarrow> rule_redis \<times> bool" where
  "COOLDOWN_SCRIPT now c s =
     (case c of (k, tm, cooldownMs, ttlS) \<Rightarrow>
        if (case cd_get now k s of None \<Rightarrow> False | Some prev \<Rightarrow> \<bar>tm - prev\<bar> < cooldownMs) then (s, False)
        else (s\<lparr>rk_cd := (rk_cd s)(k \<mapsto> (tm, now + ttlS * 1000))\<rparr>, True))"

interpretation seen: claims seen_nx rk_seen "REPLAY_TTL_S * 1000"
  by unfold_locales (auto simp: seen_nx_def live_key_def REPLAY_TTL_S_def split: option.splits if_splits)

section \<open>The gate\<close>

record gate_env =
  ge_now :: int
  ge_json :: "payload \<Rightarrow> nat list"
  ge_seen :: pipe_run
  ge_cd :: pipe_run

record gated =
  ga_survivors :: "rule_event list"
  ga_continuations :: "rule_event list"
  ga_seen :: "seen_key list"
  ga_cd :: "cd_key list"

definition seen_key :: "(payload \<Rightarrow> nat list) \<Rightarrow> rule_event \<Rightarrow> seen_key" where
  "seen_key json e = (re_ruleId e, re_deviceId e, re_kind e, re_at e, payloadTag (json (re_payload e)))"

definition cd_key :: "rule_event \<Rightarrow> cd_key" where
  "cd_key e = (re_ruleId e, re_deviceId e)"

definition needs_cooldown :: "rule_event \<Rightarrow> bool" where
  "needs_cooldown e \<longleftrightarrow> \<not> re_bypassCooldown e \<and> 0 < re_cooldownS e"

definition cd_cmd :: "rule_event \<Rightarrow> cd_key \<times> int \<times> int \<times> int" where
  "cd_cmd e = (cd_key e, re_at e, re_cooldownS e * 1000, re_cooldownS e + LATE_FLUSH_S)"

text \<open>The survivors and the continuations of the fresh events; the answers are those of the events that need
  a cooldown, in order.\<close>

fun settle :: "rule_event list \<Rightarrow> bool option list \<Rightarrow> rule_event list \<times> rule_event list" where
  "settle [] as = ([], [])"
| "settle (e # es) as =
     (if \<not> needs_cooldown e then (let (s, c) = settle es as in (e # s, c))
      else case as of
        [] \<Rightarrow> (let (s, c) = settle es [] in (s, e # c))
      | a # as' \<Rightarrow> (let (s, c) = settle es as' in if passes a then (e # s, c) else (s, e # c)))"

definition gate :: "gate_env \<Rightarrow> rule_event list \<Rightarrow> rule_redis \<Rightarrow> rule_redis \<times> gated reply" where
  "gate env events s =
     (if events = [] then (s, Inr \<lparr>ga_survivors = [], ga_continuations = [], ga_seen = [], ga_cd = []\<rparr>)
      else case run_pipe (ge_seen env) (seen_nx (ge_now env)) (map (seen_key (ge_json env)) events) s of
        (s1, Inl u) \<Rightarrow> (s1, Inl u)
      | (s1, Inr as) \<Rightarrow>
          (let fresh = pick passes events as;
               claimed = pick (\<lambda>a. a = Some True) (map (seen_key (ge_json env)) events) as;
               needs = filter needs_cooldown fresh in
           if needs = [] then (s1, Inr \<lparr>ga_survivors = fresh, ga_continuations = [], ga_seen = claimed, ga_cd = []\<rparr>)
           else case run_pipe (ge_cd env) (COOLDOWN_SCRIPT (ge_now env)) (map cd_cmd needs) s1 of
             (s2, Inl u) \<Rightarrow> (s2, Inl u)
           | (s2, Inr bs) \<Rightarrow>
               (let (surv, cont) = settle fresh bs in
                (s2, Inr \<lparr>ga_survivors = surv, ga_continuations = cont, ga_seen = claimed,
                          ga_cd = pick (\<lambda>a. a = Some True) (map cd_key needs) bs\<rparr>))))"

section \<open>Persisting a batch of events\<close>

text \<open>The answers: the tenants and accounts of the devices, the two pipelines, the INSERT, the DEL after a
  failed INSERT, the UPDATEs.\<close>

record rule_calls =
  rq_tenants :: "(int \<Rightarrow> string option) reply"
  rq_accounts :: "(int \<Rightarrow> string option) reply"
  rq_gate :: gate_env
  rq_insert :: call
  rq_release :: call
  rq_extend :: "nat \<Rightarrow> call"

record rule_store =
  rs_redis :: rule_redis
  rs_events :: event_table

text \<open>\<open>if (t && a)\<close>: an empty string is no tenant.\<close>

definition scope_of :: "(int \<Rightarrow> string option) \<Rightarrow> (int \<Rightarrow> string option) \<Rightarrow> int \<Rightarrow> (string \<times> string) option" where
  "scope_of tenants accounts d =
     (case (tenants d, accounts d) of
        (Some t, Some a) \<Rightarrow> if t \<noteq> [] \<and> a \<noteq> [] then Some (t, a) else None
      | _ \<Rightarrow> None)"

definition release :: "gated \<Rightarrow> rule_redis \<Rightarrow> rule_redis \<times> unit" where
  "release g s =
     (s\<lparr>rk_seen := (\<lambda>k. if k \<in> set (ga_seen g) then None else rk_seen s k),
        rk_cd := (\<lambda>k. if k \<in> set (ga_cd g) then None else rk_cd s k)\<rparr>, ())"

definition number :: "(nat \<Rightarrow> call) \<Rightarrow> 'a list \<Rightarrow> ('a \<times> call) list" where
  "number f xs = zip xs (map f [0..<length xs])"

definition persist_rules :: "rule_calls \<Rightarrow> rule_event list \<Rightarrow> rule_store \<Rightarrow> rule_store \<times> rule_event list reply" where
  "persist_rules q events w =
     (if events = [] then (w, Inr [])
      else case bindE (rq_tenants q) (\<lambda>t. bindE (rq_accounts q) (\<lambda>a. Inr (t, a))) of
        Inl u \<Rightarrow> (w, Inl u)
      | Inr (t, a) \<Rightarrow>
          (let scope = scope_of t a; scoped = filter (\<lambda>e. scope (re_deviceId e) \<noteq> None) events;
               (r1, g) = gate (rq_gate q) scoped (rs_redis w); w1 = w\<lparr>rs_redis := r1\<rparr> in
           case g of
             Inl u \<Rightarrow> (w1, Inl u)
           | Inr ga \<Rightarrow>
               (let rows = map (\<lambda>e. rule_row (the (scope (re_deviceId e))) e) (ga_survivors ga);
                    (ev, n) = (if rows = [] then (rs_events w1, Inr 0) else issue (rq_insert q) (writeRuleEvents rows) (rs_events w1));
                    w2 = w1\<lparr>rs_events := ev\<rparr> in
                case n of
                  Inl u \<Rightarrow>
                    (w2\<lparr>rs_redis := (if ga_seen ga = [] \<and> ga_cd ga = [] then r1 else fst (issue (rq_release q) (release ga) r1))\<rparr>, Inl u)
                | Inr m \<Rightarrow>
                    (w2\<lparr>rs_events := fst (extendRuleEvents (number (rq_extend q) (ga_continuations ga)) ev)\<rparr>,
                     Inr (ga_survivors ga)))))"

section \<open>The IO state\<close>

text \<open>The hash \<open>rule:iostate:{device}\<close> of a device, field by field; \<open>String(n)\<close> of a number is a parameter.\<close>

type_synonym io_hash = "string \<Rightarrow> string option"

definition bit_field :: "string option \<Rightarrow> bool option" where
  "bit_field v = (if v = Some ''1'' then Some True else if v = Some ''0'' then Some False else None)"

definition numOrNull :: "string option \<Rightarrow> rat option" where
  "numOrNull v = (case v of None \<Rightarrow> None | Some t \<Rightarrow> (case js_Number_str t of JNum q \<Rightarrow> Some q | _ \<Rightarrow> None))"

definition IO_FIELDS :: "string list" where
  "IO_FIELDS = [''ignition'', ''din1'', ''unplug'', ''alarm'', ''fuelPct'', ''fuelL'', ''fuelBasePct'', ''fuelBaseL'']"

definition load_io :: "io_hash \<Rightarrow> device_io option" where
  "load_io h =
     (if list_all (\<lambda>f. h f = None) IO_FIELDS then None
      else Some \<lparr>io_ignition = bit_field (h ''ignition''), io_din1 = bit_field (h ''din1''), io_unplug = bit_field (h ''unplug''),
                 io_alarm = bit_field (h ''alarm''), io_fuelPct = numOrNull (h ''fuelPct''), io_fuelL = numOrNull (h ''fuelL''),
                 io_fuelBasePct = numOrNull (h ''fuelBasePct''), io_fuelBaseL = numOrNull (h ''fuelBaseL'')\<rparr>)"

definition bit_text :: "bool \<Rightarrow> string" where
  "bit_text b = (if b then ''1'' else ''0'')"

definition io_texts :: "(rat \<Rightarrow> string) \<Rightarrow> device_io \<Rightarrow> (string \<times> string option) list" where
  "io_texts text io =
     [(''ignition'', map_option bit_text (io_ignition io)), (''din1'', map_option bit_text (io_din1 io)),
      (''unplug'', map_option bit_text (io_unplug io)), (''alarm'', map_option bit_text (io_alarm io)),
      (''fuelPct'', map_option text (io_fuelPct io)), (''fuelL'', map_option text (io_fuelL io)),
      (''fuelBasePct'', map_option text (io_fuelBasePct io)), (''fuelBaseL'', map_option text (io_fuelBaseL io))]"

datatype hash_cmd = Hset int "(string \<times> string) list" | Hdel int "string list"

definition save_cmds :: "(rat \<Rightarrow> string) \<Rightarrow> int \<times> device_io \<Rightarrow> hash_cmd list" where
  "save_cmds text x =
     (let (d, io) = x;
          fields = List.map_filter (\<lambda>(f, v). map_option (Pair f) v) (io_texts text io);
          del = map fst (filter (\<lambda>(f, v). v = None) (io_texts text io)) in
      (if fields = [] then [] else [Hset d fields]) @ (if del = [] then [] else [Hdel d del]))"

definition exec_hash :: "hash_cmd \<Rightarrow> (int \<Rightarrow> io_hash) \<Rightarrow> (int \<Rightarrow> io_hash) \<times> unit" where
  "exec_hash c s =
     (case c of
        Hset d fs \<Rightarrow> (s(d := fold (\<lambda>(f, v) h. h(f \<mapsto> v)) fs (s d)), ())
      | Hdel d fs \<Rightarrow> (s(d := fold (\<lambda>f h. h(f := None)) fs (s d)), ()))"

definition saveIoState ::
  "(rat \<Rightarrow> string) \<Rightarrow> pipe_run \<Rightarrow> (int \<times> device_io) list \<Rightarrow> (int \<Rightarrow> io_hash) \<Rightarrow> (int \<Rightarrow> io_hash) \<times> unit reply" where
  "saveIoState text p snapshots s =
     (if snapshots = [] then (s, Inr ())
      else let (s', r) = run_pipe p exec_hash (concat (map (save_cmds text) snapshots)) s in (s', bindE r (\<lambda>as. Inr ())))"

definition loadIoState :: "(int \<Rightarrow> io_hash) reply \<Rightarrow> int list \<Rightarrow> (int \<Rightarrow> device_io option) reply" where
  "loadIoState r devices =
     (if devices = [] then Inr (\<lambda>d. None)
      else bindE r (\<lambda>s. Inr (\<lambda>d. if d \<in> set devices then load_io (s d) else None)))"

end
