(* ===== verification/RuleGate.thy ===== *)
theory RuleGate
  imports RuleStore
begin

text \<open>
  What the gate of rules/persister.ts guarantees: an alert is written once however often its batch is delivered,
  the alerts of a rule keep the distance its cooldown asks for, a failed INSERT leaves nothing claimed, and the
  saved IO state is read back.
\<close>

section \<open>Claims\<close>

abbreviation live :: "int \<Rightarrow> rule_redis \<Rightarrow> seen_key \<Rightarrow> bool" where
  "live now s k \<equiv> live_key now (rk_seen s k)"

lemma seen_nx_eq:
  "seen_nx now k s =
     (if live now s k then (s, False) else (s\<lparr>rk_seen := (rk_seen s)(k \<mapsto> now + REPLAY_TTL_S * 1000)\<rparr>, True))"
  by (simp add: seen_nx_def live_key_def split: option.splits)

lemma seen_cmds_cd: "rk_cd (fst (run_cmds err i (seen_nx now) ks s)) = rk_cd s"
proof (induction ks arbitrary: i s)
  case (Cons a ks)
  have "rk_cd (fst (seen_nx now a s)) = rk_cd s" by (simp add: seen_nx_eq)
  then show ?case using Cons.IH by (cases "err i") (simp_all add: case_prod_beta Let_def)
qed simp

lemma cd_cmds_seen: "rk_seen (fst (run_cmds err i (COOLDOWN_SCRIPT now) cs s)) = rk_seen s"
proof (induction cs arbitrary: i s)
  case (Cons c cs)
  have "rk_seen (fst (COOLDOWN_SCRIPT now c s)) = rk_seen s" by (simp add: COOLDOWN_SCRIPT_def split: prod.splits)
  then show ?case using Cons.IH by (cases "err i") (simp_all add: case_prod_beta Let_def)
qed simp

section \<open>The gate and the claims\<close>

text \<open>A call leaves every live claim alone, and releases only claims of its own.\<close>

lemma gate_live:
  assumes "gate env es s = (s', r)" and "live (ge_now env) s k"
  shows "rk_seen s' k = rk_seen s k \<and> (\<forall>g. r = Inr g \<longrightarrow> k \<notin> set (ga_seen g))"
proof (cases "es = []")
  case True
  then show ?thesis using assms(1) by (auto simp: gate_def)
next
  case False
  let ?ks = "map (seen_key (ge_json env)) es"
  obtain s1 r1 where p: "run_pipe (ge_seen env) (seen_nx (ge_now env)) ?ks s = (s1, r1)" by fastforce
  from p show ?thesis
  proof (cases rule: run_pipe_cases)
    case (runs err as)
    have s1: "rk_seen s1 k = rk_seen s k" using seen.cmds_live [OF assms(2), of err 0 ?ks] runs(2) by simp
    have k: "k \<notin> set (pick (\<lambda>a. a = Some True) ?ks as)" using seen.claimed_dead [OF assms(2), of ?ks err 0] runs(2) by simp
    let ?needs = "filter needs_cooldown (pick passes es as)"
    obtain s2 r2 where c: "run_pipe (ge_cd env) (COOLDOWN_SCRIPT (ge_now env)) (map cd_cmd ?needs) s1 = (s2, r2)" by fastforce
    then have s2: "rk_seen s2 = rk_seen s1"
      by (cases rule: run_pipe_cases) (metis cd_cmds_seen fst_conv)+
    show ?thesis
      using assms(1) False p runs(3) c s1 s2 k
      by (auto simp: gate_def Let_def split: if_splits sum.splits prod.splits)
  next
    case (rejects n)
    then show ?thesis
      using assms False p seen.cmds_live [OF assms(2)] by (auto simp: gate_def)
  qed
qed

lemma persist_live:
  assumes "persist_rules q es w = (w', r)" and "live (ge_now (rq_gate q)) (rs_redis w) k"
  shows "rk_seen (rs_redis w') k = rk_seen (rs_redis w) k"
proof -
  have gates: "rk_seen (fst (gate (rq_gate q) xs (rs_redis w))) k = rk_seen (rs_redis w) k \<and>
      (\<forall>g. snd (gate (rq_gate q) xs (rs_redis w)) = Inr g \<longrightarrow> k \<notin> set (ga_seen g))" for xs
    using gate_live [OF prod.collapse [symmetric] assms(2)] by blast
  have rel: "rk_seen (fst (issue c (release g) x)) k = rk_seen x k" if "k \<notin> set (ga_seen g)" for c g x
    using that by (simp add: issue_def release_def split: call.splits)
  show ?thesis
    using assms(1) gates rel
    by (auto simp: persist_rules_def Let_def case_prod_beta split: if_splits sum.splits)
qed

section \<open>Written once\<close>

lemma sub_grow:
  assumes "set s0 \<subseteq> set es \<and> (distinct (map f es) \<longrightarrow> distinct (map f s0))" and "s = e # s0 \<or> s = s0"
  shows "set s \<subseteq> set (e # es) \<and> (distinct (map f (e # es)) \<longrightarrow> distinct (map f s))"
proof -
  have "f ` set s0 \<subseteq> f ` set es" using assms(1) by (simp add: image_mono)
  then show ?thesis using assms by auto
qed

lemma settle_sub:
  "settle es as = (s, c) \<Longrightarrow> set s \<subseteq> set es \<and> (distinct (map f es) \<longrightarrow> distinct (map f s))"
proof (induction es as arbitrary: s c rule: settle.induct)
  case (2 e es as)
  obtain s0 c0 where a: "settle es as = (s0, c0)" by fastforce
  obtain s1 c1 where b: "settle es (tl as) = (s1, c1)" by fastforce
  have one: "set s0 \<subseteq> set es \<and> (distinct (map f es) \<longrightarrow> distinct (map f s0))" if "\<not> needs_cooldown e \<or> as = []"
    using "2.IH"(1) [OF _ a] "2.IH"(2) [of s0 c0] a that by (cases as) auto
  have two: "set s1 \<subseteq> set es \<and> (distinct (map f es) \<longrightarrow> distinct (map f s1))" if "needs_cooldown e" "as \<noteq> []"
    using "2.IH"(3) [of "hd as" "tl as" s1 c1] b that by (cases as) auto
  have "s = e # s0 \<or> s = s0" if "\<not> needs_cooldown e \<or> as = []"
    using "2.prems" a that by (cases as) (auto split: if_splits)
  moreover have "s = e # s1 \<or> s = s1" if "needs_cooldown e" "as \<noteq> []"
    using "2.prems" b that by (cases as) (auto split: if_splits)
  ultimately show ?case using sub_grow [OF one] sub_grow [OF two] by (cases "\<not> needs_cooldown e \<or> as = []") blast+
qed simp

lemma gate_survivors:
  assumes "gate env es s = (s', Inr g)" and "ge_seen env = PipeRuns (\<lambda>i. False)"
  shows "distinct (map (seen_key (ge_json env)) (ga_survivors g)) \<and>
    (\<forall>e \<in> set (ga_survivors g). \<not> live (ge_now env) s (seen_key (ge_json env) e) \<and>
       rk_seen s' (seen_key (ge_json env) e) = Some (ge_now env + REPLAY_TTL_S * 1000))"
proof (cases "es = []")
  case True
  then show ?thesis using assms(1) by (auto simp: gate_def)
next
  case False
  let ?kf = "seen_key (ge_json env)"
  obtain s1 as where p: "run_cmds (\<lambda>i. False) 0 (seen_nx (ge_now env)) (map ?kf es) s = (s1, as)" by fastforce
  let ?fresh = "pick passes es as" let ?needs = "filter needs_cooldown ?fresh"
  note fresh = seen.fresh_items [OF p]
  obtain s2 r2 where c: "run_pipe (ge_cd env) (COOLDOWN_SCRIPT (ge_now env)) (map cd_cmd ?needs) s1 = (s2, r2)" by fastforce
  then have s2: "rk_seen s2 = rk_seen s1"
    by (cases rule: run_pipe_cases) (metis cd_cmds_seen fst_conv)+
  obtain sv ct where st: "settle ?fresh (case r2 of Inl u \<Rightarrow> [] | Inr bs \<Rightarrow> bs) = (sv, ct)" by fastforce
  have "(ga_survivors g = ?fresh \<or> ga_survivors g = sv) \<and> rk_seen s' = rk_seen s1"
    using assms False p c st s2 by (auto simp: gate_def run_pipe_def Let_def split: if_splits sum.splits)
  then show ?thesis using fresh settle_sub [OF st, of ?kf] by auto
qed

lemma update_newest_length [simp]: "length (et_rows (fst (update_newest P f t))) = length (et_rows t)"
  by (simp add: update_newest_def split: option.splits)

lemma issue_update_length: "length (et_rows (fst (issue c (update_newest P f) t))) = length (et_rows t)"
  by (simp add: issue_def case_prod_beta Let_def split: call.splits)

lemma extend_length: "length (et_rows (fst (extendRuleEvents es t))) = length (et_rows t)"
proof (induction es t rule: extendRuleEvents.induct)
  case (2 e c es t)
  obtain t1 r where i: "issue c (update_newest (extends_row e) (extended e)) t = (t1, r)" by fastforce
  then have t1: "length (et_rows t1) = length (et_rows t)" using issue_update_length by (metis fst_conv)
  show ?case
  proof (cases r)
    case (Inr n)
    then show ?thesis using "2.IH" [OF i [symmetric] Inr] i t1 by (simp add: case_prod_beta)
  qed (use i t1 in simp)
qed simp

lemma persist_Inr:
  assumes "persist_rules q es w = (w', Inr sv)" and "es \<noteq> []"
  obtains scoped g where "gate (rq_gate q) scoped (rs_redis w) = (rs_redis w', Inr g)" and "sv = ga_survivors g"
    and "length (et_rows (rs_events w')) = length (et_rows (rs_events w)) + length sv"
proof -
  from assms obtain t a where ta: "bindE (rq_tenants q) (\<lambda>t. bindE (rq_accounts q) (\<lambda>a. Inr (t, a))) = Inr (t, a)"
    by (auto simp: persist_rules_def Let_def split: sum.splits)
  let ?scoped = "filter (\<lambda>e. scope_of t a (re_deviceId e) \<noteq> None) es"
  obtain r1 g where g: "gate (rq_gate q) ?scoped (rs_redis w) = (r1, g)" by fastforce
  with assms ta obtain ga where ga: "g = Inr ga" by (auto simp: persist_rules_def Let_def split: sum.splits)
  let ?rows = "map (\<lambda>e. rule_row (the (scope_of t a (re_deviceId e))) e) (ga_survivors ga)"
  obtain ev n where i: "(if ?rows = [] then (rs_events w, Inr 0) else issue (rq_insert q) (writeRuleEvents ?rows) (rs_events w)) = (ev, n)"
    by fastforce
  have len: "length (et_rows ev) = length (et_rows (rs_events w)) + length (ga_survivors ga)" if "n = Inr m" for m
    using i that by (auto simp: issue_def writeRuleEvents_def add_events_def split: if_splits call.splits)
  have "rs_redis w' = r1 \<and> sv = ga_survivors ga \<and> (\<exists>m. n = Inr m) \<and>
      rs_events w' = fst (extendRuleEvents (number (rq_extend q) (ga_continuations ga)) ev)"
    using assms ta g ga i by (auto simp: persist_rules_def Let_def split: sum.splits prod.splits if_splits)
  then show thesis using that [of ?scoped ga] g ga len extend_length by auto
qed

definition later_store :: "(rule_calls \<times> rule_event list) list \<Rightarrow> rule_store \<Rightarrow> rule_store" where
  "later_store calls w = fold (\<lambda>(q, es) v. fst (persist_rules q es v)) calls w"

lemma later_live:
  assumes "list_all (\<lambda>(q, es). ge_now (rq_gate q) < t) calls" and "rk_seen (rs_redis w) k = Some t"
  shows "rk_seen (rs_redis (later_store calls w)) k = Some t"
  using assms
proof (induction calls arbitrary: w)
  case (Cons x calls)
  obtain q es where x: "x = (q, es)" by fastforce
  have "live (ge_now (rq_gate q)) (rs_redis w) k" using Cons.prems x by (simp add: live_key_def)
  from persist_live [OF prod.collapse [symmetric] this] have "rk_seen (rs_redis (fst (persist_rules q es w))) k = Some t"
    using Cons.prems(2) by metis
  from Cons.IH [OF _ this] Cons.prems(1) show ?case by (simp add: later_store_def x)
qed (simp add: later_store_def)

text \<open>C26. An alert is written once, however often its batch is delivered. If a call that Redis answered wrote
  the events \<open>written\<close>, it added exactly that many rows, no two with the same identity; and no later call within
  the hour that the claims live writes any of them again, whatever calls came in between, in whatever state
  they failed, and whatever they released.\<close>

theorem written_once:
  assumes first: "persist_rules q es w = (w1, Inr written)" and q: "ge_seen (rq_gate q) = PipeRuns (\<lambda>i. False)"
    and times: "list_all (\<lambda>(q', es'). ge_now (rq_gate q') < ge_now (rq_gate q) + 3600000) (between @ [(q2, es2)])"
    and q2: "ge_seen (rq_gate q2) = PipeRuns (\<lambda>i. False)" "ge_json (rq_gate q2) = ge_json (rq_gate q)"
    and last: "persist_rules q2 es2 (later_store between w1) = (w2, Inr written2)"
  shows "length (et_rows (rs_events w1)) = length (et_rows (rs_events w)) + length written \<and>
    distinct (map (seen_key (ge_json (rq_gate q))) (written)) \<and>
    seen_key (ge_json (rq_gate q)) ` set written \<inter> seen_key (ge_json (rq_gate q)) ` set written2 = {}"
proof (cases "es = []")
  case True
  then show ?thesis using first by (simp add: persist_rules_def)
next
  case False
  let ?kf = "seen_key (ge_json (rq_gate q))"
  from persist_Inr [OF first False] obtain scoped g where
    g: "gate (rq_gate q) scoped (rs_redis w) = (rs_redis w1, Inr g)" "written = ga_survivors g"
    and len: "length (et_rows (rs_events w1)) = length (et_rows (rs_events w)) + length written" .
  note s = gate_survivors [OF g(1) q]
  have "?kf e \<noteq> ?kf x" if e: "e \<in> set written" and x: "x \<in> set written2" for e x
  proof -
    have "es2 \<noteq> []" using last x by (auto simp: persist_rules_def)
    from persist_Inr [OF last this] obtain scoped2 g2 where
      g2: "gate (rq_gate q2) scoped2 (rs_redis (later_store between w1)) = (rs_redis w2, Inr g2)" "written2 = ga_survivors g2" .
    have k: "rk_seen (rs_redis w1) (?kf e) = Some (ge_now (rq_gate q) + 3600000)"
      using s e g(2) by (simp add: REPLAY_TTL_S_def)
    have "rk_seen (rs_redis (later_store between w1)) (?kf e) = Some (ge_now (rq_gate q) + 3600000)"
      by (rule later_live [OF _ k]) (use times in simp)
    moreover have "\<not> live (ge_now (rq_gate q2)) (rs_redis (later_store between w1)) (?kf x)"
      using gate_survivors [OF g2(1) q2(1)] x g2(2) q2(2) by simp
    ultimately show ?thesis using times by (auto simp: live_key_def)
  qed
  then show ?thesis using len s g(2) by blast
qed

definition sample_event :: "int \<Rightarrow> rule_event" where
  "sample_event t = \<lparr>re_deviceId = 7, re_ruleId = ''r'', re_kind = Ignition, re_at = t, re_lat = 0, re_lon = 0,
     re_cooldownS = 300, re_bypassCooldown = False, re_rule = ''engine on'', re_payload = PIgnition True\<rparr>"

definition sample_gate :: "int \<Rightarrow> gate_env" where
  "sample_gate now = \<lparr>ge_now = now, ge_json = (\<lambda>p. [110]), ge_seen = PipeRuns (\<lambda>i. False), ge_cd = PipeRuns (\<lambda>i. False)\<rparr>"

definition sample_rule_calls :: "int \<Rightarrow> rule_calls" where
  "sample_rule_calls now = \<lparr>rq_tenants = Inr (\<lambda>d. Some ''t''), rq_accounts = Inr (\<lambda>d. Some ''a''), rq_gate = sample_gate now,
     rq_insert = Answered, rq_release = Answered, rq_extend = (\<lambda>i. Answered)\<rparr>"

definition no_rules_stored :: rule_store where
  "no_rules_stored = \<lparr>rs_redis = \<lparr>rk_seen = (\<lambda>k. None), rk_cd = (\<lambda>k. None)\<rparr>, rs_events = \<lparr>et_rows = [], et_next = 0\<rparr>\<rparr>"

lemma sample_gate_one:
  "ge_seen (sample_gate n) = PipeRuns (\<lambda>i. False)" "ge_cd (sample_gate n) = PipeRuns (\<lambda>i. False)" "ge_now (sample_gate n) = n"
  "ge_json (sample_gate n) = (\<lambda>p. [110])"
  by (simp_all add: sample_gate_def)

lemma gate_answered: "\<exists>s' g. gate (sample_gate n) es s = (s', Inr g)"
  by (cases "es = []") (simp_all add: gate_def run_pipe_def sample_gate_one case_prod_beta Let_def)

lemma persist_of_gate:
  assumes "es \<noteq> []" and "gate (sample_gate n) es (rs_redis w) = (s', Inr g)"
  shows "\<exists>w'. persist_rules (sample_rule_calls n) es w = (w', Inr (ga_survivors g))"
proof -
  let ?sc = "scope_of (\<lambda>d. Some ''t'') (\<lambda>d. Some ''a'')"
  have q: "rq_tenants (sample_rule_calls n) = Inr (\<lambda>d. Some ''t'')" "rq_accounts (sample_rule_calls n) = Inr (\<lambda>d. Some ''a'')"
    "rq_gate (sample_rule_calls n) = sample_gate n" "rq_insert (sample_rule_calls n) = Answered"
    by (simp_all add: sample_rule_calls_def)
  have xs: "filter (\<lambda>e. ?sc (re_deviceId e) \<noteq> None) es = es" by (simp add: scope_of_def)
  let ?rows = "map (\<lambda>e. rule_row (the (?sc (re_deviceId e))) e) (ga_survivors g)"
  obtain ev m where i: "(if ?rows = [] then (rs_events (w\<lparr>rs_redis := s'\<rparr>), Inr 0)
      else issue Answered (writeRuleEvents ?rows) (rs_events (w\<lparr>rs_redis := s'\<rparr>))) = (ev, Inr m)"
    by (cases "?rows = []") (auto simp: issue_answered)
  show ?thesis
    unfolding persist_rules_def if_not_P [OF assms(1)] q bindE_Inr sum.case prod.case Let_def xs assms(2) i by blast
qed

lemma gate_one:
  assumes "\<not> live n s k" and "k = seen_key (\<lambda>p. [110]) (sample_event t)" and "cd_get n (''r'', 7) s = None"
  shows "\<exists>s'. gate (sample_gate n) [sample_event t] s = (s', Inr \<lparr>ga_survivors = [sample_event t], ga_continuations = [], ga_seen = [k], ga_cd = [(''r'', 7)]\<rparr>)"
proof -
  have nc: "needs_cooldown (sample_event t)" and cd: "cd_cmd (sample_event t) = ((''r'', 7), t, 300000, 300 + LATE_FLUSH_S)"
    "cd_key (sample_event t) = (''r'', 7)"
    by (simp_all add: needs_cooldown_def sample_event_def cd_cmd_def cd_key_def)
  have "cd_get n (''r'', 7) (s\<lparr>rk_seen := f\<rparr>) = None" for f using assms(3) by (simp add: cd_get_def)
  then show ?thesis
    using assms(1,2) nc by (simp add: gate_def run_pipe_def sample_gate_one seen_nx_eq cd COOLDOWN_SCRIPT_def)
qed

lemma sample_first:
  "\<exists>w1. persist_rules (sample_rule_calls 5) [sample_event 1] no_rules_stored = (w1, Inr [sample_event 1])"
proof -
  have dev: "re_deviceId (sample_event 1) = 7" by (simp add: sample_event_def)
  obtain s' where g: "gate (sample_gate 5) [sample_event 1] (rs_redis no_rules_stored) = (s', Inr \<lparr>ga_survivors = [sample_event 1],
      ga_continuations = [], ga_seen = [seen_key (\<lambda>p. [110]) (sample_event 1)], ga_cd = [(''r'', 7)]\<rparr>)"
    using gate_one [of 5 "rs_redis no_rules_stored" _ 1, OF _ refl] by (auto simp: no_rules_stored_def live_key_def cd_get_def)
  from persist_of_gate [OF _ this] show ?thesis by simp
qed

theorem written_once_witness:
  "\<exists>w1 w2 again. persist_rules (sample_rule_calls 5) [sample_event 1] no_rules_stored = (w1, Inr [sample_event 1]) \<and>
     persist_rules (sample_rule_calls 9) [sample_event 1] w1 = (w2, Inr again) \<and> sample_event 1 \<notin> set again"
proof -
  obtain w1 where w1: "persist_rules (sample_rule_calls 5) [sample_event 1] no_rules_stored = (w1, Inr [sample_event 1])"
    using sample_first by blast
  obtain w2 again where w2: "persist_rules (sample_rule_calls 9) [sample_event 1] w1 = (w2, Inr again)"
    using gate_answered [of 9 "[sample_event 1]" "rs_redis w1"] persist_of_gate [of "[sample_event 1]" 9 w1] by blast
  have "seen_key (ge_json (rq_gate (sample_rule_calls 5))) ` set [sample_event 1] \<inter>
      seen_key (ge_json (rq_gate (sample_rule_calls 5))) ` set again = {}"
  proof -
    have g: "rq_gate (sample_rule_calls n) = sample_gate n" for n by (simp add: sample_rule_calls_def)
    have l: "persist_rules (sample_rule_calls 9) [sample_event 1] (later_store [] w1) = (w2, Inr again)"
      unfolding later_store_def using w2 by (simp only: fold_simps id_apply)
    have t: "list_all (\<lambda>(q', es'). ge_now (rq_gate q') < ge_now (rq_gate (sample_rule_calls 5)) + 3600000)
        ([] @ [(sample_rule_calls 9, [sample_event 1])])"
      by (simp add: g sample_gate_one)
    have s: "ge_seen (rq_gate (sample_rule_calls n)) = PipeRuns (\<lambda>i. False)" for n by (simp add: g sample_gate_one)
    have j: "ge_json (rq_gate (sample_rule_calls 9)) = ge_json (rq_gate (sample_rule_calls 5))" by (simp add: g sample_gate_one)
    show ?thesis
      by (rule conjunct2 [OF conjunct2 [OF written_once [OF w1 s t s j l]]])
  qed
  then have "sample_event 1 \<notin> set again" by auto
  then show ?thesis using w1 w2 by (intro exI conjI)
qed

section \<open>The cooldown\<close>

fun spaced :: "int \<Rightarrow> int option \<Rightarrow> rule_event list \<Rightarrow> rule_event list" where
  "spaced c m [] = []"
| "spaced c m (e # es) =
     (if (case m of None \<Rightarrow> False | Some t \<Rightarrow> \<bar>re_at e - t\<bar> < c) then spaced c m es
      else e # spaced c (Some (re_at e)) es)"

definition marker_after :: "int option \<Rightarrow> rule_event list \<Rightarrow> int option" where
  "marker_after m es = (if es = [] then m else Some (re_at (last es)))"

lemma cooldown_step:
  assumes "0 < re_cooldownS e"
  shows "cd_get now k (fst (COOLDOWN_SCRIPT now (cd_cmd e) s)) =
      (if cd_key e = k \<and> snd (COOLDOWN_SCRIPT now (cd_cmd e) s) then Some (re_at e) else cd_get now k s)"
    and "snd (COOLDOWN_SCRIPT now (cd_cmd e) s) =
      (\<not> (case cd_get now (cd_key e) s of None \<Rightarrow> False | Some t \<Rightarrow> \<bar>re_at e - t\<bar> < re_cooldownS e * 1000))"
  using assms by (auto simp: COOLDOWN_SCRIPT_def cd_cmd_def cd_get_def LATE_FLUSH_S_def split: option.splits)

lemma settle_spaced:
  assumes "run_cmds (\<lambda>i. False) i (COOLDOWN_SCRIPT now) (map cd_cmd (filter needs_cooldown es)) s = (s', bs)"
    and "settle es bs = (sv, ct)" and "\<forall>e \<in> set es. cd_key e = k \<longrightarrow> needs_cooldown e \<and> re_cooldownS e = c"
  shows "filter (\<lambda>e. cd_key e = k) sv = spaced (c * 1000) (cd_get now k s) (filter (\<lambda>e. cd_key e = k) es) \<and>
    cd_get now k s' = marker_after (cd_get now k s) (filter (\<lambda>e. cd_key e = k) sv)"
  using assms
proof (induction es arbitrary: i s bs sv ct)
  case Nil
  then show ?case by (simp add: marker_after_def)
next
  case (Cons e es)
  show ?case
  proof (cases "needs_cooldown e")
    case False
    then have ne: "cd_key e \<noteq> k" using Cons.prems(3) by auto
    obtain sv0 ct0 where st: "settle es bs = (sv0, ct0)" by fastforce
    have "run_cmds (\<lambda>i. False) i (COOLDOWN_SCRIPT now) (map cd_cmd (filter needs_cooldown es)) s = (s', bs)"
      using Cons.prems(1) False by simp
    from Cons.IH [OF this st] Cons.prems(2,3) False ne st show ?thesis by auto
  next
    case True
    then have pos: "0 < re_cooldownS e" by (simp add: needs_cooldown_def)
    obtain s1 b where b: "COOLDOWN_SCRIPT now (cd_cmd e) s = (s1, b)" by fastforce
    obtain bs0 where bs0: "run_cmds (\<lambda>i. False) (Suc i) (COOLDOWN_SCRIPT now) (map cd_cmd (filter needs_cooldown es)) s1 = (s', bs0)"
      and bs: "bs = Some b # bs0"
      using Cons.prems(1) True b by (auto simp: Let_def split: prod.splits)
    obtain sv0 ct0 where st: "settle es bs0 = (sv0, ct0)" by fastforce
    have sv: "sv = (if b then e # sv0 else sv0)"
      using Cons.prems(2) True bs st by (auto simp: passes_def split: if_splits)
    note ih = Cons.IH [OF bs0 st]
    have c1: "cd_get now k s1 = (if cd_key e = k \<and> b then Some (re_at e) else cd_get now k s)"
      and c2: "b = (\<not> (case cd_get now (cd_key e) s of None \<Rightarrow> False | Some t \<Rightarrow> \<bar>re_at e - t\<bar> < re_cooldownS e * 1000))"
      using cooldown_step [OF pos, where now = now and s = s] b by auto
    have hyp: "\<forall>e \<in> set es. cd_key e = k \<longrightarrow> needs_cooldown e \<and> re_cooldownS e = c" using Cons.prems(3) by simp
    show ?thesis
    proof (cases "cd_key e = k")
      case False
      then show ?thesis using ih [OF hyp] c1 sv by (auto simp: marker_after_def)
    next
      case True
      then have c: "re_cooldownS e = c" using Cons.prems(3) by simp
      have c3: "b = (\<not> (case cd_get now k s of None \<Rightarrow> False | Some t \<Rightarrow> \<bar>re_at e - t\<bar> < c * 1000))"
        using c2 by (simp only: c True)
      show ?thesis
      proof (cases b)
        case True
        with c3 have "\<not> (case cd_get now k s of None \<Rightarrow> False | Some t \<Rightarrow> \<bar>re_at e - t\<bar> < c * 1000)" by blast
        then show ?thesis using ih [OF hyp] c1 sv True \<open>cd_key e = k\<close> by (simp add: marker_after_def)
      next
        case False
        with c3 have "case cd_get now k s of None \<Rightarrow> False | Some t \<Rightarrow> \<bar>re_at e - t\<bar> < c * 1000" by blast
        then show ?thesis using ih [OF hyp] c1 sv False \<open>cd_key e = k\<close> by (simp add: marker_after_def)
      qed
    qed
  qed
qed

lemma spaced_apart:
  "successively (\<lambda>a b. c \<le> \<bar>re_at b - re_at a\<bar>) (spaced c m es) \<and>
   (spaced c m es \<noteq> [] \<longrightarrow> (\<forall>t. m = Some t \<longrightarrow> c \<le> \<bar>re_at (hd (spaced c m es)) - t\<bar>))"
proof (induction es arbitrary: m)
  case (Cons e es)
  show ?case
    using Cons.IH [of m] Cons.IH [of "Some (re_at e)"] by (auto simp: successively_Cons split: option.splits)
qed simp

text \<open>C27. The cooldown is exact. On the first delivery of events, every command answered, the alerts of a rule
  and device with cooldown \<open>c\<close> are chosen in order by one test: an event is written unless its fix time is
  within \<open>c\<close> seconds, before or after, of the last one written (the marker). So each alert is at least \<open>c\<close> seconds
  from the one written before it, and the marker afterwards is the last one written. Events of other rules
  and devices make no difference.\<close>

theorem cooldown_exact:
  assumes g: "gate env es s = (s', Inr g)" and env: "ge_seen env = PipeRuns (\<lambda>i. False)" "ge_cd env = PipeRuns (\<lambda>i. False)"
    and d: "distinct (map (seen_key (ge_json env)) es)" and n: "list_all (\<lambda>e. \<not> live (ge_now env) s (seen_key (ge_json env) e)) es"
    and c: "list_all (\<lambda>e. cd_key e \<noteq> k \<or> needs_cooldown e \<and> re_cooldownS e = c) es"
  shows "let written = filter (\<lambda>e. cd_key e = k) (ga_survivors g) in
    written = spaced (c * 1000) (cd_get (ge_now env) k s) (filter (\<lambda>e. cd_key e = k) es) \<and>
    successively (\<lambda>a b. c * 1000 \<le> \<bar>re_at b - re_at a\<bar>) written \<and>
    cd_get (ge_now env) k s' = marker_after (cd_get (ge_now env) k s) written"
proof (cases "es = []")
  case True
  then show ?thesis using g by (auto simp: gate_def marker_after_def)
next
  case False
  let ?now = "ge_now env"
  obtain s1 as where p: "run_cmds (\<lambda>i. False) 0 (seen_nx ?now) (map (seen_key (ge_json env)) es) s = (s1, as)" by fastforce
  have fresh: "pick passes es as = es" and cd: "rk_cd s1 = rk_cd s"
    using seen.first_delivery [OF p d] n seen_cmds_cd [of "\<lambda>i. False" 0 ?now "map (seen_key (ge_json env)) es" s] p
    by (simp_all add: list_all_iff)
  have m: "cd_get ?now k s1 = cd_get ?now k s" by (simp add: cd_get_def cd)
  obtain s2 bs where q: "run_cmds (\<lambda>i. False) 0 (COOLDOWN_SCRIPT ?now) (map cd_cmd (filter needs_cooldown es)) s1 = (s2, bs)" by fastforce
  obtain sv ct where st: "settle es bs = (sv, ct)" by fastforce
  have hyp: "\<forall>e \<in> set es. cd_key e = k \<longrightarrow> needs_cooldown e \<and> re_cooldownS e = c" using c by (auto simp: list_all_iff)
  have "ga_survivors g = sv \<and> s' = s2"
  proof (cases "filter needs_cooldown es = []")
    case True
    then have none: "\<And>e. e \<in> set es \<Longrightarrow> \<not> needs_cooldown e" by (simp add: filter_empty_conv)
    then have "settle xs bs = (xs, [])" if "set xs \<subseteq> set es" for xs using that by (induction xs) auto
    then show ?thesis using g False p fresh env True q st by (auto simp: gate_def run_pipe_def Let_def)
  next
    case nn: False
    then show ?thesis using g False p fresh env q st by (auto simp: gate_def run_pipe_def Let_def)
  qed
  with settle_spaced [OF q st hyp] spaced_apart [of "c * 1000" "cd_get ?now k s" "filter (\<lambda>e. cd_key e = k) es"] m
  show ?thesis by (simp add: Let_def)
qed

theorem cooldown_exact_witness:
  "\<exists>s' g. gate (sample_gate 5) [sample_event 0, sample_event 100000, sample_event 400000] (rs_redis no_rules_stored) = (s', Inr g) \<and>
     map re_at (filter (\<lambda>e. cd_key e = (''r'', 7)) (ga_survivors g)) = [0, 400000]"
proof -
  let ?es = "[sample_event 0, sample_event 100000, sample_event 400000]"
  obtain s' g where g: "gate (sample_gate 5) ?es (rs_redis no_rules_stored) = (s', Inr g)"
    using gate_answered by blast
  have "let written = filter (\<lambda>e. cd_key e = (''r'', 7)) (ga_survivors g) in
    written = spaced (300 * 1000) (cd_get (ge_now (sample_gate 5)) (''r'', 7) (rs_redis no_rules_stored)) (filter (\<lambda>e. cd_key e = (''r'', 7)) ?es) \<and>
    successively (\<lambda>a b. 300 * 1000 \<le> \<bar>re_at b - re_at a\<bar>) written \<and>
    cd_get (ge_now (sample_gate 5)) (''r'', 7) s' = marker_after (cd_get (ge_now (sample_gate 5)) (''r'', 7) (rs_redis no_rules_stored)) written"
    by (rule cooldown_exact [OF g])
      (simp_all add: sample_gate_def sample_event_def seen_key_def live_key_def no_rules_stored_def cd_key_def needs_cooldown_def)
  with g show ?thesis
    by (auto simp: Let_def sample_gate_def sample_event_def cd_get_def no_rules_stored_def cd_key_def)
qed

text \<open>The comment of the cooldown script asks for more, that no two alerts lie within the window of each other.
  The marker moves backwards too, so an event out of order is compared with the last alert only.\<close>

lemma cooldown_is_not_pairwise:
  "map re_at (spaced 300000 None [sample_event 0, sample_event 400000, sample_event 50000]) = [0, 400000, 50000]"
  by (simp add: sample_event_def)

section \<open>A failed INSERT\<close>

lemma gate_unclaimed:
  assumes "gate env es s = (s', Inr g)" and "k \<notin> set (ga_seen g)"
  shows "rk_seen s' k = rk_seen s k"
proof (cases "es = []")
  case True
  then show ?thesis using assms by (auto simp: gate_def)
next
  case False
  let ?ks = "map (seen_key (ge_json env)) es"
  obtain s1 r1 where p: "run_pipe (ge_seen env) (seen_nx (ge_now env)) ?ks s = (s1, r1)" by fastforce
  from p show ?thesis
  proof (cases rule: run_pipe_cases)
    case (runs err as)
    let ?needs = "filter needs_cooldown (pick passes es as)"
    obtain s2 r2 where c: "run_pipe (ge_cd env) (COOLDOWN_SCRIPT (ge_now env)) (map cd_cmd ?needs) s1 = (s2, r2)" by fastforce
    then have s2: "rk_seen s2 = rk_seen s1"
      by (cases rule: run_pipe_cases) (metis cd_cmds_seen fst_conv)+
    have "ga_seen g = pick (\<lambda>a. a = Some True) ?ks as \<and> rk_seen s' = rk_seen s1"
      using assms(1) False p runs(3) c s2 by (auto simp: gate_def Let_def split: if_splits sum.splits prod.splits)
    then show ?thesis using seen.cmds_unclaimed [of k ?ks err 0 "ge_now env" s] runs(2) assms(2) by simp
  next
    case (rejects n)
    then show ?thesis using assms False p by (simp add: gate_def)
  qed
qed


definition failing_calls :: "call \<Rightarrow> rule_calls" where
  "failing_calls c = (sample_rule_calls 5)\<lparr>rq_insert := c\<rparr>"


text \<open>But a pipeline that is rejected in the gate itself throws past the release: what it claimed stays claimed.\<close>

lemma rejected_gate_keeps_claims:
  "\<exists>s'. gate ((sample_gate 5)\<lparr>ge_seen := PipeRejects 1\<rparr>) [sample_event 1] (rs_redis no_rules_stored) = (s', Inl ()) \<and>
     live 5 s' (seen_key (\<lambda>p. [110]) (sample_event 1))"
  by (simp add: gate_def run_pipe_def sample_gate_def seen_nx_eq no_rules_stored_def live_key_def REPLAY_TTL_S_def)

section \<open>The IO state\<close>

definition io_numbers :: "device_io \<Rightarrow> rat list" where
  "io_numbers io = List.map_filter (\<lambda>x. x) [io_fuelPct io, io_fuelL io, io_fuelBasePct io, io_fuelBaseL io]"

definition spelled :: "(rat \<Rightarrow> string) \<Rightarrow> device_io \<Rightarrow> bool" where
  "spelled text io \<longleftrightarrow> list_all (\<lambda>q. js_Number_str (text q) = JNum q) (io_numbers io)"

lemma fold_hset: "distinct (map fst fs) \<Longrightarrow> fold (\<lambda>(f, v) h. h(f \<mapsto> v)) fs h x = (case map_of fs x of None \<Rightarrow> h x | Some v \<Rightarrow> Some v)"
proof (induction fs arbitrary: h)
  case (Cons a fs)
  then show ?case by (cases a) (auto split: option.split simp: image_iff dest!: map_of_SomeD)
qed simp

lemma fold_hdel: "fold (\<lambda>f h. h(f := None)) fs h x = (if x \<in> set fs then None else h x)"
  by (induction fs arbitrary: h) auto

lemma map_of_present:
  "distinct (map fst xs) \<Longrightarrow> map_of (List.map_filter (\<lambda>(f, v). map_option (Pair f) v) xs) x = Option.bind (map_of xs x) (\<lambda>v. v)"
proof (induction xs)
  case (Cons a xs)
  obtain f v where a: "a = (f, v)" by fastforce
  have "map_of xs f = None" using Cons.prems a by (auto simp: map_of_eq_None_iff)
  then show ?case using Cons a by (cases v) (auto simp: List.map_filter_simps)
qed (simp add: List.map_filter_simps)

lemma run_cmds_plain: "fst (run_cmds (\<lambda>i. False) j f ks s) = fold (\<lambda>k s. fst (f k s)) ks s"
  by (induction ks arbitrary: j s) (simp_all add: case_prod_beta Let_def)

definition merged :: "(string \<times> string option) list \<Rightarrow> io_hash \<Rightarrow> io_hash" where
  "merged ts h = (\<lambda>f. case map_of ts f of None \<Rightarrow> h f | Some v \<Rightarrow> v)"

lemma save_one:
  assumes "distinct (map fst ts)" and present: "present = List.map_filter (\<lambda>(f, v). map_option (Pair f) v) ts"
    and del: "del = map fst (filter (\<lambda>(f, v). v = None) ts)"
  shows "fold (\<lambda>f h. h(f := None)) del (fold (\<lambda>(f, v) h. h(f \<mapsto> v)) present h) = merged ts h"
proof
  fix x
  have "distinct (map fst (List.map_filter (\<lambda>(f, v). map_option (Pair f) v) ts)) \<and>
      fst ` set (List.map_filter (\<lambda>(f, v). map_option (Pair f) v) ts) \<subseteq> fst ` set ts"
    using assms(1)
  proof (induction ts)
    case (Cons a ts)
    then show ?case by (cases a; cases "snd a") (auto simp: List.map_filter_simps)
  qed (simp add: List.map_filter_simps)
  then have d: "distinct (map fst present)" by (simp add: present)
  have x: "x \<in> set del \<longleftrightarrow> map_of ts x = Some None"
    using assms(1) by (auto simp: del image_iff)
  show "fold (\<lambda>f h. h(f := None)) del (fold (\<lambda>(f, v) h. h(f \<mapsto> v)) present h) x = merged ts h x"
    unfolding fold_hdel fold_hset [OF d] x unfolding present map_of_present [OF assms(1)]
    by (auto simp: merged_def split: option.splits)
qed

lemma io_texts_distinct: "distinct (map fst (io_texts text io))"
  by (simp add: io_texts_def)

lemma save_device: "fold (\<lambda>k s. fst (exec_hash k s)) (save_cmds text (d, io)) s = s(d := merged (io_texts text io) (s d))"
proof -
  let ?ts = "io_texts text io"
  define present where "present = List.map_filter (\<lambda>(f, v). map_option (Pair f) v) ?ts"
  define del where "del = map fst (filter (\<lambda>(f, v). v = None) ?ts)"
  have "fold (\<lambda>k s. fst (exec_hash k s)) (save_cmds text (d, io)) s =
      s(d := fold (\<lambda>f h. h(f := None)) del (fold (\<lambda>(f, v) h. h(f \<mapsto> v)) present (s d)))"
  proof -
    have "save_cmds text (d, io) = (if present = [] then [] else [Hset d present]) @ (if del = [] then [] else [Hdel d del])"
      by (simp only: save_cmds_def Let_def prod.case present_def del_def)
    then show ?thesis by (simp add: exec_hash_def)
  qed
  then show ?thesis unfolding save_one [OF io_texts_distinct present_def del_def] .
qed

lemma save_devices:
  "fold (\<lambda>k s. fst (exec_hash k s)) (concat (map (save_cmds text) xs)) s d =
     fold (\<lambda>io h. merged (io_texts text io) h) (map snd (filter (\<lambda>x. fst x = d) xs)) (s d)"
proof (induction xs arbitrary: s)
  case (Cons a xs)
  obtain e io where a: "a = (e, io)" by fastforce
  show ?case using Cons.IH [of "s(e := merged (io_texts text io) (s e))"] by (simp only: a list.map concat.simps fold_append comp_apply save_device) simp
qed simp

lemma load_merged:
  assumes "spelled text io"
  shows "load_io (merged (io_texts text io) h) = (if io = EMPTY_IO then None else Some io)"
proof -
  have b: "bit_field (map_option bit_text x) = x" for x
    by (cases x) (auto simp: bit_field_def bit_text_def)
  have n: "numOrNull (map_option text (io_fuelPct io)) = io_fuelPct io" "numOrNull (map_option text (io_fuelL io)) = io_fuelL io"
    "numOrNull (map_option text (io_fuelBasePct io)) = io_fuelBasePct io" "numOrNull (map_option text (io_fuelBaseL io)) = io_fuelBaseL io"
    using assms by (auto simp: numOrNull_def spelled_def io_numbers_def List.map_filter_simps split: option.splits)
  have f: "merged (io_texts text io) h ''ignition'' = map_option bit_text (io_ignition io)"
    "merged (io_texts text io) h ''din1'' = map_option bit_text (io_din1 io)"
    "merged (io_texts text io) h ''unplug'' = map_option bit_text (io_unplug io)"
    "merged (io_texts text io) h ''alarm'' = map_option bit_text (io_alarm io)"
    "merged (io_texts text io) h ''fuelPct'' = map_option text (io_fuelPct io)"
    "merged (io_texts text io) h ''fuelL'' = map_option text (io_fuelL io)"
    "merged (io_texts text io) h ''fuelBasePct'' = map_option text (io_fuelBasePct io)"
    "merged (io_texts text io) h ''fuelBaseL'' = map_option text (io_fuelBaseL io)"
    by (simp_all add: merged_def io_texts_def)
  show ?thesis
  proof -
    have "list_all (\<lambda>x. merged (io_texts text io) h x = None) IO_FIELDS \<longleftrightarrow> io = EMPTY_IO"
      by (simp add: IO_FIELDS_def f EMPTY_IO_def) (cases io; simp)
    then show ?thesis unfolding load_io_def f b n by simp
  qed
qed

text \<open>The saved IO state is read back. After the snapshots of some devices, each once, are saved and the
  pipeline is answered, loading a device gives exactly its snapshot, whatever the hash held before: a field that
  became unknown is deleted, so that no old fuel baseline survives. A snapshot that knows nothing is read as
  no state. Needed of \<open>String(n)\<close>: the numbers of the snapshot are spelled so that they read back as themselves.\<close>

theorem io_state_roundtrip:
  assumes "spelled text io" and "distinct (map fst snapshots)" and "(d, io) \<in> set snapshots"
  shows "\<exists>s'. saveIoState text (PipeRuns (\<lambda>i. False)) snapshots s = (s', Inr ()) \<and>
    map_option (\<lambda>f. f d) (case loadIoState (Inr s') (map fst snapshots) of Inl u \<Rightarrow> None | Inr f \<Rightarrow> Some f) =
    Some (if io = EMPTY_IO then None else Some io)"
proof -
  let ?s' = "fold (\<lambda>k s. fst (exec_hash k s)) (concat (map (save_cmds text) snapshots)) s"
  have ne: "snapshots \<noteq> []" using assms(3) by auto
  have save: "saveIoState text (PipeRuns (\<lambda>i. False)) snapshots s = (?s', Inr ())"
    using ne run_cmds_plain [of 0 exec_hash "concat (map (save_cmds text) snapshots)" s]
    by (simp add: saveIoState_def run_pipe_def case_prod_beta Let_def)
  have "map snd (filter (\<lambda>x. fst x = d) snapshots) = [io]"
    using assms(2,3)
  proof (induction snapshots)
    case (Cons a xs)
    have "filter (\<lambda>x. fst x = d) xs = []" if "d \<notin> fst ` set xs" using that by (auto simp: filter_empty_conv)
    then show ?case using Cons by (cases a; cases "fst a = d") (auto simp: image_iff)
  qed simp
  then have "?s' d = merged (io_texts text io) (s d)" by (simp add: save_devices)
  then have "load_io (?s' d) = (if io = EMPTY_IO then None else Some io)" by (simp only: load_merged [OF assms(1)])
  moreover have "d \<in> fst ` set snapshots" using assms(3) by force
  ultimately show ?thesis using save ne by (simp add: loadIoState_def)
qed

definition parked_io :: device_io where
  "parked_io = EMPTY_IO\<lparr>io_ignition := Some False, io_fuelPct := Some 50\<rparr>"

theorem io_state_roundtrip_witness:
  "\<exists>s'. saveIoState (\<lambda>q. ''50'') (PipeRuns (\<lambda>i. False)) [(7, parked_io), (8, EMPTY_IO)] (\<lambda>d f. Some ''99'') = (s', Inr ()) \<and>
     map_option (\<lambda>f. f 7) (case loadIoState (Inr s') [7, 8] of Inl u \<Rightarrow> None | Inr f \<Rightarrow> Some f) = Some (Some parked_io)"
proof -
  have "js_Number_str ''50'' = JNum 50"
    by (simp add: js_Number_str_def trim_def is_space_def js_sign_def split_at_def js_mantissa_def
      js_exponent_def all_digits_def digit_def decimal_nat_def scale10_def radix_of_def Let_def)
  then have "spelled (\<lambda>q. ''50'') parked_io"
    by (simp add: spelled_def io_numbers_def parked_io_def EMPTY_IO_def List.map_filter_simps)
  from io_state_roundtrip [OF this, of "[(7, parked_io), (8, EMPTY_IO)]" 7 "\<lambda>d f. Some ''99''"] show ?thesis
    by (simp add: parked_io_def EMPTY_IO_def)
qed

end
