(* ===== verification/FenceStore.thy ===== *)
theory FenceStore
  imports RuleStore
begin

text \<open>
  apps/worker/src/geofence/persister.ts and the geofence part of motion.ts and main.ts (\<open>onBatch\<close>): a crossing
  is claimed by its identity, inserted into \<open>events\<close>, and ends the state of the crossing before it; a batch whose
  crossings could not be stored is rolled back in the engine. A Redis key is the tuple of its parts.
\<close>

section \<open>Keys\<close>

definition DEDUP_TTL_S :: int where
  "DEDUP_TTL_S = 24 * 3600"

type_synonym crossing_key = "int \<times> string \<times> crossing \<times> int"

record fence_redis =
  fk_evt :: "crossing_key \<Rightarrow> int option"
  fk_state :: "int \<Rightarrow> string \<Rightarrow> string option"

definition dedupKey :: "transition \<Rightarrow> crossing_key" where
  "dedupKey tr = (tr_deviceId tr, tr_geofenceId tr, tr_type tr, tr_at tr)"

definition evt_nx :: "int \<Rightarrow> crossing_key \<Rightarrow> fence_redis \<Rightarrow> fence_redis \<times> bool" where
  "evt_nx now k s =
     (if live_key now (fk_evt s k) then (s, False)
      else (s\<lparr>fk_evt := (fk_evt s)(k \<mapsto> now + DEDUP_TTL_S * 1000)\<rparr>, True))"

interpretation evt: claims evt_nx fk_evt "DEDUP_TTL_S * 1000"
  by unfold_locales (auto simp: evt_nx_def DEDUP_TTL_S_def)

definition set_side :: "transition \<Rightarrow> fence_redis \<Rightarrow> fence_redis \<times> unit" where
  "set_side tr s =
     (s\<lparr>fk_state := (fk_state s)(tr_deviceId tr := (fk_state s (tr_deviceId tr))(tr_geofenceId tr \<mapsto>
        (case tr_type tr of Enter \<Rightarrow> ''1'' | Exit \<Rightarrow> ''0'')))\<rparr>, ())"

definition free_keys :: "crossing_key list \<Rightarrow> fence_redis \<Rightarrow> fence_redis \<times> unit" where
  "free_keys ks s = (s\<lparr>fk_evt := (\<lambda>k. if k \<in> set ks then None else fk_evt s k)\<rparr>, ())"

section \<open>The durable side\<close>

definition loadInside :: "(int \<Rightarrow> string \<Rightarrow> string option) reply \<Rightarrow> int list \<Rightarrow> (int \<Rightarrow> string \<Rightarrow> bool) reply" where
  "loadInside r devices =
     (if devices = [] then Inr (\<lambda>d g. False)
      else bindE r (\<lambda>h. Inr (\<lambda>d g. d \<in> set devices \<and> h d g = Some ''1'')))"

section \<open>Persisting the crossings of a batch\<close>

record fence_calls =
  fq_tenants :: "(int \<Rightarrow> string option) reply"
  fq_accounts :: "(int \<Rightarrow> string option) reply"
  fq_now :: int
  fq_claim :: pipe_run
  fq_insert :: call
  fq_close :: "nat \<Rightarrow> call"
  fq_release :: call
  fq_state :: pipe_run

record fence_store =
  fs_redis :: fence_redis
  fs_events :: event_table

definition claim_crossings :: "fence_calls \<Rightarrow> transition list \<Rightarrow> fence_redis \<Rightarrow> fence_redis \<times> (transition list \<times> crossing_key list) reply" where
  "claim_crossings q scoped s =
     (case run_pipe (fq_claim q) (evt_nx (fq_now q)) (map dedupKey scoped) s of
        (s1, Inl u) \<Rightarrow> (s1, Inl u)
      | (s1, Inr as) \<Rightarrow> (s1, Inr (pick passes scoped as, pick (\<lambda>a. a = Some True) (map dedupKey scoped) as)))"

text \<open>The INSERT, then the states the crossings end, then the durable sides; only the INSERT may fail the call.\<close>

definition store_crossings ::
  "fence_calls \<Rightarrow> (int \<Rightarrow> (string \<times> string) option) \<Rightarrow> transition list \<Rightarrow> crossing_key list \<Rightarrow> fence_store \<Rightarrow>
     fence_store \<times> transition list reply" where
  "store_crossings q scope fresh claimed w =
     (let rows = map (\<lambda>tr. fence_row (the (scope (tr_deviceId tr))) tr) fresh;
          (ev, n) = issue (fq_insert q) (writeGeofenceEvents rows) (fs_events w) in
      case n of
        Inl u \<Rightarrow>
          (w\<lparr>fs_events := ev, fs_redis := (if claimed = [] then fs_redis w else fst (issue (fq_release q) (free_keys claimed) (fs_redis w)))\<rparr>,
           Inl u)
      | Inr m \<Rightarrow>
          (w\<lparr>fs_events := fst (closeGeofenceStates (number (fq_close q) fresh) ev),
             fs_redis := fst (run_pipe (fq_state q) set_side fresh (fs_redis w))\<rparr>, Inr fresh))"

definition persist_crossings :: "fence_calls \<Rightarrow> transition list \<Rightarrow> fence_store \<Rightarrow> fence_store \<times> transition list reply" where
  "persist_crossings q transitions w =
     (if transitions = [] then (w, Inr [])
      else case bindE (fq_tenants q) (\<lambda>t. bindE (fq_accounts q) (\<lambda>a. Inr (t, a))) of
        Inl u \<Rightarrow> (w, Inl u)
      | Inr (t, a) \<Rightarrow>
          (let scope = scope_of t a; scoped = filter (\<lambda>tr. scope (tr_deviceId tr) \<noteq> None) transitions in
           if scoped = [] then (w, Inr [])
           else case claim_crossings q scoped (fs_redis w) of
             (r1, Inl u) \<Rightarrow> (w\<lparr>fs_redis := r1\<rparr>, Inl u)
           | (r1, Inr (fresh, claimed)) \<Rightarrow>
               (if fresh = [] then (w\<lparr>fs_redis := r1\<rparr>, Inr [])
                else store_crossings q scope fresh claimed (w\<lparr>fs_redis := r1\<rparr>))))"

section \<open>A batch\<close>

definition motionRecords :: "nrec list \<Rightarrow> nrec list" where
  "motionRecords records = filter r_fixValid records"

text \<open>The geofence half of \<open>MotionFeed.feed\<close>.\<close>

definition motion_geo ::
  "(int \<Rightarrow> geofence_def list) \<Rightarrow> (int \<Rightarrow> string \<Rightarrow> bool) \<Rightarrow> geofence_engine \<Rightarrow> nrec list \<Rightarrow> geofence_engine \<times> transition list" where
  "motion_geo geofencesFor insideFor e records =
     (if records = [] then (e, []) else geo_feed geofencesFor insideFor e (motionRecords records))"

record fence_run =
  fr_engine :: geofence_engine
  fr_store :: fence_store

text \<open>The geofence part of \<open>onBatch\<close>: the durable sides are loaded for the devices that have fences (the read
  fails as a whole, or for some devices, which then count as outside everything), the engine is fed, and what
  it reports is persisted; a failure rolls the engine back.\<close>

definition fence_batch ::
  "(int \<Rightarrow> geofence_def list) \<Rightarrow> (int \<Rightarrow> bool) reply \<Rightarrow> fence_calls \<Rightarrow> nrec list \<Rightarrow> fence_run \<Rightarrow> fence_run \<times> transition list" where
  "fence_batch geofencesFor answered q records x =
     (let devices = filter (\<lambda>d. geofencesFor d \<noteq> []) (remdups (map r_deviceId records));
          hashes = bindE answered (\<lambda>ok. Inr (\<lambda>d. if ok d then fk_state (fs_redis (fr_store x)) d else (\<lambda>g. None))) in
      case loadInside hashes devices of
        Inl u \<Rightarrow> (x, [])
      | Inr insideFor \<Rightarrow>
          (let (e1, transitions) = motion_geo geofencesFor insideFor (fr_engine x) records in
           if transitions = [] then (x\<lparr>fr_engine := e1\<rparr>, [])
           else case persist_crossings q transitions (fr_store x) of
             (w1, Inl u) \<Rightarrow> (x\<lparr>fr_engine := rollback e1 transitions, fr_store := w1\<rparr>, [])
           | (w1, Inr persisted) \<Rightarrow> (x\<lparr>fr_engine := e1, fr_store := w1\<rparr>, persisted)))"

text \<open>The life of a worker: batches, and restarts that leave the engine empty.\<close>

datatype fence_step = Batch "(int \<Rightarrow> bool) reply" fence_calls "nrec list" | Restart

definition fence_next :: "(int \<Rightarrow> geofence_def list) \<Rightarrow> nat \<Rightarrow> nat \<Rightarrow> fence_step \<Rightarrow> fence_run \<Rightarrow> fence_run" where
  "fence_next geofencesFor enter exit st x =
     (case st of
        Batch answered q records \<Rightarrow> fst (fence_batch geofencesFor answered q records x)
      | Restart \<Rightarrow> x\<lparr>fr_engine := new_geofence_engine enter exit\<rparr>)"

definition fence_life :: "(int \<Rightarrow> geofence_def list) \<Rightarrow> nat \<Rightarrow> nat \<Rightarrow> fence_step list \<Rightarrow> fence_run \<Rightarrow> fence_run" where
  "fence_life geofencesFor enter exit steps x = fold (fence_next geofencesFor enter exit) steps x"

end
