(* ===== verification/FenceTrack.thy ===== *)
theory FenceTrack
  imports FenceStore "HOL-Library.Sublist"
begin

text \<open>
  The geofence pipeline from the engine to the table \<open>events\<close>, through failures and restarts: what is stored for a
  device and a fence.
\<close>

section \<open>The crossings of a pair\<close>

lemma subseq_distinct: "subseq xs ys \<Longrightarrow> distinct ys \<Longrightarrow> distinct xs"
  by (auto dest!: subseq_conv_nths [THEN iffD1] intro: distinct_nthsI)

lemma subseq_set_mono: "subseq xs ys \<Longrightarrow> set xs \<subseteq> set ys"
  by (auto elim!: list_emb_set)

definition mine :: "int \<Rightarrow> string \<Rightarrow> transition \<Rightarrow> bool" where
  "mine dev g t \<longleftrightarrow> tr_deviceId t = dev \<and> tr_geofenceId t = g"

definition row_side :: "int \<Rightarrow> string \<Rightarrow> event_row \<Rightarrow> side option" where
  "row_side dev g r =
     (case er_payload r of
        PFence g' n c \<Rightarrow> if er_device r = dev \<and> g' = g then Some (case c of Enter \<Rightarrow> In | Exit \<Rightarrow> Out) else None
      | PRule p \<Rightarrow> None)"

text \<open>The sides the stored crossings of a pair lead to, in the order they were written.\<close>

definition stored_sides :: "int \<Rightarrow> string \<Rightarrow> event_table \<Rightarrow> side list" where
  "stored_sides dev g t = List.map_filter (row_side dev g) (et_rows t)"

lemma pair_run_sides:
  "pair_run n m st ss = (st', evs) \<Longrightarrow> alternates (confirmed st) evs \<and> confirmed st' = last (confirmed st # evs)"
proof (induction ss arbitrary: st st' evs)
  case (Cons s ss)
  obtain st1 fl where a: "pair_step n m s st = (st1, fl)" by fastforce
  obtain st2 es where b: "pair_run n m st1 ss = (st2, es)" by fastforce
  have e: "st' = st2" "evs = (if fl then s # es else es)" using Cons.prems a b by simp_all
  have "if fl then s = opposite (confirmed st) \<and> confirmed st1 = s else confirmed st1 = confirmed st"
  proof (cases "s = confirmed st")
    case True
    then show ?thesis using a by (auto simp: pair_step_def confirmed_def)
  next
    case False
    then have "s = opposite (confirmed st)" by (rule side_neq)
    moreover have "if fl then confirmed st1 = s else confirmed st1 = confirmed st"
      using a False by (cases s) (auto simp: pair_step_def confirmed_def Let_def split: if_splits)
    ultimately show ?thesis by (cases fl) simp_all
  qed
  then show ?case using Cons.IH [OF b] e by (cases fl) simp_all
qed simp

lemma geo_record_times:
  assumes "distinct (map gf_id (G dev))" and "gf \<in> set (G dev)"
  shows "map tr_at (filter (mine dev (gf_id gf)) (snd (geo_record G I e r))) \<in> {[], [r_fixTime r]} \<and>
    (r_deviceId r \<noteq> dev \<longrightarrow> filter (mine dev (gf_id gf)) (snd (geo_record G I e r)) = [])"
proof (cases "accepts e r \<and> r_deviceId r = dev")
  case True
  from geo_record_own(2) [where G = G and I = I, OF assms conjunct2 [OF True] conjunct1 [OF True]] True
  show ?thesis by (simp add: mine_def [abs_def] transition_of_def)
next
  case False
  let ?e = "e\<lparr>gs_lastSeen := AList.update (r_deviceId r) (r_fixTime r) (gs_lastSeen e)\<rparr>"
  have "filter (mine dev (gf_id gf)) (snd (geo_record G I e r)) = []" if "r_deviceId r \<noteq> dev"
    using that fences_step_other [of dev r "gf_id gf" "G (r_deviceId r)" I ?e] by (simp add: geo_record_def mine_def [abs_def])
  moreover have "snd (geo_record G I e r) = []" if "\<not> accepts e r" using that by (simp add: geo_record_def)
  ultimately show ?thesis using False by auto
qed

lemma geo_loop_times:
  assumes "distinct (map gf_id (G dev))" and "gf \<in> set (G dev)"
  shows "subseq (map tr_at (filter (mine dev (gf_id gf)) (snd (geo_loop G I e rs))))
    (map r_fixTime (filter (\<lambda>r. r_deviceId r = dev) rs))"
proof (induction rs arbitrary: e)
  case (Cons r rs)
  let ?e1 = "fst (geo_record G I e r)"
  have t: "map tr_at (filter (mine dev (gf_id gf)) (snd (geo_record G I e r))) \<in> {[], [r_fixTime r]}"
    and n: "r_deviceId r \<noteq> dev \<Longrightarrow> filter (mine dev (gf_id gf)) (snd (geo_record G I e r)) = []"
    using geo_record_times [where G = G, OF assms] by blast+
  show ?case
  proof (cases "r_deviceId r = dev")
    case True
    then show ?thesis using t Cons.IH [of ?e1] by (auto simp: case_prod_beta Let_def)
  next
    case False
    then show ?thesis using n Cons.IH [of ?e1] by (simp add: case_prod_beta Let_def)
  qed
qed simp

lemma geo_loop_silent:
  assumes "\<forall>r \<in> set rs. r_deviceId r \<noteq> dev"
  shows "map_of (gs_state (fst (geo_loop G I e rs))) (dev, g) = map_of (gs_state e) (dev, g)"
proof -
  have "filter (\<lambda>r. r_deviceId r = dev) rs = []" using assms by (simp add: filter_empty_conv)
  then have "geo_look (fst (geo_loop G I e rs)) dev = geo_look e dev"
    using fences.feed_projects [of e dev e G I rs] by simp
  then show ?thesis by (simp add: geo_look_eq)
qed

section \<open>One feed\<close>

definition knows :: "geofence_engine \<Rightarrow> int \<Rightarrow> string \<Rightarrow> side \<Rightarrow> bool" where
  "knows e dev g s \<longleftrightarrow> (case map_of (gs_state e) (dev, g) of None \<Rightarrow> True | Some st \<Rightarrow> confirmed st = s)"

lemma feed_sides:
  assumes G: "distinct (map gf_id (G dev))" "gf \<in> set (G dev)"
    and feed: "motion_geo G I e rs = (e', evs)" and k: "knows e dev (gf_id gf) s"
    and warm: "dev \<in> r_deviceId ` set rs \<Longrightarrow> (if I dev (gf_id gf) then In else Out) = s"
  shows "alternates s (map crossing_side (filter (mine dev (gf_id gf)) evs)) \<and>
    knows e' dev (gf_id gf) (last (s # map crossing_side (filter (mine dev (gf_id gf)) evs))) \<and>
    (filter (mine dev (gf_id gf)) evs \<noteq> [] \<longrightarrow> map_of (gs_state e') (dev, gf_id gf) \<noteq> None) \<and>
    subseq (map tr_at (filter (mine dev (gf_id gf)) evs)) (map r_fixTime (filter (\<lambda>r. r_deviceId r = dev) rs))"
proof (cases "rs = []")
  case True
  then show ?thesis using feed k by (simp add: motion_geo_def)
next
  case False
  let ?v = "motionRecords rs"
  have f: "geo_feed G I e ?v = (e', evs)" using feed False by (simp add: motion_geo_def)
  have g: "gf_id gf \<in> gf_id ` set (G dev)" using G(2) by simp
  have evs: "evs = snd (geo_loop G I e ?v)" and st: "map_of (gs_state e') (dev, gf_id gf) = map_of (gs_state (fst (geo_loop G I e ?v))) (dev, gf_id gf)"
    using f prunes_keep [of "gf_id gf" G dev, OF g] by (auto simp: geo_feed_def case_prod_beta Let_def)
  have "subseq (map r_fixTime (filter (\<lambda>r. r_deviceId r = dev) ?v)) (map r_fixTime (filter (\<lambda>r. r_deviceId r = dev) rs))"
    unfolding motionRecords_def by (intro subseq_map) (simp add: filter_filter conj_commute subseq_filter_left flip: filter_filter)
  with geo_loop_times [where G = G and I = I and e = e, OF G, of ?v] have times:
    "subseq (map tr_at (filter (mine dev (gf_id gf)) evs)) (map r_fixTime (filter (\<lambda>r. r_deviceId r = dev) rs))"
    unfolding evs by (rule subseq_order.order_trans)
  have known: "filter (mine dev (gf_id gf)) evs \<noteq> [] \<longrightarrow> map_of (gs_state e') (dev, gf_id gf) \<noteq> None"
    using geo_feed_known [where G = G, OF G f] by (auto simp: mine_def [abs_def])
  show ?thesis
  proof (cases "dev \<in> r_deviceId ` set rs")
    case True
    have "pair_of e I dev (gf_id gf) = pair_of e I dev (gf_id gf) \<and> confirmed (pair_of e I dev (gf_id gf)) = s"
      using k warm [OF True] by (auto simp: knows_def pair_of_def confirmed_def split: option.splits)
    moreover note pair_run_sides [OF geo_feed_pair [where G = G, OF G f]]
    ultimately have "alternates s (map crossing_side (filter (mine dev (gf_id gf)) evs)) \<and>
        confirmed (pair_of e' I dev (gf_id gf)) = last (s # map crossing_side (filter (mine dev (gf_id gf)) evs))"
      by (simp add: mine_def [abs_def])
    then show ?thesis using times known by (auto simp: knows_def pair_of_def split: option.splits)
  next
    case False
    then have n: "\<forall>r \<in> set ?v. r_deviceId r \<noteq> dev" by (auto simp: motionRecords_def)
    have "filter (\<lambda>r. r_deviceId r = dev) rs = []" using False by (auto simp: filter_empty_conv)
    then have "filter (mine dev (gf_id gf)) evs = []" using subseq_set_mono [OF times] by (simp add: filter_empty_conv)
    then show ?thesis using k st geo_loop_silent [OF n] by (simp add: knows_def)
  qed
qed

section \<open>Storing\<close>

lemma alternates_append: "alternates c (xs @ ys) \<longleftrightarrow> alternates c xs \<and> alternates (last (c # xs)) ys"
  by (induction xs arbitrary: c) auto

lemma row_side_fence: "row_side dev g (fence_row sc tr i) = (if mine dev g tr then Some (crossing_side tr) else None)"
  by (simp add: row_side_def fence_row_def mine_def crossing_side_def)

lemma stored_added:
  "stored_sides dev g (fst (writeGeofenceEvents (map (\<lambda>tr. fence_row (sc tr) tr) fresh) t)) =
     stored_sides dev g t @ map crossing_side (filter (mine dev g) fresh)"
proof -
  have "List.map_filter (row_side dev g) (map (\<lambda>(i, r). r i) (zip is (map (\<lambda>tr. fence_row (sc tr) tr) fresh))) =
      map crossing_side (filter (mine dev g) fresh)" if "length is = length fresh" for "is"
    using that by (induction "is" fresh rule: list_induct2) (simp_all add: row_side_fence List.map_filter_simps)
  then show ?thesis by (auto simp: writeGeofenceEvents_def add_events_def stored_sides_def List.map_filter_def)
qed

lemma stored_updated:
  assumes "\<And>r. row_side dev g (f r) = row_side dev g r"
  shows "stored_sides dev g (fst (update_newest P f t)) = stored_sides dev g t"
proof -
  have "List.map_filter (row_side dev g) (map (\<lambda>r. if Q r then f r else r) rs) = List.map_filter (row_side dev g) rs" for Q rs
    by (induction rs) (simp_all add: List.map_filter_simps assms split: option.split)
  then show ?thesis by (simp add: update_newest_def stored_sides_def split: option.split)
qed

lemma stored_closed: "stored_sides dev g (fst (closeGeofenceStates trs t)) = stored_sides dev g t"
proof (induction trs t rule: closeGeofenceStates.induct)
  case (2 tr c trs t)
  let ?f = "update_newest (ends_state tr) (\<lambda>r. r\<lparr>er_endedAt := Some (tr_at tr)\<rparr>)"
  obtain t1 r where i: "issue c ?f t = (t1, r)" by fastforce
  have "row_side dev g (x\<lparr>er_endedAt := y\<rparr>) = row_side dev g x" for x y
    by (cases "er_payload x") (simp_all add: row_side_def)
  then have u: "stored_sides dev g (fst (?f t)) = stored_sides dev g t" by (intro stored_updated) simp
  from i have t1: "stored_sides dev g t1 = stored_sides dev g t"
    by (cases rule: issue_cases) (use u in simp_all)
  show ?case using "2.IH" [OF i [symmetric]] i t1 by (cases r) (simp_all add: case_prod_beta Let_def)
qed simp

section \<open>The durable side\<close>

definition durable :: "fence_redis \<Rightarrow> int \<Rightarrow> string \<Rightarrow> side \<Rightarrow> bool" where
  "durable s dev g sd \<longleftrightarrow> (fk_state s dev g = Some ''1'') = (sd = In)"

lemma set_sides:
  assumes "durable s dev g sd"
  shows "durable (fst (run_cmds (\<lambda>i. False) i set_side trs s)) dev g
      (last (sd # map crossing_side (filter (mine dev g) trs))) \<and>
    fk_evt (fst (run_cmds (\<lambda>i. False) i set_side trs s)) = fk_evt s"
  using assms
proof (induction trs arbitrary: i s sd)
  case (Cons tr trs)
  let ?s = "fst (set_side tr s)" and ?sd = "if mine dev g tr then crossing_side tr else sd"
  have "durable ?s dev g ?sd"
    using Cons.prems by (cases "tr_type tr") (auto simp: durable_def set_side_def mine_def crossing_side_def)
  moreover have "fk_evt ?s = fk_evt s" by (simp add: set_side_def)
  moreover have "fst (run_cmds (\<lambda>i. False) i set_side (tr # trs) s) = fst (run_cmds (\<lambda>i. False) (Suc i) set_side trs ?s)"
    by (simp add: case_prod_beta Let_def)
  moreover have "last (sd # map crossing_side (filter (mine dev g) (tr # trs))) =
      last (?sd # map crossing_side (filter (mine dev g) trs))" by simp
  ultimately show ?case using Cons.IH [of ?s ?sd "Suc i"] by (simp only:)
qed simp

lemma evt_state: "fk_state (fst (run_cmds err i (evt_nx now) ks s)) = fk_state s"
proof (induction ks arbitrary: i s)
  case (Cons a ks)
  have "fk_state (fst (evt_nx now a s)) = fk_state s" by (simp add: evt_nx_def)
  then show ?case using Cons.IH by (cases "err i") (simp_all add: case_prod_beta Let_def)
qed simp

section \<open>Persisting\<close>

text \<open>What is asked of the calls of a batch: the registry knows the device when it answers, an INSERT that fails
  has not been executed, and the writes of the durable sides succeed. Any of the other calls may fail.\<close>

definition scoped_for :: "int \<Rightarrow> fence_calls \<Rightarrow> bool" where
  "scoped_for dev q \<longleftrightarrow>
     (case (fq_tenants q, fq_accounts q) of (Inr t, Inr a) \<Rightarrow> scope_of t a dev \<noteq> None | _ \<Rightarrow> True) \<and>
     fq_insert q \<noteq> Failed True \<and> fq_state q = PipeRuns (\<lambda>i. False)"

lemma claim_pair:
  assumes "claim_crossings q trs s = (s1, r)"
    and d: "distinct (map tr_at (filter (mine dev g) trs))"
    and f: "\<forall>tr \<in> set trs. mine dev g tr \<longrightarrow> fk_evt s (dedupKey tr) = None"
  shows "fk_state s1 = fk_state s \<and> (\<forall>k. fk_evt s1 k \<noteq> fk_evt s k \<longrightarrow> k \<in> dedupKey ` set trs) \<and>
    (\<forall>fresh ks. r = Inr (fresh, ks) \<longrightarrow> filter (mine dev g) fresh = filter (mine dev g) trs)"
proof -
  let ?ks = "map dedupKey trs"
  obtain s2 a where p: "run_pipe (fq_claim q) (evt_nx (fq_now q)) ?ks s = (s2, a)" by fastforce
  from p show ?thesis
  proof (cases rule: run_pipe_cases)
    case (runs err as)
    have s1: "s1 = s2" and r: "r = Inr (pick passes trs as, pick (\<lambda>a. a = Some True) ?ks as)"
      using assms(1) p runs by (simp_all add: claim_crossings_def)
    have s2: "s2 = fst (run_cmds err 0 (evt_nx (fq_now q)) ?ks s)" using runs by simp
    have "distinct (map dedupKey (filter (mine dev g) trs))"
      using d by (auto simp: distinct_map dedupKey_def inj_on_def)
    moreover have "\<forall>e \<in> set trs. \<forall>x \<in> set trs. mine dev g e \<and> \<not> mine dev g x \<longrightarrow> dedupKey e \<noteq> dedupKey x"
      by (auto simp: mine_def dedupKey_def)
    ultimately have "filter (mine dev g) (pick passes trs as) = filter (mine dev g) trs"
      using evt.fresh_pass [OF runs(2)] f by (auto simp: live_key_def)
    then show ?thesis
      using s1 s2 r evt_state evt.new_claims [of err 0 "fq_now q" ?ks s] by auto
  next
    case (rejects n)
    then have "s1 = fst (run_cmds (\<lambda>i. False) 0 (evt_nx (fq_now q)) (take n ?ks) s)" "r = Inl ()"
      using assms(1) p by (simp_all add: claim_crossings_def)
    then show ?thesis
      using evt_state evt.new_claims [of "\<lambda>i. False" 0 "fq_now q" "take n ?ks" s] set_take_subset [of n ?ks] by auto
  qed
qed

lemma free_evt: "fk_state (fst (issue c (free_keys ks) s)) = fk_state s \<and> (fk_evt (fst (issue c (free_keys ks) s)) k \<noteq> None \<longrightarrow> fk_evt s k \<noteq> None)"
  by (simp add: issue_def free_keys_def split: call.splits)

text \<open>What a stored batch of crossings does to a pair.\<close>

definition stored_as :: "int \<Rightarrow> string \<Rightarrow> side \<Rightarrow> side list \<Rightarrow> fence_store \<Rightarrow> fence_store \<Rightarrow> bool" where
  "stored_as dev g sd new w w' \<longleftrightarrow>
     stored_sides dev g (fs_events w') = stored_sides dev g (fs_events w) @ new \<and> durable (fs_redis w') dev g (last (sd # new))"

lemma store_pair:
  assumes "store_crossings q scope fresh ks w = (w', r)" and "scoped_for dev q" and "durable (fs_redis w) dev g sd"
  shows "stored_as dev g sd (case r of Inl u \<Rightarrow> [] | Inr p \<Rightarrow> map crossing_side (filter (mine dev g) fresh)) w w' \<and>
    (\<forall>k. fk_evt (fs_redis w') k \<noteq> None \<longrightarrow> fk_evt (fs_redis w) k \<noteq> None)"
proof -
  let ?rows = "map (\<lambda>tr. fence_row (the (scope (tr_deviceId tr))) tr) fresh"
  obtain ev n where i: "issue (fq_insert q) (writeGeofenceEvents ?rows) (fs_events w) = (ev, n)" by fastforce
  have st: "fq_state q = PipeRuns (\<lambda>i. False)" using assms(2) by (simp add: scoped_for_def)
  from i show ?thesis
  proof (cases rule: issue_cases)
    case (answered x)
    have ev: "stored_sides dev g ev = stored_sides dev g (fs_events w) @ map crossing_side (filter (mine dev g) fresh)"
      using stored_added [of dev g "\<lambda>tr. the (scope (tr_deviceId tr))" fresh "fs_events w"] answered by simp
    have "r = Inr fresh" "fs_events w' = fst (closeGeofenceStates (number (fq_close q) fresh) ev)"
      "fs_redis w' = fst (run_cmds (\<lambda>i. False) 0 set_side fresh (fs_redis w))"
      using assms(1) i answered st by (auto simp: store_crossings_def run_pipe_def case_prod_beta Let_def)
    then show ?thesis
      using ev set_sides [OF assms(3), of 0 fresh] by (simp add: stored_as_def stored_closed)
  next
    case lost
    then show ?thesis using assms(2) by (simp add: scoped_for_def)
  next
    case failed
    have "r = Inl ()" "fs_events w' = fs_events w"
      "fs_redis w' = (if ks = [] then fs_redis w else fst (issue (fq_release q) (free_keys ks) (fs_redis w)))"
      using assms(1) i failed by (auto simp: store_crossings_def case_prod_beta Let_def)
    then show ?thesis using assms(3) free_evt [of "fq_release q" ks "fs_redis w"] by (simp add: stored_as_def durable_def)
  qed
qed

lemma stored_as_none: "durable (fs_redis w) dev g sd \<Longrightarrow> stored_as dev g sd [] w w"
  by (simp add: stored_as_def)

lemma persist_pair:
  assumes p: "persist_crossings q trs w = (w', r)" and q: "scoped_for dev q" and sd: "durable (fs_redis w) dev g sd"
    and d: "distinct (map tr_at (filter (mine dev g) trs))"
    and f: "\<forall>tr \<in> set trs. mine dev g tr \<longrightarrow> fk_evt (fs_redis w) (dedupKey tr) = None"
  shows "stored_as dev g sd (case r of Inl u \<Rightarrow> [] | Inr p \<Rightarrow> map crossing_side (filter (mine dev g) trs)) w w' \<and>
    (\<forall>k. fk_evt (fs_redis w') k \<noteq> None \<longrightarrow> fk_evt (fs_redis w) k \<noteq> None \<or> k \<in> dedupKey ` set trs)"
proof (cases "trs = []")
  case True
  then show ?thesis using p stored_as_none [OF sd] by (auto simp: persist_crossings_def)
next
  case False
  show ?thesis
  proof (cases "bindE (fq_tenants q) (\<lambda>t. bindE (fq_accounts q) (\<lambda>a. Inr (t, a)))")
    case (Inl u)
    then show ?thesis using p False stored_as_none [OF sd] by (auto simp: persist_crossings_def)
  next
    case (Inr ta)
    obtain t a where ta: "ta = (t, a)" by fastforce
    with Inr have "fq_tenants q = Inr t" "fq_accounts q = Inr a" by (auto simp: bindE_def split: sum.splits)
    then have sc: "scope_of t a dev \<noteq> None" using q by (simp add: scoped_for_def)
    let ?scoped = "filter (\<lambda>tr. scope_of t a (tr_deviceId tr) \<noteq> None) trs"
    have m: "filter (mine dev g) ?scoped = filter (mine dev g) trs"
      using sc by (auto simp: mine_def intro!: filter_cong)
    obtain r1 x where c: "claim_crossings q ?scoped (fs_redis w) = (r1, x)" by fastforce
    have ds: "distinct (map tr_at (filter (mine dev g) ?scoped))" using d by (simp only: m)
    have fs: "\<forall>tr \<in> set ?scoped. mine dev g tr \<longrightarrow> fk_evt (fs_redis w) (dedupKey tr) = None" using f by simp
    note cp = claim_pair [OF c ds fs, unfolded m]
    from cp have r1: "fk_state r1 = fk_state (fs_redis w)" and fresh: "\<And>fr ks. x = Inr (fr, ks) \<Longrightarrow> filter (mine dev g) fr = filter (mine dev g) trs"
      by blast+
    have "dedupKey ` set ?scoped \<subseteq> dedupKey ` set trs" by (intro image_mono) simp
    with cp have keys: "\<forall>k. fk_evt r1 k \<noteq> fk_evt (fs_redis w) k \<longrightarrow> k \<in> dedupKey ` set trs" by blast
    let ?w = "w\<lparr>fs_redis := r1\<rparr>"
    have sd1: "durable (fs_redis ?w) dev g sd" and ev: "fs_events ?w = fs_events w"
      using sd r1 by (simp_all add: durable_def)
    have k1: "fk_evt (fs_redis w) k \<noteq> None \<or> k \<in> dedupKey ` set trs" if "fk_evt r1 k \<noteq> None" for k
      using that keys by metis
    consider (none) "?scoped = []" "w' = w" "r = Inr []"
      | (rejected) u where "x = Inl u" "w' = ?w" "r = Inl u"
      | (dup) ks where "x = Inr ([], ks)" "w' = ?w" "r = Inr []"
      | (store) fr ks where "x = Inr (fr, ks)" "store_crossings q (scope_of t a) fr ks ?w = (w', r)"
    proof (cases "?scoped = []")
      case True
      then have "w' = w" "r = Inr []" using p False Inr ta by (simp_all add: persist_crossings_def)
      with True show thesis using none by blast
    next
      case ne: False
      show thesis
      proof (cases x)
        case (Inl u)
        with c have "w' = ?w" "r = Inl u" using p False ne \<open>bindE _ _ = Inr ta\<close> ta by (simp_all add: persist_crossings_def)
        with Inl show thesis using rejected by blast
      next
        case (Inr y)
        obtain fr ks where y: "y = (fr, ks)" by fastforce
        have "(if fr = [] then (?w, Inr []) else store_crossings q (scope_of t a) fr ks ?w) = (w', r)"
          using p False ne \<open>bindE _ _ = Inr ta\<close> ta c Inr y by (simp add: persist_crossings_def)
        with Inr y show thesis using dup store by (cases "fr = []") auto
      qed
    qed
    then show ?thesis
    proof cases
      case none
      then have "filter (mine dev g) trs = []" using m by simp
      then show ?thesis using none stored_as_none [OF sd] by auto
    next
      case rejected
      then show ?thesis using stored_as_none [OF sd1] k1 by (simp add: stored_as_def)
    next
      case dup
      then have "filter (mine dev g) trs = []" using fresh by fastforce
      then show ?thesis using dup stored_as_none [OF sd1] k1 by (simp add: stored_as_def)
    next
      case store
      note sp = store_pair [OF store(2) q sd1, unfolded fresh [OF store(1)]]
      have "stored_as dev g sd new w w'" if "stored_as dev g sd new ?w w'" for new using that by (simp add: stored_as_def)
      moreover have "\<forall>k. fk_evt (fs_redis w') k \<noteq> None \<longrightarrow> fk_evt r1 k \<noteq> None" using sp by simp
      ultimately show ?thesis using sp k1 by blast
    qed
  qed
qed

section \<open>Lives\<close>

lemma loadInside_Inr:
  "loadInside r ds = Inr I \<Longrightarrow> d \<in> set ds \<Longrightarrow> \<exists>h. r = Inr h \<and> I d g = (h d g = Some ''1'')"
  by (cases ds; cases r) (auto simp: loadInside_def)

definition serves :: "int \<Rightarrow> fence_step \<Rightarrow> bool" where
  "serves dev st \<longleftrightarrow>
     (case st of
        Restart \<Rightarrow> True
      | Batch answered q records \<Rightarrow> (case answered of Inl u \<Rightarrow> True | Inr ok \<Rightarrow> ok dev) \<and> scoped_for dev q)"

definition fix_times :: "int \<Rightarrow> fence_step \<Rightarrow> int list" where
  "fix_times dev st =
     (case st of Restart \<Rightarrow> [] | Batch answered q records \<Rightarrow> map r_fixTime (filter (\<lambda>r. r_deviceId r = dev) records))"

definition tracked :: "int \<Rightarrow> string \<Rightarrow> int set \<Rightarrow> fence_run \<Rightarrow> bool" where
  "tracked dev g T x \<longleftrightarrow>
     (let written = stored_sides dev g (fs_events (fr_store x)); now = last (Out # written) in
      alternates Out written \<and> knows (fr_engine x) dev g now \<and> durable (fs_redis (fr_store x)) dev g now \<and>
      (\<forall>c t. fk_evt (fs_redis (fr_store x)) (dev, g, c, t) \<noteq> None \<longrightarrow> t \<in> T))"

lemma rollback_knows:
  assumes "alternates s (map crossing_side (filter (mine dev g) trs))" and "knows e dev g (last (s # map crossing_side (filter (mine dev g) trs)))"
    and "filter (mine dev g) trs \<noteq> [] \<longrightarrow> map_of (gs_state e) (dev, g) \<noteq> None"
  shows "knows (rollback e trs) dev g s"
proof (cases "filter (mine dev g) trs")
  case Nil
  then show ?thesis
    using assms(2) rollback_at [of trs e dev g] by (simp add: rollback_def foldl_conv_foldr knows_def mine_def [abs_def])
next
  case (Cons t ts)
  with assms(1) have "crossing_side t = opposite s" by simp
  then have "(if tr_type t = Exit then In else Out) = s"
    by (cases "tr_type t"; cases s) (simp_all add: crossing_side_def)
  then show ?thesis
    using Cons assms(3) rollback_at [of trs e dev g]
    by (simp add: rollback_def foldl_conv_foldr knows_def mine_def [abs_def] confirmed_def)
qed

lemma stored_tracked:
  assumes x: "tracked dev g T x" and st: "stored_as dev g (last (Out # stored_sides dev g (fs_events (fr_store x)))) new (fr_store x) w'"
    and new: "alternates (last (Out # stored_sides dev g (fs_events (fr_store x)))) new"
    and e: "knows e' dev g (last (last (Out # stored_sides dev g (fs_events (fr_store x))) # new))"
    and keys: "\<forall>c t. fk_evt (fs_redis w') (dev, g, c, t) \<noteq> None \<longrightarrow> t \<in> T'"
  shows "tracked dev g T' \<lparr>fr_engine = e', fr_store = w'\<rparr>"
proof -
  let ?old = "stored_sides dev g (fs_events (fr_store x))"
  have "last (Out # ?old @ new) = last (last (Out # ?old) # new)" by simp
  then show ?thesis using assms by (simp only: tracked_def stored_as_def Let_def alternates_append fence_run.simps)
qed

lemma run_eq:
  "(x :: fence_run)\<lparr>fr_engine := e\<rparr> = \<lparr>fr_engine = e, fr_store = fr_store x\<rparr>"
  "(x :: fence_run)\<lparr>fr_engine := e, fr_store := w\<rparr> = \<lparr>fr_engine = e, fr_store = w\<rparr>"
  by (cases x; simp)+

lemma batch_tracked:
  assumes G: "distinct (map gf_id (G dev))" "gf \<in> set (G dev)" and x: "tracked dev (gf_id gf) T x"
    and st: "serves dev (Batch answered q records)"
    and d: "distinct (map r_fixTime (filter (\<lambda>r. r_deviceId r = dev) records))"
    and n: "T \<inter> r_fixTime ` {r \<in> set records. r_deviceId r = dev} = {}"
  shows "tracked dev (gf_id gf) (T \<union> r_fixTime ` {r \<in> set records. r_deviceId r = dev}) (fst (fence_batch G answered q records x))"
proof -
  let ?g = "gf_id gf" and ?T = "T \<union> r_fixTime ` {r \<in> set records. r_deviceId r = dev}"
  let ?old = "stored_sides dev ?g (fs_events (fr_store x))"
  let ?now = "last (Out # ?old)"
  have know: "knows (fr_engine x) dev ?g ?now" and dur: "durable (fs_redis (fr_store x)) dev ?g ?now"
    and claims: "\<And>c t. fk_evt (fs_redis (fr_store x)) (dev, ?g, c, t) \<noteq> None \<Longrightarrow> t \<in> T"
    using x by (auto simp: tracked_def Let_def)
  have same: "tracked dev ?g ?T x" using x by (auto simp: tracked_def Let_def)
  let ?devices = "filter (\<lambda>d. G d \<noteq> []) (remdups (map r_deviceId records))"
  let ?hashes = "bindE answered (\<lambda>ok. Inr (\<lambda>d. if ok d then fk_state (fs_redis (fr_store x)) d else (\<lambda>g. None)))"
  show ?thesis
  proof (cases "loadInside ?hashes ?devices")
    case (Inl u)
    then show ?thesis using same by (simp add: fence_batch_def Let_def)
  next
    case (Inr I)
    have warm: "(if I dev ?g then In else Out) = ?now" if "dev \<in> r_deviceId ` set records"
    proof -
      have "dev \<in> set ?devices" using that G(2) by auto
      from loadInside_Inr [OF Inr this, of ?g] obtain ok where
        "answered = Inr ok" "I dev ?g = ((if ok dev then fk_state (fs_redis (fr_store x)) dev else (\<lambda>g. None)) ?g = Some ''1'')"
        by (cases answered) auto
      then show ?thesis using st dur by (cases ?now) (simp_all add: serves_def durable_def)
    qed
    obtain e1 trs where m: "motion_geo G I (fr_engine x) records = (e1, trs)" by fastforce
    let ?mine = "filter (mine dev ?g) trs"
    from feed_sides [where G = G, OF G m know] warm have alt: "alternates ?now (map crossing_side ?mine)"
      and k1: "knows e1 dev ?g (last (?now # map crossing_side ?mine))"
      and kn: "?mine \<noteq> [] \<longrightarrow> map_of (gs_state e1) (dev, ?g) \<noteq> None"
      and sub: "subseq (map tr_at ?mine) (map r_fixTime (filter (\<lambda>r. r_deviceId r = dev) records))" by blast+
    have at: "tr_at ` set ?mine \<subseteq> r_fixTime ` {r \<in> set records. r_deviceId r = dev}"
      using subseq_set_mono [OF sub] by simp
    show ?thesis
    proof (cases "trs = []")
      case True
      have "tracked dev ?g ?T \<lparr>fr_engine = e1, fr_store = fr_store x\<rparr>"
        using stored_tracked [OF same, of "[]" "fr_store x" e1 ?T] k1 True stored_as_none [OF dur] claims by auto
      then show ?thesis using Inr m True by (simp add: fence_batch_def Let_def run_eq)
    next
      case False
      obtain w1 r where p: "persist_crossings q trs (fr_store x) = (w1, r)" by fastforce
      have f: "\<forall>tr \<in> set trs. mine dev ?g tr \<longrightarrow> fk_evt (fs_redis (fr_store x)) (dedupKey tr) = None"
      proof (intro ballI impI)
        fix tr assume tr: "tr \<in> set trs" "mine dev ?g tr"
        then have "tr_at tr \<notin> T" using at n by auto
        then have "fk_evt (fs_redis (fr_store x)) (dev, ?g, tr_type tr, tr_at tr) = None" using claims by blast
        then show "fk_evt (fs_redis (fr_store x)) (dedupKey tr) = None" using tr(2) by (simp add: dedupKey_def mine_def)
      qed
      have ds: "distinct (map tr_at ?mine)" using sub d by (rule subseq_distinct)
      have "scoped_for dev q" using st by (simp add: serves_def)
      from persist_pair [OF p this dur ds f] have
        s: "stored_as dev ?g ?now (case r of Inl u \<Rightarrow> [] | Inr p \<Rightarrow> map crossing_side ?mine) (fr_store x) w1"
        and ks: "\<And>k. fk_evt (fs_redis w1) k \<noteq> None \<Longrightarrow> fk_evt (fs_redis (fr_store x)) k \<noteq> None \<or> k \<in> dedupKey ` set trs"
        by blast+
      have keys: "\<forall>c t. fk_evt (fs_redis w1) (dev, ?g, c, t) \<noteq> None \<longrightarrow> t \<in> ?T"
      proof (intro allI impI)
        fix c t assume "fk_evt (fs_redis w1) (dev, ?g, c, t) \<noteq> None"
        from ks [OF this] show "t \<in> ?T"
        proof
          assume "(dev, ?g, c, t) \<in> dedupKey ` set trs"
          then have "t \<in> tr_at ` set ?mine" by (force simp: dedupKey_def mine_def)
          then show ?thesis using at by blast
        qed (use claims in blast)
      qed
      show ?thesis
      proof (cases r)
        case (Inl u)
        have "tracked dev ?g ?T \<lparr>fr_engine = rollback e1 trs, fr_store = w1\<rparr>"
          using stored_tracked [OF same, of "[]" w1 "rollback e1 trs" ?T] s Inl keys rollback_knows [OF alt k1 kn] by simp
        then show ?thesis using Inr m False p Inl by (simp add: fence_batch_def Let_def run_eq)
      next
        case (Inr ps)
        have "tracked dev ?g ?T \<lparr>fr_engine = e1, fr_store = w1\<rparr>"
          using stored_tracked [OF same, of "map crossing_side ?mine" w1 e1 ?T] s Inr keys alt k1 by simp
        then show ?thesis using \<open>loadInside ?hashes ?devices = Inr I\<close> m False p Inr by (simp add: fence_batch_def Let_def run_eq)
      qed
    qed
  qed
qed

lemma life_tracked:
  assumes G: "distinct (map gf_id (G dev))" "gf \<in> set (G dev)"
  shows "tracked dev (gf_id gf) T x \<Longrightarrow> list_all (serves dev) steps \<Longrightarrow> distinct (concat (map (fix_times dev) steps)) \<Longrightarrow>
    T \<inter> set (concat (map (fix_times dev) steps)) = {} \<Longrightarrow>
    tracked dev (gf_id gf) (T \<union> set (concat (map (fix_times dev) steps))) (fence_life G n m steps x)"
proof (induction steps arbitrary: x T)
  case (Cons st steps)
  let ?T = "T \<union> set (fix_times dev st)"
  have one: "tracked dev (gf_id gf) ?T (fence_next G n m st x)"
  proof (cases st)
    case (Batch answered q records)
    have "fence_next G n m st x = fst (fence_batch G answered q records x)" "set (fix_times dev st) = r_fixTime ` {r \<in> set records. r_deviceId r = dev}"
      by (simp_all add: Batch fence_next_def fix_times_def)
    moreover have "distinct (map r_fixTime (filter (\<lambda>r. r_deviceId r = dev) records))"
      using Cons.prems(3) by (simp add: Batch fix_times_def)
    ultimately show ?thesis
      using batch_tracked [where G = G, OF G Cons.prems(1), of answered q records] Cons.prems(2,4) by (auto simp: Batch)
  next
    case Restart
    then show ?thesis
      using Cons.prems(1) by (simp add: fence_next_def fix_times_def tracked_def knows_def new_geofence_engine_def Let_def)
  qed
  have "tracked dev (gf_id gf) (?T \<union> set (concat (map (fix_times dev) steps))) (fence_life G n m steps (fence_next G n m st x))"
    by (rule Cons.IH [OF one]) (use Cons.prems in auto)
  then show ?case by (simp add: fence_life_def Un_assoc)
qed (simp add: fence_life_def)


definition fence_calls_ok :: "call \<Rightarrow> fence_calls" where
  "fence_calls_ok c = \<lparr>fq_tenants = Inr (\<lambda>d. Some ''t''), fq_accounts = Inr (\<lambda>d. Some ''a''), fq_now = 0,
     fq_claim = PipeRuns (\<lambda>i. False), fq_insert = c, fq_close = (\<lambda>i. Failed False), fq_release = Answered,
     fq_state = PipeRuns (\<lambda>i. False)\<rparr>"


section \<open>A fix delivered twice\<close>

text \<open>The engine drops a record older than the newest it has seen, not one of the same time; the newest record of a
  redelivered batch counts again towards the streak, and one fix inside confirms a crossing that needs two.\<close>

lemma redelivered_fix_counts_twice:
  "map crossing_side (snd (geo_feed (\<lambda>_. [depot]) (\<lambda>_ _. False)
     (fst (geo_feed (\<lambda>_. [depot]) (\<lambda>_ _. False) (new_geofence_engine 2 2) [fix_at 1 1 1])) [fix_at 1 1 1])) = [In]"
  using depot_sides
  by (simp add: geo_feed_def geo_record_def accepts_def fence_step_def pair_step_def pair_of_def transition_of_def
      new_geofence_engine_def add_pair_def confirmed_def isClockSkewed_def MAX_CLOCK_SKEW_MS_def crossing_side_def
      prune_def Let_def update_conv')

end
