(* ===== verification/Recompute.thy ===== *)
theory Recompute
  imports TripRows
begin

text \<open>
  apps/worker/src/trip/recompute.ts: the authoritative rebuild of a device's closed trips from its stored positions.
  The three reads see the tables of their moments, which are arguments; the transaction changes the table at once,
  except that what other transactions commit between its inserts and its last DELETE is an argument too
  (\<open>rb_mid\<close>). Among positions of equal fix time the query's order is the order of storage.
\<close>

section \<open>Limits\<close>

definition POSITIONS_RETENTION_MS :: int where
  "POSITIONS_RETENTION_MS = 13 * 30 * 24 * 3600 * 1000"

definition MAX_RECOMPUTE_WINDOW_MS :: int where
  "MAX_RECOMPUTE_WINDOW_MS = 14 * 24 * 3600 * 1000"

definition MAX_RECOMPUTE_ROWS :: nat where
  "MAX_RECOMPUTE_ROWS = 200000"

datatype skip_reason = BelowRetention | TooManyPositions

record recompute_result =
  rr_deleted :: nat
  rr_created :: nat
  rr_skipped :: "skip_reason option"
  rr_truncated :: bool

section \<open>Positions\<close>

record position_row =
  po_device :: int
  po_fixTime :: int
  po_serverTime :: "int option"
  po_lat :: real
  po_lon :: real
  po_altitude :: "int option"
  po_speed :: "int option"
  po_course :: "int option"
  po_satellites :: "int option"
  po_fixValid :: bool
  po_ignition :: "bool option"
  po_movement :: "bool option"
  po_odometerM :: "int option"

definition toRecord :: "int \<Rightarrow> position_row \<Rightarrow> nrec" where
  "toRecord dev p =
     \<lparr>r_deviceId = dev, r_fixTime = po_fixTime p,
      r_serverTime = (case po_serverTime p of None \<Rightarrow> po_fixTime p | Some t \<Rightarrow> t),
      r_lat = po_lat p, r_lon = po_lon p, r_altitude = po_altitude p, r_speed = po_speed p, r_course = po_course p,
      r_satellites = (case po_satellites p of None \<Rightarrow> 0 | Some n \<Rightarrow> n), r_fixValid = po_fixValid p,
      r_ignition = po_ignition p, r_movement = po_movement p, r_odometerM = po_odometerM p,
      r_priority = 0, r_recHash = 0, r_attrs = []\<rparr>"

section \<open>The span that is replaced\<close>

definition row_end :: "trip_row \<Rightarrow> int" where
  "row_end r = (case tr_end r of None \<Rightarrow> tr_start r | Some (t, la, lo) \<Rightarrow> t)"

definition closed_of :: "int \<Rightarrow> trip_row \<Rightarrow> bool" where
  "closed_of dev r \<longleftrightarrow> tr_device r = dev \<and> \<not> tr_open r"

definition trip_bounds :: "int \<Rightarrow> int \<Rightarrow> int \<Rightarrow> trip_row list \<Rightarrow> (int \<times> int) option" where
  "trip_bounds dev from until rows =
     (case filter (\<lambda>r. closed_of dev r \<and> tr_start r \<le> until \<and> from \<le> row_end r) rows of
        [] \<Rightarrow> None
      | r # rs \<Rightarrow> Some (Min (tr_start ` set (r # rs)), Max (row_end ` set (r # rs))))"

record core_span =
  cs_from :: int
  cs_to :: int
  cs_truncated :: bool

definition core_of :: "int \<Rightarrow> int \<Rightarrow> int \<Rightarrow> (int \<times> int) option \<Rightarrow> core_span option" where
  "core_of now from until bounds =
     (let rawCoreFrom = (case bounds of None \<Rightarrow> from | Some (lo, hi) \<Rightarrow> if lo < from then lo else from);
          coreTo = (case bounds of None \<Rightarrow> until | Some (lo, hi) \<Rightarrow> if until < hi then hi else until);
          retentionFloor = now - POSITIONS_RETENTION_MS; widthFloor = coreTo - MAX_RECOMPUTE_WINDOW_MS;
          floor = (if retentionFloor < widthFloor then widthFloor else retentionFloor); truncated = rawCoreFrom < floor in
      if coreTo \<le> retentionFloor then None
      else Some \<lparr>cs_from = (if truncated then floor else rawCoreFrom), cs_to = coreTo, cs_truncated = truncated\<rparr>)"

definition in_core :: "core_span \<Rightarrow> int \<Rightarrow> bool" where
  "in_core c t \<longleftrightarrow> cs_from c \<le> t \<and> t \<le> cs_to c"

definition marginMs :: "thresholds \<Rightarrow> real" where
  "marginMs t = (max (parkedIgnitionOffS t) (parkedStopS t) + 120) * 1000"

text \<open>\<open>new Date(x)\<close>: whole milliseconds, or an invalid date, which no query accepts.\<close>

definition to_date :: "real \<Rightarrow> int option" where
  "to_date x = (if \<bar>x\<bar> \<le> 8640000000000000 then Some (if 0 \<le> x then \<lfloor>x\<rfloor> else \<lceil>x\<rceil>) else None)"

definition read_positions :: "int \<Rightarrow> int \<Rightarrow> int \<Rightarrow> position_row list \<Rightarrow> position_row list" where
  "read_positions dev readFrom readTo ps =
     take (MAX_RECOMPUTE_ROWS + 1)
       (sort_key po_fixTime (filter (\<lambda>p. po_device p = dev \<and> readFrom \<le> po_fixTime p \<and> po_fixTime p \<le> readTo) ps))"

text \<open>The row cap: what is kept of the read, and the span pulled back to what it covers.\<close>

definition cap_rows :: "real \<Rightarrow> core_span \<Rightarrow> position_row list \<Rightarrow> (position_row list \<times> core_span \<times> bool) option reply" where
  "cap_rows margin c rows =
     (if length rows \<le> MAX_RECOMPUTE_ROWS then Inr (Some (rows, c, False))
      else let kept = take MAX_RECOMPUTE_ROWS rows in
        case to_date (of_int (po_fixTime (last kept)) - margin) of
          None \<Rightarrow> Inl ()
        | Some t \<Rightarrow> Inr (if t \<le> cs_from c then None else Some (kept, c\<lparr>cs_to := t\<rparr>, True)))"

section \<open>The rebuild\<close>

definition rebuilt :: "trip_config \<Rightarrow> int \<Rightarrow> core_span \<Rightarrow> position_row list \<Rightarrow> close_event list" where
  "rebuilt config dev c rows =
     List.map_filter
       (\<lambda>ev. case ev of TripOpen o1 \<Rightarrow> None | TripClose ce \<Rightarrow> if in_core c (ce_startTime ce) then Some ce else None)
       (snd (trip_feed (\<lambda>d. Some config) (new_trip_engine (thr config)) (map (toRecord dev) rows)))"

definition rebuilt_row :: "string \<times> string \<Rightarrow> int \<Rightarrow> nat \<Rightarrow> close_event \<Rightarrow> trip_row" where
  "rebuilt_row scope dev i ce =
     \<lparr>tr_id = i, tr_tenant = fst scope, tr_account = snd scope, tr_device = dev, tr_open = False,
      tr_start = ce_startTime ce, tr_startLat = ce_startLat ce, tr_startLon = ce_startLon ce,
      tr_end = Some (ce_endTime ce, ce_endLat ce, ce_endLon ce), tr_distanceM = clampInt4 (ce_distanceM ce),
      tr_source = ce_distanceSource ce, tr_maxSpeed = clampInt4 (ce_maxSpeed ce), tr_idleS = clampInt4 (ce_idleS ce),
      tr_driver = None\<rparr>"

section \<open>The transaction\<close>

definition old_drivers :: "int \<Rightarrow> core_span \<Rightarrow> trip_row list \<Rightarrow> trip_row list" where
  "old_drivers dev c rows =
     sort_key tr_start (filter (\<lambda>r. closed_of dev r \<and> in_core c (tr_start r) \<and> tr_driver r \<noteq> None) rows)"

definition is_doomed :: "int \<Rightarrow> nat list \<Rightarrow> trip_row \<Rightarrow> bool" where
  "is_doomed dev ids r \<longleftrightarrow> tr_id r \<in> set ids \<and> closed_of dev r"

definition insert_trips :: "string \<times> string \<Rightarrow> int \<Rightarrow> close_event list \<Rightarrow> trip_db \<Rightarrow> trip_db \<times> nat list" where
  "insert_trips scope dev trips db =
     (let ids = [td_next db..<td_next db + length trips] in
      (db\<lparr>td_rows := td_rows db @ map (\<lambda>(i, ce). rebuilt_row scope dev i ce) (zip ids trips),
          td_next := td_next db + length trips\<rparr>, ids))"

definition is_displaced :: "int \<Rightarrow> int list \<Rightarrow> nat list \<Rightarrow> trip_row \<Rightarrow> bool" where
  "is_displaced dev starts inserted r \<longleftrightarrow> tr_device r = dev \<and> tr_start r \<in> set starts \<and> tr_id r \<notin> set inserted"

definition carry_driver :: "int \<Rightarrow> trip_row \<Rightarrow> trip_row list \<Rightarrow> trip_row list" where
  "carry_driver dev old rows =
     map (\<lambda>r. if closed_of dev r \<and> tr_driver r = None \<and> tr_start old \<le> tr_start r \<and> tr_start r \<le> row_end old
              then r\<lparr>tr_driver := tr_driver old\<rparr> else r) rows"

definition replace_trips ::
  "string \<times> string \<Rightarrow> int \<Rightarrow> core_span \<Rightarrow> nat list \<Rightarrow> close_event list \<Rightarrow> (trip_db \<Rightarrow> trip_db) \<Rightarrow> trip_db \<Rightarrow> trip_db \<times> nat" where
  "replace_trips scope dev c ids trips mid db =
     (let drivers = old_drivers dev c (td_rows db);
          doomed = filter (is_doomed dev ids) (td_rows db);
          db1 = db\<lparr>td_rows := filter (\<lambda>r. \<not> is_doomed dev ids r) (td_rows db)\<rparr>;
          (db2, inserted) = insert_trips scope dev trips db1;
          db3 = mid db2;
          displaced = filter (is_displaced dev (map ce_startTime trips) inserted) (td_rows db3);
          rows = filter (\<lambda>r. \<not> is_displaced dev (map ce_startTime trips) inserted r) (td_rows db3) in
      (db3\<lparr>td_rows := fold (carry_driver dev) drivers rows\<rparr>, length doomed + length displaced))"

section \<open>The job\<close>

record recompute_calls =
  rb_now :: int
  rb_bounds :: "trip_row list reply"
  rb_existing :: "trip_row list reply"
  rb_positions :: "position_row list reply"
  rb_mid :: "trip_db \<Rightarrow> trip_db"
  rb_commit :: call

definition no_recompute :: "skip_reason \<Rightarrow> recompute_result" where
  "no_recompute why = \<lparr>rr_deleted = 0, rr_created = 0, rr_skipped = Some why, rr_truncated = False\<rparr>"

text \<open>The reads: what is to be deleted and what is to be inserted.\<close>

datatype recompute_plan = Skip skip_reason | Replace core_span "nat list" "close_event list" bool

definition plan_recompute :: "recompute_calls \<Rightarrow> trip_config \<Rightarrow> int \<Rightarrow> int \<Rightarrow> int \<Rightarrow> recompute_plan reply" where
  "plan_recompute q config dev from until =
     bindE (rb_bounds q) (\<lambda>rows0.
       case core_of (rb_now q) from until (trip_bounds dev from until rows0) of
         None \<Rightarrow> Inr (Skip BelowRetention)
       | Some c \<Rightarrow>
           (let margin = marginMs (thr config) in
            bindE (rb_existing q) (\<lambda>rows1.
              let existing = filter (\<lambda>r. closed_of dev r \<and> in_core c (tr_start r)) rows1 in
              case (to_date (of_int (cs_from c) - margin), to_date (of_int (cs_to c) + margin)) of
                (Some readFrom, Some readTo) \<Rightarrow>
                  bindE (rb_positions q) (\<lambda>ps.
                  bindE (cap_rows margin c (read_positions dev readFrom readTo ps)) (\<lambda>x. Inr
                    (case x of
                      None \<Rightarrow> Skip TooManyPositions
                    | Some (rows, c', capped) \<Rightarrow>
                        Replace c' (map tr_id (filter (\<lambda>r. tr_start r \<le> cs_to c') existing))
                          (rebuilt config dev c' rows) (cs_truncated c \<or> capped))))
              | _ \<Rightarrow> Inl ())))"

definition recomputeTrips ::
  "recompute_calls \<Rightarrow> string \<times> string \<Rightarrow> trip_config \<Rightarrow> int \<Rightarrow> int \<Rightarrow> int \<Rightarrow> trip_db \<Rightarrow> trip_db \<times> recompute_result reply" where
  "recomputeTrips q scope config dev from until db =
     (case plan_recompute q config dev from until of
        Inl u \<Rightarrow> (db, Inl u)
      | Inr (Skip why) \<Rightarrow> (db, Inr (no_recompute why))
      | Inr (Replace c ids trips truncated) \<Rightarrow>
          (let (db', r) = issue (rb_commit q) (replace_trips scope dev c ids trips (rb_mid q)) db in
           (db', bindE r (\<lambda>n. Inr \<lparr>rr_deleted = n, rr_created = length trips, rr_skipped = None, rr_truncated = truncated\<rparr>))))"

end
