(* ===== verification/Rebuild.thy ===== *)
theory Rebuild
  imports Recompute
begin

text \<open>
  What a recompute does to the table of trips: exactly which rows it replaces, what it never touches whatever
  happens beside it, that a second run changes nothing, and the case in which the row cap loses a trip.
\<close>

lemma in_map_filter: "x \<in> set (List.map_filter f xs) \<longleftrightarrow> (\<exists>y \<in> set xs. f y = Some x)"
  by (force simp: List.map_filter_def)

section \<open>The span\<close>

lemma core_of_bounds:
  assumes "core_of now from until b = Some c"
  shows "cs_to c - cs_from c \<le> MAX_RECOMPUTE_WINDOW_MS \<and> now - POSITIONS_RETENTION_MS \<le> cs_from c"
  using assms by (auto simp: core_of_def Let_def split: if_splits)

lemma plan_Replace:
  assumes "plan_recompute q config dev from until = Inr (Replace c ids trips t)"
  obtains rows0 rows1 ps c0 readFrom readTo rows capped where
    "rb_bounds q = Inr rows0" "core_of (rb_now q) from until (trip_bounds dev from until rows0) = Some c0"
    "rb_existing q = Inr rows1" "rb_positions q = Inr ps"
    "to_date (of_int (cs_from c0) - marginMs (thr config)) = Some readFrom"
    "to_date (of_int (cs_to c0) + marginMs (thr config)) = Some readTo"
    "cap_rows (marginMs (thr config)) c0 (read_positions dev readFrom readTo ps) = Inr (Some (rows, c, capped))"
    "ids = map tr_id (filter (\<lambda>r. tr_start r \<le> cs_to c) (filter (\<lambda>r. closed_of dev r \<and> in_core c0 (tr_start r)) rows1))"
    "trips = rebuilt config dev c rows" "t = (cs_truncated c0 \<or> capped)"
  using assms
  by (auto simp: plan_recompute_def bindE_def Let_def split: sum.splits option.splits prod.splits)

lemma cap_rows_core:
  assumes "cap_rows m c rows = Inr (Some (rows', c', capped))"
  shows "cs_from c' = cs_from c \<and> (cs_to c' = cs_to c \<or> capped) \<and> rows' = take MAX_RECOMPUTE_ROWS rows"
  using assms by (auto simp: cap_rows_def Let_def split: if_splits option.splits)

section \<open>Drivers\<close>

text \<open>The driver a row gets from the old rows: the first whose window holds its start.\<close>

definition inherit :: "int \<Rightarrow> trip_row list \<Rightarrow> trip_row \<Rightarrow> trip_row" where
  "inherit dev olds r =
     (if closed_of dev r \<and> tr_driver r = None
      then r\<lparr>tr_driver := Option.bind (find (\<lambda>o1. tr_start o1 \<le> tr_start r \<and> tr_start r \<le> row_end o1) olds) tr_driver\<rparr>
      else r)"

lemma closed_of_driver [simp]: "closed_of dev (r\<lparr>tr_driver := d\<rparr>) = closed_of dev r"
  by (simp add: closed_of_def)

lemma carry_fold:
  "list_all (\<lambda>o1. tr_driver o1 \<noteq> None) olds \<Longrightarrow> fold (carry_driver dev) olds rows = map (inherit dev olds) rows"
proof (induction olds arbitrary: rows)
  case Nil
  have "inherit dev [] r = r" for r by (cases r) (simp add: inherit_def)
  then show ?case by (simp add: map_idI)
next
  case (Cons o1 olds)
  let ?step = "\<lambda>r. if closed_of dev r \<and> tr_driver r = None \<and> tr_start o1 \<le> tr_start r \<and> tr_start r \<le> row_end o1
    then r\<lparr>tr_driver := tr_driver o1\<rparr> else r"
  obtain d where d: "tr_driver o1 = Some d" using Cons.prems by auto
  have "inherit dev olds (?step r) = inherit dev (o1 # olds) r" for r
  proof (cases "closed_of dev r \<and> tr_driver r = None \<and> tr_start o1 \<le> tr_start r \<and> tr_start r \<le> row_end o1")
    case True
    then show ?thesis by (simp add: inherit_def d)
  next
    case False
    have "inherit dev (o1 # olds) r = inherit dev olds r"
    proof (cases "closed_of dev r \<and> tr_driver r = None")
      case True
      with False have "\<not> (tr_start o1 \<le> tr_start r \<and> tr_start r \<le> row_end o1)" by blast
      then have "find (\<lambda>o1. tr_start o1 \<le> tr_start r \<and> tr_start r \<le> row_end o1) (o1 # olds) =
          find (\<lambda>o1. tr_start o1 \<le> tr_start r \<and> tr_start r \<le> row_end o1) olds" by (simp only: find.simps if_False)
      then show ?thesis by (simp only: inherit_def)
    next
      case f: False
      show ?thesis by (simp only: inherit_def if_not_P [OF f])
    qed
    then show ?thesis by (simp only: if_not_P [OF False])
  qed
  then have "map (inherit dev olds) (map ?step rows) = map (inherit dev (o1 # olds)) rows" by (simp only: map_map comp_def)
  moreover have "fold (carry_driver dev) (o1 # olds) rows = fold (carry_driver dev) olds (map ?step rows)"
    by (simp only: fold_simps comp_apply carry_driver_def)
  moreover have "list_all (\<lambda>o1. tr_driver o1 \<noteq> None) olds" using Cons.prems by simp
  ultimately show ?case using Cons.IH [of "map ?step rows"] by (simp only:)
qed

lemma old_drivers_have: "list_all (\<lambda>o1. tr_driver o1 \<noteq> None) (old_drivers dev c rows)"
  by (simp add: old_drivers_def list_all_iff)

lemma inherit_fields [simp]:
  "tr_id (inherit dev olds r) = tr_id r" "tr_device (inherit dev olds r) = tr_device r"
  "tr_open (inherit dev olds r) = tr_open r" "tr_start (inherit dev olds r) = tr_start r"
  "closed_of dev' (inherit dev olds r) = closed_of dev' r" "tr_end (inherit dev olds r) = tr_end r"
  by (simp_all add: inherit_def)

section \<open>What is never touched\<close>

lemma replace_keeps:
  assumes mid: "\<And>d. set (td_rows d) \<subseteq> set (td_rows (mid d))" and x: "x \<in> set (td_rows db)"
    and n: "\<not> is_doomed dev ids x" and s: "tr_device x = dev \<longrightarrow> tr_start x \<notin> ce_startTime ` set trips"
  shows "inherit dev (old_drivers dev c (td_rows db)) x \<in> set (td_rows (fst (replace_trips scope dev c ids trips mid db)))"
proof -
  let ?db1 = "db\<lparr>td_rows := filter (\<lambda>r. \<not> is_doomed dev ids r) (td_rows db)\<rparr>"
  let ?db2 = "fst (insert_trips scope dev trips ?db1)"
  have "x \<in> set (td_rows ?db2)" using x n by (simp add: insert_trips_def Let_def)
  then have "x \<in> set (td_rows (mid ?db2))" using mid by blast
  moreover have "\<not> is_displaced dev (map ce_startTime trips) i x" for i using s by (auto simp: is_displaced_def)
  ultimately show ?thesis
    by (simp add: replace_trips_def Let_def case_prod_beta carry_fold [OF old_drivers_have])
qed


section \<open>What is replaced\<close>

definition kept_row :: "int \<Rightarrow> core_span \<Rightarrow> close_event list \<Rightarrow> trip_row \<Rightarrow> bool" where
  "kept_row dev c trips r \<longleftrightarrow>
     \<not> (tr_device r = dev \<and> (\<not> tr_open r \<and> in_core c (tr_start r) \<or> tr_start r \<in> ce_startTime ` set trips))"

definition new_rows :: "string \<times> string \<Rightarrow> int \<Rightarrow> nat \<Rightarrow> close_event list \<Rightarrow> trip_row list" where
  "new_rows scope dev i trips = map (\<lambda>(i, ce). rebuilt_row scope dev i ce) (zip [i..<i + length trips] trips)"

lemma new_row:
  assumes "x \<in> set (new_rows scope dev i trips)"
  shows "tr_device x = dev \<and> \<not> tr_open x \<and> tr_start x \<in> ce_startTime ` set trips \<and> i \<le> tr_id x \<and> tr_id x < i + length trips"
proof -
  from assms obtain j ce where "(j, ce) \<in> set (zip [i..<i + length trips] trips)" "x = rebuilt_row scope dev j ce"
    by (auto simp: new_rows_def)
  then show ?thesis by (auto simp: rebuilt_row_def dest: set_zip_leftD set_zip_rightD)
qed

lemma rebuilt_in_core: "ce \<in> set (rebuilt config dev c rows) \<Longrightarrow> in_core c (ce_startTime ce)"
  by (auto simp: rebuilt_def List.map_filter_def split: trip_event.splits if_splits)

lemma replace_quiet:
  assumes ids: "\<And>r. r \<in> set (td_rows db) \<Longrightarrow> is_doomed dev ids r = (closed_of dev r \<and> in_core c (tr_start r))"
    and core: "\<And>ce. ce \<in> set trips \<Longrightarrow> in_core c (ce_startTime ce)"
    and fresh: "\<And>r. r \<in> set (td_rows db) \<Longrightarrow> tr_id r < td_next db"
  shows "td_rows (fst (replace_trips scope dev c ids trips (\<lambda>d. d) db)) =
    map (inherit dev (old_drivers dev c (td_rows db))) (filter (kept_row dev c trips) (td_rows db) @ new_rows scope dev (td_next db) trips)"
proof -
  let ?starts = "map ce_startTime trips" and ?ins = "[td_next db..<td_next db + length trips]"
  have a: "(\<not> is_displaced dev ?starts ?ins r \<and> \<not> is_doomed dev ids r) = kept_row dev c trips r" if "r \<in> set (td_rows db)" for r
    using fresh [OF that] ids [OF that] by (auto simp: is_displaced_def kept_row_def closed_of_def)
  have "filter (\<lambda>r. \<not> is_displaced dev ?starts ?ins r) (filter (\<lambda>r. \<not> is_doomed dev ids r) (td_rows db)) =
      filter (kept_row dev c trips) (td_rows db)"
    unfolding filter_filter using a by (auto intro: filter_cong)
  moreover have "filter (\<lambda>r. \<not> is_displaced dev ?starts ?ins r) (new_rows scope dev (td_next db) trips) = new_rows scope dev (td_next db) trips"
    using new_row [of _ scope dev "td_next db" trips] by (auto simp: is_displaced_def filter_id_conv)
  ultimately show ?thesis
    by (simp add: replace_trips_def insert_trips_def Let_def carry_fold [OF old_drivers_have] new_rows_def)
qed

text \<open>Nothing else writes trips: the reads are of the table as it is, the transaction is answered.\<close>

definition quiet :: "recompute_calls \<Rightarrow> trip_db \<Rightarrow> bool" where
  "quiet q db \<longleftrightarrow>
     rb_bounds q = Inr (td_rows db) \<and> rb_existing q = Inr (td_rows db) \<and> rb_mid q = (\<lambda>d. d) \<and> rb_commit q = Answered"

definition numbered :: "trip_db \<Rightarrow> bool" where
  "numbered db \<longleftrightarrow> distinct (map tr_id (td_rows db)) \<and> (\<forall>r \<in> set (td_rows db). tr_id r < td_next db)"

lemma to_date_le: "to_date x = Some t \<Longrightarrow> x \<le> of_int n \<Longrightarrow> t \<le> n"
  by (auto simp: to_date_def ceiling_le_iff split: if_splits) linarith

lemma capped_to:
  assumes c0: "core_of now from until b = Some c0" and now: "POSITIONS_RETENTION_MS \<le> now" and th: "thr_ok th"
    and t: "to_date (of_int (cs_to c0) + marginMs th) = Some readTo"
    and c: "cap_rows (marginMs th) c0 (read_positions dev readFrom readTo ps) = Inr (Some (rows, c, capped))"
  shows "cs_to c \<le> cs_to c0"
proof (cases "length (read_positions dev readFrom readTo ps) \<le> MAX_RECOMPUTE_ROWS")
  case True
  then show ?thesis using c by (simp add: cap_rows_def)
next
  case False
  let ?kept = "take MAX_RECOMPUTE_ROWS (read_positions dev readFrom readTo ps)"
  obtain u where u: "to_date (of_int (po_fixTime (last ?kept)) - marginMs th) = Some u" "c = c0\<lparr>cs_to := u\<rparr>"
    using c False by (auto simp: cap_rows_def Let_def split: option.splits if_splits)
  have "0 \<le> parkedIgnitionOffS th" using th by (simp add: thr_ok_def)
  then have m: "0 \<le> marginMs th" by (simp add: marginMs_def)
  have "0 \<le> cs_to c0" using c0 now by (auto simp: core_of_def Let_def split: if_splits)
  then have rt: "of_int readTo \<le> of_int (cs_to c0) + marginMs th" using t m by (auto simp: to_date_def split: if_splits)
  have "?kept \<noteq> []" using False by (auto simp: MAX_RECOMPUTE_ROWS_def)
  then have "last ?kept \<in> set (read_positions dev readFrom readTo ps)" by (meson in_set_takeD last_in_set)
  then have "po_fixTime (last ?kept) \<le> readTo" by (auto simp: read_positions_def dest: in_set_takeD)
  with rt have "of_int (po_fixTime (last ?kept)) - marginMs th \<le> of_int (cs_to c0)" by linarith
  from to_date_le [OF u(1) this] u(2) show ?thesis by simp
qed

lemma plan_ids:
  assumes p: "plan_recompute q config dev from until = Inr (Replace c ids trips t)" and q: "quiet q db" and n: "numbered db"
    and now: "POSITIONS_RETENTION_MS \<le> rb_now q" and th: "thr_ok (thr config)" and r: "r \<in> set (td_rows db)"
  shows "is_doomed dev ids r = (closed_of dev r \<and> in_core c (tr_start r))"
  using p
proof (rule plan_Replace)
  fix rows0 rows1 ps c0 readFrom readTo rows capped
  assume c0: "core_of (rb_now q) from until (trip_bounds dev from until rows0) = Some c0"
    and ex: "rb_existing q = Inr rows1"
    and rt: "to_date (of_int (cs_to c0) + marginMs (thr config)) = Some readTo"
    and cap: "cap_rows (marginMs (thr config)) c0 (read_positions dev readFrom readTo ps) = Inr (Some (rows, c, capped))"
    and ids: "ids = map tr_id (filter (\<lambda>r. tr_start r \<le> cs_to c) (filter (\<lambda>r. closed_of dev r \<and> in_core c0 (tr_start r)) rows1))"
  have "cs_from c = cs_from c0" "cs_to c \<le> cs_to c0" using cap_rows_core [OF cap] capped_to [OF c0 now th rt cap] by simp_all
  then have core: "tr_start x \<le> cs_to c \<and> in_core c0 (tr_start x) \<longleftrightarrow> in_core c (tr_start x)" for x by (auto simp: in_core_def)
  have rows1: "rows1 = td_rows db" using ex q by (simp add: quiet_def)
  have i: "inj_on tr_id (set (td_rows db))" using n by (simp add: numbered_def distinct_map)
  have "set ids = tr_id ` {x \<in> set (td_rows db). closed_of dev x \<and> in_core c (tr_start x)}"
    unfolding ids rows1 set_map set_filter using core by auto
  then have "tr_id r \<in> set ids \<longleftrightarrow> closed_of dev r \<and> in_core c (tr_start r)" using i r by (auto simp: inj_on_def)
  then show ?thesis by (auto simp: is_doomed_def)
qed

lemma recompute_quiet:
  assumes run: "recomputeTrips q scope config dev from until db = (db', r)" and q: "quiet q db" and n: "numbered db"
    and now: "POSITIONS_RETENTION_MS \<le> rb_now q" and th: "thr_ok (thr config)"
    and p: "plan_recompute q config dev from until = Inr (Replace c ids trips t)"
  shows "td_rows db' = map (inherit dev (old_drivers dev c (td_rows db)))
      (filter (kept_row dev c trips) (td_rows db) @ new_rows scope dev (td_next db) trips)"
    and "td_next db' = td_next db + length trips"
    and "\<exists>n. r = Inr \<lparr>rr_deleted = n, rr_created = length trips, rr_skipped = None, rr_truncated = t\<rparr>"
    and "\<And>ce. ce \<in> set trips \<Longrightarrow> in_core c (ce_startTime ce)"
proof -
  from p obtain rows where tr: "trips = rebuilt config dev c rows" by (rule plan_Replace) blast
  then show core: "\<And>ce. ce \<in> set trips \<Longrightarrow> in_core c (ce_startTime ce)" by (simp add: rebuilt_in_core)
  have run': "db' = fst (replace_trips scope dev c ids trips (\<lambda>d. d) db)"
    "r = Inr \<lparr>rr_deleted = snd (replace_trips scope dev c ids trips (\<lambda>d. d) db), rr_created = length trips, rr_skipped = None, rr_truncated = t\<rparr>"
    using run p q by (simp_all add: recomputeTrips_def quiet_def issue_answered)
  show "td_rows db' = map (inherit dev (old_drivers dev c (td_rows db)))
      (filter (kept_row dev c trips) (td_rows db) @ new_rows scope dev (td_next db) trips)"
    unfolding run'(1) by (rule replace_quiet [OF plan_ids [OF p q n now th] core]) (use n in \<open>simp_all add: numbered_def\<close>)
  show "td_next db' = td_next db + length trips"
    unfolding run'(1) by (simp add: replace_trips_def insert_trips_def Let_def)
  show "\<exists>n. r = Inr \<lparr>rr_deleted = n, rr_created = length trips, rr_skipped = None, rr_truncated = t\<rparr>" using run'(2) by blast
qed


section \<open>Running it twice\<close>

lemma numbered_after:
  assumes "numbered db" and "td_rows db' = map (inherit dev olds) (filter P (td_rows db) @ new_rows scope dev (td_next db) trips)"
    and "td_next db' = td_next db + length trips"
  shows "numbered db'"
proof -
  have ids: "map tr_id (new_rows scope dev i trips) = [i..<i + length trips]" for i
    by (rule nth_equalityI) (auto simp: new_rows_def rebuilt_row_def)
  have "map tr_id (td_rows db') = map tr_id (filter P (td_rows db)) @ [td_next db..<td_next db + length trips]"
    using assms(2) ids by (simp add: comp_def)
  then have m: "map tr_id (td_rows db') = map tr_id (filter P (td_rows db)) @ [td_next db..<td_next db']" using assms(3) by simp
  have old: "\<forall>i \<in> set (map tr_id (filter P (td_rows db))). i < td_next db" using assms(1) by (auto simp: numbered_def)
  have "tr_id r < td_next db'" if "r \<in> set (td_rows db')" for r
  proof -
    have "tr_id r \<in> set (map tr_id (td_rows db'))" using that by simp
    then show ?thesis unfolding m using old assms(3) by auto
  qed
  moreover have "distinct (map tr_id (td_rows db'))"
    unfolding m using old assms(1) by (auto simp: numbered_def distinct_map_filter)
  ultimately show ?thesis by (simp add: numbered_def)
qed

lemma plan_again:
  assumes p: "plan_recompute q config dev from until = Inr (Replace c ids trips t)" and "quiet q db" and "quiet q2 db2"
    and "rb_positions q2 = rb_positions q"
    and "core_of (rb_now q2) from until (trip_bounds dev from until (td_rows db2)) = core_of (rb_now q) from until (trip_bounds dev from until (td_rows db))"
  shows "\<exists>ids2. plan_recompute q2 config dev from until = Inr (Replace c ids2 trips t)"
  using p
proof (rule plan_Replace)
  fix rows0 rows1 ps c0 readFrom readTo rows capped
  assume "rb_bounds q = Inr rows0" "core_of (rb_now q) from until (trip_bounds dev from until rows0) = Some c0"
    "rb_existing q = Inr rows1" "rb_positions q = Inr ps"
    "to_date (of_int (cs_from c0) - marginMs (thr config)) = Some readFrom"
    "to_date (of_int (cs_to c0) + marginMs (thr config)) = Some readTo"
    "cap_rows (marginMs (thr config)) c0 (read_positions dev readFrom readTo ps) = Inr (Some (rows, c, capped))"
    "trips = rebuilt config dev c rows" "t = (cs_truncated c0 \<or> capped)"
  then show ?thesis using assms(2-5) by (simp add: plan_recompute_def quiet_def Let_def)
qed

definition plain :: "trip_row \<Rightarrow> trip_row" where
  "plain r = r\<lparr>tr_id := 0, tr_driver := None\<rparr>"

lemma plain_inherit [simp]: "plain (inherit dev olds r) = plain r"
  by (simp add: plain_def inherit_def)

lemma plain_new_rows: "map plain (new_rows scope dev i trips) = map (rebuilt_row scope dev 0) trips"
  by (rule nth_equalityI) (auto simp: new_rows_def rebuilt_row_def plain_def)

lemma kept_inherit: "kept_row dev c trips (inherit dev olds r) = kept_row dev c trips r"
  by (simp add: kept_row_def)

text \<open>C25. A recompute is idempotent. Run again over the same positions and the same span, with nothing else writing
  trips, it leaves the same journeys in the same order: only their ids are new (and a driver may be carried on).\<close>

theorem recompute_idempotent:
  assumes "recomputeTrips q scope config dev from until db = (db1, r1)" and "quiet q db" and "numbered db"
    and "POSITIONS_RETENTION_MS \<le> rb_now q" and "thr_ok (thr config)"
    and "plan_recompute q config dev from until = Inr (Replace c ids trips t)"
    and "recomputeTrips q2 scope config dev from until db1 = (db2, r2)" and "quiet q2 db1"
    and "POSITIONS_RETENTION_MS \<le> rb_now q2" and "rb_positions q2 = rb_positions q"
    and "core_of (rb_now q2) from until (trip_bounds dev from until (td_rows db1)) = core_of (rb_now q) from until (trip_bounds dev from until (td_rows db))"
  shows "map plain (td_rows db2) = map plain (td_rows db1)"
proof -
  note one = recompute_quiet [OF assms(1-6)]
  have n1: "numbered db1" by (rule numbered_after [OF assms(3) one(1,2)])
  obtain ids2 where p2: "plan_recompute q2 config dev from until = Inr (Replace c ids2 trips t)"
    using plan_again [OF assms(6,2,8,10,11)] by blast
  note two = recompute_quiet(1) [OF assms(7,8) n1 assms(9,5) p2]
  have "filter (kept_row dev c trips) (td_rows db1) = map (inherit dev (old_drivers dev c (td_rows db))) (filter (kept_row dev c trips) (td_rows db))"
  proof -
    have "filter (kept_row dev c trips) (new_rows scope dev (td_next db) trips) = []"
      using new_row [of _ scope dev "td_next db" trips] by (auto simp: filter_empty_conv kept_row_def)
    then show ?thesis by (simp add: one(1) filter_map comp_def kept_inherit)
  qed
  then show ?thesis by (simp add: two one(1) plain_new_rows comp_def)
qed

definition position :: "int \<Rightarrow> bool \<Rightarrow> position_row" where
  "position t on = \<lparr>po_device = 7, po_fixTime = t, po_serverTime = Some t, po_lat = 54, po_lon = 25, po_altitude = None,
     po_speed = Some (if on then 40 else 0), po_course = None, po_satellites = Some 9, po_fixValid = True,
     po_ignition = Some on, po_movement = Some on, po_odometerM = None\<rparr>"

definition default_config :: trip_config where
  "default_config = \<lparr>thr = DEFAULT_THRESHOLDS, odometerSource = OdoAuto\<rparr>"

definition live_row :: trip_row where
  "live_row = \<lparr>tr_id = 1, tr_tenant = ''t'', tr_account = ''a'', tr_device = 7, tr_open = True, tr_start = 450000,
     tr_startLat = 54, tr_startLon = 25, tr_end = None, tr_distanceM = 0, tr_source = SrcGps,
     tr_maxSpeed = 0, tr_idleS = 0, tr_driver = None\<rparr>"

definition stale_db :: trip_db where
  "stale_db = \<lparr>td_rows = [\<lparr>tr_id = 0, tr_tenant = ''t'', tr_account = ''a'', tr_device = 7, tr_open = False, tr_start = 0,
     tr_startLat = 54, tr_startLon = 25, tr_end = Some (100000, 54, 25), tr_distanceM = 999, tr_source = SrcGps,
     tr_maxSpeed = 40, tr_idleS = 0, tr_driver = Some ''anna''\<rparr>, live_row], td_next = 2\<rparr>"

definition recompute_on :: "trip_db \<Rightarrow> recompute_calls" where
  "recompute_on db = \<lparr>rb_now = POSITIONS_RETENTION_MS, rb_bounds = Inr (td_rows db), rb_existing = Inr (td_rows db),
     rb_positions = Inr [position 0 True, position 100000 True, position 200000 False, position 400000 False],
     rb_mid = (\<lambda>d. d), rb_commit = Answered\<rparr>"

definition rebuilt_drive :: close_event where
  "rebuilt_drive = \<lparr>ce_deviceId = 7, ce_startTime = 0, ce_endTime = 200000, ce_startLat = 54, ce_startLon = 25,
     ce_endLat = 54, ce_endLon = 25, ce_distanceM = 0, ce_distanceSource = SrcGps, ce_maxSpeed = 40,
     ce_idleS = 0, ce_ibutton = None\<rparr>"

lemma toRecord_ibutton [simp]: "recordIbutton (toRecord dev p) = None"
  by (simp add: recordIbutton_def toRecord_def attr_def nullish_def ibuttonKeyFromAvl_def)

lemma toRecord_position [simp]:
  "r_deviceId (toRecord 7 (position t on)) = 7" "r_fixTime (toRecord 7 (position t on)) = t" "r_serverTime (toRecord 7 (position t on)) = t"
  "r_lat (toRecord 7 (position t on)) = 54" "r_lon (toRecord 7 (position t on)) = 25" "r_fixValid (toRecord 7 (position t on))"
  "r_speed (toRecord 7 (position t on)) = Some (if on then 40 else 0)" "r_ignition (toRecord 7 (position t on)) = Some on"
  "r_movement (toRecord 7 (position t on)) = Some on" "r_odometerM (toRecord 7 (position t on)) = None"
  "po_fixTime (position t on) = t" "po_device (position t on) = 7"
  by (simp_all add: toRecord_def position_def)

lemma rebuilt_drive_eq:
  "rebuilt default_config 7 \<lparr>cs_from = 0, cs_to = 500000, cs_truncated = False\<rparr>
     [position 0 True, position 100000 True, position 200000 False, position 400000 False] = [rebuilt_drive]"
  by (simp add: rebuilt_def default_config_def new_trip_engine_def trip_eval Let_def in_core_def rebuilt_drive_def List.map_filter_def)

lemma stale_plan:
  "plan_recompute (recompute_on stale_db) default_config 7 0 500000 =
     Inr (Replace \<lparr>cs_from = 0, cs_to = 500000, cs_truncated = False\<rparr> [0] [rebuilt_drive] False)"
proof -
  have b: "trip_bounds 7 0 500000 (td_rows stale_db) = Some (0, 100000)"
    by (simp add: trip_bounds_def stale_db_def live_row_def closed_of_def row_end_def)
  have m: "marginMs (thr default_config) = 420000" by (simp add: marginMs_def default_config_def DEFAULT_THRESHOLDS_def)
  have r: "read_positions 7 (- 420000) 920000 [position 0 True, position 100000 True, position 200000 False, position 400000 False] =
      [position 0 True, position 100000 True, position 200000 False, position 400000 False]"
    by (simp add: read_positions_def MAX_RECOMPUTE_ROWS_def)
  have c: "core_of POSITIONS_RETENTION_MS 0 500000 (Some (0, 100000)) = Some \<lparr>cs_from = 0, cs_to = 500000, cs_truncated = False\<rparr>"
    by (simp add: core_of_def MAX_RECOMPUTE_WINDOW_MS_def)
  have k: "cap_rows m \<lparr>cs_from = 0, cs_to = 500000, cs_truncated = False\<rparr>
      [position 0 True, position 100000 True, position 200000 False, position 400000 False] =
    Inr (Some ([position 0 True, position 100000 True, position 200000 False, position 400000 False],
      \<lparr>cs_from = 0, cs_to = 500000, cs_truncated = False\<rparr>, False))" for m
    by (simp add: cap_rows_def MAX_RECOMPUTE_ROWS_def)
  have t: "to_date (- 420000) = Some (- 420000)" "to_date 920000 = Some 920000" by (simp_all add: to_date_def)
  show ?thesis
    by (simp add: plan_recompute_def recompute_on_def b c m t r k rebuilt_drive_eq Let_def)
      (simp add: stale_db_def live_row_def closed_of_def in_core_def)
qed

lemma stale_ok:
  "quiet (recompute_on db) db" "numbered stale_db" "thr_ok (thr default_config)" "POSITIONS_RETENTION_MS \<le> rb_now (recompute_on db)"
  by (simp_all add: quiet_def recompute_on_def numbered_def stale_db_def live_row_def thr_ok_def default_config_def DEFAULT_THRESHOLDS_def)

lemmas row_eval = old_drivers_def stale_db_def live_row_def closed_of_def in_core_def kept_row_def rebuilt_drive_def new_rows_def
  rebuilt_row_def inherit_def row_end_def



theorem recompute_idempotent_witness:
  "\<exists>db1 r1 db2 r2. recomputeTrips (recompute_on stale_db) (''t'', ''a'') default_config 7 0 500000 stale_db = (db1, r1) \<and>
     recomputeTrips (recompute_on db1) (''t'', ''a'') default_config 7 0 500000 db1 = (db2, r2) \<and>
     map plain (td_rows db2) = map plain (td_rows db1)"
proof -
  obtain db1 r1 where run: "recomputeTrips (recompute_on stale_db) (''t'', ''a'') default_config 7 0 500000 stale_db = (db1, r1)" by fastforce
  obtain db2 r2 where run2: "recomputeTrips (recompute_on db1) (''t'', ''a'') default_config 7 0 500000 db1 = (db2, r2)" by fastforce
  have "td_rows db1 = [live_row, (rebuilt_row (''t'', ''a'') 7 2 rebuilt_drive)\<lparr>tr_driver := Some ''anna''\<rparr>]"
    using recompute_quiet(1) [OF run stale_ok(1,2,4,3) stale_plan] by (simp add: row_eval)
  then have b: "trip_bounds 7 0 500000 (td_rows db1) = Some (0, 200000)" "trip_bounds 7 0 500000 (td_rows stale_db) = Some (0, 100000)"
    by (simp_all add: trip_bounds_def row_eval)
  have "map plain (td_rows db2) = map plain (td_rows db1)"
    by (rule recompute_idempotent [OF run stale_ok(1,2,4,3) stale_plan run2 stale_ok(1,4)])
      (simp_all only: b recompute_on_def recompute_calls.simps, simp add: core_of_def MAX_RECOMPUTE_WINDOW_MS_def POSITIONS_RETENTION_MS_def)
  with run run2 show ?thesis by (intro exI conjI)
qed

section \<open>What the row cap loses\<close>

text \<open>No trip the engine closes ends after the newest record it was given.\<close>

definition stops_before :: "int \<Rightarrow> device_state \<Rightarrow> bool" where
  "stops_before T st \<longleftrightarrow> (\<forall>t s. d_trip st = Some t \<longrightarrow> t_stopSince t = Some s \<longrightarrow> s \<le> T)"

definition ends_before :: "int \<Rightarrow> trip_event \<Rightarrow> bool" where
  "ends_before T ev \<longleftrightarrow> (case ev of TripOpen o1 \<Rightarrow> True | TripClose c \<Rightarrow> ce_endTime c \<le> T)"

lemma close_before:
  "e \<le> T \<Longrightarrow> stops_before T (fst (close_trip dev st t e)) \<and> list_all (ends_before T) (fst (snd (close_trip dev st t e)))"
  by (simp add: close_trip_def Let_def stops_before_def ends_before_def)

lemma accumulate_stop [simp]: "t_stopSince (accumulate t r) = t_stopSince t"
  by (simp add: accumulate_def)

lemma stops_trip [simp]: "stops_before T (x\<lparr>d_trip := Some (t\<lparr>t_stopSince := so\<rparr>)\<rparr>) \<longleftrightarrow> (\<forall>s. so = Some s \<longrightarrow> s \<le> T)"
  by (simp add: stops_before_def)

lemma step_device_before:
  assumes "stops_before T st" and "r_fixTime r \<le> T"
  shows "stops_before T (fst (step_device cfg r st)) \<and> list_all (ends_before T) (fst (snd (step_device cfg r st)))"
proof -
  let ?st = "st\<lparr>d_lastSeen := Some (r_fixTime r)\<rparr>"
  let ?s = "if d_phase ?st = Parked \<and> d_cand ?st = None \<and> d_trip ?st = None then ?st\<lparr>d_config := cfg\<rparr> else ?st"
  have s: "stops_before T ?s" using assms(1) by (simp add: stops_before_def)
  have a: "stops_before T (fst (observeStopWithoutFix r x)) \<and> list_all (ends_before T) (fst (snd (observeStopWithoutFix r x)))"
    if "stops_before T x" for x
    using that assms(2) close_before
    by (auto simp: observeStopWithoutFix_def Let_def stops_before_def split: option.splits)
  have b: "stops_before T (fst (step_parked r x)) \<and> list_all (ends_before T) (fst (snd (step_parked r x)))"
    if "stops_before T x" for x
    using that by (simp add: step_parked_def Let_def stops_before_def ends_before_def trip_from_def)
  have c: "stops_before T (fst (step_moving r x t)) \<and> list_all (ends_before T) (fst (snd (step_moving r x t)))"
    if "stops_before T x" "d_trip x = Some t" for x t
  proof -
    define since where "since = (case t_stopSince t of None \<Rightarrow> r_fixTime r | Some s \<Rightarrow> s)"
    have "since \<le> T" using that assms(2) by (simp add: since_def stops_before_def split: option.split)
    with close_before [OF this] show ?thesis
      by (simp add: step_moving_def Let_def since_def [symmetric])
  qed
  have e: "step_device cfg r st = (if \<not> r_fixValid r then observeStopWithoutFix r ?s else if d_phase ?s = Parked then step_parked r ?s
      else case d_trip ?s of None \<Rightarrow> (?s, [], False) | Some trip \<Rightarrow> step_moving r ?s trip)"
    by (simp only: step_device_def Let_def)
  have "stops_before T (fst y) \<and> list_all (ends_before T) (fst (snd y))"
    if "stops_before T x" "y = (if \<not> r_fixValid r then observeStopWithoutFix r x else if d_phase x = Parked then step_parked r x
      else case d_trip x of None \<Rightarrow> (x, [], False) | Some trip \<Rightarrow> step_moving r x trip)" for x y
    using a [OF that(1)] b [OF that(1)] c [OF that(1)] that by (cases "d_trip x") simp_all
  from this [OF s e] show ?thesis .
qed

definition engine_before :: "int \<Rightarrow> trip_engine \<Rightarrow> bool" where
  "engine_before T e \<longleftrightarrow> (\<forall>dev st. map_of (te_state e) dev = Some st \<longrightarrow> stops_before T st)"

lemma trip_step_before:
  assumes e: "engine_before T e" and r: "r_fixTime r \<le> T"
  shows "engine_before T (fst (trip_step cf e r)) \<and> list_all (ends_before T) (fst (snd (trip_step cf e r)))"
proof -
  let ?dev = "r_deviceId r"
  have st: "stops_before T (dev_state e cf ?dev)"
    using e by (auto simp: dev_state_def engine_before_def stops_before_def split: option.split)
  note s = step_device_before [OF st r, of "cfg_for e cf ?dev"]
  have up: "engine_before T (e\<lparr>te_state := AList.update ?dev x (te_state e)\<rparr>)" if "stops_before T x" for x
    using e that by (simp add: engine_before_def update_conv')
  have late: "engine_before T (markLate e' d t) = engine_before T e'" for e' d t by (simp add: engine_before_def)
  show ?thesis
    using e up [OF st] up [of "fst (step_device (cfg_for e cf ?dev) r (dev_state e cf ?dev))"] s
    by (simp add: trip_step_def Let_def case_prod_beta late split: option.split)
qed

lemma trip_feed_before:
  "engine_before T e \<Longrightarrow> list_all (\<lambda>r. r_fixTime r \<le> T) rs \<Longrightarrow> list_all (ends_before T) (snd (trip_feed cf e rs))"
proof (induction rs arbitrary: e)
  case (Cons r rs)
  then show ?case using trip_step_before [OF Cons.prems(1), of r cf] by (simp add: case_prod_beta Let_def)
qed simp

lemma rebuilt_ends:
  assumes "list_all (\<lambda>p. po_fixTime p \<le> T) rows" and "ce \<in> set (rebuilt config dev c rows)"
  shows "ce_endTime ce \<le> T"
proof -
  have "engine_before T (new_trip_engine (thr config))" by (simp add: engine_before_def new_trip_engine_def)
  moreover have "list_all (\<lambda>r. r_fixTime r \<le> T) (map (toRecord dev) rows)"
    using assms(1) by (simp add: list_all_iff toRecord_def)
  ultimately have "list_all (ends_before T) (snd (trip_feed (\<lambda>d. Some config) (new_trip_engine (thr config)) (map (toRecord dev) rows)))"
    by (rule trip_feed_before)
  then show ?thesis
    using assms(2) unfolding rebuilt_def
    by (fastforce dest!: in_map_filter [THEN iffD1] simp: list_all_iff ends_before_def split: trip_event.splits if_splits)
qed

text \<open>A closed trip that starts inside the clamped span and ends after the newest position that was kept is deleted,
  and nothing that is rebuilt reaches as far: its end is lost although its positions are there.\<close>

lemma capped_recompute_cuts_trip:
  assumes run: "recomputeTrips q scope config dev from until db = (db', r)" and q: "quiet q db" and n: "numbered db"
    and now: "POSITIONS_RETENTION_MS \<le> rb_now q" and th: "thr_ok (thr config)"
    and p: "plan_recompute q config dev from until = Inr (Replace c ids (rebuilt config dev c kept) True)"
    and x: "x \<in> set (td_rows db)" "closed_of dev x" "in_core c (tr_start x)"
    and cut: "list_all (\<lambda>p. po_fixTime p < row_end x) kept"
    and y: "y \<in> set (td_rows db')" "closed_of dev y" "in_core c (tr_start y)"
  shows "row_end y < row_end x"
proof -
  let ?trips = "rebuilt config dev c kept"
  from y(1) recompute_quiet(1) [OF run q n now th p] obtain z where
    z: "z \<in> set (filter (kept_row dev c ?trips) (td_rows db)) \<or> z \<in> set (new_rows scope dev (td_next db) ?trips)"
    and yz: "y = inherit dev (old_drivers dev c (td_rows db)) z" by auto
  have "\<not> kept_row dev c ?trips z" using y(2,3) yz by (simp add: kept_row_def closed_of_def)
  with z obtain i ce where "ce \<in> set ?trips" "z = rebuilt_row scope dev i ce"
    by (auto simp: new_rows_def dest: set_zip_rightD)
  moreover from cut have "list_all (\<lambda>p. po_fixTime p \<le> row_end x - 1) kept" by (simp add: list_all_iff)
  ultimately show ?thesis using rebuilt_ends [of "row_end x - 1" kept ce] yz by (fastforce simp: row_end_def rebuilt_row_def)
qed

end
