(* ===== verification/TripRepair.thy ===== *)
theory TripRepair
  imports Rebuild
begin

text \<open>
  The repair of trips the stream could not store: the recompute queue (apps/worker/src/jobs/queue.ts), its worker
  (jobs/recomputeWorker.ts) and the part of \<open>onBatch\<close> (main.ts) that asks for recomputes. The queue ignores a job
  whose id is taken, as BullMQ documents; a job that has run is removed. Fix times have four-digit years, so that
  the first 13 characters of an ISO time name its hour.
\<close>

section \<open>The queue\<close>

record recompute_job =
  rj_device :: int
  rj_from :: int
  rj_to :: int
  rj_delay :: "int option"

definition hour_of :: "int \<Rightarrow> int" where
  "hour_of t = t div 3600000"

definition job_id :: "recompute_job \<Rightarrow> int \<times> int \<times> int" where
  "job_id j = (rj_device j, hour_of (rj_from j), hour_of (rj_to j))"

definition add_job :: "recompute_job \<Rightarrow> recompute_job list \<Rightarrow> recompute_job list \<times> unit" where
  "add_job j js = (if job_id j \<in> job_id ` set js then js else js @ [j], ())"

definition enqueueRecompute :: "call \<Rightarrow> int \<Rightarrow> int \<Rightarrow> int \<Rightarrow> int option \<Rightarrow> recompute_job list \<Rightarrow> recompute_job list \<times> unit reply" where
  "enqueueRecompute c dev from until delayMs js =
     issue c (add_job \<lparr>rj_device = dev, rj_from = from, rj_to = until,
       rj_delay = (case delayMs of None \<Rightarrow> None | Some d \<Rightarrow> if 0 < d then Some d else None)\<rparr>) js"

section \<open>A batch of trip events that was not stored\<close>

definition RECOMPUTE_GUARD_MS :: int where
  "RECOMPUTE_GUARD_MS = 15 * 60000"

definition event_start :: "trip_event \<Rightarrow> int" where
  "event_start ev = (case ev of TripOpen o1 \<Rightarrow> oe_startTime o1 | TripClose c \<Rightarrow> ce_startTime c)"

definition event_end :: "trip_event \<Rightarrow> int" where
  "event_end ev = (case ev of TripOpen o1 \<Rightarrow> oe_startTime o1 | TripClose c \<Rightarrow> ce_endTime c)"

text \<open>\<open>spans\<close>: one window per device, in insertion order.\<close>

definition add_span :: "trip_event \<Rightarrow> (int \<times> int \<times> int) list \<Rightarrow> (int \<times> int \<times> int) list" where
  "add_span ev spans =
     (case map_of spans (event_device ev) of
        None \<Rightarrow> spans @ [(event_device ev, event_start ev, event_end ev)]
      | Some (first, latest) \<Rightarrow>
          AList.update (event_device ev)
            (if event_start ev < first then event_start ev else first, if latest < event_end ev then event_end ev else latest) spans)"

definition spans_of :: "trip_event list \<Rightarrow> (int \<times> int \<times> int) list" where
  "spans_of evs = fold add_span evs []"

record repair =
  rp_queue :: "recompute_job list"
  rp_pending :: "(int \<times> int \<times> int) list"

definition park :: "int \<Rightarrow> int \<Rightarrow> int \<Rightarrow> (int \<times> int \<times> int) list \<Rightarrow> (int \<times> int \<times> int) list" where
  "park dev from until pending =
     (case map_of pending dev of
        None \<Rightarrow> AList.update dev (from, until) pending
      | Some (f, t) \<Rightarrow> AList.update dev (if f < from then f else from, if until < t then t else until) pending)"

fun compensate_spans :: "((int \<times> int \<times> int) \<times> call) list \<Rightarrow> repair \<Rightarrow> repair" where
  "compensate_spans [] x = x"
| "compensate_spans (((dev, first, latest), c) # spans) x =
     (let until = latest + RECOMPUTE_GUARD_MS;
          (js, r) = enqueueRecompute c dev first until (Some RECOMPUTE_GUARD_MS) (rp_queue x) in
      compensate_spans spans
        (case r of
           Inl u \<Rightarrow> x\<lparr>rp_queue := js, rp_pending := park dev first until (rp_pending x)\<rparr>
         | Inr u \<Rightarrow> x\<lparr>rp_queue := js\<rparr>))"

definition compensate :: "(nat \<Rightarrow> call) \<Rightarrow> trip_event list \<Rightarrow> repair \<Rightarrow> repair" where
  "compensate calls evs x = compensate_spans (zip (spans_of evs) (map calls [0..<length (spans_of evs)])) x"

fun retry_spans :: "((int \<times> int \<times> int) \<times> call) list \<Rightarrow> repair \<Rightarrow> repair" where
  "retry_spans [] x = x"
| "retry_spans (((dev, from, until), c) # spans) x =
     (let (js, r) = enqueueRecompute c dev from until (Some RECOMPUTE_GUARD_MS) (rp_queue x) in
      retry_spans spans
        (case r of
           Inl u \<Rightarrow> x\<lparr>rp_queue := js\<rparr>
         | Inr u \<Rightarrow> x\<lparr>rp_queue := js, rp_pending := AList.delete dev (rp_pending x)\<rparr>))"

definition retry_pending :: "(nat \<Rightarrow> call) \<Rightarrow> repair \<Rightarrow> repair" where
  "retry_pending calls x = retry_spans (zip (rp_pending x) (map calls [0..<length (rp_pending x)])) x"

section \<open>Late records\<close>

fun drain_signals :: "int \<Rightarrow> ((int \<times> int) \<times> call) list \<Rightarrow> trip_engine \<Rightarrow> recompute_job list \<Rightarrow> trip_engine \<times> recompute_job list" where
  "drain_signals nowMs [] e js = (e, js)"
| "drain_signals nowMs (((dev, from), c) # late) e js =
     (let settledTo = nowMs - RECOMPUTE_GUARD_MS; settleAt = from + RECOMPUTE_GUARD_MS;
          (js', r) = (if settledTo \<le> from then enqueueRecompute c dev from settleAt (Some (settleAt - nowMs)) js
                      else enqueueRecompute c dev from settledTo None js) in
      drain_signals nowMs late (case r of Inl u \<Rightarrow> markLate e dev from | Inr u \<Rightarrow> e) js')"

definition drain_late :: "int \<Rightarrow> (nat \<Rightarrow> call) \<Rightarrow> trip_engine \<Rightarrow> recompute_job list \<Rightarrow> trip_engine \<times> recompute_job list" where
  "drain_late nowMs calls e js =
     (let (e1, late) = takeLate e in drain_signals nowMs (zip late (map calls [0..<length late])) e1 js)"

section \<open>The worker of the queue\<close>

text \<open>\<open>parse\<close> reads the JSON text of \<open>device:config\<close>: None when it is malformed, else the two properties used.\<close>

definition resolveConfig :: "(string \<Rightarrow> ((string \<rightharpoonup> jsval) option \<times> jsval) option) \<Rightarrow> string option \<Rightarrow> trip_config option" where
  "resolveConfig parse raw =
     (case raw of None \<Rightarrow> None
      | Some s \<Rightarrow> (case parse s of None \<Rightarrow> None | Some (rules, src) \<Rightarrow> Some (deviceTripConfig rules src)))"

fun oldest_row :: "trip_row list \<Rightarrow> trip_row option" where
  "oldest_row [] = None"
| "oldest_row (r # rs) = (case oldest_row rs of None \<Rightarrow> Some r | Some q \<Rightarrow> if tr_start q < tr_start r then Some q else Some r)"

definition resolveTripScope ::
  "trip_row list reply \<Rightarrow> string option reply \<Rightarrow> string option reply \<Rightarrow> int \<Rightarrow> (string \<times> string) option reply" where
  "resolveTripScope rows tenant account dev =
     bindE rows (\<lambda>rs.
       case oldest_row (filter (\<lambda>r. tr_device r = dev) rs) of
         Some r \<Rightarrow> Inr (Some (tr_tenant r, tr_account r))
       | None \<Rightarrow>
           bindE tenant (\<lambda>t. bindE account (\<lambda>a. Inr
             (case (t, a) of (Some t', Some a') \<Rightarrow> Some (t', a') | _ \<Rightarrow> None))))"

record job_calls =
  jc_rows :: "trip_row list reply"
  jc_tenant :: "string option reply"
  jc_account :: "string option reply"
  jc_config :: "string option reply"
  jc_run :: recompute_calls

definition DEFAULT_CONFIG :: trip_config where
  "DEFAULT_CONFIG = \<lparr>thr = DEFAULT_THRESHOLDS, odometerSource = OdoAuto\<rparr>"

definition run_job ::
  "(string \<Rightarrow> ((string \<rightharpoonup> jsval) option \<times> jsval) option) \<Rightarrow> job_calls \<Rightarrow> recompute_job \<Rightarrow> trip_db \<Rightarrow> trip_db \<times> recompute_result option reply" where
  "run_job parse q j db =
     (case resolveTripScope (jc_rows q) (jc_tenant q) (jc_account q) (rj_device j) of
        Inl u \<Rightarrow> (db, Inl u)
      | Inr None \<Rightarrow> (db, Inr None)
      | Inr (Some scope) \<Rightarrow>
          (case jc_config q of
             Inl u \<Rightarrow> (db, Inl u)
           | Inr raw \<Rightarrow>
               (let config = (case resolveConfig parse raw of None \<Rightarrow> DEFAULT_CONFIG | Some c \<Rightarrow> c);
                    (db', r) = recomputeTrips (jc_run q) scope config (rj_device j) (rj_from j) (rj_to j) db in
                (db', bindE r (\<lambda>x. Inr (Some x))))))"

section \<open>Nothing lost is forgotten\<close>

text \<open>A window is scheduled when the queue holds a job of the device for the same hours; it is parked when the
  pending window of the device contains it.\<close>

definition scheduled :: "recompute_job list \<Rightarrow> int \<Rightarrow> int \<Rightarrow> int \<Rightarrow> bool" where
  "scheduled js dev from until \<longleftrightarrow> (dev, hour_of from, hour_of until) \<in> job_id ` set js"

definition awaits :: "int \<Rightarrow> int \<Rightarrow> int \<Rightarrow> repair \<Rightarrow> bool" where
  "awaits dev from until x \<longleftrightarrow>
     (\<exists>f t. f \<le> from \<and> until \<le> t \<and> (scheduled (rp_queue x) dev f t \<or> map_of (rp_pending x) dev = Some (f, t)))"

lemma enqueue_result:
  assumes "enqueueRecompute c dev from until d js = (js', r)"
  shows "set js \<subseteq> set js' \<and> (\<forall>u. r = Inr u \<longrightarrow> scheduled js' dev from until)"
  using assms
  by (auto simp: enqueueRecompute_def issue_def add_job_def scheduled_def job_id_def image_iff split: call.splits if_splits)

lemma scheduled_mono: "set js \<subseteq> set js' \<Longrightarrow> scheduled js dev from until \<Longrightarrow> scheduled js' dev from until"
  by (auto simp: scheduled_def)

lemma map_of_park:
  "map_of (park dev from until ps) k =
     (if k = dev then Some (case map_of ps dev of None \<Rightarrow> (from, until) | Some (f, t) \<Rightarrow> (min f from, max t until)) else map_of ps k)"
  by (auto simp: park_def update_conv' split: option.splits)

lemma awaits_keep:
  assumes "awaits dev from until x" and "set (rp_queue x) \<subseteq> set (rp_queue y)"
    and "\<And>f t. map_of (rp_pending x) dev = Some (f, t) \<Longrightarrow>
      scheduled (rp_queue y) dev f t \<or> (\<exists>f' t'. map_of (rp_pending y) dev = Some (f', t') \<and> f' \<le> f \<and> t \<le> t')"
  shows "awaits dev from until y"
proof -
  from assms(1) obtain f t where ft: "f \<le> from" "until \<le> t"
    and or: "scheduled (rp_queue x) dev f t \<or> map_of (rp_pending x) dev = Some (f, t)" by (auto simp: awaits_def)
  from or show ?thesis
  proof
    assume "scheduled (rp_queue x) dev f t"
    from scheduled_mono [OF assms(2) this] ft show ?thesis by (auto simp: awaits_def)
  next
    assume "map_of (rp_pending x) dev = Some (f, t)"
    from assms(3) [OF this] ft show ?thesis unfolding awaits_def by (meson order_trans)
  qed
qed

lemma compensate_step:
  assumes "enqueueRecompute c dev from until d (rp_queue x) = (js, r)"
    and y: "y = (case r of Inl u \<Rightarrow> x\<lparr>rp_queue := js, rp_pending := park dev from until (rp_pending x)\<rparr> | Inr u \<Rightarrow> x\<lparr>rp_queue := js\<rparr>)"
  shows "awaits dev from until y" and "awaits k f t x \<Longrightarrow> awaits k f t y"
proof -
  note e = enqueue_result [OF assms(1)]
  show "awaits dev from until y"
  proof (cases r)
    case (Inl u)
    then have "map_of (rp_pending y) dev = Some (case map_of (rp_pending x) dev of None \<Rightarrow> (from, until) | Some (f, t) \<Rightarrow> (min f from, max t until))"
      using y by (simp add: map_of_park)
    then obtain f t where "map_of (rp_pending y) dev = Some (f, t)" "f \<le> from" "until \<le> t"
      by (cases "map_of (rp_pending x) dev") auto
    then show ?thesis unfolding awaits_def by blast
  next
    case (Inr u)
    then show ?thesis using e y by (auto simp: awaits_def)
  qed
  assume a: "awaits k f t x"
  show "awaits k f t y"
    by (rule awaits_keep [OF a]) (use e y in \<open>auto simp: map_of_park split: sum.split\<close>)
qed

lemma compensate_spans_keep: "awaits k f t x \<Longrightarrow> awaits k f t (compensate_spans spans x)"
proof (induction spans x rule: compensate_spans.induct)
  case (2 dev first latest c spans x)
  obtain js r where e: "enqueueRecompute c dev first (latest + RECOMPUTE_GUARD_MS) (Some RECOMPUTE_GUARD_MS) (rp_queue x) = (js, r)" by fastforce
  from "2.IH" [OF refl e [symmetric] refl compensate_step(2) [OF e refl "2.prems"]] e show ?case by simp
qed simp

lemma compensate_spans_await:
  "((dev, first, latest), c) \<in> set spans \<Longrightarrow> awaits dev first (latest + RECOMPUTE_GUARD_MS) (compensate_spans spans x)"
proof (induction spans x rule: compensate_spans.induct)
  case (2 d f l c' spans x)
  obtain js r where e: "enqueueRecompute c' d f (l + RECOMPUTE_GUARD_MS) (Some RECOMPUTE_GUARD_MS) (rp_queue x) = (js, r)" by fastforce
  let ?y = "case r of Inl u \<Rightarrow> x\<lparr>rp_queue := js, rp_pending := park d f (l + RECOMPUTE_GUARD_MS) (rp_pending x)\<rparr> | Inr u \<Rightarrow> x\<lparr>rp_queue := js\<rparr>"
  have "awaits dev first (latest + RECOMPUTE_GUARD_MS) (compensate_spans spans ?y)"
  proof (cases "((dev, first, latest), c) = ((d, f, l), c')")
    case True
    then show ?thesis using compensate_spans_keep [OF compensate_step(1) [OF e refl]] by simp
  next
    case False
    then have "((dev, first, latest), c) \<in> set spans" using "2.prems" by auto
    then show ?thesis by (rule "2.IH" [OF refl e [symmetric] refl])
  qed
  then show ?case using e by simp
qed simp

definition covers :: "(int \<times> int \<times> int) list \<Rightarrow> int \<Rightarrow> int \<Rightarrow> int \<Rightarrow> bool" where
  "covers spans dev a b \<longleftrightarrow> (\<exists>f t. map_of spans dev = Some (f, t) \<and> f \<le> a \<and> b \<le> t)"

lemma add_span_covers:
  "covers (add_span ev spans) (event_device ev) (event_start ev) (event_end ev)"
  "covers spans dev a b \<Longrightarrow> covers (add_span ev spans) dev a b"
  by (auto simp: add_span_def covers_def update_conv' map_add_def split: option.splits)

lemma spans_keep: "covers spans dev a b \<Longrightarrow> covers (fold add_span evs spans) dev a b"
  by (induction evs arbitrary: spans) (simp_all add: add_span_covers(2))

lemma spans_cover:
  "ev \<in> set evs \<Longrightarrow> covers (fold add_span evs spans) (event_device ev) (event_start ev) (event_end ev)"
proof (induction evs arbitrary: spans)
  case (Cons e evs)
  then show ?case by (auto intro: spans_keep add_span_covers(1))
qed simp

lemma zip_calls: "x \<in> set xs \<Longrightarrow> \<exists>c. (x, c) \<in> set (zip xs (map f [0..<length xs]))"
  by (metis in_set_impl_in_set_zip1 length_map map_nth diff_zero length_upt)

lemma awaits_mono: "awaits dev f t x \<Longrightarrow> f \<le> a \<Longrightarrow> b \<le> t \<Longrightarrow> awaits dev a b x"
  unfolding awaits_def by (meson order_trans)

lemma compensate_awaits:
  assumes "ev \<in> set evs"
  shows "awaits (event_device ev) (event_start ev) (event_end ev + RECOMPUTE_GUARD_MS) (compensate calls evs x)"
proof -
  obtain f t where ft: "map_of (spans_of evs) (event_device ev) = Some (f, t)" "f \<le> event_start ev" "event_end ev \<le> t"
    using spans_cover [OF assms, of "[]"] by (auto simp: covers_def spans_of_def)
  then obtain c where "((event_device ev, f, t), c) \<in> set (zip (spans_of evs) (map calls [0..<length (spans_of evs)]))"
    using zip_calls map_of_SomeD by fast
  from compensate_spans_await [OF this] ft show ?thesis unfolding compensate_def by (blast intro: awaits_mono add_right_mono)
qed

lemma distinct_park: "distinct (map fst ps) \<Longrightarrow> distinct (map fst (park dev f t ps))"
  by (auto simp: park_def distinct_update split: option.split)

lemma compensate_spans_distinct:
  "distinct (map fst (rp_pending x)) \<Longrightarrow> distinct (map fst (rp_pending (compensate_spans spans x)))"
proof (induction spans x rule: compensate_spans.induct)
  case (2 dev first latest c spans x)
  obtain js r where e: "enqueueRecompute c dev first (latest + RECOMPUTE_GUARD_MS) (Some RECOMPUTE_GUARD_MS) (rp_queue x) = (js, r)" by fastforce
  have "distinct (map fst (rp_pending (case r of Inl u \<Rightarrow> x\<lparr>rp_queue := js, rp_pending := park dev first (latest + RECOMPUTE_GUARD_MS) (rp_pending x)\<rparr>
      | Inr u \<Rightarrow> x\<lparr>rp_queue := js\<rparr>)))"
    using "2.prems" by (cases r) (simp_all add: distinct_park)
  from "2.IH" [OF refl e [symmetric] refl this] e show ?case by simp
qed simp

lemma retry_spans_keep:
  assumes "distinct (map fst (rp_pending x))" and "distinct (map (\<lambda>s. fst (fst s)) spans)"
    and "\<forall>s \<in> set spans. map_of (rp_pending x) (fst (fst s)) = Some (snd (fst s))"
  shows "distinct (map fst (rp_pending (retry_spans spans x))) \<and> (awaits k f t x \<longrightarrow> awaits k f t (retry_spans spans x))"
  using assms
proof (induction spans x rule: retry_spans.induct)
  case (2 dev frm until c spans x)
  obtain js r where e: "enqueueRecompute c dev frm until (Some RECOMPUTE_GUARD_MS) (rp_queue x) = (js, r)" by fastforce
  let ?y = "case r of Inl u \<Rightarrow> x\<lparr>rp_queue := js\<rparr> | Inr u \<Rightarrow> x\<lparr>rp_queue := js, rp_pending := AList.delete dev (rp_pending x)\<rparr>"
  have p: "map_of (rp_pending x) dev = Some (frm, until)" using "2.prems"(3) by simp
  have k: "awaits k f t ?y" if "awaits k f t x"
  proof (rule awaits_keep [OF that])
    show "set (rp_queue x) \<subseteq> set (rp_queue ?y)" using enqueue_result [OF e] by (cases r) simp_all
    show "scheduled (rp_queue ?y) k f t \<or> (\<exists>f' t'. map_of (rp_pending ?y) k = Some (f', t') \<and> f' \<le> f \<and> t \<le> t')"
      if "map_of (rp_pending x) k = Some (f, t)" for f t
      using enqueue_result [OF e] p that by (cases r; cases "k = dev") (simp_all add: delete_conv')
  qed
  have d: "distinct (map fst (rp_pending ?y))" using "2.prems"(1) by (cases r) (simp_all add: distinct_delete)
  have m: "\<forall>s \<in> set spans. map_of (rp_pending ?y) (fst (fst s)) = Some (snd (fst s))"
    using "2.prems"(2,3) by (cases r) (auto simp: delete_conv')
  have "distinct (map (\<lambda>s. fst (fst s)) spans)" using "2.prems"(2) by simp
  from "2.IH" [OF e [symmetric] refl d this m] k e show ?case by simp
qed simp

text \<open>What the batches that follow do: more failures, and more passes over what is pending.\<close>

datatype repair_step = Compensate "nat \<Rightarrow> call" "trip_event list" | Retry "nat \<Rightarrow> call"

definition repair_next :: "repair_step \<Rightarrow> repair \<Rightarrow> repair" where
  "repair_next st x = (case st of Compensate calls evs \<Rightarrow> compensate calls evs x | Retry calls \<Rightarrow> retry_pending calls x)"

lemma repair_next_keep:
  assumes "distinct (map fst (rp_pending x))"
  shows "distinct (map fst (rp_pending (repair_next st x))) \<and> (awaits k f t x \<longrightarrow> awaits k f t (repair_next st x))"
proof (cases st)
  case (Compensate calls evs)
  then show ?thesis
    using compensate_spans_distinct [OF assms] compensate_spans_keep by (simp add: repair_next_def compensate_def)
next
  case (Retry calls)
  let ?z = "zip (rp_pending x) (map calls [0..<length (rp_pending x)])"
  have "map (\<lambda>s. fst (fst s)) ?z = map fst (map fst ?z)" by (simp only: map_map comp_def)
  then have "distinct (map (\<lambda>s. fst (fst s)) ?z)" using assms by (simp only: map_fst_zip length_map length_upt diff_zero)
  moreover have "\<forall>s \<in> set ?z. map_of (rp_pending x) (fst (fst s)) = Some (snd (fst s))"
    using assms by (auto dest!: set_zip_leftD)
  ultimately show ?thesis using retry_spans_keep [OF assms] Retry by (simp add: repair_next_def retry_pending_def)
qed

lemma repair_run_keep:
  "distinct (map fst (rp_pending x)) \<Longrightarrow> awaits k f t x \<Longrightarrow> awaits k f t (fold repair_next steps x)"
proof (induction steps arbitrary: x)
  case (Cons st steps)
  then show ?case using repair_next_keep [OF Cons.prems(1), of st k f t] by simp
qed simp


definition lost_drive :: "trip_event list" where
  "lost_drive = [TripOpen \<lparr>oe_deviceId = 7, oe_startTime = 0, oe_startLat = 54, oe_startLon = 25\<rparr>, TripClose rebuilt_drive]"


section \<open>Late signals\<close>

lemma drain_keeps:
  "set js \<subseteq> set (snd (drain_signals nowMs late e js)) \<and>
   (\<forall>p. map_of (te_late e) dev = Some p \<longrightarrow> (\<exists>p'. map_of (te_late (fst (drain_signals nowMs late e js))) dev = Some p' \<and> p' \<le> p))"
proof (induction nowMs late e js rule: drain_signals.induct)
  case (2 nowMs d t c late e js)
  let ?enq = "if nowMs - RECOMPUTE_GUARD_MS \<le> t
    then enqueueRecompute c d t (t + RECOMPUTE_GUARD_MS) (Some (t + RECOMPUTE_GUARD_MS - nowMs)) js
    else enqueueRecompute c d t (nowMs - RECOMPUTE_GUARD_MS) None js"
  obtain js' r where e: "?enq = (js', r)" by fastforce
  then have sub: "set js \<subseteq> set js'" using enqueue_result by (metis (full_types))
  let ?e = "case r of Inl u \<Rightarrow> markLate e d t | Inr u \<Rightarrow> e"
  have m: "\<exists>p'. map_of (te_late ?e) dev = Some p' \<and> p' \<le> p" if "map_of (te_late e) dev = Some p" for p
    using that markLate_own [of e d t] markLate_other [of dev d e t] by (cases r; cases "dev = d") auto
  note ih = "2.IH" [OF refl refl e [symmetric] refl]
  show ?case using ih sub m e by (simp add: Let_def) (meson order_trans)
qed simp

lemma drain_signal:
  "((dev, t), c) \<in> set late \<Longrightarrow>
     (\<exists>until. scheduled (snd (drain_signals nowMs late e js)) dev t until \<and> min (t + RECOMPUTE_GUARD_MS) (nowMs - RECOMPUTE_GUARD_MS) \<le> until) \<or>
     (\<exists>p. map_of (te_late (fst (drain_signals nowMs late e js))) dev = Some p \<and> p \<le> t)"
proof (induction nowMs late e js rule: drain_signals.induct)
  case (2 nowMs d t' c' late e js)
  let ?enq = "if nowMs - RECOMPUTE_GUARD_MS \<le> t'
    then enqueueRecompute c' d t' (t' + RECOMPUTE_GUARD_MS) (Some (t' + RECOMPUTE_GUARD_MS - nowMs)) js
    else enqueueRecompute c' d t' (nowMs - RECOMPUTE_GUARD_MS) None js"
  obtain js' r where e: "?enq = (js', r)" by fastforce
  let ?e = "case r of Inl u \<Rightarrow> markLate e d t' | Inr u \<Rightarrow> e"
  have res: "drain_signals nowMs (((d, t'), c') # late) e js = drain_signals nowMs late ?e js'" using e by (simp add: Let_def)
  show ?case
  proof (cases "((dev, t), c) \<in> set late")
    case True
    from "2.IH" [OF refl refl e [symmetric] refl this] show ?thesis unfolding res .
  next
    case False
    then have eq: "dev = d" "t = t'" "c = c'" using "2.prems" by auto
    show ?thesis
    proof (cases r)
      case (Inl u)
      obtain p where "map_of (te_late ?e) dev = Some p" "p \<le> t"
        using markLate_own [of e d t'] Inl eq by (cases "map_of (te_late e) d") auto
      then show ?thesis unfolding res using drain_keeps [of js' nowMs late ?e dev] by (meson order_trans)
    next
      case (Inr u)
      obtain until where "scheduled js' dev t until" "min (t + RECOMPUTE_GUARD_MS) (nowMs - RECOMPUTE_GUARD_MS) \<le> until"
        using e Inr eq enqueue_result by (cases "nowMs - RECOMPUTE_GUARD_MS \<le> t'") fastforce+
      then show ?thesis unfolding res using drain_keeps [of js' nowMs late ?e dev] scheduled_mono by blast
    qed
  qed
qed simp

text \<open>A late record is not forgotten. When the late signals are drained, each of them is afterwards in the queue, as a job
  for the hour of the record up to the settled edge (or the guard after it), or still marked
  late in the engine, whichever of the calls to the queue fail.\<close>

theorem late_signals_kept:
  assumes "(dev, t) \<in> set (te_late e)" and "drain_late nowMs calls e js = (e', js')"
  shows "(\<exists>until. scheduled js' dev t until \<and> min (t + RECOMPUTE_GUARD_MS) (nowMs - RECOMPUTE_GUARD_MS) \<le> until) \<or>
    (\<exists>p. map_of (te_late e') dev = Some p \<and> p \<le> t)"
proof -
  from zip_calls [OF assms(1), of calls] obtain c where "((dev, t), c) \<in> set (zip (te_late e) (map calls [0..<length (te_late e)]))" by blast
  from drain_signal [OF this, of nowMs "fst (takeLate e)" js] assms(2) show ?thesis by (simp add: drain_late_def takeLate_def)
qed

theorem late_signals_kept_witness:
  "\<exists>e' js'. drain_late 10000000 (\<lambda>i. Failed False) ((new_trip_engine DEFAULT_THRESHOLDS)\<lparr>te_late := [(7, 5)]\<rparr>) [] = (e', js') \<and>
     (\<exists>p. map_of (te_late e') 7 = Some p \<and> p \<le> 5)"
proof -
  let ?e = "(new_trip_engine DEFAULT_THRESHOLDS)\<lparr>te_late := [(7, 5)]\<rparr>"
  obtain e' js' where d: "drain_late 10000000 (\<lambda>i. Failed False) ?e [] = (e', js')" by fastforce
  have "snd (drain_late 10000000 (\<lambda>i. Failed False) ?e []) = []"
    by (simp add: drain_late_def takeLate_def enqueueRecompute_def issue_def RECOMPUTE_GUARD_MS_def Let_def)
  with d have js: "js' = []" by simp
  have "(7, 5) \<in> set (te_late ?e)" by simp
  from late_signals_kept [OF this d] have "\<exists>p. map_of (te_late e') 7 = Some p \<and> p \<le> 5" by (simp add: js scheduled_def)
  then show ?thesis by (intro exI [of _ e'] exI [of _ js'] conjI d)
qed

section \<open>What the buckets and a lost open cost\<close>

text \<open>A recompute from 10 past is ignored while one from 50 past the same hour waits: the earlier records of the
  hour are in no window.\<close>

lemma wider_window_dropped:
  "fst (enqueueRecompute Answered 7 (10 * 60000) 7200000 None (fst (enqueueRecompute Answered 7 (50 * 60000) 7200000 None []))) =
     [\<lparr>rj_device = 7, rj_from = 50 * 60000, rj_to = 7200000, rj_delay = None\<rparr>]"
  by (simp add: enqueueRecompute_def issue_def add_job_def job_id_def hour_of_def)

text \<open>A journey whose open was not stored, and that is still going on when the recompute of that batch runs, is
  in no row: the recompute finds no end, and the close, when it comes, finds no open row and is only counted as missed.\<close>

definition deaf_calls :: trip_calls where
  "deaf_calls = \<lparr>tq_tenant = Inr (Some ''t''), tq_account = Inr (Some ''a''), tq_positions = Inr [], tq_driver = (\<lambda>t a k. Inr None),
     tq_stale = Answered, tq_insert = Failed False, tq_update = Answered\<rparr>"

definition no_trips :: trip_store where
  "no_trips = \<lparr>ts_openIds = (\<lambda>d. None), ts_shardOf = (\<lambda>d. None), ts_db = \<lparr>td_rows = [], td_next = 0\<rparr>\<rparr>"

lemma lost_open_loses_trip:
  "apply_trips (\<lambda>ps. None) 3 [(hd lost_drive, deaf_calls)] \<lparr>tn_opened = 0, tn_closed = 0, tn_missed = 0\<rparr> no_trips = (no_trips, Inl ())"
  "rebuilt default_config 7 \<lparr>cs_from = 0, cs_to = RECOMPUTE_GUARD_MS, cs_truncated = False\<rparr> [position 0 True, position 100000 True] = []"
  "apply_trips (\<lambda>ps. None) 3 [(TripClose rebuilt_drive, deaf_calls)] \<lparr>tn_opened = 0, tn_closed = 0, tn_missed = 0\<rparr> no_trips =
     (no_trips, Inr \<lparr>tn_opened = 0, tn_closed = 0, tn_missed = 1\<rparr>)"
proof -
  show "apply_trips (\<lambda>ps. None) 3 [(hd lost_drive, deaf_calls)] \<lparr>tn_opened = 0, tn_closed = 0, tn_missed = 0\<rparr> no_trips = (no_trips, Inl ())"
    by (simp add: lost_drive_def deaf_calls_def no_trips_def apply_event_def apply_open_def resolveScope_def close_stale_def
        insert_open_def issue_def)
  show "rebuilt default_config 7 \<lparr>cs_from = 0, cs_to = RECOMPUTE_GUARD_MS, cs_truncated = False\<rparr> [position 0 True, position 100000 True] = []"
    by (simp add: rebuilt_def default_config_def new_trip_engine_def trip_eval Let_def List.map_filter_def)
  show "apply_trips (\<lambda>ps. None) 3 [(TripClose rebuilt_drive, deaf_calls)] \<lparr>tn_opened = 0, tn_closed = 0, tn_missed = 0\<rparr> no_trips =
     (no_trips, Inr \<lparr>tn_opened = 0, tn_closed = 0, tn_missed = 1\<rparr>)"
    by (simp add: no_trips_def apply_event_def apply_close_def rebuilt_drive_def count_trip_def)
qed

end
