(* ===== verification/Tenancy.thy ===== *)
theory Tenancy
  imports JsText
begin

text \<open>
  Tenant and account scoping of the API's database access: the roles of
  \<open>packages/shared/src/roles.ts\<close>, the scope fragment of \<open>packages/db/src/scope.ts\<close>, the audit
  writer of \<open>packages/db/src/repos/audit.ts\<close> and the generic repository of
  \<open>packages/db/src/repos/generic.ts\<close>.

  The database is reached through the delegate the repository is given (Prisma's model object,
  which is not under \<open>src/\<close>): a record of its operations over an arbitrary state. What the code
  relies on is the predicate \<open>serves\<close>: a query answers from the rows its \<open>where\<close> object matches, a
  write touches those rows alone. A row is a map from column names to cells; a \<open>where\<close> object and a
  payload are association lists, so that an object literal spread over another is an update of the
  key it already has.
\<close>

section \<open>Roles\<close>

datatype role = Platform_admin | Tsp_admin | Account_manager | Viewer

definition ROLES :: "role list" where
  "ROLES = [Platform_admin, Tsp_admin, Account_manager, Viewer]"

fun ROLE_TIER :: "role \<Rightarrow> nat" where
  "ROLE_TIER Viewer = 0"
| "ROLE_TIER Account_manager = 1"
| "ROLE_TIER Tsp_admin = 2"
| "ROLE_TIER Platform_admin = 3"

definition canGrantRole :: "role \<Rightarrow> role \<Rightarrow> bool" where
  "canGrantRole actor target =
     (if target = Platform_admin then actor = Platform_admin else ROLE_TIER target \<le> ROLE_TIER actor)"

definition canManageUser :: "role \<Rightarrow> role \<Rightarrow> bool" where
  "canManageUser actor targetCurrent =
     (if actor = Platform_admin then True else ROLE_TIER targetCurrent < ROLE_TIER actor)"

section \<open>Rows, where objects and the scope fragment\<close>

datatype cell = Null | Str string | Bool bool | Number int

type_synonym db_row = "string \<Rightarrow> cell option"

text \<open>The value of a \<open>where\<close> key: a value the column must equal, or the alternatives of \<open>OR\<close>.\<close>

datatype condition = Is cell | AnyOf "(string \<times> cell) list"

type_synonym where_obj = "(string \<times> condition) list"

fun holds :: "db_row \<Rightarrow> string \<times> condition \<Rightarrow> bool" where
  "holds r (k, Is v) = (r k = Some v)"
| "holds r (k, AnyOf alts) = list_ex (\<lambda>(c, v). r c = Some v) alts"

definition matches :: "where_obj \<Rightarrow> db_row \<Rightarrow> bool" where
  "matches w r = list_all (holds r) w"

record scope =
  scope_tenant :: string
  scope_account :: "string option"

definition scopedWhere :: "scope \<Rightarrow> bool \<Rightarrow> where_obj" where
  "scopedWhere sc nullableAccount =
     (''tenantId'', Is (Str (scope_tenant sc))) #
     (case scope_account sc of None \<Rightarrow> []
      | Some a \<Rightarrow>
          if nullableAccount then [(''OR'', AnyOf [(''accountId'', Str a), (''accountId'', Null)])]
          else [(''accountId'', Is (Str a))])"

section \<open>The audit trail\<close>

datatype audit_action = ACreate | AUpdate | ADelete

record 'v audit_row =
  au_tenant :: "string option"
  au_user :: "string option"
  au_action :: audit_action
  au_entity :: string
  au_id :: string
  au_before :: "'v option"
  au_after :: "'v option"

definition audit_record ::
  "scope \<Rightarrow> string \<Rightarrow> audit_action \<Rightarrow> string \<Rightarrow> string \<Rightarrow> 'v option \<Rightarrow> 'v option \<Rightarrow>
     'v audit_row list \<Rightarrow> 'v audit_row list" where
  "audit_record sc user act ent eid before after trail =
     trail @ [\<lparr>au_tenant = Some (scope_tenant sc), au_user = Some user, au_action = act,
               au_entity = ent, au_id = eid, au_before = before, au_after = after\<rparr>]"

definition redact :: "string list option \<Rightarrow> db_row \<Rightarrow> db_row" where
  "redact names row =
     (case names of None \<Rightarrow> row
      | Some fs \<Rightarrow> foldl (\<lambda>copy f. if copy f \<noteq> None then copy(f \<mapsto> Str ''***'') else copy) row fs)"

section \<open>The delegate\<close>

record 's delegate =
  findMany :: "'s \<Rightarrow> where_obj \<Rightarrow> string option \<Rightarrow> nat option \<Rightarrow> db_row list"
  findFirst :: "'s \<Rightarrow> where_obj \<Rightarrow> db_row option"
  insertRow :: "'s \<Rightarrow> db_row \<Rightarrow> db_row \<Rightarrow> 's \<times> db_row"
  updateMany :: "'s \<Rightarrow> where_obj \<Rightarrow> (string \<times> cell) list \<Rightarrow> 's \<times> nat"
  deleteMany :: "'s \<Rightarrow> where_obj \<Rightarrow> 's \<times> nat"

text \<open>What Prisma documents of these calls, for a reading \<open>rows\<close> of the database as its list of rows:
  the rows of an answer depend only on the rows that match (\<open>page\<close> orders and cuts them, \<open>pick\<close>
  takes one), \<open>create\<close> adds the row made of the column defaults and the data, and the two scoped
  writes apply to the matching rows.\<close>

definition serves ::
  "'s delegate \<Rightarrow> ('s \<Rightarrow> db_row list) \<Rightarrow> (string option \<Rightarrow> nat option \<Rightarrow> db_row list \<Rightarrow> db_row list) \<Rightarrow>
     (db_row list \<Rightarrow> db_row) \<Rightarrow> bool" where
  "serves d rows page pick \<longleftrightarrow>
     (\<forall>s w srt t. findMany d s w srt t = page srt t (filter (matches w) (rows s))) \<and>
     (\<forall>srt t rs. set (page srt t rs) \<subseteq> set rs) \<and>
     (\<forall>s w. findFirst d s w =
        (let ms = filter (matches w) (rows s) in if ms = [] then None else Some (pick ms))) \<and>
     (\<forall>rs. rs \<noteq> [] \<longrightarrow> pick rs \<in> set rs) \<and>
     (\<forall>s dflt row. snd (insertRow d s dflt row) = dflt ++ row \<and>
        rows (fst (insertRow d s dflt row)) = rows s @ [dflt ++ row]) \<and>
     (\<forall>s w patch. rows (fst (updateMany d s w patch)) =
        map (\<lambda>r. if matches w r then r ++ map_of patch else r) (rows s) \<and>
        snd (updateMany d s w patch) = length (filter (matches w) (rows s))) \<and>
     (\<forall>s w. rows (fst (deleteMany d s w)) = filter (\<lambda>r. \<not> matches w r) (rows s) \<and>
        snd (deleteMany d s w) = length (filter (matches w) (rows s)))"

section \<open>The generic repository\<close>

record gconfig =
  g_entity :: string
  g_nullable :: bool
  g_idField :: string
  g_orderBy :: "string option"
  g_stamp :: "(scope \<Rightarrow> (string \<times> cell) list) option"
  g_redact :: "string list option"
  g_readRedact :: "string list option"

record 's repo =
  rp_table :: 's
  rp_trail :: "db_row audit_row list"

definition scopedById :: "gconfig \<Rightarrow> scope \<Rightarrow> string \<Rightarrow> where_obj" where
  "scopedById cfg sc rid = AList.update (g_idField cfg) (Is (Str rid)) (scopedWhere sc (g_nullable cfg))"

definition mutateScopedById :: "gconfig \<Rightarrow> scope \<Rightarrow> string \<Rightarrow> where_obj" where
  "mutateScopedById cfg sc rid = AList.update (g_idField cfg) (Is (Str rid)) (scopedWhere sc False)"

fun nat_text :: "nat \<Rightarrow> string" where
  "nat_text n =
     (if n < 10 then [char_of (48 + n)] else nat_text (n div 10) @ [char_of (48 + n mod 10)])"

declare nat_text.simps [simp del]

text \<open>\<open>String(row[idField])\<close>. The models of this repository have string ids; the other renderings are
  those of JavaScript, a number in decimal digits.\<close>

definition id_text :: "db_row \<Rightarrow> string \<Rightarrow> string" where
  "id_text row f =
     (case row f of None \<Rightarrow> ''undefined'' | Some Null \<Rightarrow> ''null'' | Some (Str s) \<Rightarrow> s
      | Some (Bool b) \<Rightarrow> (if b then ''true'' else ''false'')
      | Some (Number n) \<Rightarrow> (if n < 0 then ''-'' else []) @ nat_text (nat \<bar>n\<bar>))"

definition repo_list :: "'s delegate \<Rightarrow> gconfig \<Rightarrow> scope \<Rightarrow> nat option \<Rightarrow> 's repo \<Rightarrow> db_row list" where
  "repo_list d cfg sc tak st =
     (let rs = findMany d (rp_table st) (scopedWhere sc (g_nullable cfg)) (g_orderBy cfg)
                 (if tak = Some 0 then None else tak)
      in if g_readRedact cfg \<noteq> None then map (redact (g_readRedact cfg)) rs else rs)"

definition repo_get :: "'s delegate \<Rightarrow> gconfig \<Rightarrow> scope \<Rightarrow> string \<Rightarrow> 's repo \<Rightarrow> db_row option" where
  "repo_get d cfg sc rid st =
     (let r = findFirst d (rp_table st) (scopedById cfg sc rid)
      in if g_readRedact cfg \<noteq> None then map_option (redact (g_readRedact cfg)) r else r)"

definition stamp_of :: "gconfig \<Rightarrow> scope \<Rightarrow> (string \<times> cell) list" where
  "stamp_of cfg sc =
     (case g_stamp cfg of Some f \<Rightarrow> f sc | None \<Rightarrow> [(''tenantId'', Str (scope_tenant sc))])"

definition repo_create ::
  "'s delegate \<Rightarrow> gconfig \<Rightarrow> scope \<Rightarrow> string \<Rightarrow> db_row \<Rightarrow> (string \<times> cell) list \<Rightarrow> 's repo \<Rightarrow>
     's repo \<times> db_row" where
  "repo_create d cfg sc user dflt payload st =
     (let (s1, row) = insertRow d (rp_table st) dflt (map_of payload ++ map_of (stamp_of cfg sc)) in
      (st\<lparr>rp_table := s1,
          rp_trail := audit_record sc user ACreate (g_entity cfg) (id_text row (g_idField cfg)) None
                     (Some (redact (g_redact cfg) row)) (rp_trail st)\<rparr>,
       row))"

text \<open>What other requests do to the database while this one awaits its answers: \<open>mid\<close> between the
  existence check and the write, \<open>mid2\<close> between the write and the read of the written row.\<close>

definition repo_update ::
  "'s delegate \<Rightarrow> gconfig \<Rightarrow> scope \<Rightarrow> string \<Rightarrow> string \<Rightarrow> (string \<times> cell) list \<Rightarrow>
     ('s repo \<Rightarrow> 's repo) \<Rightarrow> ('s repo \<Rightarrow> 's repo) \<Rightarrow> 's repo \<Rightarrow> 's repo \<times> db_row option" where
  "repo_update d cfg sc user rid patch mid mid2 st =
     (let w = mutateScopedById cfg sc rid;
          out = (\<lambda>row. if g_readRedact cfg \<noteq> None then redact (g_readRedact cfg) row else row) in
      case findFirst d (rp_table st) w of
        None \<Rightarrow> (st, None)
      | Some before \<Rightarrow>
          if patch = [] then (st, Some (out before))
          else
            let st1 = mid st; (s2, count) = updateMany d (rp_table st1) w patch;
                st2 = st1\<lparr>rp_table := s2\<rparr> in
            if count = 0 then (st2, None)
            else
              let st3 = mid2 st2 in
              case findFirst d (rp_table st3) w of
                None \<Rightarrow> (st3, None)
              | Some row \<Rightarrow>
                  (st3\<lparr>rp_trail := audit_record sc user AUpdate (g_entity cfg) rid
                         (Some (redact (g_redact cfg) before)) (Some (redact (g_redact cfg) row))
                         (rp_trail st3)\<rparr>,
                   Some (out row)))"

definition repo_remove ::
  "'s delegate \<Rightarrow> gconfig \<Rightarrow> scope \<Rightarrow> string \<Rightarrow> string \<Rightarrow> ('s repo \<Rightarrow> 's repo) \<Rightarrow> 's repo \<Rightarrow>
     's repo \<times> bool" where
  "repo_remove d cfg sc user rid mid st =
     (let w = mutateScopedById cfg sc rid in
      case findFirst d (rp_table st) w of
        None \<Rightarrow> (st, False)
      | Some before \<Rightarrow>
          let st1 = mid st; (s2, count) = deleteMany d (rp_table st1) w; st2 = st1\<lparr>rp_table := s2\<rparr> in
          if count = 0 then (st2, False)
          else (st2\<lparr>rp_trail := audit_record sc user ADelete (g_entity cfg) rid
                      (Some (redact (g_redact cfg) before)) None (rp_trail st2)\<rparr>, True))"

text \<open>The three repositories built on it.\<close>

definition webhook_config :: gconfig where
  "webhook_config =
     \<lparr>g_entity = ''webhook'', g_nullable = True, g_idField = ''id'', g_orderBy = Some ''createdAt desc'',
      g_stamp = None, g_redact = Some [''secret''], g_readRedact = Some [''secret'']\<rparr>"

definition rule_config :: gconfig where
  "rule_config =
     \<lparr>g_entity = ''rule'', g_nullable = False, g_idField = ''id'', g_orderBy = Some ''createdAt desc'',
      g_stamp = None, g_redact = None, g_readRedact = None\<rparr>"

definition scheduledReport_config :: gconfig where
  "scheduledReport_config =
     \<lparr>g_entity = ''scheduledReport'', g_nullable = False, g_idField = ''id'',
      g_orderBy = Some ''createdAt desc'', g_stamp = None, g_redact = None, g_readRedact = None\<rparr>"

end
