(* ===== verification/Isolation.thy ===== *)
theory Isolation
  imports Prelude
begin

text \<open>
  The isolation contract of a multi-tenant store, as a locale. A client issues calls, each on behalf
  of one domain (a tenant); the provider promises that the answer to a call and the caller's part of
  the state are determined by the caller's part alone, and that a call changes no other domain's
  part. What follows is noninterference: the answers a tenant gets from an interleaving of every
  tenant's calls are those it would get had the others never called.
\<close>

fun run_calls :: "('c \<Rightarrow> 's \<Rightarrow> 's \<times> 'r) \<Rightarrow> 'c list \<Rightarrow> 's \<Rightarrow> 's \<times> ('c \<times> 'r) list" where
  "run_calls step [] s = (s, [])"
| "run_calls step (c # cs) s =
     (let (s1, r) = step c s; (s2, rs) = run_calls step cs s1 in (s2, (c, r) # rs))"

definition replies_to :: "('c \<Rightarrow> 'd) \<Rightarrow> 'd \<Rightarrow> ('c \<times> 'r) list \<Rightarrow> ('c \<times> 'r) list" where
  "replies_to dmn d rs = filter (\<lambda>(c, r). dmn c = d) rs"

definition purge :: "('c \<Rightarrow> 'd) \<Rightarrow> 'd \<Rightarrow> 'c list \<Rightarrow> 'c list" where
  "purge dmn d cs = filter (\<lambda>c. dmn c = d) cs"

locale isolated =
  fixes step :: "'c \<Rightarrow> 's \<Rightarrow> 's \<times> 'r"
    and domain :: "'c \<Rightarrow> 'd"
    and part :: "'d \<Rightarrow> 's \<Rightarrow> 'v"
    and inv :: "'s \<Rightarrow> bool"
    and wf :: "'c \<Rightarrow> bool"
  assumes keeps: "wf c \<Longrightarrow> inv s \<Longrightarrow> inv (fst (step c s))"
    and local_step:
      "wf c \<Longrightarrow> inv s \<Longrightarrow> inv s' \<Longrightarrow> part (domain c) s = part (domain c) s' \<Longrightarrow>
        snd (step c s) = snd (step c s') \<and>
        part (domain c) (fst (step c s)) = part (domain c) (fst (step c s'))"
    and silent: "wf c \<Longrightarrow> inv s \<Longrightarrow> domain c \<noteq> d \<Longrightarrow> part d (fst (step c s)) = part d s"
begin

lemma run_keeps: "\<forall>c \<in> set cs. wf c \<Longrightarrow> inv s \<Longrightarrow> inv (fst (run_calls step cs s))"
proof (induction cs arbitrary: s)
  case (Cons c cs)
  then show ?case using keeps [of c s] by (simp add: case_prod_unfold Let_def)
qed simp

lemma run_noninterference:
  assumes "\<forall>c \<in> set cs. wf c" and "inv s" and "inv s'" and "part d s = part d s'"
  shows "replies_to domain d (snd (run_calls step cs s))
         = snd (run_calls step (purge domain d cs) s')
       \<and> part d (fst (run_calls step cs s)) = part d (fst (run_calls step (purge domain d cs) s'))"
  using assms
proof (induction cs arbitrary: s s')
  case Nil
  then show ?case by (simp add: replies_to_def purge_def)
next
  case (Cons c cs)
  have c: "wf c" and cs: "\<forall>c \<in> set cs. wf c" using Cons.prems(1) by simp_all
  have i: "inv (fst (step c s))" and i': "inv (fst (step c s'))"
    using keeps [OF c] Cons.prems(2,3) by blast+
  show ?case
  proof (cases "domain c = d")
    case True
    have r: "snd (step c s) = snd (step c s')"
      and p: "part d (fst (step c s)) = part d (fst (step c s'))"
      using local_step [OF c Cons.prems(2,3)] Cons.prems(4) True by blast+
    show ?thesis
      using Cons.IH [OF cs i i' p] True r
      by (simp add: replies_to_def purge_def case_prod_unfold Let_def)
  next
    case False
    have p: "part d (fst (step c s)) = part d s'"
      using silent [OF c Cons.prems(2) False] Cons.prems(4) by simp
    show ?thesis
      using Cons.IH [OF cs i Cons.prems(3) p] False
      by (simp add: replies_to_def purge_def case_prod_unfold Let_def)
  qed
qed

lemma noninterference:
  assumes "\<forall>c \<in> set cs. wf c" and "inv s"
  shows "replies_to domain d (snd (run_calls step cs s)) = snd (run_calls step (purge domain d cs) s)
       \<and> part d (fst (run_calls step cs s)) = part d (fst (run_calls step (purge domain d cs) s))"
  using run_noninterference [OF assms(1,2,2) refl] .

end

end
