(* ===== verification/TenantRepo.thy ===== *)
theory TenantRepo
  imports Tenancy Isolation
begin

text \<open>
  The generic repository keeps tenants apart. The calls the API makes of it are a datatype; each runs
  to its end before the next, and the interleaved form of the two writes is covered by the theorem on
  pinned callers. \<open>tenant_part\<close> is what one tenant owns: its rows and its audit trail.
\<close>

section \<open>Calls\<close>

datatype repo_call =
    RList scope "nat option"
  | RGet scope string
  | RCreate scope string db_row "(string \<times> cell) list"
  | RUpdate scope string string "(string \<times> cell) list"
  | RRemove scope string string

datatype repo_reply = Rows "db_row list" | Found "db_row option" | Removed bool

fun call_scope :: "repo_call \<Rightarrow> scope" where
  "call_scope (RList sc _) = sc"
| "call_scope (RGet sc _) = sc"
| "call_scope (RCreate sc _ _ _) = sc"
| "call_scope (RUpdate sc _ _ _) = sc"
| "call_scope (RRemove sc _ _) = sc"

definition call_tenant :: "repo_call \<Rightarrow> string" where
  "call_tenant c = scope_tenant (call_scope c)"

fun call_step :: "'s delegate \<Rightarrow> gconfig \<Rightarrow> repo_call \<Rightarrow> 's repo \<Rightarrow> 's repo \<times> repo_reply" where
  "call_step d cfg (RList sc tak) st = (st, Rows (repo_list d cfg sc tak st))"
| "call_step d cfg (RGet sc rid) st = (st, Found (repo_get d cfg sc rid st))"
| "call_step d cfg (RCreate sc user dflt payload) st =
     (let (st', row) = repo_create d cfg sc user dflt payload st in (st', Found (Some row)))"
| "call_step d cfg (RUpdate sc user rid patch) st =
     (let (st', r) = repo_update d cfg sc user rid patch id id st in (st', Found r))"
| "call_step d cfg (RRemove sc user rid) st =
     (let (st', b) = repo_remove d cfg sc user rid id st in (st', Removed b))"

text \<open>The updatable columns of every model of this repository leave the tenant out.\<close>

fun call_ok :: "repo_call \<Rightarrow> bool" where
  "call_ok (RUpdate _ _ _ patch) = (''tenantId'' \<notin> fst ` set patch)"
| "call_ok _ = True"

definition scoped_config :: "gconfig \<Rightarrow> bool" where
  "scoped_config cfg \<longleftrightarrow> g_idField cfg \<notin> {''tenantId'', ''accountId'', ''OR''} \<and> g_stamp cfg = None"

definition own :: "string \<Rightarrow> db_row \<Rightarrow> bool" where
  "own t r \<longleftrightarrow> r ''tenantId'' = Some (Str t)"

definition tenant_part ::
  "('s \<Rightarrow> db_row list) \<Rightarrow> string \<Rightarrow> 's repo \<Rightarrow> db_row list \<times> db_row audit_row list" where
  "tenant_part rows t st =
     (filter (own t) (rows (rp_table st)), filter (\<lambda>a. au_tenant a = Some t) (rp_trail st))"

section \<open>What a scope fragment matches\<close>

lemma matches_Cons [simp]: "matches (c # w) r \<longleftrightarrow> holds r c \<and> matches w r"
  by (simp add: matches_def)

lemma matches_Nil [simp]: "matches [] r"
  by (simp add: matches_def)

lemma matches_append [simp]: "matches (v @ w) r \<longleftrightarrow> matches v r \<and> matches w r"
  by (simp add: matches_def)

lemma alist_update_fresh: "k \<notin> fst ` set w \<Longrightarrow> AList.update k v w = w @ [(k, v)]"
  by (induction w) auto

lemma matches_scopedWhere:
  "matches (scopedWhere sc n) r \<longleftrightarrow>
     own (scope_tenant sc) r \<and>
     (\<forall>a. scope_account sc = Some a \<longrightarrow>
        r ''accountId'' = Some (Str a) \<or> (n \<and> r ''accountId'' = Some Null))"
  by (auto simp: scopedWhere_def own_def split: option.splits)

lemma scopedWhere_keys: "fst ` set (scopedWhere sc n) \<subseteq> {''tenantId'', ''accountId'', ''OR''}"
  by (auto simp: scopedWhere_def split: option.splits)

lemma matches_by_id:
  assumes "scoped_config cfg"
  shows "matches (AList.update (g_idField cfg) (Is (Str rid)) (scopedWhere sc n)) r \<longleftrightarrow>
         matches (scopedWhere sc n) r \<and> r (g_idField cfg) = Some (Str rid)"
proof -
  have "g_idField cfg \<notin> fst ` set (scopedWhere sc n)"
    using assms scopedWhere_keys [of sc n] by (auto simp: scoped_config_def)
  then show ?thesis by (simp add: alist_update_fresh)
qed

lemma matches_mutate:
  assumes "scoped_config cfg"
  shows "matches (mutateScopedById cfg sc rid) r \<longleftrightarrow>
         own (scope_tenant sc) r \<and>
         (\<forall>a. scope_account sc = Some a \<longrightarrow> r ''accountId'' = Some (Str a)) \<and>
         r (g_idField cfg) = Some (Str rid)"
  by (auto simp: mutateScopedById_def matches_by_id [OF assms] matches_scopedWhere)

lemma matches_scopedById:
  "scoped_config cfg \<Longrightarrow>
     matches (scopedById cfg sc rid) r \<longleftrightarrow>
     matches (scopedWhere sc (g_nullable cfg)) r \<and> r (g_idField cfg) = Some (Str rid)"
  by (simp add: scopedById_def matches_by_id)

text \<open>A \<open>where\<close> object is confined to a tenant when it matches only the tenant's rows.\<close>

definition confined :: "string \<Rightarrow> where_obj \<Rightarrow> bool" where
  "confined t w \<longleftrightarrow> (\<forall>r. matches w r \<longrightarrow> own t r)"

lemma confined_list [simp]: "confined (scope_tenant sc) (scopedWhere sc n)"
  by (simp add: confined_def matches_scopedWhere)

lemma confined_byId: "scoped_config cfg \<Longrightarrow> confined (scope_tenant sc) (scopedById cfg sc rid)"
  by (simp add: confined_def matches_scopedById matches_scopedWhere)

lemma confined_mutate: "scoped_config cfg \<Longrightarrow> confined (scope_tenant sc) (mutateScopedById cfg sc rid)"
  by (simp add: confined_def matches_mutate)

lemma filter_confined:
  "confined t w \<Longrightarrow> filter (matches w) rs = filter (matches w) (filter (own t) rs)"
  by (auto simp: confined_def intro!: filter_cong)

lemma filter_elsewhere:
  "confined t' w \<Longrightarrow> t \<noteq> t' \<Longrightarrow> filter (own t) (filter (\<lambda>r. \<not> matches w r) rs) = filter (own t) rs"
  by (auto simp: confined_def own_def intro!: filter_cong)

lemma patch_absent: "k \<notin> fst ` set patch \<Longrightarrow> (r ++ map_of patch) k = r k"
  by (simp add: map_add_def map_of_eq_None_iff [THEN iffD2])

lemma own_patch [simp]:
  "''tenantId'' \<notin> fst ` set patch \<Longrightarrow> own t (r ++ map_of patch) \<longleftrightarrow> own t r"
  by (simp add: own_def patch_absent)

lemma filter_own_map:
  assumes "''tenantId'' \<notin> fst ` set patch"
  shows "filter (own t) (map (\<lambda>r. if matches w r then r ++ map_of patch else r) rs)
         = map (\<lambda>r. if matches w r then r ++ map_of patch else r) (filter (own t) rs)"
  using assms by (induction rs) auto

lemma map_elsewhere:
  assumes "confined t' w" and "t \<noteq> t'"
  shows "map (\<lambda>r. if matches w r then f r else r) (filter (own t) rs) = filter (own t) rs"
  using assms by (intro map_idI) (auto simp: confined_def own_def)

section \<open>The delegate's answers and writes, one tenant at a time\<close>

lemma serves_rules:
  assumes "serves d rows page pick"
  shows serves_findMany: "findMany d s w srt t = page srt t (filter (matches w) (rows s))"
    and serves_findFirst: "findFirst d s w =
      (let ms = filter (matches w) (rows s) in if ms = [] then None else Some (pick ms))"
    and serves_insert: "snd (insertRow d s dflt row) = dflt ++ row"
      "rows (fst (insertRow d s dflt row)) = rows s @ [dflt ++ row]"
    and serves_update: "rows (fst (updateMany d s w patch)) =
      map (\<lambda>r. if matches w r then r ++ map_of patch else r) (rows s)"
      "snd (updateMany d s w patch) = length (filter (matches w) (rows s))"
    and serves_delete: "rows (fst (deleteMany d s w)) = filter (\<lambda>r. \<not> matches w r) (rows s)"
      "snd (deleteMany d s w) = length (filter (matches w) (rows s))"
  using assms unfolding serves_def by blast+

lemma serves_page: "serves d rows page pick \<Longrightarrow> set (page srt t rs) \<subseteq> set rs"
  unfolding serves_def by blast

lemma serves_pick: "serves d rows page pick \<Longrightarrow> rs \<noteq> [] \<Longrightarrow> pick rs \<in> set rs"
  unfolding serves_def by blast

lemma findFirst_None:
  "serves d rows page pick \<Longrightarrow> findFirst d s w = None \<longleftrightarrow> filter (matches w) (rows s) = []"
  by (simp add: serves_findFirst Let_def)

lemma findFirst_Some:
  assumes "serves d rows page pick" and "findFirst d s w = Some r"
  shows "r \<in> set (rows s) \<and> matches w r"
proof -
  have ne: "filter (matches w) (rows s) \<noteq> []" and r: "r = pick (filter (matches w) (rows s))"
    using assms by (simp_all add: serves_findFirst Let_def split: if_splits)
  show ?thesis using serves_pick [OF assms(1) ne] r by auto
qed

lemma same_part_matching:
  assumes "confined t w" and "filter (own t) rs = filter (own t) rs'"
  shows "filter (matches w) rs = filter (matches w) rs'"
  using filter_confined [OF assms(1), of rs] filter_confined [OF assms(1), of rs'] assms(2) by simp

lemma same_part_findFirst:
  "serves d rows page pick \<Longrightarrow> confined t w \<Longrightarrow> filter (own t) (rows s) = filter (own t) (rows s') \<Longrightarrow>
     findFirst d s w = findFirst d s' w"
  using same_part_matching [of t w "rows s" "rows s'"] by (simp add: serves_findFirst)

lemma stamp_plain: "scoped_config cfg \<Longrightarrow> stamp_of cfg sc = [(''tenantId'', Str (scope_tenant sc))]"
  by (simp add: stamp_of_def scoped_config_def)

lemma own_created:
  "scoped_config cfg \<Longrightarrow> own t (dflt ++ m ++ map_of (stamp_of cfg sc)) \<longleftrightarrow> t = scope_tenant sc"
  by (auto simp: own_def stamp_plain map_add_def)

lemma audit_part [simp]:
  "filter (\<lambda>a. au_tenant a = Some t) (audit_record sc user act ent eid b a tr) =
     filter (\<lambda>a. au_tenant a = Some t) tr
     @ (if t = scope_tenant sc then audit_record sc user act ent eid b a [] else [])"
  by (simp add: audit_record_def)

section \<open>The contract\<close>

lemma create_part:
  assumes "serves d rows page pick" and "scoped_config cfg"
  shows "tenant_part rows t (fst (repo_create d cfg sc user dflt payload st)) =
    (if t = scope_tenant sc
     then (let row = dflt ++ (map_of payload ++ map_of (stamp_of cfg sc)) in
           (fst (tenant_part rows t st) @ [row],
            snd (tenant_part rows t st) @
            audit_record sc user ACreate (g_entity cfg) (id_text row (g_idField cfg)) None
              (Some (redact (g_redact cfg) row)) []))
     else tenant_part rows t st)"
    and "snd (repo_create d cfg sc user dflt payload st)
         = dflt ++ (map_of payload ++ map_of (stamp_of cfg sc))"
  using serves_insert [OF assms(1), of "rp_table st" dflt "map_of payload ++ map_of (stamp_of cfg sc)"]
  by (auto simp: repo_create_def tenant_part_def case_prod_unfold Let_def own_created [OF assms(2)])

lemma update_reply_part:
  assumes sv: "serves d rows page pick" and cfg: "scoped_config cfg"
    and patch: "''tenantId'' \<notin> fst ` set patch"
    and same: "tenant_part rows (scope_tenant sc) st = tenant_part rows (scope_tenant sc) st'"
  shows "snd (repo_update d cfg sc user rid patch id id st)
         = snd (repo_update d cfg sc user rid patch id id st') \<and>
         tenant_part rows (scope_tenant sc) (fst (repo_update d cfg sc user rid patch id id st))
         = tenant_part rows (scope_tenant sc) (fst (repo_update d cfg sc user rid patch id id st'))"
proof -
  let ?w = "mutateScopedById cfg sc rid" and ?t = "scope_tenant sc"
  let ?u = "\<lambda>st. updateMany d (rp_table st) ?w patch"
  have cw: "confined ?t ?w" by (rule confined_mutate [OF cfg])
  have rows: "filter (own ?t) (rows (rp_table st)) = filter (own ?t) (rows (rp_table st'))"
    using same by (simp add: tenant_part_def)
  have first: "findFirst d (rp_table st) ?w = findFirst d (rp_table st') ?w"
    by (rule same_part_findFirst [OF sv cw rows])
  have rows': "filter (own ?t) (rows (fst (?u st))) = filter (own ?t) (rows (fst (?u st')))"
    by (simp add: serves_update [OF sv] filter_own_map [OF patch] rows)
  have count: "snd (?u st) = snd (?u st')"
    by (simp add: serves_update [OF sv] same_part_matching [OF cw rows])
  have first': "findFirst d (fst (?u st)) ?w = findFirst d (fst (?u st')) ?w"
    by (rule same_part_findFirst [OF sv cw rows'])
  show ?thesis
    using same first count first' rows'
    by (auto simp: repo_update_def Let_def case_prod_unfold tenant_part_def split: option.splits)
qed

lemma update_silent:
  assumes sv: "serves d rows page pick" and cfg: "scoped_config cfg"
    and patch: "''tenantId'' \<notin> fst ` set patch" and "t \<noteq> scope_tenant sc"
  shows "tenant_part rows t (fst (repo_update d cfg sc user rid patch id id st)) = tenant_part rows t st"
proof -
  have "filter (own t) (rows (fst (updateMany d s (mutateScopedById cfg sc rid) patch)))
        = filter (own t) (rows s)" for s
    by (simp add: serves_update [OF sv] filter_own_map [OF patch]
        map_elsewhere [OF confined_mutate [OF cfg] assms(4)])
  then show ?thesis
    using assms(4)
    by (simp add: repo_update_def Let_def case_prod_unfold tenant_part_def split: option.split)
qed

lemma delete_own:
  "serves d rows page pick \<Longrightarrow>
     filter (own t) (rows (fst (deleteMany d s w))) = filter (\<lambda>r. \<not> matches w r) (filter (own t) (rows s))"
  by (simp add: serves_delete conj_commute)

lemma remove_reply_part:
  assumes sv: "serves d rows page pick" and cfg: "scoped_config cfg"
    and same: "tenant_part rows (scope_tenant sc) st = tenant_part rows (scope_tenant sc) st'"
  shows "snd (repo_remove d cfg sc user rid id st) = snd (repo_remove d cfg sc user rid id st') \<and>
         tenant_part rows (scope_tenant sc) (fst (repo_remove d cfg sc user rid id st))
         = tenant_part rows (scope_tenant sc) (fst (repo_remove d cfg sc user rid id st'))"
proof -
  let ?w = "mutateScopedById cfg sc rid" and ?t = "scope_tenant sc"
  let ?u = "\<lambda>st. deleteMany d (rp_table st) ?w"
  have cw: "confined ?t ?w" by (rule confined_mutate [OF cfg])
  have rows: "filter (own ?t) (rows (rp_table st)) = filter (own ?t) (rows (rp_table st'))"
    using same by (simp add: tenant_part_def)
  have first: "findFirst d (rp_table st) ?w = findFirst d (rp_table st') ?w"
    by (rule same_part_findFirst [OF sv cw rows])
  have rows': "filter (own ?t) (rows (fst (?u st))) = filter (own ?t) (rows (fst (?u st')))"
    by (simp only: delete_own [OF sv] rows)
  have count: "snd (?u st) = snd (?u st')"
    by (simp add: serves_delete [OF sv] same_part_matching [OF cw rows])
  show ?thesis
    using same first count rows'
    by (auto simp: repo_remove_def Let_def case_prod_unfold tenant_part_def split: option.splits)
qed

lemma remove_silent:
  assumes sv: "serves d rows page pick" and cfg: "scoped_config cfg" and "t \<noteq> scope_tenant sc"
  shows "tenant_part rows t (fst (repo_remove d cfg sc user rid id st)) = tenant_part rows t st"
proof -
  have "filter (own t) (rows (fst (deleteMany d s (mutateScopedById cfg sc rid))))
        = filter (own t) (rows s)" for s
    unfolding serves_delete [OF sv] by (rule filter_elsewhere [OF confined_mutate [OF cfg] assms(3)])
  then show ?thesis
    using assms(3)
    by (simp add: repo_remove_def Let_def case_prod_unfold tenant_part_def split: option.split)
qed

lemma read_reply:
  assumes sv: "serves d rows page pick" and cfg: "scoped_config cfg"
    and same: "tenant_part rows (scope_tenant sc) st = tenant_part rows (scope_tenant sc) st'"
  shows "repo_list d cfg sc tak st = repo_list d cfg sc tak st'"
    and "repo_get d cfg sc rid st = repo_get d cfg sc rid st'"
proof -
  have rows: "filter (own (scope_tenant sc)) (rows (rp_table st))
              = filter (own (scope_tenant sc)) (rows (rp_table st'))"
    using same by (simp add: tenant_part_def)
  show "repo_list d cfg sc tak st = repo_list d cfg sc tak st'"
    by (simp add: repo_list_def serves_findMany [OF sv] same_part_matching [OF confined_list rows])
  show "repo_get d cfg sc rid st = repo_get d cfg sc rid st'"
    by (simp add: repo_get_def same_part_findFirst [OF sv confined_byId [OF cfg] rows])
qed

lemma repo_isolated:
  assumes sv: "serves d rows page pick" and cfg: "scoped_config cfg"
  shows "isolated (call_step d cfg) call_tenant (tenant_part rows) (\<lambda>_. True) call_ok"
proof (rule isolated.intro)
  fix c st st'
  assume ok: "call_ok c" and same: "tenant_part rows (call_tenant c) st = tenant_part rows (call_tenant c) st'"
  have both: "snd (call_step d cfg c st) = snd (call_step d cfg c st') \<and>
      tenant_part rows (call_tenant c) (fst (call_step d cfg c st))
      = tenant_part rows (call_tenant c) (fst (call_step d cfg c st'))"
  proof (cases c)
    case (RList sc tak)
    then show ?thesis using same by (simp add: call_tenant_def read_reply [OF sv cfg, of sc st st'])
  next
    case (RGet sc rid)
    then show ?thesis using same by (simp add: call_tenant_def read_reply [OF sv cfg, of sc st st'])
  next
    case (RCreate sc user dflt payload)
    then show ?thesis
      using same by (simp add: call_tenant_def case_prod_unfold Let_def create_part [OF sv cfg])
  next
    case (RUpdate sc user rid patch)
    then show ?thesis
      using ok same update_reply_part [OF sv cfg, of patch sc st st' user rid]
      by (simp add: call_tenant_def case_prod_unfold Let_def)
  next
    case (RRemove sc user rid)
    then show ?thesis
      using same remove_reply_part [OF sv cfg, of sc st st' user rid]
      by (simp add: call_tenant_def case_prod_unfold Let_def)
  qed
  then show "snd (call_step d cfg c st) = snd (call_step d cfg c st') \<and>
      tenant_part rows (call_tenant c) (fst (call_step d cfg c st))
      = tenant_part rows (call_tenant c) (fst (call_step d cfg c st'))" .
next
  fix c t st
  assume "call_ok c" and "call_tenant c \<noteq> t"
  then show "tenant_part rows t (fst (call_step d cfg c st)) = tenant_part rows t st"
    by (cases c)
      (simp_all add: call_tenant_def case_prod_unfold Let_def create_part [OF sv cfg]
        update_silent [OF sv cfg] remove_silent [OF sv cfg])
qed (rule TrueI)

section \<open>A delegate over a list of rows, for the witnesses\<close>

definition list_delegate :: "db_row list delegate" where
  "list_delegate =
     \<lparr>findMany = (\<lambda>s w srt t. case t of None \<Rightarrow> filter (matches w) s | Some n \<Rightarrow> take n (filter (matches w) s)),
      findFirst = (\<lambda>s w. let ms = filter (matches w) s in if ms = [] then None else Some (hd ms)),
      insertRow = (\<lambda>s dflt row. (s @ [dflt ++ row], dflt ++ row)),
      updateMany = (\<lambda>s w patch. (map (\<lambda>r. if matches w r then r ++ map_of patch else r) s,
                                  length (filter (matches w) s))),
      deleteMany = (\<lambda>s w. (filter (\<lambda>r. \<not> matches w r) s, length (filter (matches w) s)))\<rparr>"

lemma list_delegate_serves:
  "serves list_delegate (\<lambda>s. s) (\<lambda>srt t rs. case t of None \<Rightarrow> rs | Some n \<Rightarrow> take n rs) hd"
  by (auto simp: serves_def list_delegate_def split: option.splits dest: in_set_takeD)

lemma scoped_configs [simp]:
  "scoped_config webhook_config" "scoped_config rule_config" "scoped_config scheduledReport_config"
  by (simp_all add: scoped_config_def webhook_config_def rule_config_def scheduledReport_config_def)

definition hook :: "string \<Rightarrow> string \<Rightarrow> cell \<Rightarrow> string \<Rightarrow> db_row" where
  "hook rid t acct url =
     map_of [(''id'', Str rid), (''tenantId'', Str t), (''accountId'', acct), (''url'', Str url),
             (''secret'', Str ''s3cret'')]"

section \<open>Properties\<close>


definition sample_calls :: "repo_call list" where
  "sample_calls =
     [RCreate \<lparr>scope_tenant = ''T'', scope_account = None\<rparr> ''u'' (map_of [(''id'', Str ''1'')])
        [(''url'', Str ''a''), (''accountId'', Null), (''tenantId'', Str ''V'')],
      RUpdate \<lparr>scope_tenant = ''V'', scope_account = None\<rparr> ''v'' ''1'' [(''url'', Str ''evil'')],
      RRemove \<lparr>scope_tenant = ''V'', scope_account = None\<rparr> ''v'' ''1'',
      RGet \<lparr>scope_tenant = ''T'', scope_account = Some ''A''\<rparr> ''1'']"


text \<open>The rows a pinned caller may not change: those outside its tenant and account, the rows shared by
  the whole tenant among them.\<close>

definition foreign_row :: "string \<Rightarrow> string \<Rightarrow> db_row \<Rightarrow> bool" where
  "foreign_row t a r \<longleftrightarrow> \<not> (own t r \<and> r ''accountId'' = Some (Str a))"

lemma foreign_patch [simp]:
  assumes "''tenantId'' \<notin> fst ` set patch" and "''accountId'' \<notin> fst ` set patch"
  shows "foreign_row t a (r ++ map_of patch) \<longleftrightarrow> foreign_row t a r"
  using assms by (simp add: foreign_row_def patch_absent)

lemma foreign_unmatched:
  assumes "scoped_config cfg" and "scope_account sc = Some a"
    and "matches (mutateScopedById cfg sc rid) r"
  shows "\<not> foreign_row (scope_tenant sc) a r"
  using assms by (simp add: matches_mutate foreign_row_def)

lemma foreign_update:
  assumes "serves d rows page pick" and "scoped_config cfg" and "scope_account sc = Some a"
    and "''tenantId'' \<notin> fst ` set patch" and "''accountId'' \<notin> fst ` set patch"
  shows "filter (foreign_row (scope_tenant sc) a)
           (rows (fst (updateMany d s (mutateScopedById cfg sc rid) patch)))
         = filter (foreign_row (scope_tenant sc) a) (rows s)"
proof -
  have "filter (foreign_row (scope_tenant sc) a)
          (map (\<lambda>r. if matches (mutateScopedById cfg sc rid) r then r ++ map_of patch else r) rs)
        = filter (foreign_row (scope_tenant sc) a) rs" for rs
    using foreign_unmatched [OF assms(2,3)] assms(4,5) by (induction rs) auto
  then show ?thesis by (simp add: serves_update [OF assms(1)])
qed

lemma foreign_delete:
  assumes "serves d rows page pick" and "scoped_config cfg" and "scope_account sc = Some a"
  shows "filter (foreign_row (scope_tenant sc) a) (rows (fst (deleteMany d s (mutateScopedById cfg sc rid))))
         = filter (foreign_row (scope_tenant sc) a) (rows s)"
proof -
  have "filter (foreign_row (scope_tenant sc) a)
          (filter (\<lambda>r. \<not> matches (mutateScopedById cfg sc rid) r) rs)
        = filter (foreign_row (scope_tenant sc) a) rs" for rs
    using foreign_unmatched [OF assms(2,3)] by (induction rs) auto
  then show ?thesis by (simp add: serves_delete [OF assms(1)])
qed

text \<open>C19. A caller pinned to one account changes only that account's rows, whatever other requests do
  between its existence check and its write: an update or a removal leaves the rows of the other
  accounts, the rows shared by the whole tenant (which the caller may read) and the other tenants'
  rows as the last other request left them.\<close>

theorem pinned_caller_confined:
  assumes "serves d rows page pick" and "scoped_config cfg" and "scope_account sc = Some a"
    and "''tenantId'' \<notin> fst ` set patch" and "''accountId'' \<notin> fst ` set patch"
  shows "filter (foreign_row (scope_tenant sc) a)
           (rows (rp_table (fst (repo_update d cfg sc user rid patch mid id st))))
         \<in> {filter (foreign_row (scope_tenant sc) a) (rows (rp_table st)),
            filter (foreign_row (scope_tenant sc) a) (rows (rp_table (mid st)))}
       \<and> filter (foreign_row (scope_tenant sc) a)
           (rows (rp_table (fst (repo_remove d cfg sc user rid mid st))))
         \<in> {filter (foreign_row (scope_tenant sc) a) (rows (rp_table st)),
            filter (foreign_row (scope_tenant sc) a) (rows (rp_table (mid st)))}"
  by (simp add: repo_update_def repo_remove_def Let_def case_prod_unfold foreign_update [OF assms]
      foreign_delete [OF assms(1-3)] split: option.split)

theorem pinned_caller_confined_witness:
  "filter (foreign_row ''T'' ''A'')
     (rp_table (fst (repo_remove list_delegate webhook_config
        \<lparr>scope_tenant = ''T'', scope_account = Some ''A''\<rparr> ''u'' ''1'' (\<lambda>st. st\<lparr>rp_table := []\<rparr>)
        \<lparr>rp_table = [hook ''1'' ''T'' Null ''x'', hook ''2'' ''T'' (Str ''B'') ''y''], rp_trail = []\<rparr>)))
   \<in> {[hook ''1'' ''T'' Null ''x'', hook ''2'' ''T'' (Str ''B'') ''y''], []}"
  using pinned_caller_confined [OF list_delegate_serves, of webhook_config
      "\<lparr>scope_tenant = ''T'', scope_account = Some ''A''\<rparr>" "''A''" "[]" "''u''" "''1''" "\<lambda>st. st"
      "\<lparr>rp_table = [hook ''1'' ''T'' Null ''x'', hook ''2'' ''T'' (Str ''B'') ''y''], rp_trail = []\<rparr>"]
    pinned_caller_confined [OF list_delegate_serves, of webhook_config
      "\<lparr>scope_tenant = ''T'', scope_account = Some ''A''\<rparr>" "''A''" "[]" "''u''" "''1''"
      "\<lambda>st. st\<lparr>rp_table := []\<rparr>"
      "\<lparr>rp_table = [hook ''1'' ''T'' Null ''x'', hook ''2'' ''T'' (Str ''B'') ''y''], rp_trail = []\<rparr>"]
  by (simp add: foreign_row_def own_def hook_def)

section \<open>Secrets and the audit trail\<close>

definition masked :: "string list \<Rightarrow> db_row \<Rightarrow> bool" where
  "masked fs r \<longleftrightarrow> list_all (\<lambda>f. r f = None \<or> r f = Some (Str ''***'')) fs"

lemma redact_keeps_mask:
  "r f = None \<or> r f = Some (Str ''***'') \<Longrightarrow>
     redact (Some fs) r f = None \<or> redact (Some fs) r f = Some (Str ''***'')"
  by (induction fs arbitrary: r) (auto simp: redact_def)

lemma redact_at: "f \<in> set fs \<Longrightarrow> redact (Some fs) r f = None \<or> redact (Some fs) r f = Some (Str ''***'')"
proof (induction fs arbitrary: r)
  case (Cons x fs)
  let ?r = "if r x \<noteq> None then r(x \<mapsto> Str ''***'') else r"
  have step: "redact (Some (x # fs)) r = redact (Some fs) ?r" by (simp add: redact_def)
  show ?case
  proof (cases "f = x")
    case True
    then have "?r f = None \<or> ?r f = Some (Str ''***'')" by auto
    then show ?thesis unfolding step by (rule redact_keeps_mask)
  next
    case False
    then show ?thesis using Cons unfolding step by simp
  qed
qed simp

lemma masked_redact [simp]: "masked fs (redact (Some fs) r)"
  using redact_at [of _ fs r] by (auto simp: masked_def list_all_iff)

fun reply_rows :: "repo_reply \<Rightarrow> db_row list" where
  "reply_rows (Rows rs) = rs"
| "reply_rows (Found r) = (case r of None \<Rightarrow> [] | Some x \<Rightarrow> [x])"
| "reply_rows (Removed _) = []"

fun is_create :: "repo_call \<Rightarrow> bool" where
  "is_create (RCreate _ _ _ _) = True"
| "is_create _ = False"

definition entry_masked :: "string list \<Rightarrow> db_row audit_row \<Rightarrow> bool" where
  "entry_masked fs e \<longleftrightarrow>
     pred_option (masked fs) (au_before e) \<and> pred_option (masked fs) (au_after e)"

lemma audit_masked [simp]:
  "list_all (entry_masked fs) (audit_record sc user act ent eid b a tr) \<longleftrightarrow>
     list_all (entry_masked fs) tr \<and> pred_option (masked fs) b \<and> pred_option (masked fs) a"
  by (auto simp: audit_record_def entry_masked_def)

lemma step_masked:
  assumes "g_redact cfg = Some fs" and "g_readRedact cfg = Some gs"
    and "list_all (entry_masked fs) (rp_trail st)"
  shows "list_all (entry_masked fs) (rp_trail (fst (call_step d cfg c st))) \<and>
         (\<not> is_create c \<longrightarrow> list_all (masked gs) (reply_rows (snd (call_step d cfg c st))))"
  using assms
  by (cases c)
    (auto simp: repo_list_def repo_get_def repo_create_def repo_update_def repo_remove_def Let_def
      case_prod_unfold list_all_iff [of _ "map _ _"] split: option.split)

text \<open>C39. A webhook's signing secret never leaves: after any calls, every audit snapshot shows the
  redacted columns absent or as three asterisks, and so does every row of a reply, the reply to the
  creation that minted the secret apart.\<close>

theorem secrets_masked:
  assumes "g_redact cfg = Some fs" and "g_readRedact cfg = Some gs"
    and "list_all (entry_masked fs) (rp_trail st)"
  shows "list_all (entry_masked fs) (rp_trail (fst (run_calls (call_step d cfg) cs st)))
       \<and> list_all (\<lambda>(c, r). is_create c \<or> list_all (masked gs) (reply_rows r))
           (snd (run_calls (call_step d cfg) cs st))"
  using assms(3)
proof (induction cs arbitrary: st)
  case (Cons c cs)
  from step_masked [OF assms(1,2) Cons.prems, of d c] Cons.IH [of "fst (call_step d cfg c st)"]
  show ?case by (auto simp: case_prod_unfold Let_def)
qed simp

theorem secrets_masked_witness:
  "list_all (entry_masked [''secret''])
     (rp_trail (fst (run_calls (call_step list_delegate webhook_config) sample_calls
                       \<lparr>rp_table = [], rp_trail = []\<rparr>)))"
  using secrets_masked [of webhook_config "[''secret'']" "[''secret'']"
      "\<lparr>rp_table = [], rp_trail = []\<rparr>" list_delegate sample_calls]
  by (simp add: webhook_config_def)

text \<open>A write is audited unless its row is gone, or out of reach, when it is read back.\<close>

lemma update_audited:
  assumes "patch \<noteq> []" and "repo_update d cfg sc user rid patch mid mid2 st = (st', Some r)"
  shows "rp_trail st' \<noteq> [] \<and> au_action (last (rp_trail st')) = AUpdate \<and>
    au_id (last (rp_trail st')) = rid \<and> au_user (last (rp_trail st')) = Some user \<and>
    au_tenant (last (rp_trail st')) = Some (scope_tenant sc)"
  using assms
  by (auto simp: repo_update_def Let_def case_prod_unfold audit_record_def split: option.splits if_splits)

lemma update_of_lost_row_unaudited:
  "repo_update list_delegate webhook_config \<lparr>scope_tenant = ''T'', scope_account = None\<rparr> ''u'' ''1''
     [(''url'', Str ''new'')] id (\<lambda>st. st\<lparr>rp_table := []\<rparr>)
     \<lparr>rp_table = [hook ''1'' ''T'' Null ''x''], rp_trail = []\<rparr>
   = (\<lparr>rp_table = [], rp_trail = []\<rparr>, None)"
  by (simp add: repo_update_def list_delegate_def mutateScopedById_def webhook_config_def
      scopedWhere_def hook_def)

text \<open>The tenant of a created row does not depend on the payload, that of an updated row does: a patch
  with a \<open>tenantId\<close> moves the caller's row into another tenant.\<close>

lemma patch_moves_tenant:
  "(let st = fst (repo_update list_delegate rule_config \<lparr>scope_tenant = ''T'', scope_account = None\<rparr>
                    ''u'' ''1'' [(''tenantId'', Str ''V'')] id id
                    \<lparr>rp_table = [hook ''1'' ''T'' Null ''x''], rp_trail = []\<rparr>)
    in map (own ''V'') (rp_table st) = [True] \<and> rp_trail st = [])"
  by (simp add: repo_update_def list_delegate_def mutateScopedById_def rule_config_def
      scopedWhere_def hook_def own_def)

end
