(* ===== verification/Users.thy ===== *)
theory Users
  imports Tenancy Isolation "HOL-Library.List_Lexorder"
begin

text \<open>
  Users and accounts: the repositories of \<open>packages/db/src/repos/users.ts\<close> and \<open>accounts.ts\<close> and the
  routes of \<open>apps/api/src/routes/crud.ts\<close> over them, with the role gate every route stands behind
  (\<open>requireRole\<close> over the policy tables).

  A route is a function of the directory (both tables, the audit trail, the revocations) and of what
  the request brings: the authenticated caller, the parsed body (\<open>None\<close> when the schema refuses it),
  the hash of a new password, the id and time the database gives a new row, whether the readiness gate
  lets the tenant through and whether the revocation of refresh tokens succeeds. \<open>Failed500\<close> is an
  exception the route does not handle.
\<close>

section \<open>Tables\<close>

record user_view =
  uv_id :: string
  uv_tenant :: string
  uv_account :: "string option"
  uv_email :: string
  uv_role :: role
  uv_locale :: string
  uv_createdAt :: int

record user = user_view +
  us_passwordHash :: string
  us_emailVerifiedAt :: "int option"

text \<open>\<open>select: VIEW\<close>: the password hash never leaves the repository.\<close>

definition VIEW :: "user \<Rightarrow> user_view" where
  "VIEW u = user_view.truncate u"

record account =
  ac_id :: string
  ac_tenant :: string
  ac_name :: string
  ac_timezone :: string
  ac_locale :: string
  ac_units :: "string \<times> string \<times> string"

text \<open>The snapshots of the audit trail: a user as the view shows it, with the fact of a password
  change, or an account.\<close>

datatype snapshot = USnap user_view bool | ASnap account

record directory =
  dir_users :: "user list"
  dir_accounts :: "account list"
  dir_trail :: "snapshot audit_row list"
  token_sweeps :: "string list"
  socket_marks :: "string list"

section \<open>The user repository\<close>

record user_create =
  uc_email :: string
  uc_passwordHash :: string
  uc_role :: role
  uc_account :: "string option"

text \<open>The fields of a patch are optional; \<open>accountId\<close> may be given as null.\<close>

record user_patch =
  up_role :: "role option"
  up_account :: "string option option"
  up_locale :: "string option"
  up_password :: "string option"

definition user_in_scope :: "scope \<Rightarrow> user \<Rightarrow> bool" where
  "user_in_scope sc u \<longleftrightarrow>
     uv_tenant u = scope_tenant sc \<and>
     (case scope_account sc of None \<Rightarrow> True | Some a \<Rightarrow> uv_account u = Some a)"

definition users_list :: "scope \<Rightarrow> directory \<Rightarrow> user_view list" where
  "users_list sc dir =
     map VIEW (sort_key (\<lambda>u. map (of_char :: char \<Rightarrow> nat) (uv_email u))
                 (filter (user_in_scope sc) (dir_users dir)))"

definition users_get :: "scope \<Rightarrow> string \<Rightarrow> directory \<Rightarrow> user_view option" where
  "users_get sc uid dir = map_option VIEW (find (\<lambda>u. user_in_scope sc u \<and> uv_id u = uid) (dir_users dir))"

text \<open>\<open>@@unique([tenantId, email])\<close> and the primary key: a second row with the same values is refused by
  the database.\<close>

definition lower_char :: "char \<Rightarrow> char" where
  "lower_char c = (let n = of_char c :: nat in if 65 \<le> n \<and> n \<le> 90 then char_of (n + 32) else c)"

definition toLowerCase :: "string \<Rightarrow> string" where
  "toLowerCase s = map lower_char s"

definition users_create ::
  "scope \<Rightarrow> string \<Rightarrow> user_create \<Rightarrow> string \<Rightarrow> int \<Rightarrow> directory \<Rightarrow> directory \<times> user_view option" where
  "users_create sc actor data new_id now dir =
     (let email = toLowerCase (trim (uc_email data));
          row = \<lparr>uv_id = new_id, uv_tenant = scope_tenant sc, uv_account = uc_account data,
                 uv_email = email, uv_role = uc_role data, uv_locale = ''en'', uv_createdAt = now,
                 us_passwordHash = uc_passwordHash data, us_emailVerifiedAt = Some now\<rparr> in
      if list_ex (\<lambda>u. uv_tenant u = scope_tenant sc \<and> uv_email u = email) (dir_users dir) \<or>
         list_ex (\<lambda>u. uv_id u = new_id) (dir_users dir)
      then (dir, None)
      else (dir\<lparr>dir_users := dir_users dir @ [row],
                dir_trail := audit_record sc actor ACreate ''user'' new_id None
                  (Some (USnap (VIEW row) False)) (dir_trail dir)\<rparr>,
            Some (VIEW row)))"

definition patch_user :: "user_patch \<Rightarrow> user \<Rightarrow> user" where
  "patch_user p u =
     u\<lparr>uv_role := (case up_role p of None \<Rightarrow> uv_role u | Some r \<Rightarrow> r),
       uv_account := (case up_account p of None \<Rightarrow> uv_account u | Some a \<Rightarrow> a),
       uv_locale := (case up_locale p of None \<Rightarrow> uv_locale u | Some l \<Rightarrow> l),
       us_passwordHash := (case up_password p of None \<Rightarrow> us_passwordHash u | Some h \<Rightarrow> h)\<rparr>"

text \<open>The write is by id alone; what a concurrent request does between the scoped check and it is
  \<open>mid\<close>. The row may be gone by then, which the database reports as an error.\<close>

definition users_update ::
  "scope \<Rightarrow> string \<Rightarrow> string \<Rightarrow> user_patch \<Rightarrow> (directory \<Rightarrow> directory) \<Rightarrow> directory \<Rightarrow>
     directory \<times> (string + user_view option)" where
  "users_update sc actor uid p mid dir =
     (case users_get sc uid dir of
        None \<Rightarrow> (dir, Inr None)
      | Some before \<Rightarrow>
          let dir1 = mid dir in
          case find (\<lambda>u. uv_id u = uid) (dir_users dir1) of
            None \<Rightarrow> (dir1, Inl ''P2025'')
          | Some u \<Rightarrow>
              (dir1\<lparr>dir_users := map (\<lambda>x. if uv_id x = uid then patch_user p x else x) (dir_users dir1),
                    dir_trail := audit_record sc actor AUpdate ''user'' uid (Some (USnap before False))
                      (Some (USnap (VIEW (patch_user p u)) (up_password p \<noteq> None))) (dir_trail dir1)\<rparr>,
               Inr (Some (VIEW (patch_user p u)))))"

definition users_remove ::
  "scope \<Rightarrow> string \<Rightarrow> string \<Rightarrow> (directory \<Rightarrow> directory) \<Rightarrow> directory \<Rightarrow> directory \<times> (string + bool)" where
  "users_remove sc actor uid mid dir =
     (case users_get sc uid dir of
        None \<Rightarrow> (dir, Inr False)
      | Some before \<Rightarrow>
          let dir1 = mid dir in
          if \<not> list_ex (\<lambda>u. uv_id u = uid) (dir_users dir1) then (dir1, Inl ''P2025'')
          else (dir1\<lparr>dir_users := filter (\<lambda>u. uv_id u \<noteq> uid) (dir_users dir1),
                     dir_trail := audit_record sc actor ADelete ''user'' uid (Some (USnap before False))
                       None (dir_trail dir1)\<rparr>,
                Inr True))"

section \<open>The account repository\<close>

record account_patch =
  ap_name :: "string option"
  ap_timezone :: "string option"

record account_preferences =
  apr_locale :: "string option"
  apr_units :: "string option \<times> string option \<times> string option"

definition accounts_list :: "scope \<Rightarrow> directory \<Rightarrow> account list" where
  "accounts_list sc dir =
     sort_key (\<lambda>a. map (of_char :: char \<Rightarrow> nat) (ac_name a))
       (filter (\<lambda>a. ac_tenant a = scope_tenant sc \<and>
                    (case scope_account sc of None \<Rightarrow> True | Some x \<Rightarrow> ac_id a = x)) (dir_accounts dir))"

definition findScoped :: "scope \<Rightarrow> string \<Rightarrow> directory \<Rightarrow> account option" where
  "findScoped sc aid dir =
     (if scope_account sc \<noteq> None \<and> scope_account sc \<noteq> Some aid then None
      else find (\<lambda>a. ac_tenant a = scope_tenant sc \<and> ac_id a = aid) (dir_accounts dir))"

definition accounts_create ::
  "scope \<Rightarrow> string \<Rightarrow> string \<Rightarrow> string option \<Rightarrow> string \<Rightarrow> directory \<Rightarrow> directory \<times> account option" where
  "accounts_create sc actor name tz new_id dir =
     (let row = \<lparr>ac_id = new_id, ac_tenant = scope_tenant sc, ac_name = name,
                 ac_timezone = (case tz of None \<Rightarrow> ''UTC'' | Some z \<Rightarrow> z), ac_locale = ''en'',
                 ac_units = (''kmh'', ''km'', ''l'')\<rparr> in
      if list_ex (\<lambda>x. ac_id x = new_id) (dir_accounts dir) then (dir, None)
      else
        (dir\<lparr>dir_accounts := dir_accounts dir @ [row],
             dir_trail := audit_record sc actor ACreate ''account'' new_id None (Some (ASnap row))
               (dir_trail dir)\<rparr>,
         Some row))"

definition write_account ::
  "scope \<Rightarrow> string \<Rightarrow> string \<Rightarrow> string \<Rightarrow> (account \<Rightarrow> account) \<Rightarrow>
     (directory \<Rightarrow> directory) \<Rightarrow> directory \<Rightarrow> directory \<times> (string + account option)" where
  "write_account sc actor label aid f mid dir =
     (case findScoped sc aid dir of
        None \<Rightarrow> (dir, Inr None)
      | Some before \<Rightarrow>
          let dir1 = mid dir in
          case find (\<lambda>a. ac_id a = aid) (dir_accounts dir1) of
            None \<Rightarrow> (dir1, Inl ''P2025'')
          | Some a \<Rightarrow>
              (dir1\<lparr>dir_accounts := map (\<lambda>x. if ac_id x = aid then f x else x) (dir_accounts dir1),
                    dir_trail := audit_record sc actor AUpdate label aid (Some (ASnap before))
                      (Some (ASnap (f a))) (dir_trail dir1)\<rparr>,
               Inr (Some (f a))))"

definition accounts_update ::
  "scope \<Rightarrow> string \<Rightarrow> string \<Rightarrow> account_patch \<Rightarrow> (directory \<Rightarrow> directory) \<Rightarrow> directory \<Rightarrow>
     directory \<times> (string + account option)" where
  "accounts_update sc actor aid p =
     write_account sc actor ''account'' aid
       (\<lambda>a. a\<lparr>ac_name := (case ap_name p of None \<Rightarrow> ac_name a | Some n \<Rightarrow> n),
              ac_timezone := (case ap_timezone p of None \<Rightarrow> ac_timezone a | Some z \<Rightarrow> z)\<rparr>)"

definition accounts_updatePreferences ::
  "scope \<Rightarrow> string \<Rightarrow> string \<Rightarrow> account_preferences \<Rightarrow> (directory \<Rightarrow> directory) \<Rightarrow> directory \<Rightarrow>
     directory \<times> (string + account option)" where
  "accounts_updatePreferences sc actor aid p =
     write_account sc actor ''accountPrefs'' aid
       (\<lambda>a. a\<lparr>ac_locale := (case apr_locale p of None \<Rightarrow> ac_locale a | Some l \<Rightarrow> l),
              ac_units :=
                (case (apr_units p, ac_units a) of ((s, d, v), (s0, d0, v0)) \<Rightarrow>
                   (case s of None \<Rightarrow> s0 | Some x \<Rightarrow> x, case d of None \<Rightarrow> d0 | Some x \<Rightarrow> x,
                    case v of None \<Rightarrow> v0 | Some x \<Rightarrow> x))\<rparr>)"

text \<open>Deleting an account sets the \<open>accountId\<close> of its users to null (\<open>onDelete: SetNull\<close>); the repository
  refuses while it counts any. \<open>mid\<close> is what other requests do between the count and the deletion.\<close>

datatype account_removal = NotFound | HasUsers nat | Gone

definition accounts_remove ::
  "scope \<Rightarrow> string \<Rightarrow> string \<Rightarrow> (directory \<Rightarrow> directory) \<Rightarrow> directory \<Rightarrow> directory \<times> account_removal" where
  "accounts_remove sc actor aid mid dir =
     (case findScoped sc aid dir of
        None \<Rightarrow> (dir, NotFound)
      | Some before \<Rightarrow>
          let n = length (filter (\<lambda>u. uv_account u = Some aid) (dir_users dir)) in
          if n > 0 then (dir, HasUsers n)
          else
            let dir1 = mid dir in
            (dir1\<lparr>dir_accounts := filter (\<lambda>a. ac_id a \<noteq> aid) (dir_accounts dir1),
                  dir_users := map (\<lambda>u. if uv_account u = Some aid then u\<lparr>uv_account := None\<rparr> else u) (dir_users dir1),
                  dir_trail := audit_record sc actor ADelete ''account'' aid (Some (ASnap before)) None
                    (dir_trail dir1)\<rparr>,
             Gone))"

end
