(* ===== verification/UserRoutes.thy ===== *)
theory UserRoutes
  imports Users
begin

text \<open>
  The routes of \<open>apps/api/src/routes/crud.ts\<close> over users and accounts behind the role gate. A request
  is a datatype whose constructors carry what the route cannot compute (see \<open>Users\<close>); \<open>dir_step\<close>
  answers one request.
\<close>

section \<open>Who may call\<close>

record caller =
  cl_user :: string
  cl_tenant :: string
  cl_account :: "string option"
  cl_role :: role

definition scopeOf :: "caller \<Rightarrow> scope" where
  "scopeOf a = \<lparr>scope_tenant = cl_tenant a, scope_account = cl_account a\<rparr>"

definition TENANT_ADMINS :: "role list" where
  "TENANT_ADMINS = [Platform_admin, Tsp_admin]"

definition ACCOUNT_WRITERS :: "role list" where
  "ACCOUNT_WRITERS = [Platform_admin, Tsp_admin, Account_manager]"

definition READ_POLICY :: "(string \<times> role list) list" where
  "READ_POLICY =
     [(''account'', ROLES), (''user'', TENANT_ADMINS @ [Account_manager]), (''device'', ROLES),
      (''rule'', ROLES), (''webhook'', ACCOUNT_WRITERS), (''event'', ROLES), (''branding'', ROLES),
      (''domain'', TENANT_ADMINS), (''sendingDomain'', TENANT_ADMINS), (''audit'', TENANT_ADMINS),
      (''geofence'', ROLES), (''driver'', ROLES), (''maintenance'', ROLES), (''serviceLog'', ROLES),
      (''document'', ROLES), (''maintenancePlan'', ROLES), (''command'', ROLES),
      (''webhookDelivery'', ACCOUNT_WRITERS), (''usage'', TENANT_ADMINS), (''export'', TENANT_ADMINS),
      (''share'', ROLES), (''scheduledReport'', ACCOUNT_WRITERS)]"

definition WRITE_POLICY :: "(string \<times> role list) list" where
  "WRITE_POLICY =
     [(''account'', TENANT_ADMINS), (''accountPrefs'', ACCOUNT_WRITERS), (''user'', TENANT_ADMINS),
      (''sendingDomain'', TENANT_ADMINS), (''device'', ACCOUNT_WRITERS), (''rule'', ACCOUNT_WRITERS),
      (''webhook'', TENANT_ADMINS), (''geofence'', ACCOUNT_WRITERS), (''driver'', ACCOUNT_WRITERS),
      (''maintenance'', ACCOUNT_WRITERS), (''serviceLog'', ACCOUNT_WRITERS),
      (''document'', ACCOUNT_WRITERS), (''maintenancePlan'', ACCOUNT_WRITERS),
      (''trip'', ACCOUNT_WRITERS), (''command'', ACCOUNT_WRITERS), (''export'', TENANT_ADMINS),
      (''gdpr'', TENANT_ADMINS), (''share'', ACCOUNT_WRITERS), (''scheduledReport'', ACCOUNT_WRITERS),
      (''sms'', ACCOUNT_WRITERS)]"

datatype verb = Get | Post | Patch | Delete

definition rolesFor :: "string \<Rightarrow> verb \<Rightarrow> string \<Rightarrow> role list" where
  "rolesFor ent meth scopeClass =
     (if scopeClass = ''platform'' then [Platform_admin]
      else if meth = Get then (case map_of READ_POLICY ent of Some rs \<Rightarrow> rs | None \<Rightarrow> ROLES)
      else (case map_of WRITE_POLICY ent of Some rs \<Rightarrow> rs | None \<Rightarrow> TENANT_ADMINS))"

definition tenantWide :: "caller \<Rightarrow> bool" where
  "tenantWide a \<longleftrightarrow> cl_account a = None"

section \<open>Answers\<close>

datatype dir_reply =
    Problem nat
  | UserList "user_view list"
  | UserIs nat user_view
  | AccountList "account list"
  | AccountIs nat account
  | Done

text \<open>\<open>dbErrorHttp\<close>: the status of a database error no route handles itself, by its Prisma code.\<close>

definition dbErrorHttp :: "string \<Rightarrow> nat option" where
  "dbErrorHttp code =
     (if code = ''P2025'' \<or> code = ''P2023'' then Some 404
      else if code = ''P2002'' \<or> code = ''P2003'' then Some 409
      else if code = ''P2020'' then Some 400 else None)"

definition onError :: "string \<Rightarrow> dir_reply" where
  "onError code = Problem (case dbErrorHttp code of Some n \<Rightarrow> n | None \<Rightarrow> 500)"

text \<open>\<open>requireReady\<close>: \<open>ready\<close> is the answer of the readiness predicate, or true when it could not be read.\<close>

definition requireReady :: "caller \<Rightarrow> bool \<Rightarrow> bool" where
  "requireReady a ready \<longleftrightarrow> cl_role a = Platform_admin \<or> ready"

section \<open>Users\<close>

record user_body =
  ub_email :: string
  ub_role :: role
  ub_account :: "string option"

definition get_user :: "caller \<Rightarrow> string \<Rightarrow> directory \<Rightarrow> dir_reply" where
  "get_user a uid dir =
     (case users_get (scopeOf a) uid dir of None \<Rightarrow> Problem 404 | Some v \<Rightarrow> UserIs 200 v)"

definition post_user ::
  "caller \<Rightarrow> user_body option \<Rightarrow> string \<Rightarrow> bool \<Rightarrow> string \<Rightarrow> int \<Rightarrow> directory \<Rightarrow> directory \<times> dir_reply" where
  "post_user a body hash ready new_id now dir =
     (case body of None \<Rightarrow> (dir, Problem 400)
      | Some data \<Rightarrow>
          if \<not> canGrantRole (cl_role a) (ub_role data) then (dir, Problem 403)
          else
            let acct = (if cl_account a \<noteq> None then cl_account a else ub_account data) in
            if acct \<noteq> None \<and> findScoped (scopeOf a) (the acct) dir = None then (dir, Problem 400)
            else if \<not> requireReady a ready then (dir, Problem 403)
            else
              (case users_create (scopeOf a) (cl_user a)
                      \<lparr>uc_email = ub_email data, uc_passwordHash = hash, uc_role = ub_role data,
                       uc_account = acct\<rparr> new_id now dir of
                 (dir', None) \<Rightarrow> (dir', onError ''P2002'')
               | (dir', Some v) \<Rightarrow> (dir', UserIs 201 v)))"

text \<open>The revocation of the sessions of a user whose password, role or account changed: the sweep of the
  refresh tokens, whose failure is logged, then the mark that makes the sockets close.\<close>

definition revoke_sessions :: "string \<Rightarrow> bool \<Rightarrow> directory \<Rightarrow> directory" where
  "revoke_sessions uid sweep_ok dir =
     dir\<lparr>token_sweeps := (if sweep_ok then token_sweeps dir @ [uid] else token_sweeps dir),
         socket_marks := socket_marks dir @ [uid]\<rparr>"

definition patch_user_route ::
  "caller \<Rightarrow> string \<Rightarrow> user_patch option \<Rightarrow> bool \<Rightarrow> (directory \<Rightarrow> directory) \<Rightarrow> directory \<Rightarrow>
     directory \<times> dir_reply" where
  "patch_user_route a uid body sweep_ok mid dir =
     (case body of None \<Rightarrow> (dir, Problem 400)
      | Some p \<Rightarrow>
        (case users_get (scopeOf a) uid dir of None \<Rightarrow> (dir, Problem 404)
         | Some target \<Rightarrow>
           if uv_id target \<noteq> cl_user a \<and> \<not> canManageUser (cl_role a) (uv_role target)
           then (dir, Problem 403)
           else if up_role p \<noteq> None \<and> \<not> canGrantRole (cl_role a) (the (up_role p))
           then (dir, Problem 403)
           else if up_account p \<noteq> None \<and> cl_account a \<noteq> None \<and> the (up_account p) \<noteq> cl_account a
           then (dir, Problem 403)
           else if up_account p \<noteq> None \<and> the (up_account p) \<noteq> None \<and>
                   findScoped (scopeOf a) (the (the (up_account p))) dir = None
           then (dir, Problem 400)
           else
             (case users_update (scopeOf a) (cl_user a) uid p mid dir of
                (dir', Inl code) \<Rightarrow> (dir', onError code)
              | (dir', Inr None) \<Rightarrow> (dir', Problem 404)
              | (dir', Inr (Some v)) \<Rightarrow>
                  let scopeChanged =
                        (up_role p \<noteq> None \<and> the (up_role p) \<noteq> uv_role target) \<or>
                        (up_account p \<noteq> None \<and> the (up_account p) \<noteq> uv_account target) in
                  (if up_password p \<noteq> None \<or> scopeChanged then revoke_sessions uid sweep_ok dir' else dir',
                   UserIs 200 v))))"

definition delete_user ::
  "caller \<Rightarrow> string \<Rightarrow> (directory \<Rightarrow> directory) \<Rightarrow> directory \<Rightarrow> directory \<times> dir_reply" where
  "delete_user a uid mid dir =
     (case users_get (scopeOf a) uid dir of None \<Rightarrow> (dir, Problem 404)
      | Some target \<Rightarrow>
          if uv_id target \<noteq> cl_user a \<and> \<not> canManageUser (cl_role a) (uv_role target)
          then (dir, Problem 403)
          else
            (case users_remove (scopeOf a) (cl_user a) uid mid dir of
               (dir', Inl code) \<Rightarrow> (dir', onError code)
             | (dir', Inr True) \<Rightarrow> (dir'\<lparr>socket_marks := socket_marks dir' @ [uid]\<rparr>, Done)
             | (dir', Inr False) \<Rightarrow> (dir', Problem 404)))"

section \<open>Accounts\<close>

definition account_reply :: "directory \<times> (string + account option) \<Rightarrow> directory \<times> dir_reply" where
  "account_reply r =
     (case r of (dir, Inl code) \<Rightarrow> (dir, onError code)
      | (dir, Inr None) \<Rightarrow> (dir, Problem 404)
      | (dir, Inr (Some x)) \<Rightarrow> (dir, AccountIs 200 x))"

definition get_account :: "caller \<Rightarrow> string \<Rightarrow> directory \<Rightarrow> dir_reply" where
  "get_account a aid dir =
     (case findScoped (scopeOf a) aid dir of None \<Rightarrow> Problem 404 | Some x \<Rightarrow> AccountIs 200 x)"

definition post_account ::
  "caller \<Rightarrow> bool \<Rightarrow> (string \<times> string option) option \<Rightarrow> string \<Rightarrow> directory \<Rightarrow> directory \<times> dir_reply" where
  "post_account a ready body new_id dir =
     (if \<not> tenantWide a then (dir, Problem 403)
      else if \<not> requireReady a ready then (dir, Problem 403)
      else (case body of None \<Rightarrow> (dir, Problem 400)
            | Some (name, tz) \<Rightarrow>
                (case accounts_create (scopeOf a) (cl_user a) name tz new_id dir of
                   (dir', None) \<Rightarrow> (dir', onError ''P2002'')
                 | (dir', Some row) \<Rightarrow> (dir', AccountIs 201 row))))"

definition patch_account ::
  "caller \<Rightarrow> string \<Rightarrow> account_patch option \<Rightarrow> (directory \<Rightarrow> directory) \<Rightarrow> directory \<Rightarrow>
     directory \<times> dir_reply" where
  "patch_account a aid body mid dir =
     (case body of None \<Rightarrow> (dir, Problem 400)
      | Some p \<Rightarrow> account_reply (accounts_update (scopeOf a) (cl_user a) aid p mid dir))"

definition patch_preferences ::
  "caller \<Rightarrow> string \<Rightarrow> account_preferences option \<Rightarrow> (directory \<Rightarrow> directory) \<Rightarrow> directory \<Rightarrow>
     directory \<times> dir_reply" where
  "patch_preferences a aid body mid dir =
     (case body of None \<Rightarrow> (dir, Problem 400)
      | Some p \<Rightarrow> account_reply (accounts_updatePreferences (scopeOf a) (cl_user a) aid p mid dir))"

definition delete_account ::
  "caller \<Rightarrow> string \<Rightarrow> (directory \<Rightarrow> directory) \<Rightarrow> directory \<Rightarrow> directory \<times> dir_reply" where
  "delete_account a aid mid dir =
     (case accounts_remove (scopeOf a) (cl_user a) aid mid dir of
        (dir', NotFound) \<Rightarrow> (dir', Problem 404)
      | (dir', HasUsers n) \<Rightarrow> (dir', Problem 409)
      | (dir', Gone) \<Rightarrow> (dir', Done))"

section \<open>Requests\<close>

text \<open>\<open>PostAccount\<close> carries whether the tenant's plan includes sub-accounts, the gate that route has
  between the role gate and its handler.\<close>

datatype request =
    GetUsers
  | GetUser string
  | PostUser "user_body option" string bool string int
  | PatchUser string "user_patch option" bool
  | DeleteUser string
  | GetAccounts
  | GetAccount string
  | PostAccount bool bool "(string \<times> string option) option" string
  | PatchAccount string "account_patch option"
  | PatchPrefs string "account_preferences option"
  | DeleteAccount string

fun route_roles :: "request \<Rightarrow> role list" where
  "route_roles GetUsers = rolesFor ''user'' Get ''tenant''"
| "route_roles (GetUser _) = rolesFor ''user'' Get ''tenant''"
| "route_roles (PostUser _ _ _ _ _) = rolesFor ''user'' Post ''tenant''"
| "route_roles (PatchUser _ _ _) = rolesFor ''user'' Patch ''tenant''"
| "route_roles (DeleteUser _) = rolesFor ''user'' Delete ''tenant''"
| "route_roles GetAccounts = rolesFor ''account'' Get ''tenant''"
| "route_roles (GetAccount _) = rolesFor ''account'' Get ''tenant''"
| "route_roles (PostAccount _ _ _ _) = rolesFor ''account'' Post ''tenant''"
| "route_roles (PatchAccount _ _) = rolesFor ''account'' Patch ''tenant''"
| "route_roles (PatchPrefs _ _) = rolesFor ''accountPrefs'' Patch ''tenant''"
| "route_roles (DeleteAccount _) = rolesFor ''account'' Delete ''tenant''"

fun handle_request :: "caller \<Rightarrow> request \<Rightarrow> directory \<Rightarrow> directory \<times> dir_reply" where
  "handle_request a GetUsers dir = (dir, UserList (users_list (scopeOf a) dir))"
| "handle_request a (GetUser uid) dir = (dir, get_user a uid dir)"
| "handle_request a (PostUser body hash ready new_id now) dir = post_user a body hash ready new_id now dir"
| "handle_request a (PatchUser uid body sweep_ok) dir = patch_user_route a uid body sweep_ok id dir"
| "handle_request a (DeleteUser uid) dir = delete_user a uid id dir"
| "handle_request a GetAccounts dir = (dir, AccountList (accounts_list (scopeOf a) dir))"
| "handle_request a (GetAccount aid) dir = (dir, get_account a aid dir)"
| "handle_request a (PostAccount entitled ready body new_id) dir =
     (if entitled then post_account a ready body new_id dir else (dir, Problem 403))"
| "handle_request a (PatchAccount aid body) dir = patch_account a aid body id dir"
| "handle_request a (PatchPrefs aid body) dir = patch_preferences a aid body id dir"
| "handle_request a (DeleteAccount aid) dir = delete_account a aid id dir"

fun dir_step :: "caller \<times> request \<Rightarrow> directory \<Rightarrow> directory \<times> dir_reply" where
  "dir_step (a, r) dir =
     (if cl_role a \<notin> set (route_roles r) then (dir, Problem 403) else handle_request a r dir)"

end
