(* ===== verification/Directory.thy ===== *)
theory Directory
  imports UserRoutes
begin

text \<open>
  What the user and account routes guarantee: tenants do not interfere, and no request lets a caller
  reach above its own tier or, when pinned, beyond its own account.

  Ids are UUIDs the database draws. That two tenants are never given the same one is a labelling
  \<open>mint\<close> of ids by tenant: \<open>dir_inv mint\<close> says that every row carries an id of its own tenant, is the
  only one with it, and that a user's account is one of its tenant's ids.
\<close>

section \<open>The invariant\<close>

definition dir_inv :: "(string \<Rightarrow> string) \<Rightarrow> directory \<Rightarrow> bool" where
  "dir_inv mint dir \<longleftrightarrow>
     distinct (map uv_id (dir_users dir)) \<and> distinct (map ac_id (dir_accounts dir)) \<and>
     (\<forall>u \<in> set (dir_users dir). mint (uv_id u) = uv_tenant u \<and>
        (\<forall>a. uv_account u = Some a \<longrightarrow> mint a = uv_tenant u)) \<and>
     (\<forall>a \<in> set (dir_accounts dir). mint (ac_id a) = ac_tenant a)"

fun req_ok :: "(string \<Rightarrow> string) \<Rightarrow> caller \<times> request \<Rightarrow> bool" where
  "req_ok mint (a, PostUser _ _ _ new_id _) \<longleftrightarrow> mint new_id = cl_tenant a"
| "req_ok mint (a, PostAccount _ _ _ new_id) \<longleftrightarrow> mint new_id = cl_tenant a"
| "req_ok mint _ \<longleftrightarrow> True"

definition req_tenant :: "caller \<times> request \<Rightarrow> string" where
  "req_tenant c = cl_tenant (fst c)"

text \<open>A tenant's part of the directory: the directory with everybody else's rows left out.\<close>

definition dir_part :: "(string \<Rightarrow> string) \<Rightarrow> string \<Rightarrow> directory \<Rightarrow> directory" where
  "dir_part mint t dir =
     \<lparr>dir_users = filter (\<lambda>u. uv_tenant u = t) (dir_users dir),
      dir_accounts = filter (\<lambda>a. ac_tenant a = t) (dir_accounts dir),
      dir_trail = filter (\<lambda>e. au_tenant e = Some t) (dir_trail dir),
      token_sweeps = filter (\<lambda>i. mint i = t) (token_sweeps dir),
      socket_marks = filter (\<lambda>i. mint i = t) (socket_marks dir)\<rparr>"

section \<open>Searches see one tenant\<close>

lemma find_filter: "(\<And>x. x \<in> set xs \<Longrightarrow> P x \<Longrightarrow> Q x) \<Longrightarrow> find P (filter Q xs) = find P xs"
  by (induction xs) auto

lemma filter_map_commute:
  "(\<And>x. P (f x) = P x) \<Longrightarrow> filter P (map f xs) = map f (filter P xs)"
  by (induction xs) auto

lemma list_ex_filter: "(\<And>x. x \<in> set xs \<Longrightarrow> P x \<Longrightarrow> Q x) \<Longrightarrow> list_ex P (filter Q xs) = list_ex P xs"
  by (induction xs) auto

lemma patch_user_fields [simp]:
  "uv_id (patch_user p u) = uv_id u" "uv_tenant (patch_user p u) = uv_tenant u"
  "uv_email (patch_user p u) = uv_email u"
  by (simp_all add: patch_user_def)

lemma VIEW_fields [simp]:
  "uv_id (VIEW u) = uv_id u" "uv_tenant (VIEW u) = uv_tenant u" "uv_account (VIEW u) = uv_account u"
  "uv_role (VIEW u) = uv_role u"
  by (simp_all add: VIEW_def user_view.truncate_def)

lemma users_get_Some:
  "users_get sc uid dir = Some v \<Longrightarrow>
     \<exists>u \<in> set (dir_users dir). user_in_scope sc u \<and> uv_id u = uid \<and> v = VIEW u"
  by (auto simp: users_get_def dest: find_SomeD)

lemma findScoped_Some:
  "findScoped sc aid dir = Some x \<Longrightarrow>
     x \<in> set (dir_accounts dir) \<and> ac_tenant x = scope_tenant sc \<and> ac_id x = aid \<and>
     (\<forall>a. scope_account sc = Some a \<longrightarrow> a = aid)"
  by (auto simp: findScoped_def split: if_splits dest: find_SomeD)

lemma scopeOf_fields [simp]:
  "scope_tenant (scopeOf a) = cl_tenant a" "scope_account (scopeOf a) = cl_account a"
  by (simp_all add: scopeOf_def)

section \<open>An operation seen from its tenant's part\<close>

text \<open>\<open>local_to mint t f dir\<close>: on the tenant's part alone, \<open>f\<close> answers as on the whole directory, and
  leaves the part of what it leaves there; no other part changes.\<close>

definition local_to ::
  "(string \<Rightarrow> string) \<Rightarrow> string \<Rightarrow> (directory \<Rightarrow> directory \<times> 'r) \<Rightarrow> directory \<Rightarrow> bool" where
  "local_to mint t f dir \<longleftrightarrow>
     snd (f (dir_part mint t dir)) = snd (f dir) \<and>
     fst (f (dir_part mint t dir)) = dir_part mint t (fst (f dir)) \<and>
     (\<forall>d. d \<noteq> t \<longrightarrow> dir_part mint d (fst (f dir)) = dir_part mint d dir)"

lemma local_toI:
  assumes "f (dir_part mint t dir) = (dir_part mint t (fst (f dir)), snd (f dir))"
    and "\<And>d. d \<noteq> t \<Longrightarrow> dir_part mint d (fst (f dir)) = dir_part mint d dir"
  shows "local_to mint t f dir"
  using assms by (simp add: local_to_def)

lemma local_same [simp]: "local_to mint t (\<lambda>d. (d, x)) dir"
  by (simp add: local_to_def)

lemma part_users_get [simp]:
  "users_get sc uid (dir_part mint (scope_tenant sc) dir) = users_get sc uid dir"
proof -
  have "find (\<lambda>u. user_in_scope sc u \<and> uv_id u = uid)
      (filter (\<lambda>u. uv_tenant u = scope_tenant sc) (dir_users dir))
    = find (\<lambda>u. user_in_scope sc u \<and> uv_id u = uid) (dir_users dir)"
    by (rule find_filter) (simp add: user_in_scope_def)
  then show ?thesis by (simp add: users_get_def dir_part_def)
qed

lemma part_findScoped [simp]:
  "findScoped sc aid (dir_part mint (scope_tenant sc) dir) = findScoped sc aid dir"
  unfolding findScoped_def dir_part_def
  by (simp add: find_filter [of _ "\<lambda>a. ac_tenant a = scope_tenant sc \<and> ac_id a = aid"
        "\<lambda>a. ac_tenant a = scope_tenant sc"])

lemma part_users_list [simp]:
  "users_list sc (dir_part mint (scope_tenant sc) dir) = users_list sc dir"
  by (simp add: users_list_def dir_part_def user_in_scope_def [abs_def] cong: conj_cong)

lemma part_accounts_list [simp]:
  "accounts_list sc (dir_part mint (scope_tenant sc) dir) = accounts_list sc dir"
  by (simp add: accounts_list_def dir_part_def cong: conj_cong)

lemma audit_own [simp]:
  "filter (\<lambda>e. au_tenant e = Some t) (audit_record sc actor act ent eid b a tr) =
     (if t = scope_tenant sc then audit_record sc actor act ent eid b a (filter (\<lambda>e. au_tenant e = Some t) tr)
      else filter (\<lambda>e. au_tenant e = Some t) tr)"
  by (simp add: audit_record_def)

lemma inv_user: "dir_inv mint dir \<Longrightarrow> u \<in> set (dir_users dir) \<Longrightarrow> mint (uv_id u) = uv_tenant u"
  by (simp add: dir_inv_def)

lemma inv_user_account:
  "dir_inv mint dir \<Longrightarrow> u \<in> set (dir_users dir) \<Longrightarrow> uv_account u = Some a \<Longrightarrow> mint a = uv_tenant u"
  by (simp add: dir_inv_def)

lemma inv_account: "dir_inv mint dir \<Longrightarrow> a \<in> set (dir_accounts dir) \<Longrightarrow> mint (ac_id a) = ac_tenant a"
  by (simp add: dir_inv_def)

lemma local_users_create:
  assumes inv: "dir_inv mint dir" and new: "mint new_id = scope_tenant sc"
  shows "local_to mint (scope_tenant sc) (users_create sc actor data new_id now) dir"
proof (rule local_toI)
  let ?t = "scope_tenant sc" and ?e = "toLowerCase (trim (uc_email data))"
  have mail: "list_ex (\<lambda>u. uv_tenant u = ?t \<and> uv_email u = ?e) (filter (\<lambda>u. uv_tenant u = ?t) (dir_users dir))
      = list_ex (\<lambda>u. uv_tenant u = ?t \<and> uv_email u = ?e) (dir_users dir)"
    by (rule list_ex_filter) simp
  have key: "list_ex (\<lambda>u. uv_id u = new_id) (filter (\<lambda>u. uv_tenant u = ?t) (dir_users dir))
      = list_ex (\<lambda>u. uv_id u = new_id) (dir_users dir)"
    by (rule list_ex_filter) (use inv_user [OF inv] new in auto)
  show "users_create sc actor data new_id now (dir_part mint ?t dir)
      = (dir_part mint ?t (fst (users_create sc actor data new_id now dir)),
         snd (users_create sc actor data new_id now dir))"
    by (simp add: users_create_def dir_part_def Let_def mail key)
  show "dir_part mint d (fst (users_create sc actor data new_id now dir)) = dir_part mint d dir"
    if "d \<noteq> ?t" for d
    using that by (simp add: users_create_def dir_part_def Let_def)
qed

lemma local_accounts_create:
  assumes inv: "dir_inv mint dir" and new: "mint new_id = scope_tenant sc"
  shows "local_to mint (scope_tenant sc) (accounts_create sc actor name tz new_id) dir"
proof (rule local_toI)
  let ?t = "scope_tenant sc"
  have key: "list_ex (\<lambda>a. ac_id a = new_id) (filter (\<lambda>a. ac_tenant a = ?t) (dir_accounts dir))
      = list_ex (\<lambda>a. ac_id a = new_id) (dir_accounts dir)"
    by (rule list_ex_filter) (use inv_account [OF inv] new in auto)
  show "accounts_create sc actor name tz new_id (dir_part mint ?t dir)
      = (dir_part mint ?t (fst (accounts_create sc actor name tz new_id dir)),
         snd (accounts_create sc actor name tz new_id dir))"
    by (simp add: accounts_create_def dir_part_def Let_def key)
  show "dir_part mint d (fst (accounts_create sc actor name tz new_id dir)) = dir_part mint d dir"
    if "d \<noteq> ?t" for d
    using that by (simp add: accounts_create_def dir_part_def Let_def)
qed

lemma local_users_update:
  assumes inv: "dir_inv mint dir"
  shows "local_to mint (scope_tenant sc) (users_update sc actor uid p id) dir"
proof (cases "users_get sc uid dir")
  case None
  then show ?thesis by (auto simp: users_update_def intro!: local_toI)
next
  case (Some before)
  let ?t = "scope_tenant sc"
  have uid: "mint uid = ?t"
    using users_get_Some [OF Some] inv_user [OF inv] by (auto simp: user_in_scope_def)
  have at: "uv_id u = uid \<Longrightarrow> uv_tenant u = ?t" if "u \<in> set (dir_users dir)" for u
    using inv_user [OF inv that] uid by simp
  have find: "find (\<lambda>u. uv_id u = uid) (filter (\<lambda>u. uv_tenant u = ?t) (dir_users dir))
      = find (\<lambda>u. uv_id u = uid) (dir_users dir)"
    by (rule find_filter) (rule at)
  have own: "filter (\<lambda>u. uv_tenant u = d) (map (\<lambda>x. if uv_id x = uid then patch_user p x else x) us)
      = map (\<lambda>x. if uv_id x = uid then patch_user p x else x) (filter (\<lambda>u. uv_tenant u = d) us)" for d us
    by (rule filter_map_commute) simp
  have other: "map (\<lambda>x. if uv_id x = uid then patch_user p x else x)
      (filter (\<lambda>u. uv_tenant u = d) (dir_users dir)) = filter (\<lambda>u. uv_tenant u = d) (dir_users dir)"
    if "d \<noteq> ?t" for d
    using that at by (intro map_idI) auto
  show ?thesis
  proof (rule local_toI)
    show "users_update sc actor uid p id (dir_part mint ?t dir)
        = (dir_part mint ?t (fst (users_update sc actor uid p id dir)),
           snd (users_update sc actor uid p id dir))"
      by (simp add: users_update_def Some Let_def split: option.split)
        (simp add: dir_part_def find own)
    show "dir_part mint d (fst (users_update sc actor uid p id dir)) = dir_part mint d dir" if "d \<noteq> ?t" for d
      using that by (simp add: users_update_def Some Let_def dir_part_def own other split: option.split)
  qed
qed

lemma local_users_remove:
  assumes inv: "dir_inv mint dir"
  shows "local_to mint (scope_tenant sc) (users_remove sc actor uid id) dir"
proof (cases "users_get sc uid dir")
  case None
  then show ?thesis by (auto simp: users_remove_def intro!: local_toI)
next
  case (Some before)
  let ?t = "scope_tenant sc"
  have uid: "mint uid = ?t"
    using users_get_Some [OF Some] inv_user [OF inv] by (auto simp: user_in_scope_def)
  have at: "uv_id u = uid \<Longrightarrow> uv_tenant u = ?t" if "u \<in> set (dir_users dir)" for u
    using inv_user [OF inv that] uid by simp
  have ex: "list_ex (\<lambda>u. uv_id u = uid) (filter (\<lambda>u. uv_tenant u = ?t) (dir_users dir))
      = list_ex (\<lambda>u. uv_id u = uid) (dir_users dir)"
    by (rule list_ex_filter) (rule at)
  have swap: "filter (\<lambda>u. uv_id u \<noteq> uid) (filter (\<lambda>u. uv_tenant u = ?t) us)
      = filter (\<lambda>u. uv_tenant u = ?t) (filter (\<lambda>u. uv_id u \<noteq> uid) us)" for us :: "user list"
    by (simp add: conj_commute)
  have other: "filter (\<lambda>u. uv_tenant u = d) (filter (\<lambda>u. uv_id u \<noteq> uid) (dir_users dir))
      = filter (\<lambda>u. uv_tenant u = d) (dir_users dir)" if "d \<noteq> ?t" for d
    unfolding filter_filter using that at by (intro filter_cong) auto
  show ?thesis
  proof (rule local_toI)
    show "users_remove sc actor uid id (dir_part mint ?t dir)
        = (dir_part mint ?t (fst (users_remove sc actor uid id dir)),
           snd (users_remove sc actor uid id dir))"
      by (simp add: users_remove_def Some Let_def) (simp add: dir_part_def ex swap del: filter_filter)
    show "dir_part mint d (fst (users_remove sc actor uid id dir)) = dir_part mint d dir" if "d \<noteq> ?t" for d
      using that by (simp add: users_remove_def Some Let_def dir_part_def other del: filter_filter)
  qed
qed

lemma local_write_account:
  assumes inv: "dir_inv mint dir" and f: "\<And>a. ac_tenant (f a) = ac_tenant a"
  shows "local_to mint (scope_tenant sc) (write_account sc actor label aid f id) dir"
proof (cases "findScoped sc aid dir")
  case None
  then show ?thesis by (auto simp: write_account_def intro!: local_toI)
next
  case (Some before)
  let ?t = "scope_tenant sc"
  have aid: "mint aid = ?t" using findScoped_Some [OF Some] inv_account [OF inv] by auto
  have at: "ac_id a = aid \<Longrightarrow> ac_tenant a = ?t" if "a \<in> set (dir_accounts dir)" for a
    using inv_account [OF inv that] aid by simp
  have find: "find (\<lambda>a. ac_id a = aid) (filter (\<lambda>a. ac_tenant a = ?t) (dir_accounts dir))
      = find (\<lambda>a. ac_id a = aid) (dir_accounts dir)"
    by (rule find_filter) (rule at)
  have own: "filter (\<lambda>a. ac_tenant a = d) (map (\<lambda>x. if ac_id x = aid then f x else x) xs)
      = map (\<lambda>x. if ac_id x = aid then f x else x) (filter (\<lambda>a. ac_tenant a = d) xs)" for d xs
    by (rule filter_map_commute) (simp add: f)
  have other: "map (\<lambda>x. if ac_id x = aid then f x else x)
      (filter (\<lambda>a. ac_tenant a = d) (dir_accounts dir)) = filter (\<lambda>a. ac_tenant a = d) (dir_accounts dir)"
    if "d \<noteq> ?t" for d
    using that at by (intro map_idI) auto
  show ?thesis
  proof (rule local_toI)
    show "write_account sc actor label aid f id (dir_part mint ?t dir)
        = (dir_part mint ?t (fst (write_account sc actor label aid f id dir)),
           snd (write_account sc actor label aid f id dir))"
      by (simp add: write_account_def Some Let_def split: option.split)
        (simp add: dir_part_def find own)
    show "dir_part mint d (fst (write_account sc actor label aid f id dir)) = dir_part mint d dir"
      if "d \<noteq> ?t" for d
      using that by (simp add: write_account_def Some Let_def dir_part_def own other split: option.split)
  qed
qed

lemma local_accounts_remove:
  assumes inv: "dir_inv mint dir"
  shows "local_to mint (scope_tenant sc) (accounts_remove sc actor aid id) dir"
proof (cases "findScoped sc aid dir")
  case None
  then show ?thesis by (auto simp: accounts_remove_def intro!: local_toI)
next
  case (Some before)
  let ?t = "scope_tenant sc"
  let ?null = "\<lambda>u. if uv_account u = Some aid then u\<lparr>uv_account := None\<rparr> else u"
  have aid: "mint aid = ?t" using findScoped_Some [OF Some] inv_account [OF inv] by auto
  have at: "ac_id a = aid \<Longrightarrow> ac_tenant a = ?t" if "a \<in> set (dir_accounts dir)" for a
    using inv_account [OF inv that] aid by simp
  have uat: "uv_account u = Some aid \<Longrightarrow> uv_tenant u = ?t" if "u \<in> set (dir_users dir)" for u
    using inv_user_account [OF inv that] aid by simp
  have count: "filter (\<lambda>u. uv_account u = Some aid) (filter (\<lambda>u. uv_tenant u = ?t) (dir_users dir))
      = filter (\<lambda>u. uv_account u = Some aid) (dir_users dir)"
    unfolding filter_filter using uat by (intro filter_cong) auto
  have own: "filter (\<lambda>u. uv_tenant u = d) (map ?null us) = map ?null (filter (\<lambda>u. uv_tenant u = d) us)"
    for d and us :: "user list"
    by (rule filter_map_commute) simp
  have other: "map ?null (filter (\<lambda>u. uv_tenant u = d) (dir_users dir))
      = filter (\<lambda>u. uv_tenant u = d) (dir_users dir)" if "d \<noteq> ?t" for d
    using that uat by (intro map_idI) auto
  have swap: "filter (\<lambda>a. ac_id a \<noteq> aid) (filter (\<lambda>a. ac_tenant a = ?t) xs)
      = filter (\<lambda>a. ac_tenant a = ?t) (filter (\<lambda>a. ac_id a \<noteq> aid) xs)" for xs :: "account list"
    by (simp add: conj_commute)
  have acc: "filter (\<lambda>a. ac_tenant a = d) (filter (\<lambda>a. ac_id a \<noteq> aid) (dir_accounts dir))
      = filter (\<lambda>a. ac_tenant a = d) (dir_accounts dir)" if "d \<noteq> ?t" for d
    unfolding filter_filter using that at by (intro filter_cong) auto
  have n: "length (filter (\<lambda>u. uv_account u = Some aid) (dir_users (dir_part mint ?t dir)))
      = length (filter (\<lambda>u. uv_account u = Some aid) (dir_users dir))"
    by (simp add: dir_part_def count del: filter_filter)
  show ?thesis
  proof (rule local_toI)
    show "accounts_remove sc actor aid id (dir_part mint ?t dir)
        = (dir_part mint ?t (fst (accounts_remove sc actor aid id dir)),
           snd (accounts_remove sc actor aid id dir))"
      by (simp only: accounts_remove_def part_findScoped Some option.case Let_def n id_apply)
        (simp add: dir_part_def own swap del: filter_filter)
    show "dir_part mint d (fst (accounts_remove sc actor aid id dir)) = dir_part mint d dir" if "d \<noteq> ?t" for d
      using that
      by (simp add: accounts_remove_def Some Let_def dir_part_def own other acc del: filter_filter)
  qed
qed

section \<open>The routes\<close>

text \<open>Answering after an operation, and recording revocations of the tenant's own users, keep an
  operation local.\<close>

lemma local_then:
  assumes "local_to mint t f dir"
    and "\<And>d r. g (dir_part mint t d) r = (dir_part mint t (fst (g d r)), snd (g d r))"
    and "\<And>d r t'. t' \<noteq> t \<Longrightarrow> dir_part mint t' (fst (g d r)) = dir_part mint t' d"
  shows "local_to mint t (\<lambda>dir. case f dir of (d, r) \<Rightarrow> g d r) dir"
proof (rule local_toI)
  have f: "f (dir_part mint t dir) = (dir_part mint t (fst (f dir)), snd (f dir))"
    using assms(1) by (simp add: local_to_def prod_eq_iff)
  show "(case f (dir_part mint t dir) of (d, r) \<Rightarrow> g d r) =
      (dir_part mint t (fst (case f dir of (d, r) \<Rightarrow> g d r)), snd (case f dir of (d, r) \<Rightarrow> g d r))"
    by (simp add: f case_prod_unfold assms(2))
  show "dir_part mint d (fst (case f dir of (d, r) \<Rightarrow> g d r)) = dir_part mint d dir" if "d \<noteq> t" for d
    using that assms(1) by (simp add: case_prod_unfold assms(3) local_to_def)
qed

lemma part_revoke:
  "mint uid = t \<Longrightarrow>
     dir_part mint t (revoke_sessions uid b dir) = revoke_sessions uid b (dir_part mint t dir)"
  "mint uid = t \<Longrightarrow> d \<noteq> t \<Longrightarrow> dir_part mint d (revoke_sessions uid b dir) = dir_part mint d dir"
  by (auto simp: dir_part_def revoke_sessions_def)

lemma part_mark:
  "mint uid = t \<Longrightarrow> dir_part mint t (dir\<lparr>socket_marks := socket_marks dir @ [uid]\<rparr>)
     = (dir_part mint t dir)\<lparr>socket_marks := socket_marks (dir_part mint t dir) @ [uid]\<rparr>"
  "mint uid = t \<Longrightarrow> d \<noteq> t \<Longrightarrow>
     dir_part mint d (dir\<lparr>socket_marks := socket_marks dir @ [uid]\<rparr>) = dir_part mint d dir"
  by (auto simp: dir_part_def)

lemma local_if:
  assumes "c (dir_part mint t dir) = c dir"
    and "c dir \<Longrightarrow> local_to mint t f dir" and "\<not> c dir \<Longrightarrow> local_to mint t g dir"
  shows "local_to mint t (\<lambda>d. if c d then f d else g d) dir"
  using assms by (auto simp: local_to_def)

lemma local_case:
  assumes "h (dir_part mint t dir) = h dir"
    and "h dir = None \<Longrightarrow> local_to mint t f dir" and "\<And>x. h dir = Some x \<Longrightarrow> local_to mint t (g x) dir"
  shows "local_to mint t (\<lambda>d. case h d of None \<Rightarrow> f d | Some x \<Rightarrow> g x d) dir"
  using assms by (cases "h dir") (simp_all add: local_to_def)

lemma caller_part [simp]:
  "users_get (scopeOf a) uid (dir_part mint (cl_tenant a) dir) = users_get (scopeOf a) uid dir"
  "findScoped (scopeOf a) aid (dir_part mint (cl_tenant a) dir) = findScoped (scopeOf a) aid dir"
  "users_list (scopeOf a) (dir_part mint (cl_tenant a) dir) = users_list (scopeOf a) dir"
  "accounts_list (scopeOf a) (dir_part mint (cl_tenant a) dir) = accounts_list (scopeOf a) dir"
  using part_users_get [of "scopeOf a"] part_findScoped [of "scopeOf a"] part_users_list [of "scopeOf a"]
    part_accounts_list [of "scopeOf a"]
  by simp_all

lemma inv_get:
  "dir_inv mint dir \<Longrightarrow> users_get (scopeOf a) uid dir = Some v \<Longrightarrow> mint uid = cl_tenant a"
  using users_get_Some [of "scopeOf a" uid dir v] inv_user [of mint dir]
  by (auto simp: user_in_scope_def)

lemma local_post_user:
  assumes inv: "dir_inv mint dir" and new: "mint new_id = cl_tenant a"
  shows "local_to mint (cl_tenant a) (post_user a body hash ready new_id now) dir"
proof (cases body)
  case None
  then show ?thesis by (simp add: post_user_def [abs_def])
next
  case (Some data)
  let ?acct = "if cl_account a \<noteq> None then cl_account a else ub_account data"
  let ?new = "\<lparr>uc_email = ub_email data, uc_passwordHash = hash, uc_role = ub_role data, uc_account = ?acct\<rparr>"
  have c: "local_to mint (cl_tenant a) (users_create (scopeOf a) (cl_user a) ?new new_id now) dir"
    using local_users_create [OF inv, of new_id "scopeOf a"] new by simp
  have "local_to mint (cl_tenant a)
      (\<lambda>dir. case users_create (scopeOf a) (cl_user a) ?new new_id now dir of
         (d, r) \<Rightarrow> (d, case r of None \<Rightarrow> onError ''P2002'' | Some v \<Rightarrow> UserIs 201 v)) dir"
    by (rule local_then [OF c]) simp_all
  then have done': "local_to mint (cl_tenant a)
      (\<lambda>dir. case users_create (scopeOf a) (cl_user a) ?new new_id now dir of
         (dir', None) \<Rightarrow> (dir', onError ''P2002'') | (dir', Some v) \<Rightarrow> (dir', UserIs 201 v)) dir"
    by (rule back_subst [of "\<lambda>f. local_to mint (cl_tenant a) f dir"])
      (auto simp: fun_eq_iff split: prod.split option.split)
  show ?thesis
    unfolding post_user_def [abs_def] Some option.case Let_def
    by (intro local_if local_same done') simp_all
qed

lemma local_patch_user:
  assumes inv: "dir_inv mint dir"
  shows "local_to mint (cl_tenant a) (patch_user_route a uid body sweep_ok id) dir"
proof (cases body)
  case None
  then show ?thesis by (simp add: patch_user_route_def [abs_def])
next
  case (Some p)
  have u: "local_to mint (cl_tenant a) (users_update (scopeOf a) (cl_user a) uid p id) dir"
    using local_users_update [OF inv, of "scopeOf a"] by simp
  have "local_to mint (cl_tenant a)
      (\<lambda>dir. case users_update (scopeOf a) (cl_user a) uid p id dir of (d, r) \<Rightarrow>
         (case r of Inl code \<Rightarrow> (d, onError code) | Inr None \<Rightarrow> (d, Problem 404)
          | Inr (Some v) \<Rightarrow> (if b then revoke_sessions uid sweep_ok d else d, UserIs 200 v))) dir"
    if "users_get (scopeOf a) uid dir = Some x" for b x
    by (rule local_then [OF u])
      (auto simp: part_revoke [where mint = mint and uid = uid, OF inv_get [OF inv that]] split: sum.split option.split)
  then have done': "local_to mint (cl_tenant a)
      (\<lambda>dir. case users_update (scopeOf a) (cl_user a) uid p id dir of
         (dir', Inl code) \<Rightarrow> (dir', onError code)
       | (dir', Inr None) \<Rightarrow> (dir', Problem 404)
       | (dir', Inr (Some v)) \<Rightarrow>
           (if b then revoke_sessions uid sweep_ok dir' else dir', UserIs 200 v)) dir"
    if "users_get (scopeOf a) uid dir = Some x" for b x
    by (rule back_subst [of "\<lambda>f. local_to mint (cl_tenant a) f dir"])
      (use that in \<open>auto simp: fun_eq_iff split: prod.split option.split sum.split\<close>)
  show ?thesis
    unfolding patch_user_route_def [abs_def] Some option.case Let_def
    by (intro local_case local_if local_same done') simp_all
qed

lemma local_delete_user:
  assumes inv: "dir_inv mint dir"
  shows "local_to mint (cl_tenant a) (delete_user a uid id) dir"
proof -
  have u: "local_to mint (cl_tenant a) (users_remove (scopeOf a) (cl_user a) uid id) dir"
    using local_users_remove [OF inv, of "scopeOf a"] by simp
  have "local_to mint (cl_tenant a)
      (\<lambda>dir. case users_remove (scopeOf a) (cl_user a) uid id dir of (d, r) \<Rightarrow>
         (case r of Inl code \<Rightarrow> (d, onError code)
          | Inr b \<Rightarrow> if b then (d\<lparr>socket_marks := socket_marks d @ [uid]\<rparr>, Done) else (d, Problem 404))) dir"
    if "users_get (scopeOf a) uid dir = Some x" for x
    by (rule local_then [OF u])
      (auto simp: part_mark [where mint = mint and uid = uid, OF inv_get [OF inv that]] split: sum.split)
  then have done': "local_to mint (cl_tenant a)
      (\<lambda>dir. case users_remove (scopeOf a) (cl_user a) uid id dir of
         (dir', Inl code) \<Rightarrow> (dir', onError code)
       | (dir', Inr True) \<Rightarrow> (dir'\<lparr>socket_marks := socket_marks dir' @ [uid]\<rparr>, Done)
       | (dir', Inr False) \<Rightarrow> (dir', Problem 404)) dir"
    if "users_get (scopeOf a) uid dir = Some x" for x
    by (rule back_subst [of "\<lambda>f. local_to mint (cl_tenant a) f dir"])
      (use that in \<open>auto simp: fun_eq_iff split: prod.split bool.split sum.split\<close>)
  show ?thesis
    unfolding delete_user_def [abs_def]
    by (intro local_case local_if local_same done') simp_all
qed

lemma local_account_reply:
  "local_to mint t f dir \<Longrightarrow> local_to mint t (\<lambda>d. account_reply (f d)) dir"
  by (auto simp: local_to_def account_reply_def split: prod.splits sum.splits option.splits)

lemma local_patch_account:
  assumes "dir_inv mint dir"
  shows "local_to mint (cl_tenant a) (patch_account a aid body id) dir"
    and "local_to mint (cl_tenant a) (patch_preferences a aid prefs id) dir"
proof -
  have w: "local_to mint (cl_tenant a) (write_account (scopeOf a) (cl_user a) l aid f id) dir"
    if "\<And>x. ac_tenant (f x) = ac_tenant x" for f l
    using local_write_account [OF assms, of f "scopeOf a" "cl_user a" l aid] that by simp
  show "local_to mint (cl_tenant a) (patch_account a aid body id) dir"
  proof (cases body)
    case (Some p)
    have "local_to mint (cl_tenant a) (\<lambda>d. account_reply (accounts_update (scopeOf a) (cl_user a) aid p id d)) dir"
      unfolding accounts_update_def by (intro local_account_reply w) simp
    then show ?thesis by (simp add: patch_account_def [abs_def] Some)
  qed (simp add: patch_account_def [abs_def])
  show "local_to mint (cl_tenant a) (patch_preferences a aid prefs id) dir"
  proof (cases prefs)
    case (Some p)
    have "local_to mint (cl_tenant a)
        (\<lambda>d. account_reply (accounts_updatePreferences (scopeOf a) (cl_user a) aid p id d)) dir"
      unfolding accounts_updatePreferences_def by (intro local_account_reply w) simp
    then show ?thesis by (simp add: patch_preferences_def [abs_def] Some)
  qed (simp add: patch_preferences_def [abs_def])
qed

lemma local_post_account:
  assumes inv: "dir_inv mint dir" and new: "mint new_id = cl_tenant a"
  shows "local_to mint (cl_tenant a) (post_account a ready body new_id) dir"
proof (cases body)
  case None
  then show ?thesis
    unfolding post_account_def [abs_def] None option.case by (intro local_if local_same) simp_all
next
  case (Some nt)
  obtain name tz where nt: "nt = (name, tz)" by (cases nt)
  have c: "local_to mint (cl_tenant a) (accounts_create (scopeOf a) (cl_user a) name tz new_id) dir"
    using local_accounts_create [OF inv, of new_id "scopeOf a"] new by simp
  have "local_to mint (cl_tenant a)
      (\<lambda>dir. case accounts_create (scopeOf a) (cl_user a) name tz new_id dir of
         (d, r) \<Rightarrow> (d, case r of None \<Rightarrow> onError ''P2002'' | Some v \<Rightarrow> AccountIs 201 v)) dir"
    by (rule local_then [OF c]) simp_all
  then have done': "local_to mint (cl_tenant a)
      (\<lambda>dir. case accounts_create (scopeOf a) (cl_user a) name tz new_id dir of
         (dir', None) \<Rightarrow> (dir', onError ''P2002'') | (dir', Some v) \<Rightarrow> (dir', AccountIs 201 v)) dir"
    by (rule back_subst [of "\<lambda>f. local_to mint (cl_tenant a) f dir"])
      (auto simp: fun_eq_iff split: prod.split option.split)
  show ?thesis
    unfolding post_account_def [abs_def] Some nt option.case prod.case
    by (intro local_if local_same done') simp_all
qed

lemma local_delete_account:
  assumes "dir_inv mint dir"
  shows "local_to mint (cl_tenant a) (delete_account a aid id) dir"
proof -
  have "local_to mint (cl_tenant a) (accounts_remove (scopeOf a) (cl_user a) aid id) dir"
    using local_accounts_remove [OF assms, of "scopeOf a"] by simp
  then show ?thesis
    by (auto simp: local_to_def delete_account_def split: prod.splits account_removal.splits)
qed

lemma local_dir_step:
  assumes inv: "dir_inv mint dir" and ok: "req_ok mint c"
  shows "local_to mint (req_tenant c) (dir_step c) dir"
proof -
  obtain a r where c: "c = (a, r)" by (cases c)
  have "local_to mint (cl_tenant a) (handle_request a r) dir"
  proof (cases r)
    case GetUsers
    then show ?thesis by (auto simp: local_to_def)
  next
    case (GetUser uid)
    then show ?thesis by (auto simp: local_to_def get_user_def)
  next
    case (PostUser body hash ready new_id now)
    have "local_to mint (cl_tenant a) (post_user a body hash ready new_id now) dir"
      by (rule local_post_user [OF inv]) (use ok c PostUser in simp)
    then show ?thesis by (simp add: local_to_def PostUser)
  next
    case (PatchUser uid body b)
    show ?thesis using local_patch_user [OF inv, of a uid body b] by (simp add: local_to_def PatchUser)
  next
    case (DeleteUser uid)
    show ?thesis using local_delete_user [OF inv, of a uid] by (simp add: local_to_def DeleteUser)
  next
    case GetAccounts
    then show ?thesis by (auto simp: local_to_def)
  next
    case (GetAccount aid)
    then show ?thesis by (auto simp: local_to_def get_account_def)
  next
    case (PostAccount e ready body new_id)
    have "local_to mint (cl_tenant a) (post_account a ready body new_id) dir"
      by (rule local_post_account [OF inv]) (use ok c PostAccount in simp)
    then show ?thesis by (simp add: local_to_def PostAccount)
  next
    case (PatchAccount aid body)
    show ?thesis using local_patch_account(1) [OF inv, of a aid body] by (simp add: local_to_def PatchAccount)
  next
    case (PatchPrefs aid body)
    show ?thesis using local_patch_account(2) [OF inv, of a aid body] by (simp add: local_to_def PatchPrefs)
  next
    case (DeleteAccount aid)
    show ?thesis using local_delete_account [OF inv, of a aid] by (simp add: local_to_def DeleteAccount)
  qed
  then show ?thesis by (simp add: c local_to_def req_tenant_def)
qed

section \<open>What a request may do to the users\<close>

definition may_manage :: "caller \<Rightarrow> user \<Rightarrow> bool" where
  "may_manage a u \<longleftrightarrow> user_in_scope (scopeOf a) u \<and>
     (uv_id u = cl_user a \<or> canManageUser (cl_role a) (uv_role u))"

definition may_place :: "(string \<Rightarrow> string) \<Rightarrow> caller \<Rightarrow> string option \<Rightarrow> bool" where
  "may_place mint a acct \<longleftrightarrow>
     (cl_account a \<noteq> None \<longrightarrow> acct = cl_account a) \<and> (\<forall>x. acct = Some x \<longrightarrow> mint x = cl_tenant a)"

inductive user_effect :: "(string \<Rightarrow> string) \<Rightarrow> caller \<Rightarrow> user list \<Rightarrow> user list \<Rightarrow> bool"
  for mint a where
  unchanged: "user_effect mint a us us"
| created: "uv_tenant u = cl_tenant a \<Longrightarrow> mint (uv_id u) = cl_tenant a \<Longrightarrow> uv_id u \<notin> uv_id ` set us \<Longrightarrow>
    canGrantRole (cl_role a) (uv_role u) \<Longrightarrow> may_place mint a (uv_account u) \<Longrightarrow>
    user_effect mint a us (us @ [u])"
| patched: "t \<in> set us \<Longrightarrow> uv_id t = uid \<Longrightarrow> may_manage a t \<Longrightarrow>
    (\<And>r. up_role p = Some r \<Longrightarrow> canGrantRole (cl_role a) r) \<Longrightarrow>
    (\<And>x. up_account p = Some x \<Longrightarrow> may_place mint a x) \<Longrightarrow>
    user_effect mint a us (map (\<lambda>x. if uv_id x = uid then patch_user p x else x) us)"
| removed: "t \<in> set us \<Longrightarrow> uv_id t = uid \<Longrightarrow> may_manage a t \<Longrightarrow>
    user_effect mint a us (filter (\<lambda>u. uv_id u \<noteq> uid) us)"

lemma placed_account:
  assumes "dir_inv mint dir" and "findScoped (scopeOf a) x dir \<noteq> None"
  shows "mint x = cl_tenant a"
proof -
  obtain y where y: "findScoped (scopeOf a) x dir = Some y" using assms(2) by blast
  show ?thesis using findScoped_Some [OF y] inv_account [OF assms(1), of y] by simp
qed

lemma get_may_manage:
  assumes "users_get (scopeOf a) uid dir = Some v"
    and "uv_id v = cl_user a \<or> canManageUser (cl_role a) (uv_role v)"
  shows "\<exists>t \<in> set (dir_users dir). uv_id t = uid \<and> may_manage a t"
  using users_get_Some [OF assms(1)] assms(2) by (auto simp: may_manage_def)

lemma post_user_effect:
  assumes inv: "dir_inv mint dir" and new: "mint new_id = cl_tenant a"
  shows "user_effect mint a (dir_users dir) (dir_users (fst (post_user a body hash ready new_id now dir)))"
proof (cases body)
  case None
  then show ?thesis by (simp add: post_user_def unchanged)
next
  case (Some data)
  define acct where "acct = (if cl_account a \<noteq> None then cl_account a else ub_account data)"
  define new where "new = \<lparr>uc_email = ub_email data, uc_passwordHash = hash, uc_role = ub_role data,
    uc_account = acct\<rparr>"
  have post: "post_user a body hash ready new_id now dir =
      (if \<not> canGrantRole (cl_role a) (ub_role data) then (dir, Problem 403)
       else if acct \<noteq> None \<and> findScoped (scopeOf a) (the acct) dir = None then (dir, Problem 400)
       else if \<not> requireReady a ready then (dir, Problem 403)
       else (case users_create (scopeOf a) (cl_user a) new new_id now dir of
               (dir', None) \<Rightarrow> (dir', onError ''P2002'') | (dir', Some v) \<Rightarrow> (dir', UserIs 201 v)))"
    unfolding post_user_def Some new_def acct_def Let_def option.case ..
  have users: "dir_users (fst (post_user a body hash ready new_id now dir)) =
      (if canGrantRole (cl_role a) (ub_role data) \<and>
          \<not> (acct \<noteq> None \<and> findScoped (scopeOf a) (the acct) dir = None) \<and> requireReady a ready
       then dir_users (fst (users_create (scopeOf a) (cl_user a) new new_id now dir)) else dir_users dir)"
  proof -
    obtain d r where c: "users_create (scopeOf a) (cl_user a) new new_id now dir = (d, r)"
      by (cases "users_create (scopeOf a) (cl_user a) new new_id now dir")
    show ?thesis unfolding post c by (cases r) auto
  qed
  have place: "may_place mint a acct"
    if "\<not> (acct \<noteq> None \<and> findScoped (scopeOf a) (the acct) dir = None)"
    using that placed_account [OF inv, of a] by (auto simp: may_place_def acct_def)
  have "user_effect mint a (dir_users dir)
      (dir_users (fst (users_create (scopeOf a) (cl_user a) new new_id now dir)))"
    if "canGrantRole (cl_role a) (ub_role data)" and "may_place mint a acct"
    using that assms(2)
    by (auto simp: users_create_def Let_def new_def list_ex_iff intro!: unchanged created)
  then show ?thesis using place by (simp add: users unchanged)
qed

lemma guarded_fst:
  "c1 \<or> c2 \<or> c3 \<or> c4 \<Longrightarrow>
     fst (if c1 then (x, p) else if c2 then (x, q) else if c3 then (x, r) else if c4 then (x, s) else e) = x"
  by auto

lemma patch_user_effect:
  assumes inv: "dir_inv mint dir"
  shows "user_effect mint a (dir_users dir) (dir_users (fst (patch_user_route a uid body b id dir)))"
proof (cases body)
  case None
  then show ?thesis by (simp add: patch_user_route_def unchanged)
next
  case (Some p)
  show ?thesis
  proof (cases "users_get (scopeOf a) uid dir")
    case None
    then show ?thesis by (simp add: patch_user_route_def Some unchanged)
  next
    case get: (Some v)
    show ?thesis
    proof (cases "(uv_id v \<noteq> cl_user a \<and> \<not> canManageUser (cl_role a) (uv_role v)) \<or>
        (up_role p \<noteq> None \<and> \<not> canGrantRole (cl_role a) (the (up_role p))) \<or>
        (up_account p \<noteq> None \<and> cl_account a \<noteq> None \<and> the (up_account p) \<noteq> cl_account a) \<or>
        (up_account p \<noteq> None \<and> the (up_account p) \<noteq> None \<and>
           findScoped (scopeOf a) (the (the (up_account p))) dir = None)")
      case True
      have "fst (patch_user_route a uid body b id dir) = dir"
        unfolding patch_user_route_def Some get option.case Let_def by (rule guarded_fst [OF True])
      then show ?thesis by (simp add: unchanged)
    next
      case False
      have manage: "uv_id v = cl_user a \<or> canManageUser (cl_role a) (uv_role v)" using False by blast
      obtain t where t: "t \<in> set (dir_users dir)" "uv_id t = uid" "may_manage a t"
        using get_may_manage [OF get manage] by blast
      have "user_effect mint a (dir_users dir)
          (map (\<lambda>x. if uv_id x = uid then patch_user p x else x) (dir_users dir))"
      proof (rule patched [OF t])
        show "canGrantRole (cl_role a) r" if "up_role p = Some r" for r using False that by auto
        show "may_place mint a x" if "up_account p = Some x" for x
          using False that placed_account [OF inv, of a] by (auto simp: may_place_def)
      qed
      then have "user_effect mint a (dir_users dir)
          (dir_users (fst (users_update (scopeOf a) (cl_user a) uid p id dir)))"
        by (simp add: users_update_def get Let_def unchanged split: option.split)
      moreover have "dir_users (fst (patch_user_route a uid body b id dir))
          = dir_users (fst (users_update (scopeOf a) (cl_user a) uid p id dir))"
      proof -
        have g: "\<not> (uv_id v \<noteq> cl_user a \<and> \<not> canManageUser (cl_role a) (uv_role v))"
          "\<not> (up_role p \<noteq> None \<and> \<not> canGrantRole (cl_role a) (the (up_role p)))"
          "\<not> (up_account p \<noteq> None \<and> cl_account a \<noteq> None \<and> the (up_account p) \<noteq> cl_account a)"
          "\<not> (up_account p \<noteq> None \<and> the (up_account p) \<noteq> None \<and>
             findScoped (scopeOf a) (the (the (up_account p))) dir = None)"
          using False by blast+
        obtain d r where u: "users_update (scopeOf a) (cl_user a) uid p id dir = (d, r)"
          by (cases "users_update (scopeOf a) (cl_user a) uid p id dir")
        show ?thesis
          unfolding patch_user_route_def Some get option.case Let_def g [THEN if_not_P] u prod.case
          by (simp add: revoke_sessions_def split: sum.split option.split)
      qed
      ultimately show ?thesis by simp
    qed
  qed
qed

lemma delete_user_effect:
  "user_effect mint a (dir_users dir) (dir_users (fst (delete_user a uid id dir)))"
proof (cases "users_get (scopeOf a) uid dir")
  case None
  then show ?thesis by (simp add: delete_user_def unchanged)
next
  case (Some v)
  show ?thesis
  proof (cases "uv_id v = cl_user a \<or> canManageUser (cl_role a) (uv_role v)")
    case True
    obtain t where "t \<in> set (dir_users dir)" "uv_id t = uid" "may_manage a t"
      using get_may_manage [OF Some True] by blast
    then have r: "user_effect mint a (dir_users dir) (filter (\<lambda>u. uv_id u \<noteq> uid) (dir_users dir))"
      by (rule removed)
    show ?thesis
      using True r by (auto simp: delete_user_def users_remove_def Some Let_def unchanged)
  qed (simp add: delete_user_def Some unchanged)
qed

lemma delete_account_users:
  "dir_users (fst (delete_account a aid id dir)) = dir_users dir"
proof -
  have "map (\<lambda>u. if uv_account u = Some aid then u\<lparr>uv_account := None\<rparr> else u) us = us"
    if "filter (\<lambda>u. uv_account u = Some aid) us = []" for us :: "user list"
    using that by (intro map_idI) (auto simp: filter_empty_conv)
  then show ?thesis
    by (simp add: delete_account_def accounts_remove_def Let_def split: option.split)
qed

lemma write_account_users [simp]:
  "dir_users (fst (write_account sc actor l aid f id dir)) = dir_users dir"
  by (simp add: write_account_def Let_def split: option.split)

lemma account_reply_fst [simp]: "fst (account_reply r) = fst r"
  by (auto simp: account_reply_def split: prod.splits sum.splits option.splits)

lemma step_effect:
  assumes "dir_inv mint dir" and "req_ok mint (a, r)"
  shows "user_effect mint a (dir_users dir) (dir_users (fst (dir_step (a, r) dir)))"
  using assms
  by (cases r)
    (simp_all add: unchanged post_user_effect patch_user_effect delete_user_effect delete_account_users
      patch_account_def patch_preferences_def accounts_update_def accounts_updatePreferences_def
      post_account_def accounts_create_def Let_def split: option.split prod.split)

section \<open>The invariant is kept\<close>

definition users_inv :: "(string \<Rightarrow> string) \<Rightarrow> user list \<Rightarrow> bool" where
  "users_inv mint us \<longleftrightarrow> distinct (map uv_id us) \<and>
     (\<forall>u \<in> set us. mint (uv_id u) = uv_tenant u \<and>
        (\<forall>a. uv_account u = Some a \<longrightarrow> mint a = uv_tenant u))"

definition accounts_inv :: "(string \<Rightarrow> string) \<Rightarrow> account list \<Rightarrow> bool" where
  "accounts_inv mint xs \<longleftrightarrow> distinct (map ac_id xs) \<and> (\<forall>a \<in> set xs. mint (ac_id a) = ac_tenant a)"

lemma dir_inv_split:
  "dir_inv mint dir \<longleftrightarrow> users_inv mint (dir_users dir) \<and> accounts_inv mint (dir_accounts dir)"
  by (auto simp: dir_inv_def users_inv_def accounts_inv_def)

lemma distinct_map_same:
  "(\<And>x. k (f x) = k x) \<Longrightarrow> distinct (map k (map f xs)) = distinct (map k xs)"
  by (simp add: comp_def)

lemma distinct_map_filter_key: "distinct (map k xs) \<Longrightarrow> distinct (map k (filter P xs))"
  by (induction xs) auto

lemma may_manage_tenant: "may_manage a t \<Longrightarrow> uv_tenant t = cl_tenant a"
  by (simp add: may_manage_def user_in_scope_def)

lemma same_id: "users_inv mint us \<Longrightarrow> x \<in> set us \<Longrightarrow> y \<in> set us \<Longrightarrow> uv_id x = uv_id y \<Longrightarrow> x = y"
  by (auto simp: users_inv_def distinct_map inj_on_def)

lemma effect_users_inv:
  assumes "user_effect mint a us us'" and "users_inv mint us"
  shows "users_inv mint us'"
  using assms
proof cases
  case (created u)
  then show ?thesis
    using assms(2) by (auto simp: users_inv_def may_place_def)
next
  case (patched t uid p)
  have row: "mint (uv_id (patch_user p x)) = uv_tenant x \<and>
      (\<forall>b. uv_account (patch_user p x) = Some b \<longrightarrow> mint b = uv_tenant x)"
    if x: "x \<in> set us" and "uv_id x = uid" for x
  proof -
    have "x = t" using same_id [OF assms(2) x patched(2)] that(2) patched(3) by simp
    then have "uv_tenant x = cl_tenant a" using may_manage_tenant patched(4) by simp
    then show ?thesis
      using x assms(2) patched(6)
      by (auto simp: users_inv_def patch_user_def may_place_def split: option.splits)
  qed
  have "distinct (map uv_id us')"
    unfolding patched(1) by (subst distinct_map_same) (use assms(2) in \<open>simp_all add: users_inv_def\<close>)
  moreover have "\<forall>u \<in> set us'. mint (uv_id u) = uv_tenant u \<and>
      (\<forall>b. uv_account u = Some b \<longrightarrow> mint b = uv_tenant u)"
  proof
    fix u
    assume "u \<in> set us'"
    then obtain x where x: "x \<in> set us" and u: "u = (if uv_id x = uid then patch_user p x else x)"
      unfolding patched(1) by auto
    show "mint (uv_id u) = uv_tenant u \<and> (\<forall>b. uv_account u = Some b \<longrightarrow> mint b = uv_tenant u)"
    proof (cases "uv_id x = uid")
      case True
      then show ?thesis using row [OF x True] u by simp
    next
      case False
      then show ?thesis using assms(2) x u by (simp add: users_inv_def)
    qed
  qed
  ultimately show ?thesis unfolding users_inv_def by blast
next
  case (removed t uid)
  then show ?thesis using assms(2) distinct_map_filter_key by (auto simp: users_inv_def)
qed simp

lemma accounts_append: "accounts_inv mint xs \<Longrightarrow> ac_id x \<notin> ac_id ` set xs \<Longrightarrow> mint (ac_id x) = ac_tenant x \<Longrightarrow>
    accounts_inv mint (xs @ [x])"
  by (auto simp: accounts_inv_def)

lemma write_account_inv:
  assumes "accounts_inv mint (dir_accounts dir)"
    and "\<And>x. ac_id (f x) = ac_id x" and "\<And>x. ac_tenant (f x) = ac_tenant x"
  shows "accounts_inv mint (dir_accounts (fst (write_account sc actor l aid f id dir)))"
proof -
  have "accounts_inv mint (map (\<lambda>x. if ac_id x = aid then f x else x) (dir_accounts dir))"
    using assms distinct_map_same [of ac_id "\<lambda>x. if ac_id x = aid then f x else x"]
    by (auto simp: accounts_inv_def)
  then show ?thesis using assms(1) by (simp add: write_account_def Let_def split: option.split)
qed

lemma post_user_accounts [simp]:
  "dir_accounts (fst (post_user a body hash ready new_id now dir)) = dir_accounts dir"
  by (auto simp: post_user_def Let_def users_create_def split: option.split)

lemma users_update_accounts [simp]:
  "dir_accounts (fst (users_update sc actor uid p id dir)) = dir_accounts dir"
  by (simp add: users_update_def Let_def split: option.split)

lemma patch_user_accounts [simp]:
  "dir_accounts (fst (patch_user_route a uid body b id dir)) = dir_accounts dir"
proof (cases body)
  case None
  then show ?thesis by (simp add: patch_user_route_def)
next
  case (Some p)
  show ?thesis
  proof (cases "users_get (scopeOf a) uid dir")
    case None
    then show ?thesis by (simp add: patch_user_route_def Some)
  next
    case get: (Some v)
    obtain d r where u: "users_update (scopeOf a) (cl_user a) uid p id dir = (d, r)"
      by (cases "users_update (scopeOf a) (cl_user a) uid p id dir")
    have d: "dir_accounts d = dir_accounts dir"
      using users_update_accounts [of "scopeOf a" "cl_user a" uid p dir] u by simp
    have four: "dir_accounts (fst (if c1 then (dir, p1) else if c2 then (dir, p2) else if c3 then (dir, p3)
        else if c4 then (dir, p4) else e)) = dir_accounts dir"
      if "dir_accounts (fst e) = dir_accounts dir" for c1 c2 c3 c4 p1 p2 p3 p4 and e :: "directory \<times> dir_reply"
      using that by simp
    show ?thesis
      unfolding patch_user_route_def Some get option.case Let_def u prod.case
      by (rule four) (simp add: revoke_sessions_def d split: sum.split option.split)
  qed
qed

lemma delete_user_accounts [simp]:
  "dir_accounts (fst (delete_user a uid id dir)) = dir_accounts dir"
  by (auto simp: delete_user_def users_remove_def Let_def split: option.split)

lemma fst_case_reply: "fst (case r of None \<Rightarrow> (d, x) | Some v \<Rightarrow> (d, g v)) = d"
  by (cases r) simp_all

lemma post_account_fst:
  "fst (post_account a ready body new_id dir) =
     (if \<not> tenantWide a \<or> \<not> requireReady a ready then dir
      else case body of None \<Rightarrow> dir
        | Some (name, tz) \<Rightarrow> fst (accounts_create (scopeOf a) (cl_user a) name tz new_id dir))"
  by (simp add: post_account_def case_prod_unfold fst_case_reply split: option.split)

lemma step_accounts_inv:
  assumes "accounts_inv mint (dir_accounts dir)" and "req_ok mint (a, r)"
  shows "accounts_inv mint (dir_accounts (fst (dir_step (a, r) dir)))"
proof (cases r)
  case (PostAccount e ready body new_id)
  have "accounts_inv mint (dir_accounts (fst (accounts_create (scopeOf a) (cl_user a) name tz new_id dir)))"
    for name tz
    using assms
    by (auto simp: PostAccount accounts_create_def Let_def list_ex_iff intro!: accounts_append)
  then have "accounts_inv mint (dir_accounts (fst (post_account a ready body new_id dir)))"
    unfolding post_account_fst using assms(1) by (simp split: option.split prod.split)
  then show ?thesis using assms(1) by (simp add: PostAccount)
next
  case (PatchAccount aid body)
  then show ?thesis
    using assms(1) write_account_inv [OF assms(1)]
    by (simp add: patch_account_def accounts_update_def split: option.split)
next
  case (PatchPrefs aid body)
  then show ?thesis
    using assms(1) write_account_inv [OF assms(1)]
    by (simp add: patch_preferences_def accounts_updatePreferences_def split: option.split)
next
  case (DeleteAccount aid)
  then show ?thesis
    using assms(1) distinct_map_filter_key
    by (auto simp: delete_account_def accounts_remove_def accounts_inv_def Let_def split: option.split)
qed (use assms(1) in simp_all)

lemma step_keeps_inv:
  assumes "req_ok mint c" and "dir_inv mint dir"
  shows "dir_inv mint (fst (dir_step c dir))"
proof -
  obtain a r where c: "c = (a, r)" by (cases c)
  have "users_inv mint (dir_users (fst (dir_step (a, r) dir)))"
    using step_effect [of mint dir a r] effect_users_inv assms unfolding c dir_inv_split by blast
  then show ?thesis
    using step_accounts_inv [of mint dir a r] assms unfolding c dir_inv_split by blast
qed

lemma local_to_silent:
  "local_to mint t f dir \<Longrightarrow> d \<noteq> t \<Longrightarrow> dir_part mint d (fst (f dir)) = dir_part mint d dir"
  by (simp add: local_to_def)

lemma local_to_same:
  assumes "local_to mint t f dir" and "local_to mint t f dir'"
    and "dir_part mint t dir = dir_part mint t dir'"
  shows "snd (f dir) = snd (f dir') \<and> dir_part mint t (fst (f dir)) = dir_part mint t (fst (f dir'))"
proof -
  have "snd (f dir) = snd (f (dir_part mint t dir))" using assms(1) by (simp add: local_to_def)
  also have "\<dots> = snd (f (dir_part mint t dir'))" unfolding assms(3) ..
  also have "\<dots> = snd (f dir')" using assms(2) by (simp add: local_to_def)
  finally have r: "snd (f dir) = snd (f dir')" .
  have "dir_part mint t (fst (f dir)) = fst (f (dir_part mint t dir))" using assms(1) by (simp add: local_to_def)
  also have "\<dots> = fst (f (dir_part mint t dir'))" unfolding assms(3) ..
  also have "\<dots> = dir_part mint t (fst (f dir'))" using assms(2) by (simp add: local_to_def)
  finally show ?thesis using r by blast
qed

interpretation tenants: isolated dir_step req_tenant "dir_part mint" "dir_inv mint" "req_ok mint" for mint
proof
  fix c dir dir'
  assume ok: "req_ok mint c" and inv: "dir_inv mint dir" "dir_inv mint dir'"
    and same: "dir_part mint (req_tenant c) dir = dir_part mint (req_tenant c) dir'"
  show "snd (dir_step c dir) = snd (dir_step c dir') \<and>
      dir_part mint (req_tenant c) (fst (dir_step c dir)) = dir_part mint (req_tenant c) (fst (dir_step c dir'))"
    by (rule local_to_same [OF local_dir_step [OF inv(1) ok] local_dir_step [OF inv(2) ok] same])
next
  fix c dir d
  assume ok: "req_ok mint c" and inv: "dir_inv mint dir" and d: "req_tenant c \<noteq> d"
  show "dir_part mint d (fst (dir_step c dir)) = dir_part mint d dir"
    by (rule local_to_silent [OF local_dir_step [OF inv ok] d [symmetric]])
qed (rule step_keeps_inv)

section \<open>Properties\<close>

text \<open>C21. Tenants do not interfere through the user and account routes. However the requests of the
  tenants are interleaved, each tenant's callers receive the answers, and its users, accounts, audit
  trail and revoked sessions become, what they would have been without anybody else's requests.\<close>

theorem directory_noninterfering:
  assumes "\<forall>c \<in> set cs. req_ok mint c" and "dir_inv mint dir"
  shows "replies_to req_tenant t (snd (run_calls dir_step cs dir))
         = snd (run_calls dir_step (purge req_tenant t cs) dir)
       \<and> dir_part mint t (fst (run_calls dir_step cs dir))
         = dir_part mint t (fst (run_calls dir_step (purge req_tenant t cs) dir))"
  using tenants.noninterference [OF assms] .

definition empty_dir :: directory where
  "empty_dir = \<lparr>dir_users = [], dir_accounts = [], dir_trail = [], token_sweeps = [], socket_marks = []\<rparr>"

definition boss :: "string \<Rightarrow> role \<Rightarrow> caller" where
  "boss t r = \<lparr>cl_user = ''root'', cl_tenant = t, cl_account = None, cl_role = r\<rparr>"

definition sample_requests :: "(caller \<times> request) list" where
  "sample_requests =
     [(boss ''T'' Tsp_admin, PostUser (Some \<lparr>ub_email = ''a'', ub_role = Viewer, ub_account = None\<rparr>) ''h'' True ''T1'' 5),
      (boss ''V'' Platform_admin, DeleteUser ''T1''),
      (boss ''T'' Tsp_admin, GetUser ''T1'')]"

theorem directory_noninterfering_witness:
  "replies_to req_tenant ''T'' (snd (run_calls dir_step sample_requests empty_dir))
   = snd (run_calls dir_step (purge req_tenant ''T'' sample_requests) empty_dir)
   \<and> length (purge req_tenant ''T'' sample_requests) = 2"
  using directory_noninterfering [of sample_requests "\<lambda>i. take 1 i" empty_dir "''T''"]
  by (simp add: sample_requests_def boss_def purge_def req_tenant_def empty_dir_def dir_inv_def
      del: run_calls.simps dir_step.simps)

text \<open>The users above a tier, and what an effect leaves of them.\<close>

definition above :: "nat \<Rightarrow> user list \<Rightarrow> user list" where
  "above k us = filter (\<lambda>u. k < ROLE_TIER (uv_role u)) us"

lemma canGrantRole_tier: "canGrantRole r r' \<Longrightarrow> ROLE_TIER r' \<le> ROLE_TIER r"
  by (cases r; cases r') (auto simp: canGrantRole_def)

lemma canManageUser_tier: "canManageUser r r' \<Longrightarrow> ROLE_TIER r < 3 \<Longrightarrow> ROLE_TIER r' < ROLE_TIER r"
  by (cases r; cases r') (auto simp: canManageUser_def)

lemma filter_patch:
  "(\<And>x. x \<in> set xs \<Longrightarrow> uv_id x = uid \<Longrightarrow> \<not> P (patch_user p x) \<and> \<not> P x) \<Longrightarrow>
     filter P (map (\<lambda>x. if uv_id x = uid then patch_user p x else x) xs) = filter P xs"
  by (induction xs) auto

lemma effect_above:
  assumes "user_effect mint a us us'" and "users_inv mint us"
    and tier: "ROLE_TIER (cl_role a) \<le> k" "k < 3"
    and self: "\<forall>u \<in> set (above k us). uv_id u \<noteq> cl_user a"
  shows "above k us' = above k us"
proof -
  have low: "\<not> k < ROLE_TIER (uv_role t)" if t: "t \<in> set us" and m: "may_manage a t" for t
  proof (cases "uv_id t = cl_user a")
    case True
    then show ?thesis using self t by (auto simp: above_def)
  next
    case False
    then have "canManageUser (cl_role a) (uv_role t)" using m by (simp add: may_manage_def)
    then have "ROLE_TIER (uv_role t) < ROLE_TIER (cl_role a)"
      by (rule canManageUser_tier) (use tier in simp)
    then show ?thesis using tier by simp
  qed
  show ?thesis
    using assms(1)
  proof cases
    case (created u)
    then show ?thesis using canGrantRole_tier tier by (fastforce simp: above_def)
  next
    case (patched t uid p)
    have lowp: "\<not> k < ROLE_TIER (uv_role (patch_user p x)) \<and> \<not> k < ROLE_TIER (uv_role x)"
      if x: "x \<in> set us" and "uv_id x = uid" for x
    proof -
      have xt: "x = t" using same_id [OF assms(2) x patched(2)] that(2) patched(3) by simp
      have "ROLE_TIER r \<le> k" if "up_role p = Some r" for r
        using canGrantRole_tier [OF patched(5) [OF that]] tier by simp
      then show ?thesis
        using low [OF patched(2,4)] xt by (cases "up_role p") (auto simp: patch_user_def not_less)
    qed
    show ?thesis unfolding patched(1) above_def by (rule filter_patch) (rule lowp)
  next
    case (removed t uid)
    have "\<not> k < ROLE_TIER (uv_role x)" if "x \<in> set us" and "uv_id x = uid" for x
      using same_id [OF assms(2) that(1) removed(2)] that(2) removed(3) low [OF removed(2,4)] by simp
    then show ?thesis unfolding removed(1) above_def filter_filter by (intro filter_cong) auto
  qed simp
qed

text \<open>C12. No request raises its caller above itself. Whatever requests callers of tier at most \<open>k\<close>
  make, below the platform admin, the users above that tier stay exactly as they were: none is
  created, promoted into it, demoted, deleted, moved, or has its password reset.\<close>

theorem no_escalation:
  assumes "\<forall>c \<in> set cs. req_ok mint c" and "dir_inv mint dir" and "k < 3"
    and "\<forall>(a, r) \<in> set cs. ROLE_TIER (cl_role a) \<le> k \<and> (\<forall>u \<in> set (above k (dir_users dir)). uv_id u \<noteq> cl_user a)"
  shows "above k (dir_users (fst (run_calls dir_step cs dir))) = above k (dir_users dir)"
  using assms(1,2,4)
proof (induction cs arbitrary: dir)
  case (Cons c cs)
  obtain a r where c: "c = (a, r)" by (cases c)
  have ok: "req_ok mint (a, r)" using Cons.prems(1) c by simp
  have inv: "users_inv mint (dir_users dir)" using Cons.prems(2) by (simp add: dir_inv_split)
  have same: "above k (dir_users (fst (dir_step c dir))) = above k (dir_users dir)"
    unfolding c
    by (rule effect_above [OF step_effect [OF Cons.prems(2) ok] inv])
      (use Cons.prems(3) c assms(3) in auto)
  have "above k (dir_users (fst (run_calls dir_step cs (fst (dir_step c dir)))))
      = above k (dir_users (fst (dir_step c dir)))"
  proof (rule Cons.IH)
    show "\<forall>c \<in> set cs. req_ok mint c" using Cons.prems(1) by simp
    show "dir_inv mint (fst (dir_step c dir))"
      using step_keeps_inv [OF _ Cons.prems(2)] Cons.prems(1) by simp
  qed (use Cons.prems(3) same in auto)
  then show ?case using same by (simp add: case_prod_unfold Let_def)
qed simp

definition some_admin :: user where
  "some_admin =
     \<lparr>uv_id = ''T9'', uv_tenant = ''T'', uv_account = None, uv_email = ''p'', uv_role = Platform_admin,
      uv_locale = ''en'', uv_createdAt = 0, us_passwordHash = ''h'', us_emailVerifiedAt = None\<rparr>"

theorem no_escalation_witness:
  "above 2 (dir_users (fst (run_calls dir_step
     [(boss ''T'' Tsp_admin, PatchUser ''T9'' (Some \<lparr>up_role = None, up_account = None, up_locale = None,
         up_password = Some ''mine''\<rparr>) True), (boss ''T'' Tsp_admin, DeleteUser ''T9'')]
     (empty_dir\<lparr>dir_users := [some_admin]\<rparr>)))) = [some_admin]"
  using no_escalation [of "[(boss ''T'' Tsp_admin, PatchUser ''T9'' (Some \<lparr>up_role = None, up_account = None,
      up_locale = None, up_password = Some ''mine''\<rparr>) True), (boss ''T'' Tsp_admin, DeleteUser ''T9'')]"
      "\<lambda>i. take 1 i" "empty_dir\<lparr>dir_users := [some_admin]\<rparr>" 2]
  by (simp add: boss_def empty_dir_def some_admin_def dir_inv_def above_def
      del: run_calls.simps dir_step.simps)

definition outside :: "string \<Rightarrow> string \<Rightarrow> user \<Rightarrow> bool" where
  "outside t x u \<longleftrightarrow> \<not> (uv_tenant u = t \<and> uv_account u = Some x)"

lemma effect_outside:
  assumes "user_effect mint a us us'" and "users_inv mint us"
    and pin: "cl_tenant a = t" "cl_account a = Some x"
  shows "filter (outside t x) us' = filter (outside t x) us"
proof -
  have inside: "\<not> outside t x u" if "may_manage a u" for u
    using that pin by (simp add: may_manage_def user_in_scope_def outside_def)
  show ?thesis
    using assms(1)
  proof cases
    case (created u)
    then show ?thesis using pin by (simp add: outside_def may_place_def)
  next
    case (patched tgt uid p)
    have "\<not> outside t x (patch_user p u) \<and> \<not> outside t x u" if u: "u \<in> set us" and "uv_id u = uid" for u
    proof -
      have ut: "u = tgt" using same_id [OF assms(2) u patched(2)] that(2) patched(3) by simp
      have "acct = Some x" if "up_account p = Some acct" for acct
        using patched(6) [OF that] pin by (simp add: may_place_def)
      then show ?thesis
        using inside [OF patched(4)] ut
        by (cases "up_account p") (auto simp: outside_def patch_user_def)
    qed
    then show ?thesis unfolding patched(1) by (rule filter_patch)
  next
    case (removed tgt uid)
    have "\<not> outside t x u" if "u \<in> set us" and "uv_id u = uid" for u
      using same_id [OF assms(2) that(1) removed(2)] that(2) removed(3) inside [OF removed(4)] by simp
    then show ?thesis unfolding removed(1) filter_filter by (intro filter_cong) auto
  qed simp
qed

lemma filter_write:
  "(\<And>a. ac_id (f a) = ac_id a) \<Longrightarrow>
     filter (\<lambda>a. ac_id a \<noteq> x) (map (\<lambda>a. if ac_id a = x then f a else a) xs) = filter (\<lambda>a. ac_id a \<noteq> x) xs"
  by (induction xs) auto

lemma pinned_write_account:
  assumes "scope_account sc = Some x" and "\<And>a. ac_id (f a) = ac_id a"
  shows "filter (\<lambda>a. ac_id a \<noteq> x) (dir_accounts (fst (write_account sc actor l aid f id dir)))
         = filter (\<lambda>a. ac_id a \<noteq> x) (dir_accounts dir)"
  using assms(1) filter_write [of f x, OF assms(2)]
  by (auto simp: write_account_def Let_def split: option.split dest!: findScoped_Some)

lemma pinned_step_accounts:
  assumes "cl_account a = Some x"
  shows "filter (\<lambda>c. ac_id c \<noteq> x) (dir_accounts (fst (dir_step (a, r) dir)))
         = filter (\<lambda>c. ac_id c \<noteq> x) (dir_accounts dir)"
proof (cases r)
  case (PostAccount e ready body new_id)
  then show ?thesis using assms by (simp add: post_account_fst tenantWide_def)
next
  case (PatchAccount aid body)
  then show ?thesis
    using assms by (simp add: patch_account_def accounts_update_def pinned_write_account split: option.split)
next
  case (PatchPrefs aid body)
  then show ?thesis
    using assms
    by (simp add: patch_preferences_def accounts_updatePreferences_def pinned_write_account split: option.split)
next
  case (DeleteAccount aid)
  then show ?thesis
    using assms
    by (auto simp: delete_account_def accounts_remove_def Let_def split: option.split dest!: findScoped_Some)
qed simp_all

text \<open>C20. Callers pinned to an account stay in it. Whatever requests they make, the users and accounts
  outside that account, of their own tenant and of every other, are as before: no user is taken out of
  it, brought into it, or given the reach of the whole tenant, and no sibling account is created,
  renamed or deleted.\<close>

theorem pinned_stay_inside:
  assumes "\<forall>c \<in> set cs. req_ok mint c" and "dir_inv mint dir"
    and "\<forall>(a, r) \<in> set cs. cl_tenant a = t \<and> cl_account a = Some x"
  shows "filter (outside t x) (dir_users (fst (run_calls dir_step cs dir))) = filter (outside t x) (dir_users dir)
       \<and> filter (\<lambda>c. ac_id c \<noteq> x) (dir_accounts (fst (run_calls dir_step cs dir)))
         = filter (\<lambda>c. ac_id c \<noteq> x) (dir_accounts dir)"
  using assms
proof (induction cs arbitrary: dir)
  case (Cons c cs)
  obtain a r where c: "c = (a, r)" by (cases c)
  have ok: "req_ok mint (a, r)" and pin: "cl_tenant a = t" "cl_account a = Some x"
    using Cons.prems(1,3) c by auto
  have "users_inv mint (dir_users dir)" using Cons.prems(2) by (simp add: dir_inv_split)
  then have u: "filter (outside t x) (dir_users (fst (dir_step c dir))) = filter (outside t x) (dir_users dir)"
    unfolding c by (rule effect_outside [OF step_effect [OF Cons.prems(2) ok] _ pin])
  have "dir_inv mint (fst (dir_step c dir))"
    using step_keeps_inv [OF _ Cons.prems(2)] Cons.prems(1) by simp
  then show ?case
    using Cons.IH [of "fst (dir_step c dir)"] Cons.prems(1,3) u pinned_step_accounts [OF pin(2), of r dir] c
    by (simp add: case_prod_unfold Let_def del: dir_step.simps)
qed simp

theorem pinned_stay_inside_witness:
  "filter (outside ''T'' ''TA'') (dir_users (fst (run_calls dir_step
     [((boss ''T'' Tsp_admin)\<lparr>cl_account := Some ''TA''\<rparr>, DeleteUser ''T9'')]
     (empty_dir\<lparr>dir_users := [some_admin]\<rparr>)))) = [some_admin]"
  using pinned_stay_inside [of "[((boss ''T'' Tsp_admin)\<lparr>cl_account := Some ''TA''\<rparr>, DeleteUser ''T9'')]"
      "\<lambda>i. take 1 i" "empty_dir\<lparr>dir_users := [some_admin]\<rparr>" "''T''" "''TA''"]
  by (simp add: boss_def empty_dir_def some_admin_def dir_inv_def outside_def
      del: run_calls.simps dir_step.simps)

section \<open>Between a check and its write\<close>

text \<open>The count of an account's users and its deletion are two statements: a user created in between is
  left without an account, which is the reach of the whole tenant.\<close>

definition hire :: user where
  "hire = some_admin\<lparr>uv_id := ''T2'', uv_account := Some ''TA'', uv_role := Viewer\<rparr>"

definition branch :: account where
  "branch = \<lparr>ac_id = ''TA'', ac_tenant = ''T'', ac_name = ''a'', ac_timezone = ''UTC'', ac_locale = ''en'',
             ac_units = (''kmh'', ''km'', ''l'')\<rparr>"

lemma account_delete_races_user:
  "(let r = delete_account (boss ''T'' Tsp_admin) ''TA'' (\<lambda>d. d\<lparr>dir_users := dir_users d @ [hire]\<rparr>)
              (empty_dir\<lparr>dir_accounts := [branch]\<rparr>)
    in snd r = Done \<and> map uv_account (dir_users (fst r)) = [None])"
  by (simp add: delete_account_def accounts_remove_def findScoped_def boss_def empty_dir_def branch_def
      hire_def some_admin_def Let_def)

text \<open>The tier guard reads the target's role before the update, whose write is by id alone: a target
  promoted in between is changed by a caller its new tier is above.\<close>

lemma tier_guard_races_promotion:
  "(let r = patch_user_route (boss ''T'' Tsp_admin) ''T2''
              (Some \<lparr>up_role = None, up_account = None, up_locale = None, up_password = Some ''mine''\<rparr>) True
              (\<lambda>d. d\<lparr>dir_users := [hire\<lparr>uv_role := Platform_admin\<rparr>]\<rparr>)
              (empty_dir\<lparr>dir_users := [hire]\<rparr>)
    in map uv_role (dir_users (fst r)) = [Platform_admin] \<and>
       map us_passwordHash (dir_users (fst r)) = [''mine''])"
  by (simp add: patch_user_route_def users_update_def users_get_def user_in_scope_def boss_def empty_dir_def
      hire_def some_admin_def patch_user_def canManageUser_def revoke_sessions_def Let_def VIEW_def
      user_view.truncate_def)

end
