(* ===== verification/RefreshTokens.thy ===== *)
theory RefreshTokens
  imports Prelude
begin

text \<open>
  Refresh tokens: the statements of \<open>packages/db/src/auth.ts\<close> on the tables \<open>refresh_tokens\<close>,
  \<open>password_reset_tokens\<close> and \<open>email_verification_tokens\<close>, each as one function of the rows, and the
  retention sweeps. Times are milliseconds. How the transactions interleave is the subject of
  \<open>TokenRaces\<close>.
\<close>

section \<open>Refresh tokens\<close>

record rtoken =
  rt_id :: string
  rt_family :: string
  rt_user :: string
  rt_hash :: string
  rt_expiresAt :: int
  rt_createdAt :: int
  rt_rotatedAt :: "int option"
  rt_revokedAt :: "int option"

text \<open>\<open>where: { tokenHash, rotatedAt: null, revokedAt: null, expiresAt: { gt: now } }\<close>\<close>

definition live :: "rtoken \<Rightarrow> bool" where
  "live t \<longleftrightarrow> rt_rotatedAt t = None \<and> rt_revokedAt t = None"

definition claimable :: "string \<Rightarrow> int \<Rightarrow> rtoken \<Rightarrow> bool" where
  "claimable hash now t \<longleftrightarrow> rt_hash t = hash \<and> live t \<and> now < rt_expiresAt t"

definition fresh_token :: "string \<Rightarrow> string \<Rightarrow> string \<Rightarrow> string \<Rightarrow> int \<Rightarrow> int \<Rightarrow> rtoken" where
  "fresh_token tid fam user hash expires created =
     \<lparr>rt_id = tid, rt_family = fam, rt_user = user, rt_hash = hash, rt_expiresAt = expires,
      rt_createdAt = created, rt_rotatedAt = None, rt_revokedAt = None\<rparr>"

definition mark_rotated :: "(rtoken \<Rightarrow> bool) \<Rightarrow> int \<Rightarrow> rtoken list \<Rightarrow> rtoken list" where
  "mark_rotated P now ts = map (\<lambda>t. if P t then t\<lparr>rt_rotatedAt := Some now\<rparr> else t) ts"

definition mark_revoked :: "(rtoken \<Rightarrow> bool) \<Rightarrow> int \<Rightarrow> rtoken list \<Rightarrow> rtoken list" where
  "mark_revoked P now ts =
     map (\<lambda>t. if P t \<and> rt_revokedAt t = None then t\<lparr>rt_revokedAt := Some now\<rparr> else t) ts"

definition claimForRotation :: "string \<Rightarrow> int \<Rightarrow> rtoken list \<Rightarrow> rtoken list \<times> (string \<times> string) option" where
  "claimForRotation hash now ts =
     (mark_rotated (claimable hash now) now ts,
      map_option (\<lambda>t. (rt_family t, rt_user t)) (find (claimable hash now) ts))"

definition findByTokenHash :: "string \<Rightarrow> rtoken list \<Rightarrow> rtoken option" where
  "findByTokenHash hash ts = find (\<lambda>t. rt_hash t = hash) ts"

definition revokeFamily :: "string \<Rightarrow> int \<Rightarrow> rtoken list \<Rightarrow> rtoken list" where
  "revokeFamily fam now ts = mark_revoked (\<lambda>t. rt_family t = fam) now ts"

definition familyRevoked :: "string \<Rightarrow> rtoken list \<Rightarrow> bool" where
  "familyRevoked fam ts \<longleftrightarrow> list_ex (\<lambda>t. rt_family t = fam \<and> rt_revokedAt t \<noteq> None) ts"

record auth_db =
  tokens :: "rtoken list"
  epochs :: "string \<Rightarrow> int option"

text \<open>\<open>revokeAllForUser\<close>: the session epoch of the user and the sweep of its rows, in one transaction.\<close>

definition revokeAllForUser :: "string \<Rightarrow> int \<Rightarrow> auth_db \<Rightarrow> auth_db" where
  "revokeAllForUser user now db =
     \<lparr>tokens = mark_revoked (\<lambda>t. rt_user t = user) now (tokens db),
      epochs = (epochs db)(user \<mapsto> now)\<rparr>"

text \<open>The successor a caller of \<open>rotate\<close> brings: its id, hash and expiry.\<close>

type_synonym successor = "string \<times> string \<times> int"

definition before_epoch :: "auth_db \<Rightarrow> rtoken \<Rightarrow> bool" where
  "before_epoch db t = (case epochs db (rt_user t) of None \<Rightarrow> False | Some e \<Rightarrow> rt_createdAt t \<le> e)"

text \<open>\<open>rotate\<close>, its transaction run to the commit. A claim of a token older than the epoch is committed,
  without a successor. \<open>created\<close> is the database's time for the new row.\<close>

definition rotate_db ::
  "string \<Rightarrow> int \<Rightarrow> successor \<Rightarrow> int \<Rightarrow> auth_db \<Rightarrow> auth_db \<times> (string \<times> string) option" where
  "rotate_db hash now next created db =
     (case findByTokenHash hash (tokens db) of
        None \<Rightarrow> (db, None)
      | Some owner \<Rightarrow>
          case find (claimable hash now) (tokens db) of
            None \<Rightarrow> (db, None)
          | Some t \<Rightarrow>
              let db1 = db\<lparr>tokens := mark_rotated (claimable hash now) now (tokens db)\<rparr> in
              if before_epoch db t then (db1, None)
              else
                (case next of (nid, nhash, nexp) \<Rightarrow>
                   (db1\<lparr>tokens := tokens db1 @ [fresh_token nid (rt_family t) (rt_user t) nhash nexp created]\<rparr>,
                    Some (rt_family t, rt_user t))))"

section \<open>The refresh, login and logout routes\<close>

text \<open>\<open>POST /refresh\<close> with the hash of the cookie (none when it is missing). \<open>known\<close> says whether the
  user of the token still exists. The answer is the user a session is minted for, or \<open>401\<close>.\<close>

definition refresh_route ::
  "string option \<Rightarrow> int \<Rightarrow> successor \<Rightarrow> int \<Rightarrow> (string \<Rightarrow> bool) \<Rightarrow> auth_db \<Rightarrow> auth_db \<times> string option" where
  "refresh_route cookie now next created known db =
     (case cookie of None \<Rightarrow> (db, None)
      | Some hash \<Rightarrow>
          (case rotate_db hash now next created db of
             (db1, None) \<Rightarrow>
               (case findByTokenHash hash (tokens db1) of
                  None \<Rightarrow> (db1, None)
                | Some row \<Rightarrow>
                    if rt_rotatedAt row \<noteq> None \<or> rt_revokedAt row \<noteq> None
                    then (db1\<lparr>tokens := revokeFamily (rt_family row) now (tokens db1)\<rparr>, None)
                    else (db1, None))
           | (db1, Some (fam, user)) \<Rightarrow>
               if known user then (db1, Some user)
               else (db1\<lparr>tokens := revokeFamily fam now (tokens db1)\<rparr>, None)))"

definition issueSession :: "string \<Rightarrow> string \<Rightarrow> successor \<Rightarrow> int \<Rightarrow> auth_db \<Rightarrow> auth_db" where
  "issueSession user fam next created db =
     (case next of (nid, nhash, nexp) \<Rightarrow>
        db\<lparr>tokens := tokens db @ [fresh_token nid fam user nhash nexp created]\<rparr>)"

definition logout_route :: "string option \<Rightarrow> int \<Rightarrow> auth_db \<Rightarrow> auth_db" where
  "logout_route cookie now db =
     (case cookie of None \<Rightarrow> db
      | Some hash \<Rightarrow>
          (case findByTokenHash hash (tokens db) of None \<Rightarrow> db
           | Some row \<Rightarrow> db\<lparr>tokens := revokeFamily (rt_family row) now (tokens db)\<rparr>))"

section \<open>One-time tokens\<close>

record otoken =
  ot_user :: string
  ot_hash :: string
  ot_expiresAt :: int
  ot_usedAt :: "int option"

definition ot_claimable :: "string \<Rightarrow> int \<Rightarrow> otoken \<Rightarrow> bool" where
  "ot_claimable hash now t \<longleftrightarrow> ot_hash t = hash \<and> ot_usedAt t = None \<and> now < ot_expiresAt t"

text \<open>The users' \<open>emailVerifiedAt\<close>, by id; a user that does not exist is outside the map.\<close>

record one_time =
  ot_tokens :: "otoken list"
  ot_verified :: "string \<Rightarrow> int option option"

text \<open>\<open>consume\<close>: claim, then mark the address verified. When the user is gone the callback returns null,
  which commits what the transaction has done so far.\<close>

definition ot_consume :: "string \<Rightarrow> int \<Rightarrow> one_time \<Rightarrow> one_time \<times> string option" where
  "ot_consume hash now db =
     (case find (ot_claimable hash now) (ot_tokens db) of
        None \<Rightarrow> (db, None)
      | Some t \<Rightarrow>
          let db1 = db\<lparr>ot_tokens := map (\<lambda>t. if ot_claimable hash now t then t\<lparr>ot_usedAt := Some now\<rparr> else t)
                                     (ot_tokens db)\<rparr> in
          (case ot_verified db (ot_user t) of
             None \<Rightarrow> (db1, None)
           | Some v \<Rightarrow> (db1\<lparr>ot_verified := (ot_verified db)(ot_user t \<mapsto> Some now)\<rparr>, Some (ot_user t))))"

definition ot_invalidateAllForUser :: "string \<Rightarrow> int \<Rightarrow> one_time \<Rightarrow> one_time" where
  "ot_invalidateAllForUser user now db =
     db\<lparr>ot_tokens := map (\<lambda>t. if ot_user t = user \<and> ot_usedAt t = None then t\<lparr>ot_usedAt := Some now\<rparr> else t)
                     (ot_tokens db)\<rparr>"

definition ot_create :: "string \<Rightarrow> string \<Rightarrow> int \<Rightarrow> one_time \<Rightarrow> one_time" where
  "ot_create user hash expires db =
     db\<lparr>ot_tokens := ot_tokens db @
          [\<lparr>ot_user = user, ot_hash = hash, ot_expiresAt = expires, ot_usedAt = None\<rparr>]\<rparr>"

text \<open>\<open>POST /forgot-password\<close> for one user: only the newest link stays valid.\<close>

definition mint_reset :: "string \<Rightarrow> string \<Rightarrow> int \<Rightarrow> nat \<Rightarrow> one_time \<Rightarrow> one_time" where
  "mint_reset user hash now ttlS db =
     ot_create user hash (now + int ttlS * 1000) (ot_invalidateAllForUser user now db)"

section \<open>Retention\<close>

definition batchOf :: "int \<Rightarrow> nat" where
  "batchOf n = nat (min (max n 1) 50000)"

text \<open>One \<open>DELETE \<dots> WHERE id IN (SELECT \<dots> LIMIT cap)\<close>: the first \<open>cap\<close> rows satisfying \<open>P\<close> go.\<close>

fun delete_batch :: "('a \<Rightarrow> bool) \<Rightarrow> nat \<Rightarrow> 'a list \<Rightarrow> 'a list \<times> nat" where
  "delete_batch P cap [] = ([], 0)"
| "delete_batch P cap (x # xs) =
     (if cap = 0 then (x # xs, 0)
      else if P x then (let (ys, n) = delete_batch P (cap - 1) xs in (ys, Suc n))
      else (let (ys, n) = delete_batch P cap xs in (x # ys, n)))"

lemma delete_batch_length: "length (fst (delete_batch P cap xs)) + snd (delete_batch P cap xs) = length xs"
  by (induction P cap xs rule: delete_batch.induct) (auto simp: case_prod_unfold Let_def)

text \<open>The loop of a retention sweep, for the batch size \<open>Suc m\<close>.\<close>

function prune_loop :: "('a \<Rightarrow> bool) \<Rightarrow> nat \<Rightarrow> nat \<Rightarrow> 'a list \<Rightarrow> 'a list \<times> nat" where
  "prune_loop P m done0 xs =
     (let r = delete_batch P (Suc m) xs in
      if snd r < Suc m then (fst r, done0 + snd r) else prune_loop P m (done0 + snd r) (fst r))"
  by pat_completeness auto

termination
proof (relation "measure (\<lambda>(P, m, done0, xs). length xs)")
  fix P :: "'a \<Rightarrow> bool" and m done0 xs r
  assume "r = delete_batch P (Suc m) xs" and "\<not> snd r < Suc m"
  then show "((P, m, done0 + snd r, fst r), P, m, done0, xs) \<in> measure (\<lambda>(P, m, done0, xs). length xs)"
    using delete_batch_length [of P "Suc m" xs] by simp
qed simp

declare prune_loop.simps [simp del]

definition dead_token :: "int \<Rightarrow> int \<Rightarrow> rtoken \<Rightarrow> bool" where
  "dead_token cutoff now t \<longleftrightarrow>
     rt_expiresAt t < cutoff \<and> (rt_revokedAt t \<noteq> None \<or> rt_rotatedAt t \<noteq> None \<or> rt_expiresAt t < now)"

definition pruneRefreshTokens :: "int \<Rightarrow> int \<Rightarrow> int \<Rightarrow> rtoken list \<Rightarrow> rtoken list \<times> nat" where
  "pruneRefreshTokens cutoff batchSize now ts = prune_loop (dead_token cutoff now) (batchOf batchSize - 1) 0 ts"

definition pruneOneTime :: "int \<Rightarrow> int \<Rightarrow> otoken list \<Rightarrow> otoken list \<times> nat" where
  "pruneOneTime cutoff batchSize ts = prune_loop (\<lambda>t. ot_expiresAt t < cutoff) (batchOf batchSize - 1) 0 ts"

text \<open>A sweep removes exactly the rows of its condition, in batches, and counts them.\<close>

lemma delete_batch_spec:
  "filter (\<lambda>x. \<not> P x) (fst (delete_batch P cap xs)) = filter (\<lambda>x. \<not> P x) xs"
  "snd (delete_batch P cap xs) = min cap (length (filter P xs))"
  by (induction P cap xs rule: delete_batch.induct) (auto simp: case_prod_unfold Let_def)

lemma delete_batch_all:
  assumes "length (filter P xs) < cap"
  shows "fst (delete_batch P cap xs) = filter (\<lambda>x. \<not> P x) xs"
  using assms by (induction P cap xs rule: delete_batch.induct) (auto simp: case_prod_unfold Let_def)

lemma prune_loop_spec:
  "prune_loop P m done0 xs = (filter (\<lambda>x. \<not> P x) xs, done0 + length (filter P xs))"
proof (induction P m done0 xs rule: prune_loop.induct)
  case (1 P m done0 xs)
  let ?r = "delete_batch P (Suc m) xs"
  have count: "length (filter P (fst ?r)) + snd ?r = length (filter P xs)"
    using delete_batch_length [of P "Suc m" xs] arg_cong [OF delete_batch_spec(1) [of P "Suc m" xs], of length]
      sum_length_filter_compl [of P xs] sum_length_filter_compl [of P "fst ?r"] by linarith
  show ?case
  proof (cases "snd ?r < Suc m")
    case True
    then have "length (filter P xs) < Suc m" using delete_batch_spec(2) [of P "Suc m" xs] by simp
    then show ?thesis
      using True delete_batch_all [of P xs "Suc m"] delete_batch_spec(2) [of P "Suc m" xs]
      by (subst prune_loop.simps) (simp add: Let_def)
  next
    case False
    have "prune_loop P m done0 xs = prune_loop P m (done0 + snd ?r) (fst ?r)"
      using False by (subst prune_loop.simps) (simp add: Let_def)
    then show ?thesis
      using "1.IH" [OF refl False] delete_batch_spec(1) [of P "Suc m" xs] count by simp
  qed
qed

section \<open>Properties\<close>

lemma find_by_hash:
  assumes "distinct (map rt_hash ts)" and "t \<in> set ts" and "rt_hash t = hash"
  shows "findByTokenHash hash ts = Some t"
  using assms unfolding findByTokenHash_def by (induction ts) auto

lemma find_claimable:
  assumes "distinct (map rt_hash ts)" and "t \<in> set ts" and "rt_hash t = hash"
  shows "find (claimable hash now) ts = (if live t \<and> now < rt_expiresAt t then Some t else None)"
  using assms
proof (induction ts)
  case (Cons x ts)
  show ?case
  proof (cases "x = t")
    case True
    have "rt_hash y \<noteq> hash" if "y \<in> set ts" for y
      using imageI [OF that, of rt_hash] Cons.prems True by auto
    then have "find (claimable hash now) ts = None"
      by (auto simp: find_None_iff claimable_def)
    then show ?thesis using True Cons.prems(3) by (simp add: claimable_def [of hash now t])
  next
    case False
    then have "rt_hash x \<noteq> hash" using Cons.prems by auto
    then show ?thesis using Cons False by (simp add: claimable_def [of hash now x])
  qed
qed simp

lemma revokeFamily_dead: "t \<in> set (revokeFamily fam now ts) \<Longrightarrow> rt_family t = fam \<Longrightarrow> \<not> live t"
proof -
  assume "t \<in> set (revokeFamily fam now ts)" and fam: "rt_family t = fam"
  then obtain x where x: "t = (if rt_family x = fam \<and> rt_revokedAt x = None
      then x\<lparr>rt_revokedAt := Some now\<rparr> else x)"
    unfolding revokeFamily_def mark_revoked_def set_map by blast
  show "\<not> live t"
  proof (cases "rt_family x = fam \<and> rt_revokedAt x = None")
    case True
    then show ?thesis using x by (simp add: live_def)
  next
    case False
    then show ?thesis using x fam by (auto simp: live_def)
  qed
qed



text \<open>A one-time link, over any sequence of what happens to the table.\<close>

datatype ot_op = OConsume string int | OMint string string int nat | OInvalidate string int

fun ot_step :: "ot_op \<Rightarrow> one_time \<Rightarrow> one_time \<times> string option" where
  "ot_step (OConsume h now) db = ot_consume h now db"
| "ot_step (OMint u h now ttl) db = (mint_reset u h now ttl db, None)"
| "ot_step (OInvalidate u now) db = (ot_invalidateAllForUser u now db, None)"

fun ot_run :: "ot_op list \<Rightarrow> one_time \<Rightarrow> one_time" where
  "ot_run [] db = db"
| "ot_run (x # xs) db = ot_run xs (fst (ot_step x db))"

fun mints :: "string \<Rightarrow> ot_op \<Rightarrow> bool" where
  "mints h (OMint _ h' _ _) \<longleftrightarrow> h' = h"
| "mints h _ \<longleftrightarrow> False"

definition spent :: "string \<Rightarrow> one_time \<Rightarrow> bool" where
  "spent h db \<longleftrightarrow> (\<forall>t \<in> set (ot_tokens db). ot_hash t = h \<longrightarrow> ot_usedAt t \<noteq> None)"

lemma spent_refused: "spent h db \<Longrightarrow> ot_consume h now db = (db, None)"
  by (auto simp: ot_consume_def spent_def ot_claimable_def find_None_iff split: option.split
      dest!: find_SomeD)

lemma consume_spends: "find (ot_claimable h now) (ot_tokens db) = Some t \<Longrightarrow>
    now < ot_expiresAt t \<Longrightarrow> distinct (map ot_hash (ot_tokens db)) \<Longrightarrow> spent h (fst (ot_consume h now db))"
proof -
  assume f: "find (ot_claimable h now) (ot_tokens db) = Some t"
    and d: "distinct (map ot_hash (ot_tokens db))"
  have t: "t \<in> set (ot_tokens db)" "ot_claimable h now t" using find_SomeD [OF f] by simp_all
  have only: "x = t" if "x \<in> set (ot_tokens db)" "ot_hash x = h" for x
    using d that t by (auto simp: distinct_map ot_claimable_def dest: inj_onD)
  then have "ot_claimable h now x" if "x \<in> set (ot_tokens db)" "ot_hash x = h" for x
    using that t(2) by simp
  then show "spent h (fst (ot_consume h now db))"
    by (auto simp: ot_consume_def f Let_def spent_def split: option.split)
qed

lemma spent_step: "spent h db \<Longrightarrow> \<not> mints h x \<Longrightarrow> spent h (fst (ot_step x db))"
proof (cases x)
  case (OConsume h' now)
  assume "spent h db"
  then show ?thesis by (auto simp: OConsume ot_consume_def Let_def spent_def split: option.split)
qed (auto simp: spent_def mint_reset_def ot_create_def ot_invalidateAllForUser_def)

lemma spent_run: "spent h db \<Longrightarrow> \<forall>x \<in> set xs. \<not> mints h x \<Longrightarrow> spent h (ot_run xs db)"
  by (induction xs arbitrary: db) (auto intro: spent_step)

lemma mint_spends_older:
  assumes "t \<in> set (ot_tokens db)" and "ot_user t = u" and "ot_hash t \<noteq> h"
    and "distinct (map ot_hash (ot_tokens db))"
  shows "spent (ot_hash t) (mint_reset u h now ttl db)"
proof -
  have "x = t" if "x \<in> set (ot_tokens db)" "ot_hash x = ot_hash t" for x
    using assms(1,4) that by (auto simp: distinct_map dest: inj_onD)
  then show ?thesis
    using assms(2,3) by (auto simp: spent_def mint_reset_def ot_create_def ot_invalidateAllForUser_def)
qed


definition one_link :: one_time where
  "one_link = \<lparr>ot_tokens = [\<lparr>ot_user = ''U'', ot_hash = ''h'', ot_expiresAt = 10, ot_usedAt = None\<rparr>],
               ot_verified = (\<lambda>_. None)(''U'' \<mapsto> None)\<rparr>"


text \<open>The claim of a link whose user is gone is committed, not rolled back: the callback returns.\<close>

lemma lost_user_burns_link:
  "(let r = ot_consume ''h'' 5 (one_link\<lparr>ot_verified := (\<lambda>_. None)\<rparr>)
    in snd r = None \<and> spent ''h'' (fst r))"
  by (simp add: ot_consume_def one_link_def ot_claimable_def spent_def)

text \<open>A retention sweep ends, whatever its batch size, and removes exactly the refresh tokens that are
  past the cutoff and can never be used again, counting them; no usable token is lost.\<close>

theorem retention_removes_dead_tokens:
  "pruneRefreshTokens cutoff batchSize now ts =
     (filter (\<lambda>t. \<not> dead_token cutoff now t) ts, length (filter (dead_token cutoff now) ts)) \<and>
   \<not> (live t \<and> now \<le> rt_expiresAt t \<and> dead_token cutoff now t)"
  by (auto simp: pruneRefreshTokens_def prune_loop_spec dead_token_def live_def)

end
