(* ===== verification/TokenRaces.thy ===== *)
theory TokenRaces
  imports RefreshTokens
begin

text \<open>
  The transactions on refresh tokens, interleaved. Under Postgres' read-committed isolation a
  transaction's writes appear at its commit, a statement sees the rows committed when it began, and a
  row another transaction has written is waited for. So:

  \<^item> \<open>rotate\<close> locks the user's row, claims its token and inserts the successor; the claim and the
    successor appear together (\<open>Commit\<close>), or, for a token older than the epoch, the claim alone. A
    rotation may also be lost with its connection (\<open>Abort\<close>).
  \<^item> \<open>revokeAllForUser\<close> writes the user's row first, so it runs only while no rotation of the user is in
    flight (\<open>Evict\<close>).
  \<^item> \<open>revokeFamily\<close> is one statement, without the lock: it settles which rows it will write when it
    begins (\<open>Sweep\<close>), and writes them when no rotation holds them (\<open>Swept\<close>).

  Token and family ids are random and never drawn twice: \<open>sy_ids\<close> and \<open>sy_families\<close> are those drawn
  so far.
\<close>

record rotation =
  ro_user :: string
  ro_old :: string
  ro_now :: int
  ro_new :: rtoken

record auth_sys =
  sy_db :: auth_db
  sy_rotations :: "rotation list"
  sy_sweeps :: "(string list \<times> int) list"
  sy_ids :: "string list"
  sy_families :: "string list"

definition locked :: "string \<Rightarrow> auth_sys \<Rightarrow> bool" where
  "locked user s \<longleftrightarrow> list_ex (\<lambda>r. ro_user r = user) (sy_rotations s)"

definition held :: "auth_sys \<Rightarrow> string \<Rightarrow> bool" where
  "held s tid \<longleftrightarrow> list_ex (\<lambda>r. ro_old r = tid) (sy_rotations s)"

definition claim_id :: "string \<Rightarrow> int \<Rightarrow> rtoken list \<Rightarrow> rtoken list" where
  "claim_id tid now ts = mark_rotated (\<lambda>t. rt_id t = tid) now ts"

definition sweep_ids :: "string list \<Rightarrow> int \<Rightarrow> rtoken list \<Rightarrow> rtoken list" where
  "sweep_ids ids now ts = mark_revoked (\<lambda>t. rt_id t \<in> set ids) now ts"

definition put_tokens :: "rtoken list \<Rightarrow> auth_sys \<Rightarrow> auth_sys" where
  "put_tokens ts s = s\<lparr>sy_db := (sy_db s)\<lparr>tokens := ts\<rparr>\<rparr>"

inductive auth_step :: "auth_sys \<Rightarrow> auth_sys \<Rightarrow> bool" where
  Login: "tid \<notin> set (sy_ids s) \<Longrightarrow> fam \<notin> set (sy_families s) \<Longrightarrow>
    auth_step s ((put_tokens (tokens (sy_db s) @ [fresh_token tid fam user hash expires created]) s)
                   \<lparr>sy_ids := tid # sy_ids s, sy_families := fam # sy_families s\<rparr>)"
| Begin: "t \<in> set (tokens (sy_db s)) \<Longrightarrow> claimable hash now t \<Longrightarrow> \<not> locked (rt_user t) s \<Longrightarrow>
    \<not> before_epoch (sy_db s) t \<Longrightarrow> nid \<notin> set (sy_ids s) \<Longrightarrow>
    auth_step s (s\<lparr>sy_ids := nid # sy_ids s, sy_rotations := sy_rotations s @
      [\<lparr>ro_user = rt_user t, ro_old = rt_id t, ro_now = now,
        ro_new = fresh_token nid (rt_family t) (rt_user t) nhash expires created\<rparr>]\<rparr>)"
| Stale: "t \<in> set (tokens (sy_db s)) \<Longrightarrow> claimable hash now t \<Longrightarrow> \<not> locked (rt_user t) s \<Longrightarrow>
    before_epoch (sy_db s) t \<Longrightarrow>
    auth_step s (put_tokens (claim_id (rt_id t) now (tokens (sy_db s))) s)"
| Commit: "sy_rotations s = rs @ r # rs' \<Longrightarrow>
    auth_step s ((put_tokens (claim_id (ro_old r) (ro_now r) (tokens (sy_db s)) @ [ro_new r]) s)
                   \<lparr>sy_rotations := rs @ rs'\<rparr>)"
| Abort: "sy_rotations s = rs @ r # rs' \<Longrightarrow> auth_step s (s\<lparr>sy_rotations := rs @ rs'\<rparr>)"
| Evict: "\<not> locked user s \<Longrightarrow> auth_step s (s\<lparr>sy_db := revokeAllForUser user now (sy_db s)\<rparr>)"
| Sweep: "ids = map rt_id (filter (\<lambda>t. rt_family t = fam \<and> rt_revokedAt t = None) (tokens (sy_db s))) \<Longrightarrow>
    auth_step s (s\<lparr>sy_sweeps := sy_sweeps s @ [(ids, now)]\<rparr>)"
| Swept: "sy_sweeps s = ws @ (ids, now) # ws' \<Longrightarrow> \<forall>i \<in> set ids. \<not> held s i \<Longrightarrow>
    auth_step s ((put_tokens (sweep_ids ids now (tokens (sy_db s))) s)\<lparr>sy_sweeps := ws @ ws'\<rparr>)"
| Prune: "auth_step s (put_tokens (filter (\<lambda>t. \<not> dead_token cutoff now t \<or> held s (rt_id t)) (tokens (sy_db s))) s)"

definition start :: auth_sys where
  "start = \<lparr>sy_db = \<lparr>tokens = [], epochs = (\<lambda>_. None)\<rparr>, sy_rotations = [],
     sy_sweeps = [], sy_ids = [], sy_families = []\<rparr>"

definition reaches :: "auth_sys \<Rightarrow> auth_sys \<Rightarrow> bool" where
  "reaches = auth_step\<^sup>*\<^sup>*"

section \<open>The invariant\<close>

definition all_tokens :: "auth_sys \<Rightarrow> rtoken list" where
  "all_tokens s = tokens (sy_db s) @ map ro_new (sy_rotations s)"

definition rotation_ok :: "rtoken list \<Rightarrow> rotation \<Rightarrow> bool" where
  "rotation_ok ts r \<longleftrightarrow>
     (\<exists>t \<in> set ts. rt_id t = ro_old r \<and> live t \<and> rt_user t = ro_user r \<and> rt_family t = rt_family (ro_new r)) \<and>
     rt_user (ro_new r) = ro_user r \<and> live (ro_new r)"

definition families_ok :: "rtoken list \<Rightarrow> bool" where
  "families_ok ts \<longleftrightarrow>
     (\<forall>t \<in> set ts. \<forall>t' \<in> set ts. rt_family t = rt_family t' \<longrightarrow>
        rt_user t = rt_user t' \<and> (live t \<longrightarrow> live t' \<longrightarrow> t = t'))"

definition auth_inv :: "auth_sys \<Rightarrow> bool" where
  "auth_inv s \<longleftrightarrow>
     distinct (map rt_id (all_tokens s)) \<and> rt_id ` set (all_tokens s) \<subseteq> set (sy_ids s) \<and>
     rt_family ` set (all_tokens s) \<subseteq> set (sy_families s) \<and>
     (\<forall>r \<in> set (sy_rotations s). rotation_ok (tokens (sy_db s)) r) \<and>
     distinct (map ro_user (sy_rotations s)) \<and> families_ok (tokens (sy_db s))"

lemma live_marks [simp]:
  "live (t\<lparr>rt_rotatedAt := Some now\<rparr>) = False" "live (t\<lparr>rt_revokedAt := Some now\<rparr>) = False"
  by (simp_all add: live_def)

lemma live_fresh [simp]: "live (fresh_token tid fam user hash e c)"
  by (simp add: live_def fresh_token_def)

lemma fresh_fields [simp]:
  "rt_id (fresh_token tid fam user hash e c) = tid" "rt_family (fresh_token tid fam user hash e c) = fam"
  "rt_user (fresh_token tid fam user hash e c) = user"
  by (simp_all add: fresh_token_def)

text \<open>A mark keeps a token's identity and only takes life away.\<close>

definition fades :: "(rtoken \<Rightarrow> rtoken) \<Rightarrow> bool" where
  "fades f \<longleftrightarrow> (\<forall>t. rt_id (f t) = rt_id t \<and> rt_family (f t) = rt_family t \<and> rt_user (f t) = rt_user t \<and>
     (live (f t) \<longrightarrow> f t = t))"

lemma mark_rotated_fades: "\<exists>f. fades f \<and> mark_rotated P now ts = map f ts \<and> (\<forall>t. \<not> P t \<longrightarrow> f t = t)"
  by (rule exI [of _ "\<lambda>t. if P t then t\<lparr>rt_rotatedAt := Some now\<rparr> else t"])
    (simp add: fades_def mark_rotated_def)

lemma mark_revoked_fades:
  "\<exists>f. fades f \<and> mark_revoked P now ts = map f ts \<and> (\<forall>t. \<not> P t \<longrightarrow> f t = t)"
  by (rule exI [of _ "\<lambda>t. if P t \<and> rt_revokedAt t = None then t\<lparr>rt_revokedAt := Some now\<rparr> else t"])
    (simp add: fades_def mark_revoked_def)

lemma fades_keys [simp]:
  assumes "fades f"
  shows "map rt_id (map f ts) = map rt_id ts" "rt_id ` set (map f ts) = rt_id ` set ts"
    "rt_family ` set (map f ts) = rt_family ` set ts"
  using assms by (auto simp: fades_def image_iff)

lemma families_ok_fades:
  assumes "fades f" and "families_ok ts"
  shows "families_ok (map f ts)"
  unfolding families_ok_def
proof (intro ballI impI)
  fix u u'
  assume "u \<in> set (map f ts)" "u' \<in> set (map f ts)" and fam: "rt_family u = rt_family u'"
  then obtain t t' where t: "t \<in> set ts" "t' \<in> set ts" "u = f t" "u' = f t'" by auto
  have k: "rt_family (f x) = rt_family x" "rt_user (f x) = rt_user x" "live (f x) \<Longrightarrow> f x = x" for x
    using assms(1) by (simp_all add: fades_def)
  have "rt_family t = rt_family t'" using fam t(3,4) k(1) by simp
  then have same: "rt_user t = rt_user t'" "live t \<Longrightarrow> live t' \<Longrightarrow> t = t'"
    using assms(2) t(1,2) unfolding families_ok_def by blast+
  have "u = u'" if "live u" "live u'"
  proof -
    have "f t = t" "f t' = t'" using k(3) that t(3,4) by blast+
    then show ?thesis using same(2) that t(3,4) by simp
  qed
  then show "rt_user u = rt_user u' \<and> (live u \<longrightarrow> live u' \<longrightarrow> u = u')"
    using t(3,4) k(2) same(1) by simp
qed

lemma rotation_ok_fades:
  assumes "fades f" and "rotation_ok ts r" and "\<And>t. rt_id t = ro_old r \<Longrightarrow> f t = t"
  shows "rotation_ok (map f ts) r"
proof -
  obtain t where t: "t \<in> set ts" "rt_id t = ro_old r" "live t" "rt_user t = ro_user r"
      "rt_family t = rt_family (ro_new r)"
    and r: "rt_user (ro_new r) = ro_user r" "live (ro_new r)"
    using assms(2) unfolding rotation_ok_def by blast
  have "t \<in> set (map f ts)" using t(1) assms(3) [OF t(2)] by (metis image_eqI list.set_map)
  then show ?thesis using t r unfolding rotation_ok_def by blast
qed

lemma map_inv_step:
  assumes inv: "auth_inv s" and f: "fades f"
    and held: "\<And>r t. r \<in> set (sy_rotations s) \<Longrightarrow> rt_id t = ro_old r \<Longrightarrow> f t = t"
  shows "auth_inv (put_tokens (map f (tokens (sy_db s))) s)"
proof -
  have "rotation_ok (map f (tokens (sy_db s))) r" if "r \<in> set (sy_rotations s)" for r
    using inv that held by (intro rotation_ok_fades [OF f]) (auto simp: auth_inv_def)
  then show ?thesis
    using inv families_ok_fades [OF f] fades_keys [OF f]
    by (simp add: auth_inv_def all_tokens_def put_tokens_def image_Un del: map_map set_map)
qed

lemma auth_invI:
  assumes "distinct (map rt_id (all_tokens s))" and "rt_id ` set (all_tokens s) \<subseteq> set (sy_ids s)"
    and "rt_family ` set (all_tokens s) \<subseteq> set (sy_families s)"
    and "\<And>r. r \<in> set (sy_rotations s) \<Longrightarrow> rotation_ok (tokens (sy_db s)) r"
    and "distinct (map ro_user (sy_rotations s))" and "families_ok (tokens (sy_db s))"
  shows "auth_inv s"
  using assms unfolding auth_inv_def by blast

lemma auth_invD:
  assumes "auth_inv s"
  shows "distinct (map rt_id (all_tokens s))" "rt_id ` set (all_tokens s) \<subseteq> set (sy_ids s)"
    "rt_family ` set (all_tokens s) \<subseteq> set (sy_families s)"
    "r \<in> set (sy_rotations s) \<Longrightarrow> rotation_ok (tokens (sy_db s)) r"
    "distinct (map ro_user (sy_rotations s))" "families_ok (tokens (sy_db s))"
  using assms unfolding auth_inv_def by blast+

lemma rotation_okE:
  assumes "rotation_ok ts r"
  obtains t where "t \<in> set ts" "rt_id t = ro_old r" "live t" "rt_user t = ro_user r"
    "rt_family t = rt_family (ro_new r)" "rt_user (ro_new r) = ro_user r" "live (ro_new r)"
  using assms unfolding rotation_ok_def by blast

lemma families_ok_snoc:
  assumes "families_ok ts"
    and "\<And>t. t \<in> set ts \<Longrightarrow> rt_family t = rt_family n \<Longrightarrow> rt_user t = rt_user n \<and> \<not> live t"
  shows "families_ok (ts @ [n])"
  unfolding families_ok_def
proof (intro ballI impI)
  fix u v
  assume "u \<in> set (ts @ [n])" "v \<in> set (ts @ [n])" and fam: "rt_family u = rt_family v"
  then consider "u = n" "v = n" | "u = n" "v \<in> set ts" | "u \<in> set ts" "v = n" | "u \<in> set ts" "v \<in> set ts"
    by auto
  then show "rt_user u = rt_user v \<and> (live u \<longrightarrow> live v \<longrightarrow> u = v)"
  proof cases
    case 2
    then show ?thesis using assms(2) [of v] fam by simp
  next
    case 3
    then show ?thesis using assms(2) [of u] fam by simp
  next
    case 4
    then show ?thesis using assms(1) fam unfolding families_ok_def by blast
  qed simp
qed

lemma rotation_ok_more: "rotation_ok ts r \<Longrightarrow> set ts \<subseteq> set ts' \<Longrightarrow> rotation_ok ts' r"
  unfolding rotation_ok_def by blast

lemma login_inv:
  assumes inv: "auth_inv s" and tid: "tid \<notin> set (sy_ids s)" and fam: "fam \<notin> set (sy_families s)"
  shows "auth_inv ((put_tokens (tokens (sy_db s) @ [fresh_token tid fam user hash expires created]) s)
                     \<lparr>sy_ids := tid # sy_ids s, sy_families := fam # sy_families s\<rparr>)"
    (is "auth_inv ?s")
proof -
  let ?n = "fresh_token tid fam user hash expires created"
  have ts: "tokens (sy_db ?s) = tokens (sy_db s) @ [?n]" "sy_rotations ?s = sy_rotations s"
    by (simp_all add: put_tokens_def)
  have old: "tid \<notin> rt_id ` set (all_tokens s)" and f: "fam \<notin> rt_family ` set (all_tokens s)"
    using auth_invD(2,3) [OF inv] tid fam by blast+
  show ?thesis
  proof (rule auth_invI)
    show "distinct (map rt_id (all_tokens ?s))"
      using auth_invD(1) [OF inv] old by (auto simp: all_tokens_def put_tokens_def)
    show "rt_id ` set (all_tokens ?s) \<subseteq> set (sy_ids ?s)"
      using auth_invD(2) [OF inv] by (auto simp: all_tokens_def put_tokens_def)
    show "rt_family ` set (all_tokens ?s) \<subseteq> set (sy_families ?s)"
      using auth_invD(3) [OF inv] by (auto simp: all_tokens_def put_tokens_def)
    show "rotation_ok (tokens (sy_db ?s)) r" if "r \<in> set (sy_rotations ?s)" for r
      unfolding ts by (rule rotation_ok_more [OF auth_invD(4) [OF inv that [unfolded ts]]]) auto
    show "distinct (map ro_user (sy_rotations ?s))" using auth_invD(5) [OF inv] unfolding ts .
    show "families_ok (tokens (sy_db ?s))"
      unfolding ts
    proof (rule families_ok_snoc [OF auth_invD(6) [OF inv]])
      fix t
      assume "t \<in> set (tokens (sy_db s))" "rt_family t = rt_family ?n"
      then have "fam \<in> rt_family ` set (all_tokens s)" by (auto simp: all_tokens_def)
      then show "rt_user t = rt_user ?n \<and> \<not> live t" using f by blast
    qed
  qed
qed

lemma begin_inv:
  assumes inv: "auth_inv s" and t: "t \<in> set (tokens (sy_db s))" "claimable hash now t"
    and free: "\<not> locked (rt_user t) s" and nid: "nid \<notin> set (sy_ids s)"
  shows "auth_inv (s\<lparr>sy_ids := nid # sy_ids s, sy_rotations := sy_rotations s @
      [\<lparr>ro_user = rt_user t, ro_old = rt_id t, ro_now = now,
        ro_new = fresh_token nid (rt_family t) (rt_user t) nhash expires created\<rparr>]\<rparr>)"
proof -
  have "nid \<notin> rt_id ` set (all_tokens s)" using inv nid by (auto simp: auth_inv_def)
  then have "distinct (map rt_id (all_tokens s) @ [nid])" using inv by (auto simp: auth_inv_def)
  moreover have "live t" using t(2) by (simp add: claimable_def)
  moreover have "rt_user t \<notin> ro_user ` set (sy_rotations s)"
    using free by (auto simp: locked_def list_ex_iff)
  ultimately show ?thesis
    using inv t(1) by (auto simp: auth_inv_def all_tokens_def rotation_ok_def)
qed

lemma forget_inv:
  assumes "auth_inv s" and "sy_rotations s = rs @ r # rs'"
  shows "auth_inv (s\<lparr>sy_rotations := rs @ rs'\<rparr>)"
  using assms by (auto simp: auth_inv_def all_tokens_def)

lemma commit_inv:
  assumes inv: "auth_inv s" and rs: "sy_rotations s = rs @ r # rs'"
  shows "auth_inv ((put_tokens (claim_id (ro_old r) (ro_now r) (tokens (sy_db s)) @ [ro_new r]) s)
                     \<lparr>sy_rotations := rs @ rs'\<rparr>)"
proof -
  let ?ts = "tokens (sy_db s)"
  let ?f = "\<lambda>t. if rt_id t = ro_old r then t\<lparr>rt_rotatedAt := Some (ro_now r)\<rparr> else t"
  have f: "fades ?f" by (simp add: fades_def)
  have cl: "claim_id (ro_old r) (ro_now r) ?ts = map ?f ?ts" by (simp add: claim_id_def mark_rotated_def)
  have dist: "distinct (map rt_id (all_tokens s))" using inv by (simp add: auth_inv_def)
  have okr: "rotation_ok ?ts r" and fams: "families_ok ?ts" using inv rs by (auto simp: auth_inv_def)
  obtain old where old: "old \<in> set ?ts" "rt_id old = ro_old r" "live old" "rt_user old = ro_user r"
      "rt_family old = rt_family (ro_new r)"
    and new: "rt_user (ro_new r) = ro_user r" "live (ro_new r)"
    using okr unfolding rotation_ok_def by blast
  have fams': "families_ok (map ?f ?ts @ [ro_new r])"
  proof -
    have base: "families_ok (map ?f ?ts)" by (rule families_ok_fades [OF f fams])
    have other: "rt_user u = rt_user (ro_new r) \<and> \<not> live u"
      if u: "u \<in> set (map ?f ?ts)" and ufam: "rt_family u = rt_family (ro_new r)" for u
    proof -
      obtain t where t: "t \<in> set ?ts" "u = ?f t" using u by auto
      have fam: "rt_family t = rt_family old" using ufam t(2) old(5) by (simp split: if_splits)
      then have same: "rt_user t = rt_user old" "live t \<Longrightarrow> t = old"
        using fams t(1) old(1,3) unfolding families_ok_def by blast+
      have "\<not> live u"
      proof
        assume lu: "live u"
        then have ne: "rt_id t \<noteq> ro_old r" "u = t" using t(2) by (auto split: if_splits)
        then show False using same(2) lu old(2) by simp
      qed
      then show ?thesis using same(1) old(4) new(1) t(2) by simp
    qed
    show ?thesis by (rule families_ok_snoc [OF base other])
  qed
  have rest: "rotation_ok (map ?f ?ts @ [ro_new r]) r1" if r1: "r1 \<in> set (rs @ rs')" for r1
  proof -
    have ok1: "rotation_ok ?ts r1" using inv rs r1 by (auto simp: auth_inv_def)
    obtain t where t: "t \<in> set ?ts" "rt_id t = ro_old r1" "live t" "rt_user t = ro_user r1"
        "rt_family t = rt_family (ro_new r1)"
      and new1: "rt_user (ro_new r1) = ro_user r1" "live (ro_new r1)"
      using ok1 unfolding rotation_ok_def by blast
    have du: "distinct (map ro_user (sy_rotations s))" using inv by (simp add: auth_inv_def)
    have "ro_user r \<notin> ro_user ` set (rs @ rs')" using du unfolding rs by auto
    then have "ro_user r1 \<noteq> ro_user r" using r1 by (metis image_eqI)
    then have "t \<noteq> old" using t(4) old(4) by auto
    then have "rt_id t \<noteq> rt_id old"
      using dist t(1) old(1) by (auto simp: all_tokens_def distinct_map inj_on_def)
    then have "?f t = t" using old(2) by simp
    then have "t \<in> set (map ?f ?ts @ [ro_new r])" using t(1) by (auto simp: image_iff intro: bexI [of _ t])
    then show ?thesis using t new1 unfolding rotation_ok_def by blast
  qed
  have ids: "map rt_id (map ?f ?ts) = map rt_id ?ts" by (rule fades_keys(1) [OF f])
  have d2: "distinct (map rt_id (map ?f ?ts @ [ro_new r] @ map ro_new (rs @ rs')))"
    using dist unfolding all_tokens_def rs map_append ids by auto
  have i2: "rt_id ` set (map ?f ?ts) = rt_id ` set ?ts" "rt_family ` set (map ?f ?ts) = rt_family ` set ?ts"
    by (rule fades_keys [OF f])+
  have sub: "rt_id ` set (map ?f ?ts @ [ro_new r] @ map ro_new (rs @ rs')) \<subseteq> set (sy_ids s)"
    "rt_family ` set (map ?f ?ts @ [ro_new r] @ map ro_new (rs @ rs')) \<subseteq> set (sy_families s)"
    using inv i2 unfolding auth_inv_def all_tokens_def rs set_append image_Un by auto
  have du: "distinct (map ro_user (rs @ rs'))" using auth_invD(5) [OF inv] unfolding rs by auto
  let ?s = "(put_tokens (claim_id (ro_old r) (ro_now r) ?ts @ [ro_new r]) s)\<lparr>sy_rotations := rs @ rs'\<rparr>"
  have ts: "tokens (sy_db ?s) = map ?f ?ts @ [ro_new r]" "sy_rotations ?s = rs @ rs'" "sy_ids ?s = sy_ids s"
    "sy_families ?s = sy_families s" "all_tokens ?s = map ?f ?ts @ [ro_new r] @ map ro_new (rs @ rs')"
    by (simp_all add: put_tokens_def cl all_tokens_def)
  show ?thesis
    by (rule auth_invI; unfold ts; (rule d2 sub du fams')?) (rule rest)
qed

lemma filter_inv:
  assumes inv: "auth_inv s" and keep: "\<And>t. held s (rt_id t) \<Longrightarrow> P t"
  shows "auth_inv (put_tokens (filter P (tokens (sy_db s))) s)" (is "auth_inv ?s")
proof -
  have ts: "tokens (sy_db ?s) = filter P (tokens (sy_db s))" "sy_rotations ?s = sy_rotations s"
    "sy_ids ?s = sy_ids s" "sy_families ?s = sy_families s"
    "all_tokens ?s = filter P (tokens (sy_db s)) @ map ro_new (sy_rotations s)"
    by (simp_all add: put_tokens_def all_tokens_def)
  have sub: "set (all_tokens ?s) \<subseteq> set (all_tokens s)" unfolding ts(5) by (auto simp: all_tokens_def)
  show ?thesis
  proof (rule auth_invI)
    show "distinct (map rt_id (all_tokens ?s))"
      using auth_invD(1) [OF inv] unfolding ts(5) by (auto simp: all_tokens_def distinct_map_filter)
    show "rt_id ` set (all_tokens ?s) \<subseteq> set (sy_ids ?s)"
      using auth_invD(2) [OF inv] sub unfolding ts(3) by blast
    show "rt_family ` set (all_tokens ?s) \<subseteq> set (sy_families ?s)"
      using auth_invD(3) [OF inv] sub unfolding ts(4) by blast
    show "rotation_ok (tokens (sy_db ?s)) r" if r: "r \<in> set (sy_rotations ?s)" for r
    proof -
      have r': "r \<in> set (sy_rotations s)" using r unfolding ts(2) .
      obtain t where t: "t \<in> set (tokens (sy_db s))" "rt_id t = ro_old r" "live t" "rt_user t = ro_user r"
          "rt_family t = rt_family (ro_new r)" "rt_user (ro_new r) = ro_user r" "live (ro_new r)"
        by (rule rotation_okE [OF auth_invD(4) [OF inv r']])
      have "held s (rt_id t)" using r' t(2) by (auto simp: held_def list_ex_iff)
      then have "t \<in> set (filter P (tokens (sy_db s)))" using keep t(1) by simp
      then show ?thesis using t unfolding rotation_ok_def ts(1) by blast
    qed
    show "distinct (map ro_user (sy_rotations ?s))" using auth_invD(5) [OF inv] unfolding ts(2) .
    show "families_ok (tokens (sy_db ?s))"
      using auth_invD(6) [OF inv] unfolding ts(1) families_ok_def by simp
  qed
qed

lemma step_auth_inv: "auth_step s s' \<Longrightarrow> auth_inv s \<Longrightarrow> auth_inv s'"
proof (induction rule: auth_step.induct)
  case (Stale t s hash now)
  obtain f where f: "fades f" "claim_id (rt_id t) now (tokens (sy_db s)) = map f (tokens (sy_db s))"
      "\<And>x. rt_id x \<noteq> rt_id t \<Longrightarrow> f x = x"
    using mark_rotated_fades [of "\<lambda>x. rt_id x = rt_id t" now "tokens (sy_db s)"]
    unfolding claim_id_def by blast
  have "rt_id x \<noteq> rt_id t" if r: "r \<in> set (sy_rotations s)" and x: "rt_id x = ro_old r" for r x
  proof
    assume xt: "rt_id x = rt_id t"
    obtain y where y: "y \<in> set (tokens (sy_db s))" "rt_id y = ro_old r" "rt_user y = ro_user r"
      using rotation_okE [OF auth_invD(4) [OF Stale.prems r]] by blast
    have inj: "inj_on rt_id (set (tokens (sy_db s)))"
      using auth_invD(1) [OF Stale.prems] by (simp add: all_tokens_def distinct_map)
    have "y = t" by (rule inj_onD [OF inj _ y(1) Stale.hyps(1)]) (use y(2) x xt in simp)
    then show False using Stale.hyps(3) y(3) r by (auto simp: locked_def list_ex_iff)
  qed
  then show ?case unfolding f(2) using map_inv_step [OF Stale.prems f(1)] f(3) by blast
next
  case (Evict user s now)
  obtain f where f: "fades f"
      "mark_revoked (\<lambda>t. rt_user t = user) now (tokens (sy_db s)) = map f (tokens (sy_db s))"
      "\<And>x. rt_user x \<noteq> user \<Longrightarrow> f x = x"
    using mark_revoked_fades [of "\<lambda>t. rt_user t = user" now "tokens (sy_db s)"] by blast
  have okf: "rotation_ok (map f (tokens (sy_db s))) r" if r: "r \<in> set (sy_rotations s)" for r
  proof -
    obtain y where y: "y \<in> set (tokens (sy_db s))" "rt_id y = ro_old r" "live y" "rt_user y = ro_user r"
        "rt_family y = rt_family (ro_new r)" and n: "rt_user (ro_new r) = ro_user r" "live (ro_new r)"
      using rotation_okE [OF auth_invD(4) [OF Evict.prems r]] by blast
    have "rt_user y \<noteq> user" using Evict.hyps y(4) r by (auto simp: locked_def list_ex_iff)
    then have "y \<in> set (map f (tokens (sy_db s)))" using f(3) y(1) by (metis image_eqI list.set_map)
    then show ?thesis using y n unfolding rotation_ok_def by blast
  qed
  then have "auth_inv (s\<lparr>sy_db := \<lparr>tokens = map f (tokens (sy_db s)), epochs = e\<rparr>\<rparr>)" for e
    using Evict.prems families_ok_fades [OF f(1)] fades_keys [OF f(1)]
    by (simp add: auth_inv_def all_tokens_def image_Un del: map_map set_map)
  then show ?case by (simp add: revokeAllForUser_def f(2))
next
  case (Swept s ws ids now ws')
  obtain f where f: "fades f" "sweep_ids ids now (tokens (sy_db s)) = map f (tokens (sy_db s))"
      "\<And>x. rt_id x \<notin> set ids \<Longrightarrow> f x = x"
    using mark_revoked_fades [of "\<lambda>t. rt_id t \<in> set ids" now "tokens (sy_db s)"]
    unfolding sweep_ids_def by blast
  have "auth_inv (put_tokens (map f (tokens (sy_db s))) s)"
    by (rule map_inv_step [OF Swept.prems f(1)])
      (use Swept.hyps(2) f(3) in \<open>auto simp: held_def list_ex_iff\<close>)
  then show ?case unfolding f(2) by (simp add: auth_inv_def all_tokens_def put_tokens_def)
next
  case (Sweep ids fam s now)
  then show ?case by (simp add: auth_inv_def all_tokens_def)
qed (auto intro: login_inv begin_inv commit_inv forget_inv filter_inv)

lemma start_auth_inv: "auth_inv start"
  by (simp add: auth_inv_def start_def all_tokens_def families_ok_def)

lemma reaches_auth_inv:
  assumes "reaches s s'" and "auth_inv s"
  shows "auth_inv s'"
  using assms unfolding reaches_def by (induction rule: rtranclp_induct) (auto intro: step_auth_inv)

section \<open>A dead family stays dead\<close>

definition dead_family :: "string \<Rightarrow> auth_sys \<Rightarrow> bool" where
  "dead_family fam s \<longleftrightarrow> fam \<in> set (sy_families s) \<and>
     (\<forall>t \<in> set (tokens (sy_db s)). rt_family t = fam \<longrightarrow> \<not> live t) \<and>
     (\<forall>r \<in> set (sy_rotations s). rt_family (ro_new r) \<noteq> fam)"

lemma marked_dead:
  assumes "\<And>t. t \<in> set ts \<Longrightarrow> rt_family t = fam \<Longrightarrow> \<not> live t"
    and "u \<in> set (mark_rotated P now ts) \<or> u \<in> set (mark_revoked P now ts)" and "rt_family u = fam"
  shows "\<not> live u"
  using assms by (auto simp: mark_rotated_def mark_revoked_def split: if_splits)

lemma dead_family_step: "auth_step s s' \<Longrightarrow> dead_family fam s \<Longrightarrow> dead_family fam s'"
proof (induction rule: auth_step.induct)
  case (Login tid s fam1 user hash expires created)
  then show ?case by (auto simp: dead_family_def put_tokens_def)
next
  case (Begin t s hash now nid nhash expires created)
  then show ?case by (auto simp: dead_family_def claimable_def)
next
  case (Stale t s hash now)
  then have "\<forall>u \<in> set (claim_id (rt_id t) now (tokens (sy_db s))). rt_family u = fam \<longrightarrow> \<not> live u"
    unfolding claim_id_def using marked_dead [of "tokens (sy_db s)" fam] by (auto simp: dead_family_def)
  then show ?case using Stale.prems by (simp add: dead_family_def put_tokens_def)
next
  case (Commit s rs r rs')
  then have "\<forall>u \<in> set (claim_id (ro_old r) (ro_now r) (tokens (sy_db s))). rt_family u = fam \<longrightarrow> \<not> live u"
    unfolding claim_id_def using marked_dead [of "tokens (sy_db s)" fam] by (auto simp: dead_family_def)
  then show ?case using Commit by (auto simp: dead_family_def put_tokens_def)
next
  case (Abort s rs r rs')
  then show ?case by (auto simp: dead_family_def)
next
  case (Evict user s now)
  then have "\<forall>u \<in> set (mark_revoked (\<lambda>t. rt_user t = user) now (tokens (sy_db s))). rt_family u = fam \<longrightarrow> \<not> live u"
    using marked_dead [of "tokens (sy_db s)" fam] by (auto simp: dead_family_def)
  then show ?case using Evict by (simp add: dead_family_def revokeAllForUser_def)
next
  case (Sweep ids fam1 s now)
  then show ?case by (simp add: dead_family_def)
next
  case (Swept s ws ids now ws')
  then have "\<forall>u \<in> set (sweep_ids ids now (tokens (sy_db s))). rt_family u = fam \<longrightarrow> \<not> live u"
    unfolding sweep_ids_def using marked_dead [of "tokens (sy_db s)" fam] by (auto simp: dead_family_def)
  then show ?case using Swept by (simp add: dead_family_def put_tokens_def)
next
  case (Prune s cutoff now)
  then show ?case by (auto simp: dead_family_def put_tokens_def)
qed

lemma dead_family_reaches: "reaches s s' \<Longrightarrow> dead_family fam s \<Longrightarrow> dead_family fam s'"
  unfolding reaches_def by (induction rule: rtranclp_induct) (auto intro: dead_family_step)

lemma evict_kills:
  assumes inv: "auth_inv s" and free: "\<not> locked user s"
    and t: "t \<in> set (tokens (sy_db s))" "rt_user t = user"
  shows "dead_family (rt_family t) (s\<lparr>sy_db := revokeAllForUser user now (sy_db s)\<rparr>)"
proof -
  have same: "rt_user u = user" if "u \<in> set (tokens (sy_db s))" "rt_family u = rt_family t" for u
    using auth_invD(6) [OF inv] t that unfolding families_ok_def by blast
  have "\<not> live u" if u: "u \<in> set (mark_revoked (\<lambda>t. rt_user t = user) now (tokens (sy_db s)))"
      and fam: "rt_family u = rt_family t" for u
  proof -
    obtain x where x: "x \<in> set (tokens (sy_db s))"
      "u = (if rt_user x = user \<and> rt_revokedAt x = None then x\<lparr>rt_revokedAt := Some now\<rparr> else x)"
      using u by (auto simp: mark_revoked_def)
    have "rt_family x = rt_family t" using fam x(2) by (simp split: if_splits)
    then have "rt_user x = user" by (rule same [OF x(1)])
    then show ?thesis using x(2) by (simp add: live_def)
  qed
  moreover have "rt_family (ro_new r) \<noteq> rt_family t" if r: "r \<in> set (sy_rotations s)" for r
  proof
    assume fam: "rt_family (ro_new r) = rt_family t"
    obtain y where "y \<in> set (tokens (sy_db s))" "rt_user y = ro_user r" "rt_family y = rt_family (ro_new r)"
      using rotation_okE [OF auth_invD(4) [OF inv r]] by blast
    then have "ro_user r = user" using same fam by simp
    then show False using free r by (auto simp: locked_def list_ex_iff)
  qed
  moreover have "rt_family t \<in> set (sy_families s)"
    using auth_invD(3) [OF inv] t(1) by (auto simp: all_tokens_def)
  ultimately show ?thesis by (auto simp: dead_family_def revokeAllForUser_def)
qed

section \<open>Properties\<close>

text \<open>C13. An eviction is final. However rotations, logins, evictions, family revocations and retention
  sweeps interleave, once the sessions of a user have been revoked no session that existed then ever
  has a live refresh token again: a rotation in flight cannot bring one back. Every live token of the
  user belongs to a login made after the eviction.\<close>

theorem eviction_is_final:
  assumes "reaches start s" and "\<not> locked user s"
    and "reaches (s\<lparr>sy_db := revokeAllForUser user now (sy_db s)\<rparr>) s'"
    and "t \<in> set (tokens (sy_db s'))" and "live t"
    and "t0 \<in> set (tokens (sy_db s))" and "rt_user t0 = user"
  shows "rt_family t \<noteq> rt_family t0"
proof -
  have "auth_inv s" by (rule reaches_auth_inv [OF assms(1) start_auth_inv])
  then have "dead_family (rt_family t0) s'"
    by (rule dead_family_reaches [OF assms(3) evict_kills [OF _ assms(2,6,7)]])
  then show ?thesis using assms(4,5) by (auto simp: dead_family_def)
qed

definition tokenA :: rtoken where
  "tokenA = fresh_token ''1'' ''F'' ''U'' ''h'' 100 0"

definition logged_in :: auth_sys where
  "logged_in = start\<lparr>sy_db := \<lparr>tokens = [tokenA], epochs = (\<lambda>_. None)\<rparr>, sy_ids := [''1''], sy_families := [''F'']\<rparr>"

lemma login_first: "reaches start logged_in"
  using Login [of "''1''" start "''F''" "''U''" "''h''" 100 0]
  by (simp add: reaches_def start_def put_tokens_def logged_in_def tokenA_def r_into_rtranclp)

theorem eviction_is_final_witness:
  "rt_family (fresh_token ''2'' ''G'' ''U'' ''k'' 100 6) \<noteq> rt_family tokenA"
proof (rule eviction_is_final [OF login_first, of "''U''" 5])
  let ?s = "logged_in\<lparr>sy_db := revokeAllForUser ''U'' 5 (sy_db logged_in)\<rparr>"
  have "auth_step ?s ((put_tokens (tokens (sy_db ?s) @ [fresh_token ''2'' ''G'' ''U'' ''k'' 100 6]) ?s)
      \<lparr>sy_ids := ''2'' # sy_ids ?s, sy_families := ''G'' # sy_families ?s\<rparr>)"
    by (rule Login) (simp_all add: logged_in_def)
  then show "reaches ?s ((put_tokens (tokens (sy_db ?s) @ [fresh_token ''2'' ''G'' ''U'' ''k'' 100 6]) ?s)
      \<lparr>sy_ids := ''2'' # sy_ids ?s, sy_families := ''G'' # sy_families ?s\<rparr>)"
    unfolding reaches_def by (rule r_into_rtranclp)
qed (simp_all add: logged_in_def start_def locked_def put_tokens_def tokenA_def)

text \<open>C22. A session is one chain. In every interleaving, the tokens of a family belong to one user and at
  most one of them is live; a token being rotated is live and held by a single rotation, whose
  successor takes its place.\<close>

theorem session_is_one_chain:
  assumes "reaches start s"
  shows "(\<forall>t \<in> set (tokens (sy_db s)). \<forall>t' \<in> set (tokens (sy_db s)). rt_family t = rt_family t' \<longrightarrow>
            rt_user t = rt_user t' \<and> (live t \<longrightarrow> live t' \<longrightarrow> t = t'))
       \<and> distinct (map ro_user (sy_rotations s))
       \<and> (\<forall>r \<in> set (sy_rotations s). rotation_ok (tokens (sy_db s)) r)"
  using reaches_auth_inv [OF assms start_auth_inv] unfolding auth_inv_def families_ok_def by blast

theorem session_is_one_chain_witness:
  "distinct (map ro_user (sy_rotations logged_in))"
  using session_is_one_chain [OF login_first] by blast

text \<open>A family revocation takes no lock on the user and misses the successor of a rotation in flight:
  the session that was logged out, or found to be reused, goes on.\<close>

lemma family_revocation_misses_rotation:
  "\<exists>s1 s2 s3 s4. reaches start logged_in \<and> auth_step logged_in s1 \<and>
     auth_step s1 s2 \<and> auth_step s2 s3 \<and> auth_step s3 s4 \<and>
     sy_sweeps s1 = [] \<and> sy_sweeps s2 = [([''1''], 7)] \<and> sy_sweeps s4 = [] \<and> sy_rotations s4 = [] \<and>
     list_ex (\<lambda>t. rt_family t = ''F'' \<and> live t) (tokens (sy_db s4))"
proof -
  let ?r = "\<lparr>ro_user = ''U'', ro_old = ''1'', ro_now = 6, ro_new = fresh_token ''2'' ''F'' ''U'' ''k'' 200 6\<rparr>"
  let ?s1 = "logged_in\<lparr>sy_ids := ''2'' # sy_ids logged_in, sy_rotations := [?r]\<rparr>"
  let ?s2 = "?s1\<lparr>sy_sweeps := [([''1''], 7)]\<rparr>"
  let ?s3 = "(put_tokens (claim_id ''1'' 6 [tokenA] @ [ro_new ?r]) ?s2)\<lparr>sy_rotations := []\<rparr>"
  let ?s4 = "(put_tokens (sweep_ids [''1''] 7 (claim_id ''1'' 6 [tokenA] @ [ro_new ?r])) ?s3)\<lparr>sy_sweeps := []\<rparr>"
  have 1: "auth_step logged_in ?s1"
    using Begin [of tokenA logged_in "''h''" 6 "''2''" "''k''" 200 6]
    by (simp add: logged_in_def start_def tokenA_def claimable_def live_def fresh_token_def locked_def before_epoch_def)
  have 2: "auth_step ?s1 ?s2"
    using Sweep [of "[''1'']" "''F''" ?s1 7]
    by (simp add: logged_in_def start_def tokenA_def fresh_token_def)
  have 3: "auth_step ?s2 ?s3"
    using Commit [of ?s2 "[]" ?r "[]"] by (simp add: logged_in_def put_tokens_def)
  have 4: "auth_step ?s3 ?s4"
    using Swept [of ?s3 "[]" "[''1'']" 7 "[]"] by (simp add: held_def put_tokens_def)
  have "list_ex (\<lambda>t. rt_family t = ''F'' \<and> live t) (tokens (sy_db ?s4))"
    by (simp add: put_tokens_def sweep_ids_def claim_id_def mark_revoked_def mark_rotated_def)
  then show ?thesis
    by (intro exI [of _ ?s1] exI [of _ ?s2] exI [of _ ?s3] exI [of _ ?s4] conjI login_first 1 2 3 4)
      (simp_all add: logged_in_def start_def put_tokens_def)
qed

text \<open>The function \<open>rotate_db\<close> is a rotation nothing interleaves with.\<close>

lemma claim_by_hash:
  assumes "distinct (map rt_hash ts)" and "distinct (map rt_id ts)" and "t \<in> set ts" and "claimable hash now t"
  shows "mark_rotated (claimable hash now) now ts = claim_id (rt_id t) now ts"
proof -
  have "claimable hash now x \<longleftrightarrow> rt_id x = rt_id t" if "x \<in> set ts" for x
    using assms that by (auto simp: distinct_map claimable_def dest: inj_onD)
  then show ?thesis by (simp add: claim_id_def mark_rotated_def)
qed

lemma rotate_is_begin_commit:
  assumes "rotate_db hash now (nid, nhash, nexp) created (sy_db s) = (db', Some fu)"
    and "sy_rotations s = []" and "nid \<notin> set (sy_ids s)"
    and "distinct (map rt_hash (tokens (sy_db s)))" and "distinct (map rt_id (tokens (sy_db s)))"
  shows "\<exists>s1 s2. auth_step s s1 \<and> auth_step s1 s2 \<and> sy_db s2 = db'"
proof -
  obtain t where t: "find (claimable hash now) (tokens (sy_db s)) = Some t" "\<not> before_epoch (sy_db s) t"
    and db': "db' = (sy_db s)\<lparr>tokens := mark_rotated (claimable hash now) now (tokens (sy_db s)) @
      [fresh_token nid (rt_family t) (rt_user t) nhash nexp created]\<rparr>"
    using assms(1) by (auto simp: rotate_db_def Let_def split: option.splits if_splits)
  have in': "t \<in> set (tokens (sy_db s))" "claimable hash now t" using find_SomeD [OF t(1)] by simp_all
  let ?r = "\<lparr>ro_user = rt_user t, ro_old = rt_id t, ro_now = now,
    ro_new = fresh_token nid (rt_family t) (rt_user t) nhash nexp created\<rparr>"
  let ?s1 = "s\<lparr>sy_ids := nid # sy_ids s, sy_rotations := sy_rotations s @ [?r]\<rparr>"
  have 1: "auth_step s ?s1"
    using Begin [OF in' _ t(2) assms(3), of nhash nexp created] assms(2) by (simp add: locked_def)
  have 2: "auth_step ?s1 ((put_tokens (claim_id (ro_old ?r) (ro_now ?r) (tokens (sy_db ?s1)) @ [ro_new ?r]) ?s1)
      \<lparr>sy_rotations := [] @ []\<rparr>)"
    by (rule Commit) (simp add: assms(2))
  show ?thesis
    by (intro exI conjI, rule 1, rule 2)
      (simp add: put_tokens_def db' claim_by_hash [OF assms(4,5) in'])
qed

end
