(* ===== verification/LoginGates.thy ===== *)
theory LoginGates
  imports Prelude
begin

text \<open>
  The login route of \<open>apps/api/src/auth/login.ts\<close> and its lockout gates
  (\<open>apps/api/src/auth/gates.ts\<close>): the four Redis scripts, the fail-open reading of a pipeline, the
  ceilings before and after the password check, and what a success repays.

  A key is a constructor rather than a string, so keys of different kinds are distinct; the email
  stands for its hash. A HyperLogLog is the list of its members (at the cardinalities of the ceiling its
  sparse encoding is exact). Times are milliseconds.
\<close>

section \<open>Redis\<close>

datatype gate_key =
    LockKey string string
  | FailIp string
  | AttemptIp string
  | FailIps string
  | OkIp string
  | AdmitIp string

text \<open>A counter with its expiry, a key without one never expires.\<close>

record gate_redis =
  counters :: "gate_key \<Rightarrow> (nat \<times> int option) option"
  sources :: "gate_key \<Rightarrow> (string list \<times> int option) option"

definition unexpired :: "int \<Rightarrow> ('a \<times> int option) option \<Rightarrow> ('a \<times> int option) option" where
  "unexpired now e =
     (case e of None \<Rightarrow> None
      | Some (v, None) \<Rightarrow> e
      | Some (v, Some x) \<Rightarrow> if x \<le> now then None else e)"

definition get_counter :: "int \<Rightarrow> gate_key \<Rightarrow> gate_redis \<Rightarrow> nat" where
  "get_counter now k r = (case unexpired now (counters r k) of None \<Rightarrow> 0 | Some (v, _) \<Rightarrow> v)"

definition pfcount :: "int \<Rightarrow> gate_key \<Rightarrow> gate_redis \<Rightarrow> nat" where
  "pfcount now k r = (case unexpired now (sources r k) of None \<Rightarrow> 0 | Some (xs, _) \<Rightarrow> length xs)"

definition put_counter :: "gate_key \<Rightarrow> (nat \<times> int option) option \<Rightarrow> gate_redis \<Rightarrow> gate_redis" where
  "put_counter k e r = r\<lparr>counters := (counters r)(k := e)\<rparr>"

definition LOCKOUT_SCRIPT :: "gate_key \<Rightarrow> nat \<Rightarrow> int \<Rightarrow> gate_redis \<Rightarrow> gate_redis \<times> nat" where
  "LOCKOUT_SCRIPT k windowS now r =
     (case unexpired now (counters r k) of
        None \<Rightarrow> (put_counter k (Some (1, Some (now + int windowS * 1000))) r, 1)
      | Some (v, None) \<Rightarrow> (put_counter k (Some (v + 1, Some (now + int windowS * 1000))) r, v + 1)
      | Some (v, Some x) \<Rightarrow>
          (put_counter k (Some (v + 1, Some (if v + 1 = 1 then now + int windowS * 1000 else x))) r, v + 1))"

definition DECAY_SCRIPT :: "gate_key \<Rightarrow> int \<Rightarrow> gate_redis \<Rightarrow> gate_redis" where
  "DECAY_SCRIPT k now r =
     (case unexpired now (counters r k) of
        None \<Rightarrow> r
      | Some (v, x) \<Rightarrow> if v > 0 then put_counter k (Some (v - 1, x)) r else r)"

definition ADMIT_SCRIPT :: "gate_key \<Rightarrow> nat \<Rightarrow> nat \<Rightarrow> int \<Rightarrow> gate_redis \<Rightarrow> gate_redis \<times> nat" where
  "ADMIT_SCRIPT k every windowS now r =
     (let (r1, n) = LOCKOUT_SCRIPT k windowS now r in (r1, if n mod every = 0 then 1 else 0))"

definition FAIL_SOURCE_SCRIPT :: "gate_key \<Rightarrow> string \<Rightarrow> nat \<Rightarrow> int \<Rightarrow> gate_redis \<Rightarrow> gate_redis" where
  "FAIL_SOURCE_SCRIPT k ip windowS now r =
     (let (xs, x) = (case unexpired now (sources r k) of None \<Rightarrow> ([], None) | Some e \<Rightarrow> e);
          xs' = (if ip \<in> set xs then xs else xs @ [ip]);
          x' = (case x of None \<Rightarrow> Some (now + int windowS * 1000) | Some t \<Rightarrow> Some t)
      in r\<lparr>sources := (sources r)(k \<mapsto> (xs', x'))\<rparr>)"

definition del_counter :: "gate_key \<Rightarrow> gate_redis \<Rightarrow> gate_redis" where
  "del_counter k r = put_counter k None r"

definition UNMARKED_ADMIT_EVERY :: nat where
  "UNMARKED_ADMIT_EVERY = 10"

definition KNOWN_GOOD_TTL_S :: nat where
  "KNOWN_GOOD_TTL_S = 24 * 3600"

text \<open>\<open>gateRead\<close>: the pipeline answers, or it fails, times out or returns an error after some of its
  commands ran; then no gate is evaluated.\<close>

datatype gate_call = GateOk | GateFails nat

definition gateRead ::
  "gate_call \<Rightarrow> (gate_redis \<Rightarrow> gate_redis \<times> nat) list \<Rightarrow> gate_redis \<Rightarrow> gate_redis \<times> nat list option" where
  "gateRead g cmds r =
     (let run = fold (\<lambda>c (r, out). let (r1, n) = c r in (r1, out @ [n])) in
      case g of
        GateOk \<Rightarrow> (let (r1, out) = run cmds (r, []) in (r1, Some out))
      | GateFails k \<Rightarrow> (fst (run (take k cmds) (r, [])), None))"

section \<open>The login\<close>

record login_user =
  lu_id :: string
  lu_passwordHash :: string
  lu_emailVerifiedAt :: "int option"
  lu_disabledAt :: "int option"

record login_config =
  lc_maxFails :: nat
  lc_windowS :: nat
  lc_maxFailsPerIp :: "nat option"
  lc_maxAttemptsPerIpHard :: "nat option"
  lc_maxFailIpsPerEmail :: "nat option"

definition maxPerIp :: "login_config \<Rightarrow> nat" where
  "maxPerIp c = (case lc_maxFailsPerIp c of None \<Rightarrow> lc_maxFails c * 10 | Some n \<Rightarrow> n)"

definition maxAttemptsHard :: "login_config \<Rightarrow> nat" where
  "maxAttemptsHard c = (case lc_maxAttemptsPerIpHard c of None \<Rightarrow> maxPerIp c * 20 | Some n \<Rightarrow> n)"

definition maxFailIps :: "login_config \<Rightarrow> nat" where
  "maxFailIps c = (case lc_maxFailIpsPerEmail c of None \<Rightarrow> 30 | Some n \<Rightarrow> n)"

text \<open>A request: when and from where, the address' users over all tenants, what the argon2 verification of
  a hash answers (\<open>None\<close>: shed), how the pipelines went and which of the guarded single commands ran.\<close>

record login_req =
  lr_now :: int
  lr_ip :: string
  lr_email :: string
  lr_users :: "login_user list"
  lr_verify :: "string \<Rightarrow> bool option"
  lr_pre :: gate_call
  lr_admit :: gate_call
  lr_bump :: gate_call
  lr_fail :: gate_call
  lr_ttl :: bool
  lr_refund :: "bool \<times> bool"
  lr_repay :: "bool \<times> bool \<times> bool"

datatype login_reply = Refused gate_key int | Shed | Invalid | Ambiguous | Session login_user

fun verify_all :: "(string \<Rightarrow> bool option) \<Rightarrow> login_user list \<Rightarrow> login_user list option" where
  "verify_all vf [] = Some []"
| "verify_all vf (u # us) =
     (case vf (lu_passwordHash u) of
        None \<Rightarrow> None
      | Some b \<Rightarrow> map_option (\<lambda>vs. if b then u # vs else vs) (verify_all vf us))"

definition DUMMY_HASH :: string where
  "DUMMY_HASH = ''dummy''"

definition candidates_verified :: "login_req \<Rightarrow> login_user list option" where
  "candidates_verified q =
     (if lr_users q = [] then map_option (\<lambda>_. []) (lr_verify q DUMMY_HASH)
      else verify_all (lr_verify q) (lr_users q))"

text \<open>Disabled users are dropped first; when any of the rest is unverified, those are dropped too.\<close>

definition may_sign_in :: "login_user list \<Rightarrow> login_user list" where
  "may_sign_in vs =
     (let lv = filter (\<lambda>u. lu_disabledAt u = None) vs;
          unverified = filter (\<lambda>u. lu_emailVerifiedAt u = None) lv in
      if unverified \<noteq> [] \<and> length unverified = length lv then []
      else if unverified \<noteq> [] then filter (\<lambda>u. lu_emailVerifiedAt u \<noteq> None) lv
      else lv)"

definition apply_if :: "bool \<Rightarrow> ('a \<Rightarrow> 'a) \<Rightarrow> 'a \<Rightarrow> 'a" where
  "apply_if b f x = (if b then f x else x)"

text \<open>The 429 and its \<open>Retry-After\<close>: the seconds the key has left, as Redis rounds them, and the whole
  window when the time to live could not be read.\<close>

definition ttl_s :: "int \<Rightarrow> ('a \<times> int option) option \<Rightarrow> int" where
  "ttl_s now e =
     (case unexpired now e of None \<Rightarrow> - 2 | Some (_, None) \<Rightarrow> - 1 | Some (_, Some x) \<Rightarrow> (x - now + 500) div 1000)"

definition redis_ttl :: "int \<Rightarrow> gate_key \<Rightarrow> gate_redis \<Rightarrow> int" where
  "redis_ttl now k r =
     (if unexpired now (sources r k) = None then ttl_s now (counters r k) else ttl_s now (sources r k))"

definition tooMany :: "login_config \<Rightarrow> login_req \<Rightarrow> gate_redis \<Rightarrow> gate_key \<Rightarrow> login_reply" where
  "tooMany c q r k = Refused k (max 1 (if lr_ttl q then redis_ttl (lr_now q) k r else int (lc_windowS c)))"

text \<open>The read-only checks; the answer is the gate that refuses, if one does.\<close>

definition pre_gates :: "login_config \<Rightarrow> login_req \<Rightarrow> gate_redis \<Rightarrow> gate_redis \<times> gate_key option" where
  "pre_gates c q r =
     (let now = lr_now q; ip = lr_ip q;
          (r1, pre) = gateRead (lr_pre q)
            [\<lambda>r. (r, get_counter now (AttemptIp ip) r), \<lambda>r. (r, pfcount now (FailIps (lr_email q)) r),
             \<lambda>r. (r, get_counter now (FailIp ip) r), \<lambda>r. (r, get_counter now (OkIp ip) r)] r in
      case pre of
        Some [attempts, ips, fails, ok] \<Rightarrow>
          if maxAttemptsHard c \<le> attempts then (r1, Some (AttemptIp ip))
          else if maxFailIps c \<le> ips then (r1, Some (FailIps (lr_email q)))
          else if maxPerIp c \<le> fails \<and> ok = 0 then
            (let (r2, admitted) = gateRead (lr_admit q)
                   [ADMIT_SCRIPT (AdmitIp ip) UNMARKED_ADMIT_EVERY (lc_windowS c) now] r1
             in (r2, if admitted = Some [0] then Some (FailIp ip) else None))
          else (r1, None)
      | _ \<Rightarrow> (r1, None))"

definition bump_gates :: "login_config \<Rightarrow> login_req \<Rightarrow> gate_redis \<Rightarrow> gate_redis \<times> gate_key option" where
  "bump_gates c q r =
     (let now = lr_now q;
          (r1, bumped) = gateRead (lr_bump q)
            [LOCKOUT_SCRIPT (LockKey (lr_ip q) (lr_email q)) (lc_windowS c) now,
             LOCKOUT_SCRIPT (AttemptIp (lr_ip q)) (lc_windowS c) now] r in
      (r1, case bumped of
             Some [lock, attempts] \<Rightarrow>
               if lc_maxFails c < lock then Some (LockKey (lr_ip q) (lr_email q))
               else if maxAttemptsHard c < attempts then Some (AttemptIp (lr_ip q)) else None
           | _ \<Rightarrow> None))"

definition fail_gates :: "login_config \<Rightarrow> login_req \<Rightarrow> gate_redis \<Rightarrow> gate_redis \<times> login_reply" where
  "fail_gates c q r =
     (let now = lr_now q;
          (r1, failed) = gateRead (lr_fail q)
            [LOCKOUT_SCRIPT (FailIp (lr_ip q)) (lc_windowS c) now,
             \<lambda>r. let r1 = FAIL_SOURCE_SCRIPT (FailIps (lr_email q)) (lr_ip q) (lc_windowS c) now r
                  in (r1, pfcount now (FailIps (lr_email q)) r1)] r in
      (r1, case failed of
             Some [fails, ips] \<Rightarrow> if maxPerIp c < fails then tooMany c q r1 (FailIp (lr_ip q)) else Invalid
           | _ \<Rightarrow> Invalid))"

definition refund :: "login_req \<Rightarrow> gate_redis \<Rightarrow> gate_redis" where
  "refund q r =
     (case lr_refund q of (a, b) \<Rightarrow>
        apply_if b (DECAY_SCRIPT (AttemptIp (lr_ip q)) (lr_now q))
          (apply_if a (DECAY_SCRIPT (LockKey (lr_ip q) (lr_email q)) (lr_now q)) r))"

definition repay :: "login_req \<Rightarrow> gate_redis \<Rightarrow> gate_redis" where
  "repay q r =
     (case lr_repay q of (a, b, d) \<Rightarrow>
        apply_if d (put_counter (OkIp (lr_ip q)) (Some (1, Some (lr_now q + int KNOWN_GOOD_TTL_S * 1000))))
          (apply_if b (DECAY_SCRIPT (FailIp (lr_ip q)) (lr_now q))
            (apply_if a (del_counter (LockKey (lr_ip q) (lr_email q))) r)))"

text \<open>The three stretches between the awaited pipelines, in the middle of which other requests run.\<close>

datatype login_phase =
    Arrived login_req
  | Admitted login_req
  | Verifying login_req
  | Finished bool login_req login_reply

definition decide_login :: "login_config \<Rightarrow> login_req \<Rightarrow> gate_redis \<Rightarrow> gate_redis \<times> login_reply" where
  "decide_login c q r =
     (case candidates_verified q of
        None \<Rightarrow> (refund q r, Shed)
      | Some vs \<Rightarrow>
        (case may_sign_in vs of
           [] \<Rightarrow> fail_gates c q r
         | [u] \<Rightarrow> (repay q r, Session u)
         | _ \<Rightarrow> (r, Ambiguous)))"

fun login_step :: "login_config \<Rightarrow> int \<Rightarrow> login_phase \<Rightarrow> gate_redis \<Rightarrow> gate_redis \<times> login_phase" where
  "login_step c now (Arrived q0) r =
     (let q = q0\<lparr>lr_now := now\<rparr> in
      case pre_gates c q r of
        (r1, Some k) \<Rightarrow> (r1, Finished False q (tooMany c q r1 k))
      | (r1, None) \<Rightarrow> (r1, Admitted q))"
| "login_step c now (Admitted q0) r =
     (let q = q0\<lparr>lr_now := now\<rparr> in
      case bump_gates c q r of
        (r1, Some k) \<Rightarrow> (r1, Finished False q (tooMany c q r1 k))
      | (r1, None) \<Rightarrow> (r1, Verifying q))"
| "login_step c now (Verifying q0) r =
     (let q = q0\<lparr>lr_now := now\<rparr>; (r1, a) = decide_login c q r in (r1, Finished True q a))"
| "login_step c now (Finished v q a) r = (r, Finished v q a)"

text \<open>Several requests in flight: a schedule names the request that runs next, and when.\<close>

fun run_sched :: "(int \<Rightarrow> 'p \<Rightarrow> 'r \<Rightarrow> 'r \<times> 'p) \<Rightarrow> (nat \<times> int) list \<Rightarrow> 'r \<times> 'p list \<Rightarrow> 'r \<times> 'p list" where
  "run_sched stp [] s = s"
| "run_sched stp ((i, now) # sched) (r, ps) =
     (if i < length ps
      then (let (r1, p) = stp now (ps ! i) r in run_sched stp sched (r1, ps[i := p]))
      else run_sched stp sched (r, ps))"

definition run_logins ::
  "login_config \<Rightarrow> (nat \<times> int) list \<Rightarrow> gate_redis \<Rightarrow> login_req list \<Rightarrow> gate_redis \<times> login_phase list" where
  "run_logins c sched r qs = run_sched (login_step c) sched (r, map Arrived qs)"

text \<open>One request that nothing interrupts.\<close>

definition login :: "login_config \<Rightarrow> login_req \<Rightarrow> gate_redis \<Rightarrow> gate_redis \<times> login_reply" where
  "login c q r =
     (case pre_gates c q r of
        (r1, Some k) \<Rightarrow> (r1, tooMany c q r1 k)
      | (r1, None) \<Rightarrow>
        (case bump_gates c q r1 of
           (r2, Some k) \<Rightarrow> (r2, tooMany c q r2 k)
         | (r2, None) \<Rightarrow> decide_login c q r2))"


section \<open>Pipelines\<close>

lemma fold_cmds_inv:
  assumes "\<And>d r. d \<in> set cmds \<Longrightarrow> P r \<Longrightarrow> P (fst (d r))" and "P r"
  shows "P (fst (fold (\<lambda>d (r, out). let (r1, n) = d r in (r1, out @ [n])) cmds (r, out)))"
  using assms
proof (induction cmds arbitrary: r out)
  case (Cons d ds)
  obtain r1 n where d: "d r = (r1, n)"
    by (cases "d r")
  have "P r1"
    using Cons.prems(1)[of d r] Cons.prems(2) d by simp
  then show ?case
    using Cons.IH[of r1 "out @ [n]"] Cons.prems(1) d by simp
qed simp

text \<open>Whatever the pipeline does, it leaves what each of its commands leaves.\<close>

lemma gateRead_inv:
  assumes "\<And>d r. d \<in> set cmds \<Longrightarrow> P r \<Longrightarrow> P (fst (d r))" and "P r"
  shows "P (fst (gateRead g cmds r))"
proof (cases g)
  case GateOk
  then show ?thesis
    using fold_cmds_inv[of cmds P r "[]"] assms
    by (simp add: gateRead_def case_prod_unfold Let_def)
next
  case (GateFails k)
  have "\<And>d r. d \<in> set (take k cmds) \<Longrightarrow> P r \<Longrightarrow> P (fst (d r))"
    using assms(1) by (meson in_set_takeD)
  then show ?thesis
    using fold_cmds_inv[of "take k cmds" P r "[]"] assms(2) GateFails
    by (simp add: gateRead_def)
qed

lemma gateRead_ok1 [simp]: "gateRead GateOk [d] r = (fst (d r), Some [snd (d r)])"
  by (simp add: gateRead_def case_prod_unfold Let_def)

lemma gateRead_ok2 [simp]:
  "gateRead GateOk [d, e] r = (fst (e (fst (d r))), Some [snd (d r), snd (e (fst (d r)))])"
  by (simp add: gateRead_def case_prod_unfold Let_def)

lemma gateRead_ok4 [simp]:
  "gateRead GateOk [\<lambda>r. (r, a r), \<lambda>r. (r, b r), \<lambda>r. (r, c r), \<lambda>r. (r, d r)] r = (r, Some [a r, b r, c r, d r])"
  by (simp add: gateRead_def)

lemma gateRead_fails [simp]: "snd (gateRead (GateFails k) cmds r) = None"
  by (simp add: gateRead_def)

lemma gateRead_reads:
  assumes "\<And>d r. d \<in> set cmds \<Longrightarrow> fst (d r) = r"
  shows "fst (gateRead g cmds r) = r"
  by (rule gateRead_inv[of cmds "\<lambda>x. x = r"]) (use assms in auto)

section \<open>One counter in a window\<close>

text \<open>The value a key holds, and that it does not expire up to a time.\<close>

definition raw :: "gate_key \<Rightarrow> gate_redis \<Rightarrow> nat" where
  "raw k r = (case counters r k of None \<Rightarrow> 0 | Some (v, _) \<Rightarrow> v)"

definition armed_beyond :: "int \<Rightarrow> gate_key \<Rightarrow> gate_redis \<Rightarrow> bool" where
  "armed_beyond t k r = (case counters r k of Some (v, Some x) \<Rightarrow> t < x | _ \<Rightarrow> True)"

lemma unexpired_armed:
  "armed_beyond t k r \<Longrightarrow> now \<le> t \<Longrightarrow> unexpired now (counters r k) = counters r k"
  by (auto simp: armed_beyond_def unexpired_def split: option.splits)

lemma counters_put [simp]: "counters (put_counter k e r) k' = (if k' = k then e else counters r k')"
  by (simp add: put_counter_def)

lemma lockout_other [simp]:
  "k' \<noteq> k \<Longrightarrow> counters (fst (LOCKOUT_SCRIPT k' w now r)) k = counters r k"
  by (simp add: LOCKOUT_SCRIPT_def split: option.split prod.split)

lemma decay_other [simp]: "k' \<noteq> k \<Longrightarrow> counters (DECAY_SCRIPT k' now r) k = counters r k"
  by (simp add: DECAY_SCRIPT_def split: option.split prod.split)

lemma admit_other [simp]:
  "k' \<noteq> k \<Longrightarrow> counters (fst (ADMIT_SCRIPT k' e w now r)) k = counters r k"
  by (simp add: ADMIT_SCRIPT_def case_prod_unfold Let_def)

lemma fail_source_counters [simp]: "counters (FAIL_SOURCE_SCRIPT k ip w now r) = counters r"
  by (simp add: FAIL_SOURCE_SCRIPT_def case_prod_unfold Let_def)

lemma raw_cong: "counters r' k = counters r k \<Longrightarrow> raw k r' = raw k r"
  by (simp add: raw_def)

lemma armed_cong: "counters r' k = counters r k \<Longrightarrow> armed_beyond t k r' = armed_beyond t k r"
  by (simp add: armed_beyond_def)

lemma lockout_counts:
  assumes "armed_beyond t k r" "now \<le> t" "t < now + int w * 1000"
  shows "raw k (fst (LOCKOUT_SCRIPT k w now r)) = raw k r + 1 \<and> snd (LOCKOUT_SCRIPT k w now r) = raw k r + 1 \<and>
         armed_beyond t k (fst (LOCKOUT_SCRIPT k w now r))"
  using assms
  by (auto simp: LOCKOUT_SCRIPT_def unexpired_armed raw_def armed_beyond_def split: option.splits)

lemma decay_counts:
  assumes "armed_beyond t k r" "now \<le> t"
  shows "raw k (DECAY_SCRIPT k now r) = raw k r - 1 \<and> armed_beyond t k (DECAY_SCRIPT k now r)"
  using assms
  by (auto simp: DECAY_SCRIPT_def unexpired_armed raw_def armed_beyond_def split: option.splits)


section \<open>What each stretch does to a counter\<close>

lemma pre_gates_inv:
  assumes "P r" and "\<And>r. P r \<Longrightarrow> P (fst (ADMIT_SCRIPT (AdmitIp (lr_ip q)) UNMARKED_ADMIT_EVERY (lc_windowS c) (lr_now q) r))"
  shows "P (fst (pre_gates c q r))"
proof -
  let ?reads = "[\<lambda>r. (r, get_counter (lr_now q) (AttemptIp (lr_ip q)) r), \<lambda>r. (r, pfcount (lr_now q) (FailIps (lr_email q)) r),
    \<lambda>r. (r, get_counter (lr_now q) (FailIp (lr_ip q)) r), \<lambda>r. (r, get_counter (lr_now q) (OkIp (lr_ip q)) r)]"
  let ?admit = "[ADMIT_SCRIPT (AdmitIp (lr_ip q)) UNMARKED_ADMIT_EVERY (lc_windowS c) (lr_now q)]"
  obtain r1 pre where g: "gateRead (lr_pre q) ?reads r = (r1, pre)"
    by (cases "gateRead (lr_pre q) ?reads r")
  have "fst (gateRead (lr_pre q) ?reads r) = r"
    by (rule gateRead_reads) auto
  then have r1: "r1 = r"
    using g by simp
  have ad: "P (fst (gateRead (lr_admit q) ?admit r))"
    by (rule gateRead_inv) (use assms in auto)
  show ?thesis
    unfolding pre_gates_def Let_def g r1
    using assms(1) ad by (auto split: option.split list.split prod.split)
qed

lemma bump_gates_inv:
  assumes "P r"
    and "\<And>r. P r \<Longrightarrow> P (fst (LOCKOUT_SCRIPT (LockKey (lr_ip q) (lr_email q)) (lc_windowS c) (lr_now q) r))"
    and "\<And>r. P r \<Longrightarrow> P (fst (LOCKOUT_SCRIPT (AttemptIp (lr_ip q)) (lc_windowS c) (lr_now q) r))"
  shows "P (fst (bump_gates c q r))"
  unfolding bump_gates_def Let_def case_prod_unfold fst_conv
  by (rule gateRead_inv) (use assms in auto)

lemma fail_gates_inv:
  assumes "P r"
    and "\<And>r. P r \<Longrightarrow> P (fst (LOCKOUT_SCRIPT (FailIp (lr_ip q)) (lc_windowS c) (lr_now q) r))"
    and "\<And>r. P r \<Longrightarrow> P (FAIL_SOURCE_SCRIPT (FailIps (lr_email q)) (lr_ip q) (lc_windowS c) (lr_now q) r)"
  shows "P (fst (fail_gates c q r))"
  unfolding fail_gates_def Let_def case_prod_unfold fst_conv
  by (rule gateRead_inv) (use assms in auto)

lemma decide_login_cases:
  "decide_login c q r =
     (case map_option may_sign_in (candidates_verified q) of
        None \<Rightarrow> (refund q r, Shed)
      | Some [] \<Rightarrow> fail_gates c q r
      | Some [u] \<Rightarrow> (repay q r, Session u)
      | Some (_ # _ # _) \<Rightarrow> (r, Ambiguous))"
  by (auto simp: decide_login_def split: option.splits list.splits)

text \<open>The attempts of an address: nothing but the bump and the refund of its own requests touches them.\<close>

lemma pre_attempts [simp]: "counters (fst (pre_gates c q r)) (AttemptIp ip) = counters r (AttemptIp ip)"
  by (rule pre_gates_inv[of "\<lambda>r'. counters r' (AttemptIp ip) = counters r (AttemptIp ip)"]) auto

lemma pre_lock [simp]: "counters (fst (pre_gates c q r)) (LockKey ip e) = counters r (LockKey ip e)"
  by (rule pre_gates_inv[of "\<lambda>r'. counters r' (LockKey ip e) = counters r (LockKey ip e)"]) auto

lemma fail_attempts [simp]: "counters (fst (fail_gates c q r)) (AttemptIp ip) = counters r (AttemptIp ip)"
  by (rule fail_gates_inv[of "\<lambda>r'. counters r' (AttemptIp ip) = counters r (AttemptIp ip)"]) auto

lemma fail_lock [simp]: "counters (fst (fail_gates c q r)) (LockKey ip e) = counters r (LockKey ip e)"
  by (rule fail_gates_inv[of "\<lambda>r'. counters r' (LockKey ip e) = counters r (LockKey ip e)"]) auto

lemma repay_attempts [simp]: "counters (repay q r) (AttemptIp ip) = counters r (AttemptIp ip)"
  by (simp add: repay_def apply_if_def del_counter_def split: prod.split)

lemma bump_attempts_other [simp]:
  "lr_ip q \<noteq> ip \<Longrightarrow> counters (fst (bump_gates c q r)) (AttemptIp ip) = counters r (AttemptIp ip)"
  by (rule bump_gates_inv[of "\<lambda>r'. counters r' (AttemptIp ip) = counters r (AttemptIp ip)"]) auto

lemma bump_lock_other [simp]:
  "lr_ip q \<noteq> ip \<or> lr_email q \<noteq> e \<Longrightarrow> counters (fst (bump_gates c q r)) (LockKey ip e) = counters r (LockKey ip e)"
  by (rule bump_gates_inv[of "\<lambda>r'. counters r' (LockKey ip e) = counters r (LockKey ip e)"]) auto

lemma refund_attempts_other [simp]:
  "lr_ip q \<noteq> ip \<Longrightarrow> counters (refund q r) (AttemptIp ip) = counters r (AttemptIp ip)"
  by (simp add: refund_def apply_if_def split: prod.split)

lemma refund_lock_other [simp]:
  "lr_ip q \<noteq> ip \<or> lr_email q \<noteq> e \<Longrightarrow> counters (refund q r) (LockKey ip e) = counters r (LockKey ip e)"
  by (auto simp: refund_def apply_if_def split: prod.split)

lemma repay_lock_other [simp]:
  "lr_ip q \<noteq> ip \<or> lr_email q \<noteq> e \<Longrightarrow> counters (repay q r) (LockKey ip e) = counters r (LockKey ip e)"
  by (auto simp: repay_def apply_if_def del_counter_def split: prod.split)

lemma refund_counts:
  assumes k: "k = AttemptIp (lr_ip q) \<or> k = LockKey (lr_ip q) (lr_email q)"
    and a: "armed_beyond t k r" "lr_now q \<le> t"
  shows "raw k r \<le> raw k (refund q r) + 1 \<and> armed_beyond t k (refund q r)"
proof -
  obtain x y where xy: "lr_refund q = (x, y)"
    by (cases "lr_refund q")
  note d = decay_counts[OF a]
  from k show ?thesis
  proof
    assume k: "k = AttemptIp (lr_ip q)"
    let ?r1 = "apply_if x (DECAY_SCRIPT (LockKey (lr_ip q) (lr_email q)) (lr_now q)) r"
    have same: "counters ?r1 k = counters r k"
      using k by (simp add: apply_if_def)
    have "armed_beyond t k ?r1"
      using a(1) armed_cong[OF same] by simp
    then show ?thesis
      using decay_counts[of t k ?r1, OF _ a(2)] raw_cong[OF same] k
      by (cases y) (auto simp: refund_def xy apply_if_def)
  next
    assume k: "k = LockKey (lr_ip q) (lr_email q)"
    let ?r1 = "apply_if x (DECAY_SCRIPT (LockKey (lr_ip q) (lr_email q)) (lr_now q)) r"
    have same: "counters (refund q r) k = counters ?r1 k"
      using k by (simp add: refund_def xy apply_if_def)
    have "raw k r \<le> raw k ?r1 + 1 \<and> armed_beyond t k ?r1"
      using d k a(1) by (cases x) (auto simp: apply_if_def)
    then show ?thesis
      using raw_cong[OF same] armed_cong[OF same] by simp
  qed
qed

text \<open>A bump whose pipeline answers counts the request on both keys, and admits it only within both
  limits.\<close>

lemma bump_counts:
  assumes ok: "lr_bump q = GateOk" and a: "armed_beyond t k r" "lr_now q \<le> t" "t < lr_now q + int (lc_windowS c) * 1000"
    and k: "k = AttemptIp (lr_ip q) \<or> k = LockKey (lr_ip q) (lr_email q)"
  shows "raw k (fst (bump_gates c q r)) = raw k r + 1 \<and> armed_beyond t k (fst (bump_gates c q r)) \<and>
         (snd (bump_gates c q r) = None \<longrightarrow>
           raw k r + 1 \<le> (if k = AttemptIp (lr_ip q) then maxAttemptsHard c else lc_maxFails c))"
proof -
  let ?L = "LOCKOUT_SCRIPT (LockKey (lr_ip q) (lr_email q)) (lc_windowS c) (lr_now q)"
  let ?A = "LOCKOUT_SCRIPT (AttemptIp (lr_ip q)) (lc_windowS c) (lr_now q)"
  have b: "bump_gates c q r = (fst (?A (fst (?L r))),
     if lc_maxFails c < snd (?L r) then Some (LockKey (lr_ip q) (lr_email q))
     else if maxAttemptsHard c < snd (?A (fst (?L r))) then Some (AttemptIp (lr_ip q)) else None)"
    by (simp add: bump_gates_def ok Let_def)
  from k show ?thesis
  proof
    assume k: "k = AttemptIp (lr_ip q)"
    have same: "counters (fst (?L r)) k = counters r k"
      using k by simp
    have "armed_beyond t k (fst (?L r))"
      using a(1) armed_cong[OF same] by simp
    from lockout_counts[OF this a(2,3)] show ?thesis
      using raw_cong[OF same] k by (auto simp: b)
  next
    assume k: "k = LockKey (lr_ip q) (lr_email q)"
    have same: "counters (fst (?A (fst (?L r)))) k = counters (fst (?L r)) k"
      using k by simp
    show ?thesis
      using lockout_counts[OF a] raw_cong[OF same] armed_cong[OF same] k by (auto simp: b)
  qed
qed


section \<open>Requests in flight\<close>

fun req_of :: "login_phase \<Rightarrow> login_req" where
  "req_of (Arrived q) = q"
| "req_of (Admitted q) = q"
| "req_of (Verifying q) = q"
| "req_of (Finished v q a) = q"

text \<open>The phases of a request whose password is being compared, or has been.\<close>

fun compares :: "login_phase \<Rightarrow> bool" where
  "compares (Verifying q) = True"
| "compares (Finished v q a) = (v \<and> a \<noteq> Shed)"
| "compares p = False"

lemma req_of_step:
  "req_of (snd (login_step c now p r)) = req_of p \<or> req_of (snd (login_step c now p r)) = (req_of p)\<lparr>lr_now := now\<rparr>"
  by (cases p) (auto simp: Let_def case_prod_unfold split: option.splits)

text \<open>A budget: a number each of its requests pays one of before its comparison runs, that only a
  request which compared nothing gets back, and that admits nobody past its limit.\<close>

locale budget =
  fixes stp :: "int \<Rightarrow> 'p \<Rightarrow> 'r \<Rightarrow> 'r \<times> 'p"
    and holds :: "'p \<Rightarrow> bool" and paid :: "'r \<Rightarrow> nat" and cap :: nat
    and okr :: "'r \<Rightarrow> bool" and okp :: "'p \<Rightarrow> bool" and okt :: "int \<Rightarrow> bool"
  assumes kept: "okr r \<Longrightarrow> okp p \<Longrightarrow> okt t \<Longrightarrow> okr (fst (stp t p r)) \<and> okp (snd (stp t p r))"
    and pays: "okr r \<Longrightarrow> okp p \<Longrightarrow> okt t \<Longrightarrow>
          paid r + of_bool (holds (snd (stp t p r))) \<le> paid (fst (stp t p r)) + of_bool (holds p)"
    and admits: "okr r \<Longrightarrow> okp p \<Longrightarrow> okt t \<Longrightarrow> holds (snd (stp t p r)) \<Longrightarrow> \<not> holds p \<Longrightarrow> paid r < cap"
begin

definition in_budget :: "'r \<Rightarrow> 'p list \<Rightarrow> bool" where
  "in_budget r ps = (okr r \<and> list_all okp ps \<and> length (filter holds ps) \<le> paid r \<and> length (filter holds ps) \<le> cap)"

lemma filter_update:
  "i < length ps \<Longrightarrow>
     length (filter holds (ps[i := p])) + of_bool (holds (ps ! i)) = length (filter holds ps) + of_bool (holds p)"
proof (induction ps arbitrary: i)
  case (Cons x ps)
  then show ?case
    by (cases i) auto
qed simp

lemma step_within:
  assumes w: "in_budget r ps" and i: "i < length ps" and t: "okt t" and s: "stp t (ps ! i) r = (r', p')"
  shows "in_budget r' (ps[i := p'])"
proof -
  have r: "okr r" and p: "okp (ps ! i)" and n: "length (filter holds ps) \<le> paid r"
    and m: "length (filter holds ps) \<le> cap"
    using w i by (auto simp: in_budget_def list_all_length)
  note step = kept[OF r p t] pays[OF r p t] admits[OF r p t]
  have "list_all okp (ps[i := p'])"
    using w step(1) s i by (auto simp: in_budget_def list_all_length nth_list_update)
  moreover have "length (filter holds (ps[i := p'])) \<le> paid r'"
    using filter_update[OF i, of p'] step(2) n s by simp
  moreover have "length (filter holds (ps[i := p'])) \<le> cap"
    using filter_update[OF i, of p'] step(3) n m s by (cases "holds p'"; cases "holds (ps ! i)") auto
  ultimately show ?thesis
    using step(1) s by (simp add: in_budget_def)
qed

lemma run_in_budget:
  "in_budget r ps \<Longrightarrow> list_all (okt \<circ> snd) sched \<Longrightarrow>
     in_budget (fst (run_sched stp sched (r, ps))) (snd (run_sched stp sched (r, ps)))"
proof (induction sched arbitrary: r ps)
  case (Cons a sched)
  obtain i t where a: "a = (i, t)"
    by (cases a)
  obtain r' p' where s: "stp t (ps ! i) r = (r', p')"
    by (cases "stp t (ps ! i) r")
  have t: "okt t" and rest: "list_all (okt \<circ> snd) sched"
    using Cons.prems(2) a by (auto simp: comp_def)
  show ?case
  proof (cases "i < length ps")
    case True
    then show ?thesis
      using Cons.IH[OF step_within[OF Cons.prems(1) True t s] rest] a s by simp
  next
    case False
    then show ?thesis
      using Cons.IH[OF Cons.prems(1) rest] a by simp
  qed
qed simp

lemma bounded:
  assumes "okr r" "list_all okp ps" "filter holds ps = []" "list_all (okt \<circ> snd) sched"
  shows "length (filter holds (snd (run_sched stp sched (r, ps)))) \<le> cap"
  using run_in_budget[of r ps sched] assms by (simp add: in_budget_def)

end

section \<open>The two budgets\<close>

text \<open>A schedule in a window, the key counting from before it or fresh, and the requests that pay.\<close>

definition window :: "login_config \<Rightarrow> int \<Rightarrow> int \<Rightarrow> int \<Rightarrow> bool" where
  "window c t0 t1 t = (t0 \<le> t \<and> t \<le> t1 \<and> t1 < t0 + int (lc_windowS c) * 1000)"

definition attempt_of :: "string \<Rightarrow> login_phase \<Rightarrow> bool" where
  "attempt_of ip p = (lr_ip (req_of p) = ip \<and> compares p)"

definition guess_at :: "string \<Rightarrow> string \<Rightarrow> login_phase \<Rightarrow> bool" where
  "guess_at ip e p = (lr_ip (req_of p) = ip \<and> lr_email (req_of p) = e \<and> compares p)"

definition answered :: "(login_req \<Rightarrow> bool) \<Rightarrow> login_phase \<Rightarrow> bool" where
  "answered mine p = (mine (req_of p) \<longrightarrow> lr_bump (req_of p) = GateOk)"

text \<open>No session comes of the request: nothing it verified may sign in.\<close>

definition wrong_guess :: "login_req \<Rightarrow> bool" where
  "wrong_guess q = (case candidates_verified q of None \<Rightarrow> True | Some vs \<Rightarrow> may_sign_in vs = [])"

lemma candidates_now [simp]: "candidates_verified (q\<lparr>lr_now := now\<rparr>) = candidates_verified q"
  by (simp add: candidates_verified_def)

lemma req_fields_step [simp]:
  "lr_ip (req_of (snd (login_step c now p r))) = lr_ip (req_of p)"
  "lr_email (req_of (snd (login_step c now p r))) = lr_email (req_of p)"
  "lr_bump (req_of (snd (login_step c now p r))) = lr_bump (req_of p)"
  "wrong_guess (req_of (snd (login_step c now p r))) = wrong_guess (req_of p)"
  using req_of_step[of c now p r] by (auto simp: wrong_guess_def)

text \<open>A key that a success does not clear, or that no request of the schedule succeeds for.\<close>

definition budget_key :: "gate_key \<Rightarrow> login_req \<Rightarrow> bool" where
  "budget_key k q = (k = AttemptIp (lr_ip q) \<or> k = LockKey (lr_ip q) (lr_email q))"

lemma decide_login_counts:
  assumes k: "k = AttemptIp ip \<or> k = LockKey ip e" and a: "armed_beyond t k r" "lr_now q \<le> t"
    and w: "k = AttemptIp ip \<or> wrong_guess q \<or> \<not> budget_key k q"
  shows "armed_beyond t k (fst (decide_login c q r)) \<and>
         raw k r \<le> raw k (fst (decide_login c q r)) + of_bool (budget_key k q \<and> snd (decide_login c q r) = Shed)"
proof (cases "candidates_verified q")
  case None
  then have s: "decide_login c q r = (refund q r, Shed)"
    by (simp add: decide_login_def)
  show ?thesis
  proof (cases "budget_key k q")
    case True
    then show ?thesis
      using refund_counts[of k q t r] a s by (simp add: budget_key_def)
  next
    case False
    then have "counters (refund q r) k = counters r k"
      using k False by (metis budget_key_def refund_attempts_other refund_lock_other)
    from armed_cong[OF this] raw_cong[OF this] show ?thesis
      using a(1) s by simp
  qed
next
  case (Some vs)
  have "wrong_guess q = (may_sign_in vs = [])"
    by (simp add: wrong_guess_def Some)
  then have "may_sign_in vs \<noteq> [] \<Longrightarrow> counters (repay q r) k = counters r k"
    using k w by (metis budget_key_def repay_attempts repay_lock_other)
  moreover have "counters (fst (fail_gates c q r)) k = counters r k"
    using k by auto
  ultimately have "counters (fst (decide_login c q r)) k = counters r k"
    by (auto simp: decide_login_def Some split: list.split)
  from armed_cong[OF this] raw_cong[OF this] show ?thesis
    using a(1) by simp
qed

text \<open>The three laws of a budget, for either key.\<close>

lemma login_step_counts:
  assumes k: "k = AttemptIp ip \<or> k = LockKey ip e" and a: "armed_beyond t1 k r" and t: "window c t0 t1 now"
    and ok: "budget_key k (req_of p) \<Longrightarrow> lr_bump (req_of p) = GateOk"
    and w: "k = AttemptIp ip \<or> wrong_guess (req_of p) \<or> \<not> budget_key k (req_of p)"
  defines "h \<equiv> \<lambda>p. budget_key k (req_of p) \<and> compares p"
    and "s \<equiv> login_step c now p r"
  shows "armed_beyond t1 k (fst s) \<and> raw k r + of_bool (h (snd s)) \<le> raw k (fst s) + of_bool (h p) \<and>
         (h (snd s) \<longrightarrow> \<not> h p \<longrightarrow> raw k r < (if k = AttemptIp (lr_ip (req_of p)) then maxAttemptsHard c else lc_maxFails c))"
proof (cases p)
  case (Arrived q0)
  let ?q = "q0\<lparr>lr_now := now\<rparr>"
  have "counters (fst (pre_gates c ?q r)) k = counters r k"
    using k by auto
  from armed_cong[OF this] raw_cong[OF this] show ?thesis
    using a by (auto simp: s_def h_def Arrived Let_def split: prod.splits option.splits)
next
  case (Admitted q0)
  let ?q = "q0\<lparr>lr_now := now\<rparr>"
  obtain r1 g where b: "bump_gates c ?q r = (r1, g)"
    by (cases "bump_gates c ?q r")
  have tt: "lr_now ?q \<le> t1" "t1 < lr_now ?q + int (lc_windowS c) * 1000"
    using t by (auto simp: window_def)
  show ?thesis
  proof (cases "budget_key k ?q")
    case True
    then have "lr_bump ?q = GateOk"
      using ok by (simp add: Admitted budget_key_def)
    from bump_counts[OF this a tt] True show ?thesis
      by (cases g) (auto simp: s_def h_def Admitted b budget_key_def Let_def)
  next
    case False
    then have "counters r1 k = counters r k"
      using k bump_attempts_other[of ?q ip c r] bump_lock_other[of ?q ip e c r] b by (auto simp: budget_key_def)
    from armed_cong[OF this] raw_cong[OF this] show ?thesis
      using a False by (cases g) (auto simp: s_def h_def Admitted b budget_key_def Let_def)
  qed
next
  case (Verifying q0)
  let ?q = "q0\<lparr>lr_now := now\<rparr>"
  have "lr_now ?q \<le> t1"
    using t by (simp add: window_def)
  moreover have "k = AttemptIp ip \<or> wrong_guess ?q \<or> \<not> budget_key k ?q"
    using w by (simp add: Verifying wrong_guess_def budget_key_def)
  ultimately show ?thesis
    using decide_login_counts[OF k a, of ?q c]
    by (auto simp: s_def h_def Verifying budget_key_def case_prod_unfold Let_def)
next
  case (Finished v q x)
  then show ?thesis
    using a by (simp add: s_def)
qed


section \<open>The interpretations\<close>

text \<open>A request of the address whose bump answers; for the pair also one that is a wrong guess.\<close>

definition attempt_ok :: "string \<Rightarrow> login_phase \<Rightarrow> bool" where
  "attempt_ok ip p = (lr_ip (req_of p) = ip \<longrightarrow> lr_bump (req_of p) = GateOk)"

definition guess_ok :: "string \<Rightarrow> string \<Rightarrow> login_phase \<Rightarrow> bool" where
  "guess_ok ip e p =
     (lr_ip (req_of p) = ip \<and> lr_email (req_of p) = e \<longrightarrow> lr_bump (req_of p) = GateOk \<and> wrong_guess (req_of p))"

interpretation attempts: budget "login_step c" "attempt_of ip" "raw (AttemptIp ip)" "maxAttemptsHard c"
  "armed_beyond t1 (AttemptIp ip)" "attempt_ok ip" "window c t0 t1" for c ip t0 t1
proof unfold_locales
  fix r :: gate_redis and p t
  assume a: "armed_beyond t1 (AttemptIp ip) r" and p: "attempt_ok ip p" and t: "window c t0 t1 t"
  have ok: "budget_key (AttemptIp ip) (req_of p) \<Longrightarrow> lr_bump (req_of p) = GateOk"
    using p by (auto simp: budget_key_def attempt_ok_def)
  note s = login_step_counts[of "AttemptIp ip" ip _ t1 r c t0 t p, OF disjI1[OF refl] a t ok disjI1[OF refl]]
  show "armed_beyond t1 (AttemptIp ip) (fst (login_step c t p r)) \<and> attempt_ok ip (snd (login_step c t p r))"
    using s p by (simp add: attempt_ok_def)
  show "raw (AttemptIp ip) r + of_bool (attempt_of ip (snd (login_step c t p r)))
          \<le> raw (AttemptIp ip) (fst (login_step c t p r)) + of_bool (attempt_of ip p)"
    using s by (simp add: attempt_of_def budget_key_def eq_commute)
  show "attempt_of ip (snd (login_step c t p r)) \<Longrightarrow> \<not> attempt_of ip p \<Longrightarrow> raw (AttemptIp ip) r < maxAttemptsHard c"
    using s by (auto simp: attempt_of_def budget_key_def)
qed

interpretation guesses: budget "login_step c" "guess_at ip e" "raw (LockKey ip e)" "lc_maxFails c"
  "armed_beyond t1 (LockKey ip e)" "guess_ok ip e" "window c t0 t1" for c ip e t0 t1
proof unfold_locales
  fix r :: gate_redis and p t
  assume a: "armed_beyond t1 (LockKey ip e) r" and p: "guess_ok ip e p" and t: "window c t0 t1 t"
  have ok: "budget_key (LockKey ip e) (req_of p) \<Longrightarrow> lr_bump (req_of p) = GateOk"
    and w: "LockKey ip e = AttemptIp ip \<or> wrong_guess (req_of p) \<or> \<not> budget_key (LockKey ip e) (req_of p)"
    using p by (auto simp: budget_key_def guess_ok_def)
  note s = login_step_counts[of "LockKey ip e" ip e t1 r c t0 t p, OF disjI2[OF refl] a t ok w]
  show "armed_beyond t1 (LockKey ip e) (fst (login_step c t p r)) \<and> guess_ok ip e (snd (login_step c t p r))"
    using s p by (simp add: guess_ok_def)
  show "raw (LockKey ip e) r + of_bool (guess_at ip e (snd (login_step c t p r)))
          \<le> raw (LockKey ip e) (fst (login_step c t p r)) + of_bool (guess_at ip e p)"
    using s by (simp add: guess_at_def budget_key_def eq_commute conj_ac)
  show "guess_at ip e (snd (login_step c t p r)) \<Longrightarrow> \<not> guess_at ip e p \<Longrightarrow> raw (LockKey ip e) r < lc_maxFails c"
    using s by (auto simp: guess_at_def budget_key_def)
qed

lemma nobody_compares [simp]: "filter (attempt_of ip) (map Arrived qs) = []" "filter (guess_at ip e) (map Arrived qs) = []"
  by (induction qs) (auto simp: attempt_of_def guess_at_def)

lemma fresh_armed [simp]: "counters r k = None \<Longrightarrow> armed_beyond t k r"
  by (simp add: armed_beyond_def)

section \<open>What the gates promise\<close>


text \<open>C14. Concurrent wrong guesses at one credential from one address are bounded by the documented rule
  and not by how many requests the server runs at a time: at most \<open>maxFails\<close> of them are compared in a
  window.\<close>

theorem concurrent_guesses_bounded:
  assumes "counters r (LockKey ip e) = None"
    and "list_all (\<lambda>q. lr_ip q = ip \<and> lr_email q = e \<longrightarrow> lr_bump q = GateOk \<and> wrong_guess q) qs"
    and "list_all (window c t0 t1 \<circ> snd) sched"
  shows "length (filter (guess_at ip e) (snd (run_logins c sched r qs))) \<le> lc_maxFails c"
  unfolding run_logins_def
  by (rule guesses.bounded[where ?t1.0 = t1 and ?t0.0 = t0])
    (use assms in \<open>auto simp: list_all_iff guess_ok_def\<close>)


text \<open>A request alone: the three stretches, one after the other.\<close>

lemma login_is_a_run:
  "run_logins c [(0, lr_now q), (0, lr_now q), (0, lr_now q)] r [q] =
     (fst (login c q r), [Finished (snd (pre_gates c q r) = None \<and>
                                    snd (bump_gates c q (fst (pre_gates c q r))) = None) q (snd (login c q r))])"
proof -
  have [simp]: "q\<lparr>lr_now := lr_now q\<rparr> = q"
    by simp
  show ?thesis
    by (auto simp: run_logins_def login_def Let_def case_prod_unfold split: option.split)
qed

section \<open>What a caller can tell\<close>

text \<open>The gates do not read the users.\<close>

lemma tooMany_ignores_users [simp]: "tooMany c (q\<lparr>lr_users := us\<rparr>) r k = tooMany c q r k"
  by (simp add: tooMany_def)

lemma pre_ignores_users [simp]: "pre_gates c (q\<lparr>lr_users := us\<rparr>) r = pre_gates c q r"
  by (simp add: pre_gates_def Let_def cong: option.case_cong list.case_cong if_cong prod.case_cong)

lemma bump_ignores_users [simp]: "bump_gates c (q\<lparr>lr_users := us\<rparr>) r = bump_gates c q r"
  by (simp add: bump_gates_def Let_def cong: option.case_cong list.case_cong if_cong prod.case_cong)

lemma fail_ignores_users [simp]: "fail_gates c (q\<lparr>lr_users := us\<rparr>) r = fail_gates c q r"
  by (simp add: fail_gates_def Let_def cong: option.case_cong list.case_cong if_cong prod.case_cong)

lemma may_sign_in_iff:
  "may_sign_in vs = filter (\<lambda>u. lu_disabledAt u = None \<and> lu_emailVerifiedAt u \<noteq> None) vs"
proof -
  define lv where "lv = filter (\<lambda>u. lu_disabledAt u = None) vs"
  define un where "un = filter (\<lambda>u. lu_emailVerifiedAt u = None) lv"
  define proven where "proven = filter (\<lambda>u. lu_emailVerifiedAt u \<noteq> None) lv"
  have "length un + length proven = length lv"
    unfolding un_def proven_def by (rule sum_length_filter_compl)
  then have all: "length un = length lv \<Longrightarrow> proven = []"
    by simp
  have none: "un = [] \<Longrightarrow> proven = lv"
    unfolding un_def proven_def by (auto simp: filter_empty_conv intro: filter_True)
  have "may_sign_in vs = (if un \<noteq> [] \<and> length un = length lv then [] else if un \<noteq> [] then proven else lv)"
    by (simp add: may_sign_in_def lv_def un_def proven_def Let_def)
  also have "\<dots> = proven"
    using all none by simp
  also have "\<dots> = filter (\<lambda>u. lu_disabledAt u = None \<and> lu_emailVerifiedAt u \<noteq> None) vs"
    by (simp add: proven_def lv_def conj_commute)
  finally show ?thesis .
qed

lemma verify_all_filter:
  "verify_all vf us = (if \<exists>u\<in>set us. vf (lu_passwordHash u) = None then None
                       else Some (filter (\<lambda>u. vf (lu_passwordHash u) = Some True) us))"
  by (induction us) (auto split: option.split)

text \<open>C16. Nobody can tell a taken address from a free one by logging in: when every user the password fits is
  disabled or has not verified the address, the reply, the lockout counters and so every later reply
  are those of an address with no user at all.\<close>

theorem login_is_no_oracle:
  assumes "list_all (\<lambda>u. lr_verify q (lu_passwordHash u) \<noteq> None \<and>
                    (lr_verify q (lu_passwordHash u) = Some True \<longrightarrow> lu_disabledAt u \<noteq> None \<or> lu_emailVerifiedAt u = None))
             (lr_users q)"
    and "lr_verify q DUMMY_HASH \<noteq> None"
  shows "login c q r = login c (q\<lparr>lr_users := []\<rparr>) r"
proof -
  obtain b where b: "lr_verify q DUMMY_HASH = Some b"
    using assms(2) by auto
  have "decide_login c q r' = fail_gates c q r'" for r'
  proof (cases "lr_users q = []")
    case False
    have "filter (\<lambda>u. lr_verify q (lu_passwordHash u) = Some True \<and> lu_disabledAt u = None \<and> lu_emailVerifiedAt u \<noteq> None) (lr_users q) = []"
      using assms(1) by (auto simp: list_all_iff filter_empty_conv)
    moreover have "candidates_verified q = Some (filter (\<lambda>u. lr_verify q (lu_passwordHash u) = Some True) (lr_users q))"
      using assms(1) False by (auto simp: candidates_verified_def verify_all_filter list_all_iff)
    ultimately show ?thesis
      by (simp add: decide_login_def may_sign_in_iff conj_ac)
  qed (simp add: decide_login_def candidates_verified_def b may_sign_in_def)
  moreover have "decide_login c (q\<lparr>lr_users := []\<rparr>) r' = fail_gates c q r'" for r'
    by (simp add: decide_login_def candidates_verified_def b may_sign_in_def)
  ultimately show ?thesis
    by (simp add: login_def cong: option.case_cong prod.case_cong)
qed

text \<open>The limits fail open: when no gate can be read, a correct password signs in.\<close>

lemma degraded_login:
  assumes "lr_pre q = GateFails i" "lr_bump q = GateFails j"
    and "candidates_verified q = Some vs" "may_sign_in vs = [u]"
  shows "snd (login c q r) = Session u"
proof -
  have pre: "snd (pre_gates c q r) = None" for r
    using gateRead_fails by (simp add: pre_gates_def assms(1) Let_def case_prod_unfold)
  have bump: "snd (bump_gates c q r) = None" for r
    by (simp add: bump_gates_def assms(2) Let_def case_prod_unfold)
  show ?thesis
    using pre bump by (simp add: login_def decide_login_def assms(3,4) case_prod_unfold)
qed

section \<open>A lockout ends\<close>

text \<open>Every key but the mark of a good source expires by a time.\<close>

definition gone_by :: "int \<Rightarrow> ('a \<times> int option) option \<Rightarrow> bool" where
  "gone_by T e = (case e of None \<Rightarrow> True | Some (_, None) \<Rightarrow> False | Some (_, Some x) \<Rightarrow> x \<le> T)"

fun good_mark :: "gate_key \<Rightarrow> bool" where
  "good_mark (OkIp ip) = True"
| "good_mark _ = False"

definition all_gone_by :: "int \<Rightarrow> gate_redis \<Rightarrow> bool" where
  "all_gone_by T r = (\<forall>k. (good_mark k \<or> gone_by T (counters r k)) \<and> gone_by T (sources r k))"

lemma gone_by_simps [simp]:
  "gone_by T None" "\<not> gone_by T (Some (v, None))" "gone_by T (Some (v, Some x)) \<longleftrightarrow> x \<le> T"
  by (simp_all add: gone_by_def)

lemma gone_unexpired: "gone_by T e \<Longrightarrow> T \<le> now \<Longrightarrow> unexpired now e = None"
  by (auto simp: gone_by_def unexpired_def split: option.splits)

lemma unexpired_Some: "unexpired now e = Some w \<Longrightarrow> e = Some w"
  by (auto simp: unexpired_def split: option.splits if_splits)

lemma all_gone_byD:
  "all_gone_by T r \<Longrightarrow> T \<le> now \<Longrightarrow> \<not> good_mark k \<Longrightarrow> unexpired now (counters r k) = None"
  "all_gone_by T r \<Longrightarrow> T \<le> now \<Longrightarrow> unexpired now (sources r k) = None"
  using gone_unexpired by (auto simp: all_gone_by_def)

lemma put_gone: "all_gone_by T r \<Longrightarrow> good_mark k \<or> gone_by T e \<Longrightarrow> all_gone_by T (put_counter k e r)"
  by (simp add: all_gone_by_def put_counter_def)

lemma live_gone:
  "all_gone_by T r \<Longrightarrow> unexpired now (counters r k) = Some (v, x) \<Longrightarrow> good_mark k \<or> gone_by T (Some (v, x))"
  "all_gone_by T r \<Longrightarrow> unexpired now (sources r k) = Some (xs, x) \<Longrightarrow> gone_by T (Some (xs, x))"
  by (auto simp: all_gone_by_def dest!: unexpired_Some split: option.splits) (metis gone_by_simps)+

lemma lockout_gone:
  assumes g: "all_gone_by T r" and t: "now + int w * 1000 \<le> T"
  shows "all_gone_by T (fst (LOCKOUT_SCRIPT k w now r))"
proof (cases "unexpired now (counters r k)")
  case None
  then show ?thesis
    using put_gone[OF g] t by (simp add: LOCKOUT_SCRIPT_def)
next
  case (Some e)
  obtain v x where e: "e = (v, x)"
    by (cases e)
  have "good_mark k \<or> gone_by T (Some (v, x))"
    using live_gone(1)[OF g] Some e by blast
  then show ?thesis
    using put_gone[OF g, of k] Some e t by (cases x) (auto simp: LOCKOUT_SCRIPT_def)
qed

lemma decay_gone:
  assumes g: "all_gone_by T r"
  shows "all_gone_by T (DECAY_SCRIPT k now r)"
proof (cases "unexpired now (counters r k)")
  case None
  then show ?thesis
    using g by (simp add: DECAY_SCRIPT_def)
next
  case (Some e)
  obtain v x where e: "e = (v, x)"
    by (cases e)
  have "good_mark k \<or> gone_by T (Some (v, x))"
    using live_gone(1)[OF g] Some e by blast
  then show ?thesis
    using put_gone[OF g, of k] Some e g by (cases x) (auto simp: DECAY_SCRIPT_def)
qed

lemma admit_gone:
  "all_gone_by T r \<Longrightarrow> now + int w * 1000 \<le> T \<Longrightarrow> all_gone_by T (fst (ADMIT_SCRIPT k n w now r))"
  using lockout_gone[of T r now w k] by (simp add: ADMIT_SCRIPT_def case_prod_unfold Let_def)

lemma fail_source_gone:
  assumes g: "all_gone_by T r" and t: "now + int w * 1000 \<le> T"
  shows "all_gone_by T (FAIL_SOURCE_SCRIPT k ip w now r)"
proof -
  have put: "gone_by T e \<Longrightarrow> all_gone_by T (r\<lparr>sources := (sources r)(k := e)\<rparr>)" for e
    using g by (simp add: all_gone_by_def)
  show ?thesis
  proof (cases "unexpired now (sources r k)")
    case None
    then show ?thesis
      using put t by (simp add: FAIL_SOURCE_SCRIPT_def)
  next
    case (Some e)
    obtain xs x where e: "e = (xs, x)"
      by (cases e)
    have "gone_by T (Some (xs, x))"
      using live_gone(2)[OF g] Some e by blast
    then show ?thesis
      using put Some e t by (cases x) (auto simp: FAIL_SOURCE_SCRIPT_def)
  qed
qed

lemma del_gone: "all_gone_by T r \<Longrightarrow> all_gone_by T (del_counter k r)"
  by (simp add: del_counter_def put_gone)

lemma ok_gone: "all_gone_by T r \<Longrightarrow> all_gone_by T (put_counter (OkIp ip) e r)"
  by (simp add: put_gone)

lemmas gone = lockout_gone decay_gone admit_gone fail_source_gone del_gone ok_gone

lemma decide_login_gone:
  assumes g: "all_gone_by T r" and t: "lr_now q + int (lc_windowS c) * 1000 \<le> T"
  shows "all_gone_by T (fst (decide_login c q r))"
proof -
  have "all_gone_by T (refund q r)" "all_gone_by T (repay q r)"
    using g by (auto simp: refund_def repay_def apply_if_def gone split: prod.split)
  moreover have "all_gone_by T (fst (fail_gates c q r))"
    by (rule fail_gates_inv) (use g t gone in auto)
  ultimately show ?thesis
    using g by (auto simp: decide_login_def split: option.split list.split)
qed

lemma login_step_gone:
  assumes g: "all_gone_by T r" and t: "now + int (lc_windowS c) * 1000 \<le> T"
  shows "all_gone_by T (fst (login_step c now p r))"
proof (cases p)
  case (Arrived q)
  have "all_gone_by T (fst (pre_gates c (q\<lparr>lr_now := now\<rparr>) r))"
    by (rule pre_gates_inv) (use g t gone in auto)
  then show ?thesis
    by (auto simp: Arrived Let_def split: prod.split option.split)
next
  case (Admitted q)
  have "all_gone_by T (fst (bump_gates c (q\<lparr>lr_now := now\<rparr>) r))"
    by (rule bump_gates_inv) (use g t gone in auto)
  then show ?thesis
    by (auto simp: Admitted Let_def split: prod.split option.split)
next
  case (Verifying q)
  then show ?thesis
    using decide_login_gone[OF g, of "q\<lparr>lr_now := now\<rparr>" c] t by (simp add: Let_def case_prod_unfold)
qed (use g in simp)

lemma run_gone:
  "all_gone_by T r \<Longrightarrow> list_all (\<lambda>(i, t). t + int (lc_windowS c) * 1000 \<le> T) sched \<Longrightarrow>
     all_gone_by T (fst (run_sched (login_step c) sched (r, ps)))"
proof (induction sched arbitrary: r ps)
  case (Cons a sched)
  obtain i t where a: "a = (i, t)"
    by (cases a)
  then show ?case
    using Cons login_step_gone[of T r t c "ps ! i"] by (auto simp: case_prod_unfold Let_def)
qed simp

lemma quiet_login:
  assumes g: "all_gone_by T r" and t: "T \<le> lr_now q"
    and ok: "lr_pre q = GateOk" "lr_bump q = GateOk"
    and pos: "0 < lc_maxFails c" "0 < maxPerIp c" "0 < maxAttemptsHard c" "0 < maxFailIps c"
    and u: "candidates_verified q = Some vs" "may_sign_in vs = [u]"
  shows "snd (login c q r) = Session u"
proof -
  have none: "\<not> good_mark k \<Longrightarrow> get_counter (lr_now q) k r = 0" "pfcount (lr_now q) k r = 0" for k
    using all_gone_byD[OF g t] by (auto simp: get_counter_def pfcount_def)
  have pre: "pre_gates c q r = (r, None)"
    using none pos by (simp add: pre_gates_def ok(1) Let_def)
  let ?L = "LOCKOUT_SCRIPT (LockKey (lr_ip q) (lr_email q)) (lc_windowS c) (lr_now q) r"
  have l: "snd ?L = 1"
    using all_gone_byD(1)[OF g t] by (simp add: LOCKOUT_SCRIPT_def)
  have "counters (fst ?L) (AttemptIp (lr_ip q)) = counters r (AttemptIp (lr_ip q))"
    by simp
  then have a: "snd (LOCKOUT_SCRIPT (AttemptIp (lr_ip q)) (lc_windowS c) (lr_now q) (fst ?L)) = 1"
    using all_gone_byD(1)[OF g t] by (simp add: LOCKOUT_SCRIPT_def[of "AttemptIp (lr_ip q)"])
  have "snd (bump_gates c q r) = None"
    using pos l a by (simp add: bump_gates_def ok(2) Let_def)
  then show ?thesis
    by (simp add: login_def pre decide_login_def u case_prod_unfold)
qed

text \<open>C24. No lockout can be held open for free: whatever requests arrive, answered or not, one quiet window
  later every limit has expired and a correct password signs in.\<close>

theorem lockout_ends:
  assumes start: "counters r = (\<lambda>_. None)" "sources r = (\<lambda>_. None)"
    and quiet: "list_all (\<lambda>(i, t). t + int (lc_windowS c) * 1000 \<le> lr_now q) sched"
    and ok: "lr_pre q = GateOk" "lr_bump q = GateOk"
    and pos: "0 < lc_maxFails c" "0 < maxPerIp c" "0 < maxAttemptsHard c" "0 < maxFailIps c"
    and u: "candidates_verified q = Some vs" "may_sign_in vs = [u]"
  shows "snd (login c q (fst (run_logins c sched r qs))) = Session u"
proof -
  have "all_gone_by (lr_now q) r"
    by (simp add: all_gone_by_def start gone_by_def)
  then have "all_gone_by (lr_now q) (fst (run_logins c sched r qs))"
    unfolding run_logins_def by (rule run_gone) (rule quiet)
  then show ?thesis
    by (rule quiet_login) (use ok pos u in auto)
qed

section \<open>Witnesses\<close>

definition empty_gates :: gate_redis where
  "empty_gates = \<lparr>counters = (\<lambda>_. None), sources = (\<lambda>_. None)\<rparr>"

definition small_limits :: login_config where
  "small_limits = \<lparr>lc_maxFails = 2, lc_windowS = 900, lc_maxFailsPerIp = None, lc_maxAttemptsPerIpHard = Some 2,
     lc_maxFailIpsPerEmail = None\<rparr>"

definition ann :: login_user where
  "ann = \<lparr>lu_id = ''ann'', lu_passwordHash = ''h'', lu_emailVerifiedAt = Some 1, lu_disabledAt = None\<rparr>"

definition try_login :: "bool \<Rightarrow> login_req" where
  "try_login right = \<lparr>lr_now = 2000000, lr_ip = ''a'', lr_email = ''e'', lr_users = [ann], lr_verify = (\<lambda>_. Some right),
     lr_pre = GateOk, lr_admit = GateOk, lr_bump = GateOk, lr_fail = GateOk, lr_ttl = True,
     lr_refund = (True, True), lr_repay = (True, True, True)\<rparr>"

text \<open>Three requests of one address in flight at once, and two served before the third.\<close>

abbreviation burst :: "(nat \<times> int) list" where
  "burst \<equiv> [(0, 1), (1, 1), (2, 1), (0, 2), (1, 2), (2, 2), (2, 3), (0, 3), (1, 4)]"


lemma concurrent_guesses_bounded_witness:
  "length (filter (guess_at ''a'' ''e'') (snd (run_logins small_limits burst empty_gates [try_login False, try_login False, try_login False]))) \<le> 2"
  using concurrent_guesses_bounded[of empty_gates "''a''" "''e''" "[try_login False, try_login False, try_login False]" small_limits 1 4 burst]
  by (simp add: empty_gates_def try_login_def small_limits_def window_def wrong_guess_def candidates_verified_def ann_def may_sign_in_def)

lemma login_is_no_oracle_witness:
  "login small_limits ((try_login True)\<lparr>lr_users := [ann\<lparr>lu_disabledAt := Some 7\<rparr>]\<rparr>) empty_gates =
   login small_limits ((try_login True)\<lparr>lr_users := []\<rparr>) empty_gates"
  using login_is_no_oracle[of "(try_login True)\<lparr>lr_users := [ann\<lparr>lu_disabledAt := Some 7\<rparr>]\<rparr>" small_limits empty_gates]
  by (simp add: try_login_def)

lemma lockout_ends_witness:
  "snd (login small_limits (try_login True)
     (fst (run_logins small_limits burst empty_gates [try_login False, try_login False, try_login False]))) = Session ann"
  using lockout_ends[of empty_gates small_limits "try_login True" burst "[ann]" ann "[try_login False, try_login False, try_login False]"]
  by (simp add: empty_gates_def try_login_def small_limits_def maxAttemptsHard_def maxPerIp_def maxFailIps_def
      candidates_verified_def ann_def may_sign_in_def)

text \<open>The bound is reached: the third request of the burst is refused, and told to wait the window.\<close>

lemma burst_third_refused:
  "map (\<lambda>p. case p of Finished v q a \<Rightarrow> Some (v, a) | _ \<Rightarrow> None)
     (snd (run_logins small_limits burst empty_gates [try_login False, try_login False, try_login False])) =
   [Some (True, Invalid), Some (True, Invalid), Some (False, Refused (LockKey ''a'' ''e'') 900)]"
  by code_simp

text \<open>A shed request gives back what it never paid: its bump failed before it counted, and the refund takes
  an attempt of somebody else.\<close>

lemma unpaid_refund:
  "raw (AttemptIp ''a'') (fst (login small_limits
     ((try_login True)\<lparr>lr_bump := GateFails 0, lr_verify := (\<lambda>_. None)\<rparr>)
     (put_counter (AttemptIp ''a'') (Some (1, Some 9000000)) empty_gates))) = 0"
  by (simp add: try_login_def small_limits_def ann_def empty_gates_def login_def pre_gates_def bump_gates_def decide_login_def candidates_verified_def refund_def apply_if_def may_sign_in_def
      get_counter_def pfcount_def unexpired_def LOCKOUT_SCRIPT_def DECAY_SCRIPT_def put_counter_def raw_def maxAttemptsHard_def maxPerIp_def maxFailIps_def
      tooMany_def redis_ttl_def ttl_s_def gateRead_def Let_def)

text \<open>A right password that fits in two tenants is no success to the lock key, so its holder is locked out
  like a guesser.\<close>

lemma ambiguous_locks_out:
  "(let q = (try_login True)\<lparr>lr_users := [ann, ann]\<rparr>; c = small_limits\<lparr>lc_maxAttemptsPerIpHard := Some 100\<rparr>;
        (r1, a1) = login c q empty_gates; (r2, a2) = login c q r1; (r3, a3) = login c q r2
    in (a1, a2, a3)) = (Ambiguous, Ambiguous, Refused (LockKey ''a'' ''e'') 900)"
  by (simp add: try_login_def small_limits_def ann_def empty_gates_def login_def pre_gates_def bump_gates_def decide_login_def candidates_verified_def refund_def apply_if_def may_sign_in_def
      get_counter_def pfcount_def unexpired_def LOCKOUT_SCRIPT_def DECAY_SCRIPT_def put_counter_def raw_def maxAttemptsHard_def maxPerIp_def maxFailIps_def
      tooMany_def redis_ttl_def ttl_s_def gateRead_def Let_def)

end
