(* ===== verification/Spec2Isabelle.thy ===== *)
theory Spec2Isabelle
  imports Framer Crc16 Walk RoundTrip Channels Dictionary TripEngine GeofenceEngine RuleEngine Offline SessionFlow Udp Server Normalize CommandFlow Shards LiveState Consumer TripStorage RuleGate FenceTrack TripRepair TenantRepo Directory TokenRaces LoginGates
begin

text \<open>
  A verification library for the telemetry pipeline of Orbetra, a GPS tracking platform. Devices speak the
  Teltonika protocol to the ingest service (apps/ingest) over TCP or UDP; ingest decodes frames with
  packages/codec, checks the records and appends them to one Redis stream per shard (device IMEI modulo 16),
  then acknowledges. Workers (apps/worker) lease shards, read the streams, normalise every record, store it
  in Postgres, and hand the stored batch on: to the live map marker, the trip engine, the geofence engine and
  the rule engine. Commands travel the other way: the API puts them on a list per device, ingest delivers
  them, and the dispatcher of the worker matches the responses.

  Reading order and the source each theory models (all paths under src/):

  \<^item> Prelude, Bytes, Multisets, JsText: results of fallible code, byte buffers read and written
    out of range as Node's Buffer does, multiset facts, and the JavaScript text functions the code uses.
  \<^item> packages/codec: Framer (frame.ts), Crc16 (crc16.ts), Walk (walk.ts), Encode (encode.ts), Parse
    (parse.ts, types.ts, errors.ts), RoundTrip (encode then parse), Channels (codec12.ts, udp.ts, index.ts),
    Dictionary (dictionaries.ts).
  \<^item> apps/ingest: Admission (limits.ts), Persist (persist.ts, registry.ts, metrics.ts), Backlog and Session
    (session.ts), SessionProtocol (the safety of a session), SessionFlow (its progress), Udp (udp.ts), Server
    (server.ts).
  \<^item> apps/worker, intake: Shards (shards.ts), Normalize (normalize.ts), AvlTables (avlTableCache.ts), Writer
    (writer.ts and the row isolation of consumer.ts), Consumer (consumer.ts), LiveState (liveState.ts).
  \<^item> apps/worker, engines: Records (geo.ts and packages/shared/src/records.ts), TripEngine (trip/engine.ts,
    trip/config.ts), Point and GeofenceEngine (geofence/), RuleEngine (rules/engine.ts, io.ts, types.ts),
    Offline (rules/offline.ts).
  \<^item> apps/worker, commands: Commands (commands/reconcile.ts, dispatcher.ts), CommandFlow (its interleaving
    with the API and ingest).

  How state corresponds. A class is a record of its fields (framer, session, trip_engine, consumer) and a
  method is a function from the record to the new record and its result; fallible code returns a sum whose
  left side is the error thrown. An awaited call to Redis or Postgres is a call whose outcome is an argument
  (the replies of a session, the calls of a lease pass, the pg_state of the writer), so that every theorem
  holds for all outcomes, lost replies and partial pipelines included. Where operations of several processes
  interleave (leases, commands, sessions of a server) the model is an inductive step relation and the
  property an invariant of every reachable state.

  Code outside src/ is a parameter: the complete-teltonika-parser library (what it returns for a frame), the
  xxhash function, JSON and CBOR readers, the file system of the dictionaries. A theorem that needs something
  of them says so as a hypothesis and has a witness with a concrete function.

  Bounds. The loops are structural recursions or terminate by a measure (bytes left, rows left); the drain of
  one session delivers at most 16 commands per pass, as the code does. No fuel is used. Integers that can
  overflow are words (CRC register, bytes) or carry their range checks (normalised columns).

  Not modelled: the web and site front ends, the HTTP routes, authentication, billing, e-mail, SMS and
  webhook delivery, GDPR jobs, the metrics endpoints and the wiring of the processes.
\<close>

end
